(* ===== verification/Enso_Prelude.thy ===== *)
theory Enso_Prelude
  imports Main "HOL-Library.Word"
begin

unbundle bit_operations_syntax

text \<open>
  Shared vocabulary of the development: the machine integer types of the C and C++ sources,
  arrays, ring-buffer slices, power-of-two ring arithmetic on machine words (both the
  \<open>%\<close> form of \<^verbatim>\<open>pcie.cpp\<close> and the \<open>&\<close>-with-mask form of \<^verbatim>\<open>pipe.h\<close> and
  \<^verbatim>\<open>queue.h\<close>), and bit vectors stored as byte arrays (the driver's allocation maps and the
  library's wrap tracker). Everything here is about data representation; no component of the
  program is modelled in this theory.
\<close>

named_theorems enso_simps \<open>definitions of the source's compile-time constants\<close>
named_theorems ring_simps \<open>ring index arithmetic\<close>

type_synonym u8 = "8 word"
type_synonym u16 = "16 word"
type_synonym u32 = "32 word"
type_synonym u64 = "64 word"

text \<open>
  A C array is a function from indices. Wherever the code indexes an array with a value that the
  NIC or a user process supplies, the model checks the bound explicitly.
\<close>

type_synonym 'a arr = "nat \<Rightarrow> 'a"

section \<open>Slices of a ring\<close>

definition ring_slice :: "nat \<Rightarrow> 'a arr \<Rightarrow> nat \<Rightarrow> nat \<Rightarrow> 'a list" where
  "ring_slice N b h n = map (\<lambda>i. b ((h + i) mod N)) [0..<n]"

lemma ring_slice_0 [simp]: "ring_slice N b h 0 = []"
  by (simp add: ring_slice_def)

lemma length_ring_slice [simp]: "length (ring_slice N b h n) = n"
  by (simp add: ring_slice_def)

lemma nth_ring_slice [simp]: "i < n \<Longrightarrow> ring_slice N b h n ! i = b ((h + i) mod N)"
  by (simp add: ring_slice_def)

lemma ring_slice_snoc: "ring_slice N b h (Suc n) = ring_slice N b h n @ [b ((h + n) mod N)]"
  by (simp add: ring_slice_def)

lemma ring_slice_Cons: "ring_slice N b h (Suc n) = b (h mod N) # ring_slice N b (Suc h) n"
  by (rule nth_equalityI) (auto simp: nth_Cons split: nat.splits)

lemma ring_slice_mod [simp]: "ring_slice N b (h mod N) n = ring_slice N b h n"
  by (simp add: ring_slice_def mod_add_left_eq)

lemma ring_slice_append: "ring_slice N b h (m + n) = ring_slice N b h m @ ring_slice N b (h + m) n"
  by (induction n) (simp_all add: ring_slice_snoc add.assoc)

lemma ring_slice_cong:
  "(\<And>i. i < n \<Longrightarrow> b ((h + i) mod N) = c ((h + i) mod N)) \<Longrightarrow> ring_slice N b h n = ring_slice N c h n"
  by (simp add: ring_slice_def)

text \<open>The offset of a slot in a window: slots of a window no longer than the ring are distinct.\<close>

lemma ring_slot_inj:
  fixes N :: nat
  assumes "i < N" "j < N" "(h + i) mod N = (h + j) mod N"
  shows "i = j"
proof -
  have "int N dvd int i - int j"
    using assms(3) by (metis add_diff_cancel_left mod_eq_dvd_iff of_nat_add of_nat_mod)
  moreover have "\<bar>int i - int j\<bar> < int N" using assms by linarith
  ultimately have "int i - int j = 0"
    by (metis dvd_abs_iff zdvd_not_zless abs_ge_zero abs_eq_0 order_le_less)
  then show ?thesis by simp
qed

lemma ring_slice_upd_end:
  "n < N \<Longrightarrow> ring_slice N (b((h + n) mod N := v)) h n = ring_slice N b h n"
  using ring_slot_inj [of _ N n h] by (intro ring_slice_cong) (auto dest: less_trans)

lemma ring_slice_upd_begin:
  "n < N \<Longrightarrow> ring_slice N (b(h mod N := v)) (Suc h) n = ring_slice N b (Suc h) n"
  using ring_slot_inj [of "Suc _" N 0 h] by (intro ring_slice_cong) (fastforce dest: Suc_leI le_less_trans)

lemma ring_slice_upd_in:
  assumes "k < n" "n \<le> N"
  shows "ring_slice N (b((h + k) mod N := v)) h n = (ring_slice N b h n)[k := v]"
proof (rule nth_equalityI)
  fix i assume "i < length (ring_slice N (b((h + k) mod N := v)) h n)"
  then have "i < n" by simp
  with assms show "ring_slice N (b((h + k) mod N := v)) h n ! i = (ring_slice N b h n)[k := v] ! i"
    using ring_slot_inj [of i N k h] by (auto simp: nth_list_update)
qed simp

section \<open>Distance between two ring indices\<close>

definition ring_dist :: "nat \<Rightarrow> nat \<Rightarrow> nat \<Rightarrow> nat" where
  "ring_dist N h t = (t + N - h) mod N"

lemma ring_dist_less [simp]: "0 < N \<Longrightarrow> ring_dist N h t < N"
  by (simp add: ring_dist_def)

lemma ring_dist_self [simp]: "ring_dist N h h = 0"
  by (simp add: ring_dist_def)

lemma ring_dist_alt: "h < N \<Longrightarrow> t < N \<Longrightarrow> ring_dist N h t = (if h \<le> t then t - h else t + N - h)"
  by (auto simp: ring_dist_def mod_if)

lemma ring_dist_eq_0 [simp]: "h < N \<Longrightarrow> t < N \<Longrightarrow> ring_dist N h t = 0 \<longleftrightarrow> h = t"
  by (auto simp: ring_dist_alt)

lemma ring_dist_reach [simp]: "h < N \<Longrightarrow> t < N \<Longrightarrow> (h + ring_dist N h t) mod N = t"
  by (auto simp: ring_dist_alt)

lemma ring_dist_add: "h < N \<Longrightarrow> n < N \<Longrightarrow> ring_dist N h ((h + n) mod N) = n"
  by (metis ring_dist_reach ring_slot_inj ring_dist_less mod_less_divisor bot_nat_0.not_eq_extremum
      less_zeroE)

lemma ring_dist_inc_head:
  "h < N \<Longrightarrow> t < N \<Longrightarrow> h \<noteq> t \<Longrightarrow> Suc (ring_dist N (Suc h mod N) t) = ring_dist N h t"
  by (cases "Suc h = N") (auto simp: ring_dist_alt)

lemma ring_dist_inc_tail:
  "h < N \<Longrightarrow> t < N \<Longrightarrow> Suc (ring_dist N h t) < N \<Longrightarrow>
   ring_dist N h (Suc t mod N) = Suc (ring_dist N h t)"
  by (cases "Suc t = N") (auto simp: ring_dist_alt split: if_splits)

text \<open>Writing, or transforming in place, consecutive slots of a ring.\<close>

definition ring_put :: "nat \<Rightarrow> 'a arr \<Rightarrow> nat \<Rightarrow> 'a list \<Rightarrow> 'a arr" where
  "ring_put N b h xs =
     (\<lambda>s. if s < N \<and> ring_dist N h s < length xs then xs ! ring_dist N h s else b s)"

definition ring_map :: "nat \<Rightarrow> ('a \<Rightarrow> 'a) \<Rightarrow> 'a arr \<Rightarrow> nat \<Rightarrow> nat \<Rightarrow> 'a arr" where
  "ring_map N f b h n = (\<lambda>s. if s < N \<and> ring_dist N h s < n then f (b s) else b s)"

lemma ring_put_Nil [simp]: "ring_put N b h [] = b"
  by (simp add: ring_put_def)

lemma ring_map_0 [simp]: "ring_map N f b h 0 = b"
  by (simp add: ring_map_def)

lemma ring_dist_inc_self: "h < N \<Longrightarrow> ring_dist N (Suc h mod N) h = N - 1"
  by (cases "Suc h = N") (auto simp: ring_dist_alt)

lemma ring_put_Cons:
  assumes "h < N" "length xs < N"
  shows "ring_put N b h (x # xs) = ring_put N (b(h := x)) (Suc h mod N) xs"
proof
  fix s
  show "ring_put N b h (x # xs) s = ring_put N (b(h := x)) (Suc h mod N) xs s"
  proof (cases "s < N \<and> s \<noteq> h")
    case True
    then have "ring_dist N h s = Suc (ring_dist N (Suc h mod N) s)"
      using ring_dist_inc_head [of h N s] assms by simp
    with True show ?thesis by (simp add: ring_put_def)
  next
    case False
    then have "s = h \<or> \<not> s < N" by blast
    then show ?thesis
      using assms by (auto simp: ring_put_def ring_dist_inc_self)
  qed
qed

lemma ring_map_Suc:
  assumes "h < N" "n < N"
  shows "ring_map N f b h (Suc n) = ring_map N f (b(h := f (b h))) (Suc h mod N) n"
proof
  fix s
  show "ring_map N f b h (Suc n) s = ring_map N f (b(h := f (b h))) (Suc h mod N) n s"
  proof (cases "s < N \<and> s \<noteq> h")
    case True
    then have "ring_dist N h s = Suc (ring_dist N (Suc h mod N) s)"
      using ring_dist_inc_head [of h N s] assms by simp
    with True show ?thesis by (simp add: ring_map_def)
  next
    case False
    then have "s = h \<or> \<not> s < N" by blast
    moreover have "\<not> N - 1 < n" using assms by simp
    ultimately show ?thesis
      using assms by (elim disjE) (simp_all add: ring_map_def ring_dist_inc_self)
  qed
qed

lemma ring_put_snoc:
  assumes "h < N" "length xs < N"
  shows "ring_put N b h (xs @ [x]) = (ring_put N b h xs)((h + length xs) mod N := x)"
proof
  fix s
  show "ring_put N b h (xs @ [x]) s = ((ring_put N b h xs)((h + length xs) mod N := x)) s"
  proof (cases "s = (h + length xs) mod N")
    case True
    then show ?thesis using assms by (simp add: ring_put_def ring_dist_add)
  next
    case False
    then have "s < N \<Longrightarrow> ring_dist N h s \<noteq> length xs"
      using assms ring_dist_reach [of h N s] by metis
    then have "s < N \<Longrightarrow> ring_dist N h s < Suc (length xs) \<longleftrightarrow> ring_dist N h s < length xs"
      by (simp add: less_Suc_eq)
    with False show ?thesis by (auto simp: ring_put_def nth_append)
  qed
qed

lemma ring_slice_ring_put:
  assumes "h < N" "d + length xs \<le> N"
  shows "ring_slice N (ring_put N b ((h + d) mod N) xs) h (d + length xs) = ring_slice N b h d @ xs"
  using assms
proof (induction xs arbitrary: b d)
  case (Cons x xs)
  let ?b = "b((h + d) mod N := x)"
  have pos: "0 < N" using Cons.prems by simp
  have "ring_slice N (ring_put N b ((h + d) mod N) (x # xs)) h (d + length (x # xs))
      = ring_slice N (ring_put N ?b ((h + Suc d) mod N) xs) h (Suc d + length xs)"
    using Cons.prems pos by (simp add: ring_put_Cons mod_Suc_eq)
  also have "\<dots> = ring_slice N ?b h (Suc d) @ xs"
    using Cons.prems by (intro Cons.IH) auto
  also have "ring_slice N ?b h (Suc d) = ring_slice N b h d @ [x]"
    using Cons.prems by (simp add: ring_slice_snoc ring_slice_upd_end)
  finally show ?case by simp
qed simp

lemma ring_slice_ring_map:
  assumes "h < N" "n \<le> N"
  shows "ring_slice N (ring_map N f b h n) h n = map f (ring_slice N b h n)"
  using assms by (intro nth_equalityI) (auto simp: ring_map_def ring_dist_add)

lemma ring_dist_advance:
  assumes "h < N" "t < N" "m \<le> ring_dist N h t"
  shows "ring_dist N ((h + m) mod N) t = ring_dist N h t - m"
  using assms(3)
proof (induction m)
  case (Suc m)
  then have IH: "ring_dist N ((h + m) mod N) t = ring_dist N h t - m" by simp
  with Suc.prems have "(h + m) mod N \<noteq> t"
    by (metis Suc_diff_Suc diff_Suc_eq_diff_pred less_eq_Suc_le nat.distinct(1) ring_dist_self)
  moreover have "(h + m) mod N < N" using assms(1) by simp
  ultimately have "Suc (ring_dist N (Suc ((h + m) mod N) mod N) t) = ring_dist N h t - m"
    using ring_dist_inc_head IH assms(2) by metis
  then show ?case by (simp add: mod_Suc_eq)
qed (use assms in simp)

lemma ring_slice_ring_map_tail:
  assumes "h < N" "m + n \<le> N"
  shows "ring_slice N (ring_map N f b h m) (h + m) n = ring_slice N b (h + m) n"
proof (rule ring_slice_cong)
  fix i assume "i < n"
  then have "ring_dist N h ((h + (m + i)) mod N) = m + i"
    using assms by (intro ring_dist_add) auto
  then show "ring_map N f b h m ((h + m + i) mod N) = b ((h + m + i) mod N)"
    by (simp add: ring_map_def add.assoc)
qed

lemma ring_slice_take: "ring_slice N b h (min k n) = take k (ring_slice N b h n)"
  by (intro nth_equalityI) auto

lemma ring_slice_drop: "ring_slice N b (h + k) (n - k) = drop k (ring_slice N b h n)"
  by (intro nth_equalityI) (auto simp: add.assoc)

section \<open>Machine words as ring indices\<close>

text \<open>
  The C sources compute ring positions with unsigned arithmetic that wraps at the word size and is
  then reduced to the ring size. As long as the ring size divides the word's range, the result is
  the position on the ring: this is what the interface below fixes once for every ring.
\<close>

lemma uint_ring_sub:
  fixes a b n :: "'a::len word"
  assumes "uint n dvd 2 ^ LENGTH('a)"
  shows "uint ((a - b) mod n) = (uint a - uint b) mod uint n"
  using assms by (simp add: uint_word_ariths uint_mod mod_mod_cancel)

lemma uint_ring_add:
  fixes a b n :: "'a::len word"
  assumes "uint n dvd 2 ^ LENGTH('a)"
  shows "uint ((a + b) mod n) = (uint a + uint b) mod uint n"
  using assms by (simp add: uint_word_ariths uint_mod mod_mod_cancel)

lemma unat_ring_add:
  fixes a b n :: "'a::len word"
  assumes "unat n dvd 2 ^ LENGTH('a)"
  shows "unat ((a + b) mod n) = (unat a + unat b) mod unat n"
proof -
  have "int (unat n) dvd int (2 ^ LENGTH('a))" using assms by (rule of_nat_dvd_iff [THEN iffD2])
  then have "int (unat ((a + b) mod n)) = int ((unat a + unat b) mod unat n)"
    using uint_ring_add [of n a b] by (simp add: of_nat_mod)
  then show ?thesis by linarith
qed

locale ring_index =
  fixes sz :: u32 and N :: nat
  assumes unat_sz: "unat sz = N"
    and sz_dvd: "N dvd 2 ^ 32"
    and sz_gt: "1 < N"
begin

lemma uint_sz_dvd: "uint sz dvd 2 ^ LENGTH(32)"
proof -
  have "int N dvd int (2 ^ 32)" using sz_dvd by (rule of_nat_dvd_iff [THEN iffD2])
  then show ?thesis by (simp flip: unat_sz)
qed

lemma mod_less: "unat (x mod sz) < N"
  using sz_gt by (simp add: unat_mod unat_sz)

lemma mod_id: "unat x < N \<Longrightarrow> x mod sz = x"
  by (simp add: word_unat_eq_iff unat_mod unat_sz)

lemma add: "unat ((x + y) mod sz) = (unat x + unat y) mod N"
proof -
  have "int (unat ((x + y) mod sz)) = int ((unat x + unat y) mod N)"
    using uint_ring_add [OF uint_sz_dvd, of x y] by (simp add: of_nat_mod flip: unat_sz)
  then show ?thesis by linarith
qed

lemma inc: "unat ((x + 1) mod sz) = Suc (unat x) mod N"
  using add [of x 1] by simp

lemma dist:
  assumes "unat x < N" "unat y < N"
  shows "unat ((x - y) mod sz) = ring_dist N (unat y) (unat x)"
proof -
  have "int (unat ((x - y) mod sz)) = (int (unat x) - int (unat y)) mod int N"
    using uint_ring_sub [OF uint_sz_dvd, of x y] by (simp flip: unat_sz)
  also have "\<dots> = (int (unat x) - int (unat y) + int N) mod int N" by simp
  also have "\<dots> = int (ring_dist N (unat y) (unat x))"
    using assms by (simp add: ring_dist_def of_nat_mod of_nat_diff algebra_simps)
  finally show ?thesis by linarith
qed

lemma free:
  assumes "unat h < N" "unat t < N"
  shows "unat ((h - t - 1) mod sz) = N - 1 - ring_dist N (unat h) (unat t)"
proof -
  let ?d = "ring_dist N (unat h) (unat t)"
  have le: "?d < N" using sz_gt by simp
  have d: "int ?d = (int (unat t) - int (unat h)) mod int N"
    using arg_cong [OF dist [OF assms(2,1)], of int] uint_ring_sub [OF uint_sz_dvd, of t h]
    by (simp flip: unat_sz)
  have "int (unat ((h - (t + 1)) mod sz)) = (int (unat h) - uint (t + 1)) mod int N"
    using uint_ring_sub [OF uint_sz_dvd, of h "t + 1"] by (simp flip: unat_sz)
  also have "uint (t + 1) = (int (unat t) + 1) mod 2 ^ 32"
    by (simp add: uint_word_ariths)
  also have "(int (unat h) - (int (unat t) + 1) mod 2 ^ 32) mod int N
      = (int (unat h) - (int (unat t) + 1)) mod int N"
    by (metis (no_types, lifting) mod_diff_right_eq mod_mod_cancel sz_dvd of_nat_dvd_iff of_nat_power
        of_nat_numeral)
  also have "\<dots> = (int N - 1 - int ?d) mod int N"
    unfolding d by (simp add: mod_diff_right_eq algebra_simps mod_simps)
  also have "\<dots> = int N - 1 - int ?d" using le by simp
  finally have "int (unat ((h - (t + 1)) mod sz)) = int (N - 1 - ?d)" using le by simp
  then show ?thesis by (simp only: of_nat_eq_iff diff_diff_eq)
qed

end

section \<open>Width changes\<close>

lemma unat_ucast_up:
  fixes x :: "'a::len word"
  assumes "LENGTH('a) \<le> LENGTH('b::len)"
  shows "unat (ucast x :: 'b word) = unat x"
proof -
  have "unat x < 2 ^ LENGTH('a)" by (rule unsigned_less)
  also have "(2::nat) ^ LENGTH('a) \<le> 2 ^ LENGTH('b)" using assms by simp
  finally show ?thesis by (simp add: unsigned_ucast_eq take_bit_nat_eq_self)
qed

lemma unat_ucast_16_32 [simp]: "unat (ucast (x :: u16) :: u32) = unat x"
  by (rule unat_ucast_up) simp

lemma unat_ucast_32_64 [simp]: "unat (ucast (x :: u32) :: u64) = unat x"
  by (rule unat_ucast_up) simp

lemma unat_of_nat_small:
  "n < 2 ^ LENGTH('a) \<Longrightarrow> unat (of_nat n :: 'a::len word) = n"
  by (simp add: unat_of_nat take_bit_nat_eq_self)

lemma unat_plus_small:
  fixes a b :: "'a::len word"
  shows "unat a + unat b < 2 ^ LENGTH('a) \<Longrightarrow> unat (a + b) = unat a + unat b"
  by (rule unat_add_lem [THEN iffD1])

lemma unat_times_small:
  fixes a b :: "'a::len word"
  shows "unat a * unat b < 2 ^ LENGTH('a) \<Longrightarrow> unat (a * b) = unat a * unat b"
  by (rule unat_mult_lem [THEN iffD1])

lemma sint_small:
  fixes x :: u32
  assumes "unat x < 2 ^ 31"
  shows "sint x = int (unat x)"
proof -
  have "sint x = signed_take_bit 31 (int (unat x))" by (simp add: sint_uint)
  also have "\<dots> = int (unat x)"
  proof (rule signed_take_bit_int_eq_self)
    have "int (unat x) < int (2 ^ 31)" using assms by (rule of_nat_less_iff [THEN iffD2])
    then show "int (unat x) < 2 ^ 31" by (simp only: of_nat_power of_nat_numeral)
    have "- (2 ^ 31) \<le> (0 :: int)" "0 \<le> int (unat x)" by (simp, rule of_nat_0_le_iff)
    then show "- (2 ^ 31) \<le> int (unat x)" by (rule order_trans)
  qed
  finally show ?thesis .
qed

section \<open>Masks\<close>

lemma unat_and_mask:
  fixes x :: "'a::len word"
  assumes "m = mask k"
  shows "unat (x AND m) = unat x mod 2 ^ k"
proof -
  have "unat (take_bit k x) = take_bit k (unat x)" by (rule unsigned_take_bit_eq)
  with assms show ?thesis by (simp add: take_bit_eq_mask flip: take_bit_eq_mod)
qed

lemma unat_and_not_mask:
  fixes x :: "'a::len word"
  assumes "m = mask k"
  shows "unat (x AND NOT m) = unat x - unat x mod 2 ^ k" "x AND NOT m = x - (x AND m)"
proof -
  have "(x AND NOT m) + (x AND m) = x"
    by (subst disjunctive_add_eq_or) (simp_all add: bit_eq_iff bit_and_iff bit_or_iff bit_not_iff, blast)
  then show eq: "x AND NOT m = x - (x AND m)" by (simp add: eq_diff_eq)
  have "x AND m \<le> x" by (rule word_and_le2)
  then have "unat (x - (x AND m)) = unat x - unat (x AND m)"
    by (simp add: unat_sub)
  then show "unat (x AND NOT m) = unat x - unat x mod 2 ^ k"
    unfolding eq unat_and_mask [OF assms] .
qed

section \<open>Bit vectors in byte arrays\<close>

definition bv_bit :: "u8 arr \<Rightarrow> nat \<Rightarrow> bool" where
  "bv_bit a i \<longleftrightarrow> bit (a (i div 8)) (i mod 8)"

definition bv_set :: "u8 arr \<Rightarrow> nat \<Rightarrow> u8 arr" where
  "bv_set a i = a(i div 8 := a (i div 8) OR push_bit (i mod 8) 1)"

definition bv_clear :: "u8 arr \<Rightarrow> nat \<Rightarrow> u8 arr" where
  "bv_clear a i = a(i div 8 := a (i div 8) AND NOT (push_bit (i mod 8) 1))"

lemma div_mod_8_eq: "i div 8 = j div 8 \<Longrightarrow> i mod 8 = j mod 8 \<Longrightarrow> i = (j::nat)"
  by (metis div_mult_mod_eq)

lemma bit_exp_u8: "n < 8 \<Longrightarrow> bit (2 ^ k :: u8) n \<longleftrightarrow> n = k"
  by (auto simp: bit_exp_iff)

lemma bv_bit_set [simp]: "bv_bit (bv_set a i) j \<longleftrightarrow> j = i \<or> bv_bit a j"
  by (auto simp: bv_bit_def bv_set_def bit_or_iff bit_exp_u8 dest: div_mod_8_eq)

lemma bv_bit_clear [simp]: "bv_bit (bv_clear a i) j \<longleftrightarrow> j \<noteq> i \<and> bv_bit a j"
  by (auto simp: bv_bit_def bv_clear_def bit_and_iff bit_not_iff bit_exp_u8 dest: div_mod_8_eq)

lemma u8_eqI: "(\<And>n. n < 8 \<Longrightarrow> bit a n \<longleftrightarrow> bit b n) \<Longrightarrow> (a :: u8) = b"
  by (rule bit_word_eqI) simp

lemma mod_add_cancel:
  fixes a b n N :: nat
  assumes "(a + n) mod N = (b + n) mod N"
  shows "a mod N = b mod N"
proof -
  have "int (a + n) mod int N = int (b + n) mod int N" using assms by (simp only: of_nat_mod [symmetric])
  then have "int N dvd int a - int b" by (simp add: mod_eq_dvd_iff)
  then have "int a mod int N = int b mod int N" by (simp add: mod_eq_dvd_iff)
  then show ?thesis by (simp only: of_nat_mod [symmetric] of_nat_eq_iff)
qed

end
