(* ===== verification/Enso_Types.thy ===== *)
theory Enso_Types
  imports Enso_Prelude
begin

text \<open>
  Compile-time constants of \<^verbatim>\<open>software/include/enso/consts.h\<close> and the data structures of
  \<^verbatim>\<open>software/include/enso/internals.h\<close> that the library shares with the NIC: the register page
  of a queue, the RX and TX notifications, the notification buffer pair and the internal state of
  an RX pipe. Pointers into buffers that the structures own are the buffers themselves; a register
  pointer (\<^verbatim>\<open>rx_head_ptr\<close>, \<^verbatim>\<open>buf_head_ptr\<close>) is the register it points to.
\<close>

section \<open>Constants (consts.h)\<close>

definition kMaxNbApps :: u32 where [enso_simps]: "kMaxNbApps = 1024"
definition kMaxNbFlows :: u32 where [enso_simps]: "kMaxNbFlows = 8192"
definition kMaxTransferLen :: u32 where [enso_simps]: "kMaxTransferLen = 131072"
definition kBatchSize :: nat where [enso_simps]: "kBatchSize = 64"
definition kNotificationBufSize :: u32 where [enso_simps]: "kNotificationBufSize = 16384"
definition kEnsoPipeSize :: u32 where [enso_simps]: "kEnsoPipeSize = 32768"
definition kBufPageSize :: u32 where [enso_simps]: "kBufPageSize = 2097152"
definition kMemorySpacePerQueue :: u32 where [enso_simps]: "kMemorySpacePerQueue = 4096"
definition kCacheLineSize :: u32 where [enso_simps]: "kCacheLineSize = 64"

definition kMaxPendingTxRequests :: u32 where
  [enso_simps]: "kMaxPendingTxRequests = kNotificationBufSize - 1"

definition kAlignedDscBufPairSize :: u32 where
  [enso_simps]: "kAlignedDscBufPairSize =
     ((kNotificationBufSize * 64 * 2 - 1) div kBufPageSize + 1) * kBufPageSize"

text \<open>The two rings of this theory in natural-number form.\<close>

abbreviation notif_N :: nat where "notif_N \<equiv> 16384"
abbreviation pipe_N :: nat where "pipe_N \<equiv> 32768"

interpretation notif_ring: ring_index kNotificationBufSize notif_N
  by unfold_locales (simp_all add: kNotificationBufSize_def)

interpretation pipe_ring: ring_index kEnsoPipeSize pipe_N
  by unfold_locales (simp_all add: kEnsoPipeSize_def)

section \<open>Structures (internals.h)\<close>

record QueueRegs =
  reg_rx_tail :: u32
  reg_rx_head :: u32
  reg_rx_mem_low :: u32
  reg_rx_mem_high :: u32
  reg_tx_tail :: u32
  reg_tx_head :: u32
  reg_tx_mem_low :: u32
  reg_tx_mem_high :: u32

record RxNotification =
  rx_signal :: u64
  rx_queue_id :: u64
  rx_new_tail :: u64

text \<open>
  \<^verbatim>\<open>TxNotification\<close> keeps its five padding words: configuration messages are cast to this type
  and use them.
\<close>

record TxNotification =
  tx_signal :: u64
  tx_phys_addr :: u64
  tx_length :: u64
  tx_pad :: "u64 list"

text \<open>
  \<open>nb_polls\<close> is the only field with no counterpart in the source: it counts how often the code has
  polled memory that the NIC writes, so that the NIC's behaviour can be a function of time.
\<close>

record NotificationBufPair =
  nb_rx_buf :: "RxNotification arr"
  next_rx_pipe_ids :: "u16 arr"
  nb_tx_buf :: "TxNotification arr"
  nb_rx_head :: u32
  nb_tx_head :: u32
  nb_tx_tail :: u32
  next_rx_ids_head :: u16
  next_rx_ids_tail :: u16
  nb_unreported_completions :: u32
  nb_id :: u32
  nb_regs :: QueueRegs
  tx_full_cnt :: u64
  ref_cnt :: u32
  wrap_tracker :: "u8 arr"
  pending_rx_pipe_tails :: "u32 arr"
  nb_polls :: nat

record RxEnsoPipeInternal =
  ep_buf :: u64
  ep_buf_phys_addr :: u64
  ep_regs :: QueueRegs
  ep_rx_head :: u32
  ep_rx_tail :: u32
  ep_phys_buf_offset :: u64
  ep_id :: u16

text \<open>All-zero values of the structures: the concrete inputs of the examples start from them.\<close>

definition regs_zero :: QueueRegs where
  "regs_zero = \<lparr>reg_rx_tail = 0, reg_rx_head = 0, reg_rx_mem_low = 0, reg_rx_mem_high = 0,
     reg_tx_tail = 0, reg_tx_head = 0, reg_tx_mem_low = 0, reg_tx_mem_high = 0\<rparr>"

definition rx_notif_zero :: RxNotification where
  "rx_notif_zero = \<lparr>rx_signal = 0, rx_queue_id = 0, rx_new_tail = 0\<rparr>"

definition tx_notif_zero :: TxNotification where
  "tx_notif_zero = \<lparr>tx_signal = 0, tx_phys_addr = 0, tx_length = 0, tx_pad = replicate 5 0\<rparr>"

definition nb_zero :: NotificationBufPair where
  "nb_zero = \<lparr>nb_rx_buf = (\<lambda>_. rx_notif_zero), next_rx_pipe_ids = (\<lambda>_. 0),
     nb_tx_buf = (\<lambda>_. tx_notif_zero), nb_rx_head = 0, nb_tx_head = 0, nb_tx_tail = 0,
     next_rx_ids_head = 0, next_rx_ids_tail = 0, nb_unreported_completions = 0, nb_id = 0,
     nb_regs = regs_zero, tx_full_cnt = 0, ref_cnt = 0, wrap_tracker = (\<lambda>_. 0),
     pending_rx_pipe_tails = (\<lambda>_. 0), nb_polls = 0\<rparr>"

lemmas zero_defs = regs_zero_def rx_notif_zero_def tx_notif_zero_def nb_zero_def

end
