(* ===== verification/Notif_Rx.thy ===== *)
theory Notif_Rx
  imports Enso_Types
begin

text \<open>
  The receive half of \<^verbatim>\<open>software/src/pcie.cpp\<close>: consuming RX notifications from the
  notification buffer (\<^verbatim>\<open>__get_new_tails\<close>), handing pipe identifiers to the application in
  order (\<^verbatim>\<open>__get_next_enso_pipe_id\<close>), and the ring arithmetic of one RX pipe
  (\<^verbatim>\<open>__consume_queue\<close>, \<^verbatim>\<open>advance_pipe\<close>, \<^verbatim>\<open>fully_advance_pipe\<close>, \<^verbatim>\<open>prefetch_pipe\<close>).

  The NIC writes the notification buffer concurrently. Every slot is read at most once in a call,
  so the buffer a call works on is the one made of the values it reads. A queue identifier comes
  from the NIC and indexes \<^verbatim>\<open>pending_rx_pipe_tails\<close>; an identifier outside the array is an
  out-of-bounds write in C, which is the value \<open>None\<close> here.
\<close>

section \<open>Operations\<close>

text \<open>\<^verbatim>\<open>enso_pipe_id_t\<close> is 16 bits wide: the assignment truncates the NIC's 64-bit field.\<close>

definition notif_pipe_id :: "RxNotification \<Rightarrow> u16" where
  "notif_pipe_id n = ucast (rx_queue_id n)"

fun get_new_tails_loop ::
    "nat \<Rightarrow> NotificationBufPair \<Rightarrow> u32 \<Rightarrow> u16 \<Rightarrow> u16 \<Rightarrow>
     (NotificationBufPair \<times> u32 \<times> u16 \<times> u16) option" where
  "get_new_tails_loop 0 nb head ids_tail cnt = Some (nb, head, ids_tail, cnt)"
| "get_new_tails_loop (Suc i) nb head ids_tail cnt =
     (let cur = nb_rx_buf nb (unat head) in
      if rx_signal cur = 0 then Some (nb, head, ids_tail, cnt)
      else
        let pid = notif_pipe_id cur in
        if unat pid < unat kMaxNbFlows then
          get_new_tails_loop i
            (nb\<lparr>nb_rx_buf := (nb_rx_buf nb)(unat head := cur\<lparr>rx_signal := 0\<rparr>),
                pending_rx_pipe_tails :=
                  (pending_rx_pipe_tails nb)(unat pid := ucast (rx_new_tail cur)),
                next_rx_pipe_ids := (next_rx_pipe_ids nb)(unat ids_tail := pid)\<rparr>)
            ((head + 1) mod kNotificationBufSize)
            (ucast ((ucast ids_tail + 1) mod kNotificationBufSize))
            (cnt + 1)
        else None)"

definition get_new_tails :: "NotificationBufPair \<Rightarrow> (u16 \<times> NotificationBufPair) option" where
  "get_new_tails nb =
     (case get_new_tails_loop kBatchSize nb (nb_rx_head nb) (next_rx_ids_tail nb) 0 of
        None \<Rightarrow> None
      | Some (nb', head, ids_tail, cnt) \<Rightarrow>
          let nb'' = nb'\<lparr>next_rx_ids_tail := ids_tail\<rparr> in
          Some (cnt,
            if cnt > 0
            then nb''\<lparr>nb_regs := (nb_regs nb'')\<lparr>reg_rx_head := head\<rparr>, nb_rx_head := head\<rparr>
            else nb''))"

text \<open>
  \<^verbatim>\<open>__consume_queue\<close> returns the number of bytes, the buffer address and the updated pipe. The
  address is \<^verbatim>\<open>&enso_pipe_buf[enso_pipe_head * 16]\<close> of a \<^verbatim>\<open>uint32_t\<close> array.
\<close>

definition consume_queue ::
    "RxEnsoPipeInternal \<Rightarrow> NotificationBufPair \<Rightarrow> bool \<Rightarrow> u32 \<times> u64 \<times> RxEnsoPipeInternal" where
  "consume_queue ep nb peek =
     (let head = ep_rx_tail ep;
          buf = ep_buf ep + ucast (head * 16) * 4;
          tail = pending_rx_pipe_tails nb (unat (ep_id ep))
      in if tail = head then (0, buf, ep)
         else
           let size = ((tail - head) mod kEnsoPipeSize) * 64 in
           (size, buf,
            if \<not> peek then ep\<lparr>ep_rx_tail := (head + size div 64) mod kEnsoPipeSize\<rparr> else ep))"

definition get_next_batch_from_queue ::
    "RxEnsoPipeInternal \<Rightarrow> NotificationBufPair \<Rightarrow> u32 \<times> u64 \<times> RxEnsoPipeInternal" where
  "get_next_batch_from_queue ep nb = consume_queue ep nb False"

definition peek_next_batch_from_queue ::
    "RxEnsoPipeInternal \<Rightarrow> NotificationBufPair \<Rightarrow> u32 \<times> u64 \<times> RxEnsoPipeInternal" where
  "peek_next_batch_from_queue ep nb = consume_queue ep nb True"

definition get_next_enso_pipe_id :: "NotificationBufPair \<Rightarrow> (int \<times> NotificationBufPair) option" where
  "get_next_enso_pipe_id nb =
     (let head = next_rx_ids_head nb;
          deliver = (\<lambda>nb'. (int (unat (next_rx_pipe_ids nb' (unat head))),
             nb'\<lparr>next_rx_ids_head := ucast ((ucast head + 1 :: u32) mod kNotificationBufSize)\<rparr>))
      in if head = next_rx_ids_tail nb then
           (case get_new_tails nb of
              None \<Rightarrow> None
            | Some (cnt, nb') \<Rightarrow> if cnt = 0 then Some (-1, nb') else Some (deliver nb'))
         else Some (deliver nb))"

text \<open>
  \<^verbatim>\<open>get_next_batch\<close> looks the pipe up among the open sockets; the result carries the pipe
  identifier and the buffer when a pipe was found.
\<close>

definition get_next_batch ::
    "NotificationBufPair \<Rightarrow> RxEnsoPipeInternal arr \<Rightarrow>
     (u32 \<times> (int \<times> u64) option \<times> NotificationBufPair \<times> RxEnsoPipeInternal arr) option" where
  "get_next_batch nb socks =
     (case get_next_enso_pipe_id nb of
        None \<Rightarrow> None
      | Some (pid, nb') \<Rightarrow>
          if pid = -1 then Some (0, None, nb', socks)
          else case consume_queue (socks (nat pid)) nb' False of
                 (n, buf, ep) \<Rightarrow> Some (n, Some (pid, buf), nb', socks(nat pid := ep)))"

definition advance_pipe :: "RxEnsoPipeInternal \<Rightarrow> u64 \<Rightarrow> RxEnsoPipeInternal" where
  "advance_pipe ep len =
     (let nb_flits = ucast ((len - 1) div 64 + 1) :: u32;
          head = (ep_rx_head ep + nb_flits) mod kEnsoPipeSize
      in ep\<lparr>ep_regs := (ep_regs ep)\<lparr>reg_rx_head := head\<rparr>, ep_rx_head := head\<rparr>)"

definition fully_advance_pipe :: "RxEnsoPipeInternal \<Rightarrow> RxEnsoPipeInternal" where
  "fully_advance_pipe ep =
     ep\<lparr>ep_regs := (ep_regs ep)\<lparr>reg_rx_head := ep_rx_tail ep\<rparr>, ep_rx_head := ep_rx_tail ep\<rparr>"

definition prefetch_pipe :: "RxEnsoPipeInternal \<Rightarrow> RxEnsoPipeInternal" where
  "prefetch_pipe ep = ep\<lparr>ep_regs := (ep_regs ep)\<lparr>reg_rx_head := ep_rx_head ep\<rparr>\<rparr>"

section \<open>Abstract view\<close>

text \<open>
  \<open>rx_ready k b h\<close> is the batch the NIC has posted: the notifications from slot \<open>h\<close> on, at most
  \<open>k\<close> of them, up to the first slot whose signal is clear. \<open>rx_ids\<close> is the FIFO of pipe
  identifiers waiting for the application. \<open>note_tails\<close> records, per pipe, the last tail of a batch.
\<close>

definition rx_ready :: "nat \<Rightarrow> RxNotification arr \<Rightarrow> nat \<Rightarrow> RxNotification list" where
  "rx_ready k b h = takeWhile (\<lambda>n. rx_signal n \<noteq> 0) (ring_slice notif_N b h k)"

definition rx_ids :: "NotificationBufPair \<Rightarrow> u16 list" where
  "rx_ids nb = ring_slice notif_N (next_rx_pipe_ids nb) (unat (next_rx_ids_head nb))
     (ring_dist notif_N (unat (next_rx_ids_head nb)) (unat (next_rx_ids_tail nb)))"

definition note_tails :: "RxNotification list \<Rightarrow> u32 arr \<Rightarrow> u32 arr" where
  "note_tails = fold (\<lambda>n p. p(unat (notif_pipe_id n) := ucast (rx_new_tail n)))"

definition valid_ids :: "RxNotification list \<Rightarrow> bool" where
  "valid_ids ns \<longleftrightarrow> (\<forall>n \<in> set ns. unat (notif_pipe_id n) < unat kMaxNbFlows)"

definition rx_wf :: "NotificationBufPair \<Rightarrow> bool" where
  "rx_wf nb \<longleftrightarrow> unat (nb_rx_head nb) < notif_N \<and>
     unat (next_rx_ids_head nb) < notif_N \<and> unat (next_rx_ids_tail nb) < notif_N"

abbreviation clear_signal :: "RxNotification \<Rightarrow> RxNotification" where
  "clear_signal n \<equiv> n\<lparr>rx_signal := 0\<rparr>"

lemma rx_ready_0 [simp]: "rx_ready 0 b h = []"
  by (simp add: rx_ready_def)

lemma rx_ready_Suc:
  "h < notif_N \<Longrightarrow> rx_ready (Suc k) b h =
     (if rx_signal (b h) = 0 then [] else b h # rx_ready k b (Suc h mod notif_N))"
  by (simp add: rx_ready_def ring_slice_Cons)

lemma rx_ready_upd:
  "h < notif_N \<Longrightarrow> k < notif_N \<Longrightarrow>
   rx_ready k (b(h := x)) (Suc h mod notif_N) = rx_ready k b (Suc h mod notif_N)"
  using ring_slice_upd_begin [of k notif_N b h x] by (simp add: rx_ready_def)

lemma length_rx_ready: "length (rx_ready k b h) \<le> k"
  using length_takeWhile_le [of "\<lambda>n. rx_signal n \<noteq> 0" "ring_slice notif_N b h k"]
  by (simp add: rx_ready_def)

lemma unat_ids_inc [simp]:
  "unat (ucast ((ucast (t :: u16) + 1) mod kNotificationBufSize) :: u16) = Suc (unat t) mod notif_N"
proof -
  have "unat ((ucast t + 1 :: u32) mod kNotificationBufSize) = Suc (unat t) mod notif_N"
    by (simp add: notif_ring.inc)
  moreover have "Suc (unat t) mod notif_N < 2 ^ 16"
    using mod_less_divisor [of notif_N "Suc (unat t)"] by simp
  ultimately show ?thesis
    by (simp add: unsigned_ucast_eq take_bit_nat_eq_self)
qed

text \<open>The loop in closed form; it also says exactly when the loop stays in bounds.\<close>

lemma get_new_tails_loop_eq:
  assumes "unat h < notif_N" "unat t < notif_N" "k < notif_N"
  shows "get_new_tails_loop k nb h t c =
    (let ns = rx_ready k (nb_rx_buf nb) (unat h); m = length ns in
     if valid_ids ns
     then Some (nb\<lparr>nb_rx_buf := ring_map notif_N clear_signal (nb_rx_buf nb) (unat h) m,
                   pending_rx_pipe_tails := note_tails ns (pending_rx_pipe_tails nb),
                   next_rx_pipe_ids :=
                     ring_put notif_N (next_rx_pipe_ids nb) (unat t) (map notif_pipe_id ns)\<rparr>,
                of_nat ((unat h + m) mod notif_N), of_nat ((unat t + m) mod notif_N),
                c + of_nat m)
     else None)"
  using assms
proof (induction k arbitrary: nb h t c)
  case 0
  then show ?case by (simp add: valid_ids_def note_tails_def)
next
  case (Suc k)
  let ?cur = "nb_rx_buf nb (unat h)"
  let ?h = "(h + 1) mod kNotificationBufSize"
  let ?t = "ucast ((ucast t + 1) mod kNotificationBufSize) :: u16"
  have hd: "unat ?h = Suc (unat h) mod notif_N" by (rule notif_ring.inc)
  have len: "length (rx_ready k b i) < notif_N" for b i
    using length_rx_ready [of k b i] Suc.prems by simp
  show ?case
  proof (cases "rx_signal ?cur = 0 \<or> \<not> unat (notif_pipe_id ?cur) < unat kMaxNbFlows")
    case True
    then show ?thesis
      using Suc.prems by (auto simp: rx_ready_Suc valid_ids_def note_tails_def Let_def)
  next
    case False
    let ?ns = "rx_ready k (nb_rx_buf nb) (Suc (unat h) mod notif_N)"
    have ready: "rx_ready (Suc k) (nb_rx_buf nb) (unat h) = ?cur # ?ns"
      using Suc.prems False by (simp add: rx_ready_Suc)
    have IH: "get_new_tails_loop k nb' ?h ?t c' =
      (let ns = rx_ready k (nb_rx_buf nb') (unat ?h); m = length ns in
       if valid_ids ns
       then Some (nb'\<lparr>nb_rx_buf := ring_map notif_N clear_signal (nb_rx_buf nb') (unat ?h) m,
                     pending_rx_pipe_tails := note_tails ns (pending_rx_pipe_tails nb'),
                     next_rx_pipe_ids :=
                       ring_put notif_N (next_rx_pipe_ids nb') (unat ?t) (map notif_pipe_id ns)\<rparr>,
                  of_nat ((unat ?h + m) mod notif_N), of_nat ((unat ?t + m) mod notif_N),
                  c' + of_nat m)
       else None)" for nb' c'
      using Suc.prems by (intro Suc.IH) (simp_all add: hd)
    show ?thesis
      unfolding ready
      using Suc.prems False len
      by (simp add: IH hd rx_ready_upd valid_ids_def note_tails_def ring_map_Suc ring_put_Cons Let_def
          mod_add_left_eq)
  qed
qed

lemma unat_notif_slot [simp]:
  "unat (of_nat (n mod notif_N) :: u32) = n mod notif_N"
  "unat (of_nat (n mod notif_N) :: u16) = n mod notif_N"
  using mod_less_divisor [of notif_N n] by (simp_all add: unat_of_nat_small)

text \<open>One poll of the notification buffer, in closed form.\<close>

definition poll_result :: "NotificationBufPair \<Rightarrow> RxNotification list \<Rightarrow> NotificationBufPair" where
  "poll_result nb ns =
     (let m = length ns; h = of_nat ((unat (nb_rx_head nb) + m) mod notif_N) in
      nb\<lparr>nb_rx_buf := ring_map notif_N clear_signal (nb_rx_buf nb) (unat (nb_rx_head nb)) m,
         pending_rx_pipe_tails := note_tails ns (pending_rx_pipe_tails nb),
         next_rx_pipe_ids := ring_put notif_N (next_rx_pipe_ids nb) (unat (next_rx_ids_tail nb))
           (map notif_pipe_id ns),
         next_rx_ids_tail := of_nat ((unat (next_rx_ids_tail nb) + m) mod notif_N),
         nb_regs := (if ns = [] then nb_regs nb else (nb_regs nb)\<lparr>reg_rx_head := h\<rparr>),
         nb_rx_head := h\<rparr>)"

abbreviation rx_batch :: "NotificationBufPair \<Rightarrow> RxNotification list" where
  "rx_batch nb \<equiv> rx_ready kBatchSize (nb_rx_buf nb) (unat (nb_rx_head nb))"

lemma rx_batch_le: "length (rx_batch nb) \<le> 64"
  using length_rx_ready [of kBatchSize] by (simp add: kBatchSize_def)

lemma get_new_tails_eq:
  assumes "rx_wf nb"
  shows "get_new_tails nb =
    (if valid_ids (rx_batch nb)
     then Some (of_nat (length (rx_batch nb)), poll_result nb (rx_batch nb)) else None)"
proof -
  let ?ns = "rx_batch nb"
  have cnt: "(0 < (of_nat (length ?ns) :: u16)) \<longleftrightarrow> ?ns \<noteq> []"
    using rx_batch_le [of nb] by (simp add: word_less_nat_alt unat_of_nat_small)
  have stay: "of_nat (unat (nb_rx_head nb) mod notif_N) = nb_rx_head nb"
    using assms by (simp add: rx_wf_def)
  show ?thesis
    using assms cnt stay
    by (simp add: get_new_tails_def get_new_tails_loop_eq rx_wf_def poll_result_def Let_def
        kBatchSize_def)
qed

lemma note_tails_last:
  "note_tails ns p i =
     (case filter (\<lambda>n. unat (notif_pipe_id n) = i) ns of
        [] \<Rightarrow> p i | _ \<Rightarrow> ucast (rx_new_tail (last (filter (\<lambda>n. unat (notif_pipe_id n) = i) ns))))"
proof (induction ns rule: rev_induct)
  case Nil
  show ?case by (simp add: note_tails_def)
next
  case (snoc n ns)
  then show ?case by (auto simp: note_tails_def split: list.splits)
qed

lemma poll_result_simps [simp]:
  "next_rx_ids_head (poll_result nb ns) = next_rx_ids_head nb"
  "pending_rx_pipe_tails (poll_result nb ns) = note_tails ns (pending_rx_pipe_tails nb)"
  "nb_rx_buf (poll_result nb ns) =
     ring_map notif_N clear_signal (nb_rx_buf nb) (unat (nb_rx_head nb)) (length ns)"
  "unat (nb_rx_head (poll_result nb ns)) = (unat (nb_rx_head nb) + length ns) mod notif_N"
  by (simp_all add: poll_result_def Let_def)

lemma rx_wf_poll_result: "rx_wf nb \<Longrightarrow> rx_wf (poll_result nb ns)"
  by (simp add: rx_wf_def poll_result_def Let_def)

lemma rx_ids_poll_result:
  assumes "rx_wf nb" "length (rx_ids nb) + length ns < notif_N"
  shows "rx_ids (poll_result nb ns) = rx_ids nb @ map notif_pipe_id ns"
proof -
  let ?h = "unat (next_rx_ids_head nb)" and ?t = "unat (next_rx_ids_tail nb)"
  let ?d = "ring_dist notif_N ?h ?t"
  have wf: "?h < notif_N" "?t < notif_N" using assms by (simp_all add: rx_wf_def)
  have d: "?d + length ns < notif_N" using assms by (simp add: rx_ids_def)
  have t: "(?h + ?d) mod notif_N = ?t" using wf by simp
  have "(?t + length ns) mod notif_N = (?h + (?d + length ns)) mod notif_N"
    by (metis t mod_add_left_eq add.assoc)
  then have dist: "ring_dist notif_N ?h ((?t + length ns) mod notif_N) = ?d + length ns"
    using wf d by (simp add: ring_dist_add)
  show ?thesis
    using ring_slice_ring_put [of ?h notif_N ?d "map notif_pipe_id ns" "next_rx_pipe_ids nb"] wf d
    by (simp add: rx_ids_def poll_result_def Let_def dist t)
qed

section \<open>Delivery of pipe identifiers\<close>

lemma rx_ids_Nil_iff: "rx_wf nb \<Longrightarrow> rx_ids nb = [] \<longleftrightarrow> next_rx_ids_head nb = next_rx_ids_tail nb"
  by (simp add: rx_ids_def rx_wf_def word_unat_eq_iff flip: length_0_conv)

text \<open>Delivering the front of the FIFO and advancing its head.\<close>

definition deliver_front :: "NotificationBufPair \<Rightarrow> NotificationBufPair" where
  "deliver_front nb = nb\<lparr>next_rx_ids_head :=
     ucast ((ucast (next_rx_ids_head nb) + 1 :: u32) mod kNotificationBufSize)\<rparr>"

lemma rx_wf_deliver_front: "rx_wf nb \<Longrightarrow> rx_wf (deliver_front nb)"
  by (simp add: rx_wf_def deliver_front_def)

lemma rx_ids_deliver_front:
  assumes "rx_wf nb" "rx_ids nb \<noteq> []"
  shows "rx_ids nb = next_rx_pipe_ids nb (unat (next_rx_ids_head nb)) # rx_ids (deliver_front nb)"
proof -
  let ?h = "unat (next_rx_ids_head nb)" and ?t = "unat (next_rx_ids_tail nb)"
  have wf: "?h < notif_N" "?t < notif_N" using assms by (simp_all add: rx_wf_def)
  have "?h \<noteq> ?t" using assms by (simp add: rx_ids_Nil_iff word_unat_eq_iff)
  then have "ring_dist notif_N ?h ?t = Suc (ring_dist notif_N (Suc ?h mod notif_N) ?t)"
    using ring_dist_inc_head [OF wf] by simp
  then show ?thesis
    using wf by (simp add: rx_ids_def deliver_front_def ring_slice_Cons)
qed

lemma get_next_enso_pipe_id_eq:
  assumes "rx_wf nb"
  shows "get_next_enso_pipe_id nb =
    (if rx_ids nb \<noteq> [] then Some (int (unat (hd (rx_ids nb))), deliver_front nb)
     else if \<not> valid_ids (rx_batch nb) then None
     else if rx_batch nb = [] then Some (-1, poll_result nb [])
     else Some (int (unat (notif_pipe_id (hd (rx_batch nb)))),
                deliver_front (poll_result nb (rx_batch nb))))"
proof (cases "rx_ids nb = []")
  case False
  then have "next_rx_ids_head nb \<noteq> next_rx_ids_tail nb" by (simp add: rx_ids_Nil_iff assms)
  moreover have "hd (rx_ids nb) = next_rx_pipe_ids nb (unat (next_rx_ids_head nb))"
    using rx_ids_deliver_front [OF assms False] by (metis list.sel(1))
  ultimately show ?thesis
    using False by (simp add: get_next_enso_pipe_id_def deliver_front_def Let_def)
next
  case True
  let ?ns = "rx_batch nb"
  have cnt: "(of_nat (length ?ns) :: u16) = 0 \<longleftrightarrow> ?ns = []"
    using rx_batch_le [of nb] by (simp add: word_unat_eq_iff unat_of_nat_small)
  have ids: "rx_ids (poll_result nb ?ns) = map notif_pipe_id ?ns"
    using assms True rx_batch_le [of nb] by (simp add: rx_ids_poll_result)
  have "?ns \<noteq> [] \<Longrightarrow> next_rx_pipe_ids (poll_result nb ?ns) (unat (next_rx_ids_head nb))
      = notif_pipe_id (hd ?ns)"
    using rx_ids_deliver_front [OF rx_wf_poll_result [OF assms], of ?ns] ids
    by (cases ?ns) simp_all
  with True assms cnt show ?thesis
    by (auto simp: get_next_enso_pipe_id_def rx_ids_Nil_iff get_new_tails_eq deliver_front_def Let_def)
qed

section \<open>The NIC and the application together\<close>

text \<open>
  A run interleaves three kinds of steps: the NIC posts a notification at its tail slot when the
  ring, seen through the head register, has room; the application asks for the next pipe; or a pipe
  polls the notification buffer directly (\<^verbatim>\<open>RxPipe::Peek\<close>), which only keeps the FIFO of pipe
  identifiers intact while there is room for a batch in it.
\<close>

record rx_sys =
  rs_nb :: NotificationBufPair
  rs_nic_tail :: nat
  rs_posted :: "u16 list"
  rs_delivered :: "u16 list"

inductive rx_step :: "rx_sys \<Rightarrow> rx_sys \<Rightarrow> bool" where
  nic_post:
    "\<lbrakk>rx_signal n \<noteq> 0; unat (notif_pipe_id n) < unat kMaxNbFlows;
      Suc (ring_dist notif_N (unat (reg_rx_head (nb_regs (rs_nb s)))) (rs_nic_tail s)) < notif_N\<rbrakk> \<Longrightarrow>
     rx_step s (s\<lparr>rs_nb := (rs_nb s)\<lparr>nb_rx_buf := (nb_rx_buf (rs_nb s))(rs_nic_tail s := n)\<rparr>,
                  rs_nic_tail := Suc (rs_nic_tail s) mod notif_N,
                  rs_posted := rs_posted s @ [notif_pipe_id n]\<rparr>)"
| app_next:
    "\<lbrakk>get_next_enso_pipe_id (rs_nb s) = Some (i, nb'); 0 \<le> i\<rbrakk> \<Longrightarrow>
     rx_step s (s\<lparr>rs_nb := nb', rs_delivered := rs_delivered s @ [of_int i]\<rparr>)"
| app_idle:
    "\<lbrakk>get_next_enso_pipe_id (rs_nb s) = Some (i, nb'); i < 0\<rbrakk> \<Longrightarrow> rx_step s (s\<lparr>rs_nb := nb'\<rparr>)"
| pipe_poll:
    "\<lbrakk>get_new_tails (rs_nb s) = Some (c, nb'); length (rx_ids (rs_nb s)) + kBatchSize < notif_N\<rbrakk> \<Longrightarrow>
     rx_step s (s\<lparr>rs_nb := nb'\<rparr>)"

definition rx_init :: "rx_sys \<Rightarrow> bool" where
  "rx_init s \<longleftrightarrow> nb_rx_head (rs_nb s) = 0 \<and> reg_rx_head (nb_regs (rs_nb s)) = 0 \<and>
     next_rx_ids_head (rs_nb s) = 0 \<and> next_rx_ids_tail (rs_nb s) = 0 \<and>
     (\<forall>i < notif_N. rx_signal (nb_rx_buf (rs_nb s) i) = 0) \<and>
     rs_nic_tail s = 0 \<and> rs_posted s = [] \<and> rs_delivered s = []"

inductive rx_reachable :: "rx_sys \<Rightarrow> bool" where
  rx_start: "rx_init s \<Longrightarrow> rx_reachable s"
| rx_run: "rx_reachable s \<Longrightarrow> rx_step s t \<Longrightarrow> rx_reachable t"

text \<open>The notifications the NIC has posted and the library has not consumed yet.\<close>

definition rx_inflight :: "rx_sys \<Rightarrow> RxNotification list" where
  "rx_inflight s = ring_slice notif_N (nb_rx_buf (rs_nb s)) (unat (nb_rx_head (rs_nb s)))
     (ring_dist notif_N (unat (nb_rx_head (rs_nb s))) (rs_nic_tail s))"

definition rx_inv :: "rx_sys \<Rightarrow> bool" where
  "rx_inv s \<longleftrightarrow> rx_wf (rs_nb s) \<and> rs_nic_tail s < notif_N \<and>
     reg_rx_head (nb_regs (rs_nb s)) = nb_rx_head (rs_nb s) \<and>
     (\<forall>n \<in> set (rx_inflight s). rx_signal n \<noteq> 0) \<and> valid_ids (rx_inflight s) \<and>
     (\<forall>i < notif_N. ring_dist notif_N (unat (nb_rx_head (rs_nb s))) (rs_nic_tail s)
          \<le> ring_dist notif_N (unat (nb_rx_head (rs_nb s))) i \<longrightarrow>
        rx_signal (nb_rx_buf (rs_nb s) i) = 0) \<and>
     rs_posted s = rs_delivered s @ rx_ids (rs_nb s) @ map notif_pipe_id (rx_inflight s)"

lemma rx_inv_init: "rx_init s \<Longrightarrow> rx_inv s"
  by (simp add: rx_init_def rx_inv_def rx_wf_def rx_inflight_def rx_ids_def valid_ids_def)

lemma rx_batch_inflight:
  assumes "rx_inv s"
  shows "rx_batch (rs_nb s) = take kBatchSize (rx_inflight s)"
proof -
  let ?b = "nb_rx_buf (rs_nb s)" and ?h = "unat (nb_rx_head (rs_nb s))" and ?t = "rs_nic_tail s"
  let ?d = "ring_dist notif_N ?h ?t" and ?P = "\<lambda>n. rx_signal n \<noteq> 0"
  have wf: "?h < notif_N" "?t < notif_N" using assms by (simp_all add: rx_inv_def rx_wf_def)
  have sig: "n \<in> set (ring_slice notif_N ?b ?h ?d) \<Longrightarrow> ?P n" for n
    using assms by (simp add: rx_inv_def rx_inflight_def)
  show ?thesis
  proof (cases "kBatchSize \<le> ?d")
    case True
    then have pre: "ring_slice notif_N ?b ?h kBatchSize = take kBatchSize (ring_slice notif_N ?b ?h ?d)"
      using ring_slice_take [of notif_N ?b ?h kBatchSize ?d] by (simp add: min_absorb1)
    have "\<forall>n \<in> set (take kBatchSize (ring_slice notif_N ?b ?h ?d)). ?P n"
      using sig in_set_takeD by metis
    then show ?thesis
      unfolding rx_ready_def rx_inflight_def pre by (rule takeWhile_eq_all_conv [THEN iffD2])
  next
    case False
    then obtain r where r: "kBatchSize = ?d + Suc r" by (metis less_natE not_less add_Suc_right)
    have "rx_signal (?b ?t) = 0" using assms wf by (simp add: rx_inv_def)
    then have "takeWhile ?P (ring_slice notif_N ?b (?h + ?d) (Suc r)) = []"
      using wf by (simp add: ring_slice_Cons)
    then have "takeWhile ?P (ring_slice notif_N ?b ?h ?d @ ring_slice notif_N ?b (?h + ?d) (Suc r))
        = ring_slice notif_N ?b ?h ?d"
      using sig by (simp add: takeWhile_append)
    then show ?thesis
      using False by (simp only: rx_ready_def rx_inflight_def r ring_slice_append) simp
  qed
qed

lemma rx_inflight_poll:
  assumes "rx_wf (rs_nb s)" "rs_nic_tail s < notif_N" "length ns \<le> length (rx_inflight s)"
  shows "rx_inflight (s\<lparr>rs_nb := poll_result (rs_nb s) ns\<rparr>) = drop (length ns) (rx_inflight s)"
proof -
  let ?h = "unat (nb_rx_head (rs_nb s))" and ?m = "length ns"
  let ?d = "ring_dist notif_N ?h (rs_nic_tail s)"
  have h: "?h < notif_N" and m: "?m \<le> ?d"
    using assms by (simp_all add: rx_wf_def rx_inflight_def)
  have "?d < notif_N" by (rule ring_dist_less) simp
  then have "?m + (?d - ?m) \<le> notif_N" using m by linarith
  then show ?thesis
    using h m assms(2)
    by (simp add: rx_inflight_def ring_dist_advance ring_slice_ring_map_tail flip: ring_slice_drop)
qed

lemma rx_inv_poll:
  assumes inv: "rx_inv s" and room: "length (rx_ids (rs_nb s)) + kBatchSize < notif_N"
  shows "rx_inv (s\<lparr>rs_nb := poll_result (rs_nb s) (rx_batch (rs_nb s))\<rparr>)"
proof -
  let ?nb = "rs_nb s" and ?t = "rs_nic_tail s"
  define ns where "ns = take kBatchSize (rx_inflight s)"
  let ?h = "unat (nb_rx_head ?nb)" and ?m = "length ns"
  let ?s = "s\<lparr>rs_nb := poll_result ?nb ns\<rparr>"
  let ?d = "ring_dist notif_N ?h ?t"
  have wf: "rx_wf ?nb" "?h < notif_N" "?t < notif_N" using inv by (simp_all add: rx_inv_def rx_wf_def)
  have fl: "rx_inflight ?s = drop ?m (rx_inflight s)"
    using wf by (intro rx_inflight_poll) (simp_all add: ns_def)
  have m: "?m \<le> ?d" by (simp add: ns_def rx_inflight_def)
  have ids: "rx_ids (poll_result ?nb ns) = rx_ids ?nb @ map notif_pipe_id ns"
    using wf room by (intro rx_ids_poll_result) (simp_all add: ns_def)
  have zero: "rx_signal (nb_rx_buf (rs_nb ?s) i) = 0"
    if i: "i < notif_N" and far: "ring_dist notif_N ((?h + ?m) mod notif_N) ?t
        \<le> ring_dist notif_N ((?h + ?m) mod notif_N) i" for i
  proof (cases "ring_dist notif_N ?h i < ?m")
    case True
    then show ?thesis using i by (simp add: ring_map_def)
  next
    case False
    then have "?m \<le> ring_dist notif_N ?h i" by simp
    then have "?d - ?m \<le> ring_dist notif_N ?h i - ?m"
      using far ring_dist_advance [of ?h notif_N] m i wf by simp
    then have "?d \<le> ring_dist notif_N ?h i" using False m by linarith
    then show ?thesis using inv i False by (simp add: ring_map_def rx_inv_def)
  qed
  have reg: "reg_rx_head (nb_regs (poll_result ?nb ns)) = nb_rx_head (poll_result ?nb ns)"
    using inv wf by (simp add: poll_result_def Let_def rx_inv_def)
  have "set (rx_inflight ?s) \<subseteq> set (rx_inflight s)" unfolding fl by (rule set_drop_subset)
  then have "\<forall>n \<in> set (rx_inflight ?s). rx_signal n \<noteq> 0" "valid_ids (rx_inflight ?s)"
    using inv by (auto simp: rx_inv_def valid_ids_def)
  moreover have split: "ns @ drop ?m (rx_inflight s) = rx_inflight s"
    by (cases "length (rx_inflight s) \<le> kBatchSize") (simp_all add: ns_def min_def)
  moreover have "rs_posted s = rs_delivered s @ rx_ids (poll_result ?nb ns)
      @ map notif_pipe_id (rx_inflight ?s)"
    unfolding ids fl using inv split by (simp add: rx_inv_def flip: map_append)
  ultimately show ?thesis
    unfolding rx_batch_inflight [OF inv] rx_inv_def ns_def [symmetric]
    using wf reg zero by (simp add: rx_wf_poll_result)
qed

lemma rx_inv_deliver:
  assumes "rx_inv s" "rx_ids (rs_nb s) = p # ps"
  shows "rx_inv (s\<lparr>rs_nb := deliver_front (rs_nb s), rs_delivered := rs_delivered s @ [p]\<rparr>)"
proof -
  have "rx_ids (deliver_front (rs_nb s)) = ps"
    using rx_ids_deliver_front [of "rs_nb s"] assms by (simp add: rx_inv_def)
  moreover have "rx_inflight (s\<lparr>rs_nb := deliver_front (rs_nb s), rs_delivered := ds\<rparr>) = rx_inflight s" for ds
    by (simp add: rx_inflight_def deliver_front_def)
  ultimately show ?thesis
    using assms rx_wf_deliver_front [of "rs_nb s"]
    by (simp add: rx_inv_def) (simp add: deliver_front_def)
qed

lemma rx_inv_post:
  assumes inv: "rx_inv s" and n: "rx_signal n \<noteq> 0" "unat (notif_pipe_id n) < unat kMaxNbFlows"
    and room: "Suc (ring_dist notif_N (unat (reg_rx_head (nb_regs (rs_nb s)))) (rs_nic_tail s)) < notif_N"
  shows "rx_inv (s\<lparr>rs_nb := (rs_nb s)\<lparr>nb_rx_buf := (nb_rx_buf (rs_nb s))(rs_nic_tail s := n)\<rparr>,
                  rs_nic_tail := Suc (rs_nic_tail s) mod notif_N,
                  rs_posted := rs_posted s @ [notif_pipe_id n]\<rparr>)" (is "rx_inv ?s")
proof -
  let ?nb = "rs_nb s" and ?t = "rs_nic_tail s"
  let ?h = "unat (nb_rx_head ?nb)"
  let ?d = "ring_dist notif_N ?h ?t"
  have wf: "rx_wf ?nb" "?h < notif_N" "?t < notif_N" using inv by (simp_all add: rx_inv_def rx_wf_def)
  have room': "Suc ?d < notif_N" using room inv by (simp add: rx_inv_def)
  have d: "ring_dist notif_N ?h (Suc ?t mod notif_N) = Suc ?d"
    using wf room' by (intro ring_dist_inc_tail)
  have t: "(?h + ?d) mod notif_N = ?t" using wf by simp
  have fl: "rx_inflight ?s = rx_inflight s @ [n]"
    using ring_slice_upd_end [of ?d notif_N "nb_rx_buf ?nb" ?h n] room'
    by (simp add: rx_inflight_def d ring_slice_snoc t)
  have ids: "rx_ids (rs_nb ?s) = rx_ids ?nb" by (simp add: rx_ids_def)
  have "i \<noteq> ?t" if "Suc ?d \<le> ring_dist notif_N ?h i" for i using that by auto
  then show ?thesis
    using inv n wf unfolding rx_inv_def fl ids
    by (simp add: d rx_wf_def valid_ids_def Suc_le_eq)
qed

lemma rx_batch_valid: "rx_inv s \<Longrightarrow> valid_ids (rx_batch (rs_nb s))"
  unfolding rx_batch_inflight by (auto simp: rx_inv_def valid_ids_def dest: in_set_takeD)

text \<open>The three outcomes of asking for the next pipe, as effects on the abstract state.\<close>

lemma rx_inv_next:
  assumes inv: "rx_inv s" and nx: "get_next_enso_pipe_id (rs_nb s) = Some (i, nb')"
  shows "if i < 0 then rx_inv (s\<lparr>rs_nb := nb'\<rparr>)
         else rx_inv (s\<lparr>rs_nb := nb', rs_delivered := rs_delivered s @ [of_int i]\<rparr>)"
proof (cases "rx_ids (rs_nb s)")
  case (Cons p ps)
  then have "i = int (unat p)" "nb' = deliver_front (rs_nb s)"
    using nx inv by (simp_all add: get_next_enso_pipe_id_eq rx_inv_def)
  with Cons inv rx_inv_deliver show ?thesis by simp
next
  case Nil
  let ?ns = "rx_batch (rs_nb s)"
  let ?s = "s\<lparr>rs_nb := poll_result (rs_nb s) ?ns\<rparr>"
  have wf: "rx_wf (rs_nb s)" using inv by (simp add: rx_inv_def)
  have poll: "rx_inv ?s"
    using inv Nil by (intro rx_inv_poll) (simp_all add: kBatchSize_def)
  show ?thesis
  proof (cases ?ns)
    case Nil': Nil
    then show ?thesis
      using nx wf Nil poll rx_batch_valid [OF inv] by (simp add: get_next_enso_pipe_id_eq)
  next
    case (Cons n ns)
    have "rx_ids (rs_nb ?s) = map notif_pipe_id ?ns"
      using rx_ids_poll_result [OF wf, of ?ns] Nil rx_batch_le [of "rs_nb s"] by simp
    then have ids: "rx_ids (rs_nb ?s) = notif_pipe_id n # map notif_pipe_id ns"
      using Cons by simp
    have "i = int (unat (notif_pipe_id n))" "nb' = deliver_front (rs_nb ?s)"
      using nx wf Nil Cons rx_batch_valid [OF inv] by (simp_all add: get_next_enso_pipe_id_eq)
    with rx_inv_deliver [OF poll ids] show ?thesis by simp
  qed
qed

lemma rx_inv_step: "rx_step s t \<Longrightarrow> rx_inv s \<Longrightarrow> rx_inv t"
proof (induction rule: rx_step.induct)
  case (nic_post n s)
  then show ?case by (intro rx_inv_post)
next
  case (app_next s i nb')
  then show ?case using rx_inv_next [of s i nb'] by simp
next
  case (app_idle s i nb')
  then show ?case using rx_inv_next [of s i nb'] by simp
next
  case (pipe_poll s c nb')
  then have "nb' = poll_result (rs_nb s) (rx_batch (rs_nb s))"
    using rx_batch_valid by (simp add: get_new_tails_eq rx_inv_def split: if_splits)
  with pipe_poll show ?case by (simp add: rx_inv_poll)
qed

lemma rx_reachable_inv: "rx_reachable s \<Longrightarrow> rx_inv s"
  by (induction rule: rx_reachable.induct) (blast intro: rx_inv_init rx_inv_step)+

section \<open>One RX pipe\<close>

text \<open>
  Positions of an RX pipe are in units of 64 bytes; its buffer of 2 MiB is mapped twice in a row, so
  a region that starts in the first copy may run into the second one.
\<close>

lemma advance_flits:
  "unat (ucast ((len - 1) div 64 + 1 :: u64) :: u32) mod pipe_N = (unat (len :: u64) + 63) div 64 mod pipe_N"
proof (cases "len = 0")
  case True
  then show ?thesis by (simp add: unsigned_ucast_eq)
next
  case False
  have lt: "unat len < 2 ^ 64" using unsigned_less [of len] by simp
  have pos: "0 < unat len" using False by (simp add: unat_gt_0)
  have "unat (len - 1) = unat len - 1" using False by (simp add: unat_minus_one)
  then have d: "unat ((len - 1) div 64) = (unat len - 1) div 64" by (simp add: unat_div)
  have "unat ((len - 1) div 64 + 1) = (unat len - 1) div 64 + 1"
    using lt unat_plus_small [of "(len - 1) div 64" 1] by (simp only: d) simp
  also have "\<dots> = (unat len + 63) div 64" using pos by (simp add: div_add_self2 [symmetric] del: div_add_self2)
  finally show ?thesis by (simp add: unsigned_ucast_eq take_bit_eq_mod mod_mod_cancel)
qed

lemma advance_pipe_head:
  "unat (ep_rx_head (advance_pipe ep len)) = (unat (ep_rx_head ep) + (unat len + 63) div 64) mod pipe_N"
proof -
  have "unat (ep_rx_head (advance_pipe ep len)) =
      (unat (ep_rx_head ep) + unat (ucast ((len - 1) div 64 + 1) :: u32)) mod pipe_N"
    by (simp add: advance_pipe_def Let_def pipe_ring.add)
  then show ?thesis using advance_flits [of len] by (metis mod_add_right_eq)
qed

lemma consume_queue_size:
  assumes "unat (ep_rx_tail ep) < pipe_N" "unat (pending_rx_pipe_tails nb (unat (ep_id ep))) < pipe_N"
  shows "unat (fst (consume_queue ep nb peek)) = 64 * ring_dist pipe_N (unat (ep_rx_tail ep))
    (unat (pending_rx_pipe_tails nb (unat (ep_id ep))))"
proof -
  let ?t = "pending_rx_pipe_tails nb (unat (ep_id ep))" and ?h = "ep_rx_tail ep"
  have d: "unat ((?t - ?h) mod kEnsoPipeSize) = ring_dist pipe_N (unat ?h) (unat ?t)"
    using assms by (intro pipe_ring.dist)
  have "ring_dist pipe_N (unat ?h) (unat ?t) < pipe_N" by (rule ring_dist_less) simp
  then have "unat (((?t - ?h) mod kEnsoPipeSize) * 64) = 64 * ring_dist pipe_N (unat ?h) (unat ?t)"
    using unat_times_small [of "(?t - ?h) mod kEnsoPipeSize" 64]
    by (simp only: d) (simp del: ring_dist_less)
  then show ?thesis by (simp add: consume_queue_def Let_def)
qed

lemma consume_queue_eq:
  assumes "unat (ep_rx_tail ep) < pipe_N" "unat (pending_rx_pipe_tails nb (unat (ep_id ep))) < pipe_N"
  shows "\<exists>size. consume_queue ep nb peek = (size, ep_buf ep + of_nat (64 * unat (ep_rx_tail ep)),
      if peek then ep else ep\<lparr>ep_rx_tail := pending_rx_pipe_tails nb (unat (ep_id ep))\<rparr>) \<and>
    unat size = 64 * ring_dist pipe_N (unat (ep_rx_tail ep)) (unat (pending_rx_pipe_tails nb (unat (ep_id ep))))"
proof -
  let ?t = "pending_rx_pipe_tails nb (unat (ep_id ep))" and ?h = "ep_rx_tail ep"
  note size = consume_queue_size [OF assms, of peek]
  have "unat (?h * 16) = unat ?h * 16" using assms(1) by (simp add: unat_word_ariths)
  then have "unat (ucast (?h * 16) * 4 :: u64) = unat (of_nat (64 * unat ?h) :: u64)"
    using assms(1) by (simp add: unat_word_ariths unat_of_nat take_bit_eq_mod)
  then have buf: "ucast (?h * 16) * 4 = (of_nat (64 * unat ?h) :: u64)" by (simp add: word_unat_eq_iff)
  have "(?h + ((?t - ?h) mod kEnsoPipeSize * 64) div 64) mod kEnsoPipeSize = ?t" if "?t \<noteq> ?h"
  proof -
    have "unat (((?t - ?h) mod kEnsoPipeSize * 64) div 64) = ring_dist pipe_N (unat ?h) (unat ?t)"
      using size that by (simp add: consume_queue_def Let_def unat_div)
    then show ?thesis using assms by (simp add: word_unat_eq_iff pipe_ring.add)
  qed
  with size buf show ?thesis by (auto simp: consume_queue_def Let_def)
qed

section \<open>Properties\<close>


definition rx_sys_zero :: rx_sys where
  "rx_sys_zero = \<lparr>rs_nb = nb_zero, rs_nic_tail = 0, rs_posted = [], rs_delivered = []\<rparr>"

definition rx_sys_one :: rx_sys where
  "rx_sys_one = rx_sys_zero
     \<lparr>rs_nb := nb_zero\<lparr>nb_rx_buf := (nb_rx_buf nb_zero)
        (0 := \<lparr>rx_signal = 1, rx_queue_id = 5, rx_new_tail = 7\<rparr>)\<rparr>,
      rs_nic_tail := 1, rs_posted := [5]\<rparr>"

lemma rx_reachable_zero: "rx_reachable rx_sys_zero"
  by (rule rx_start) (simp add: rx_init_def rx_sys_zero_def zero_defs)

lemma rx_reachable_one: "rx_reachable rx_sys_one"
proof (rule rx_run [OF rx_reachable_zero])
  show "rx_step rx_sys_zero rx_sys_one"
    using nic_post [of "\<lparr>rx_signal = 1, rx_queue_id = 5, rx_new_tail = 7\<rparr>" rx_sys_zero]
    by (simp add: rx_sys_one_def rx_sys_zero_def zero_defs notif_pipe_id_def kMaxNbFlows_def)
qed

lemma rx_inflight_one:
  "map notif_pipe_id (rx_inflight rx_sys_one) = [5]" "rx_ids (rs_nb rx_sys_one) = []"
  "rx_inflight rx_sys_one = [\<lparr>rx_signal = 1, rx_queue_id = 5, rx_new_tail = 7\<rparr>]"
  by (simp_all add: rx_inflight_def rx_ids_def rx_sys_one_def rx_sys_zero_def zero_defs
      ring_dist_def ring_slice_Cons notif_pipe_id_def)


text \<open>
  C26: Asking for the next pipe never gets stuck or out of bounds: in every reachable state the call
  returns; it returns -1 exactly when no identifier is waiting and no notification is in the buffer,
  and otherwise the oldest identifier not delivered yet.
\<close>

theorem next_pipe_progress:
  assumes "rx_reachable s"
  defines "waiting \<equiv> rx_ids (rs_nb s) @ map notif_pipe_id (rx_inflight s)"
  shows "\<exists>nb'. get_next_enso_pipe_id (rs_nb s) =
    Some (if waiting = [] then -1 else int (unat (hd waiting)), nb')"
proof -
  note inv = rx_reachable_inv [OF assms(1)]
  have wf: "rx_wf (rs_nb s)" using inv by (simp add: rx_inv_def)
  have "rx_batch (rs_nb s) = [] \<longleftrightarrow> rx_inflight s = []"
    "rx_inflight s \<noteq> [] \<Longrightarrow> hd (rx_batch (rs_nb s)) = hd (rx_inflight s)"
    unfolding rx_batch_inflight [OF inv] by (simp_all add: kBatchSize_def)
  then show ?thesis
    using rx_batch_valid [OF inv]
    by (auto simp: get_next_enso_pipe_id_eq [OF wf] waiting_def hd_append hd_map)
qed

theorem next_pipe_progress_witness:
  "\<exists>nb'. get_next_enso_pipe_id (rs_nb rx_sys_one) = Some (5, nb')"
  using next_pipe_progress [OF rx_reachable_one] rx_inflight_one by simp

text \<open>
  One poll of a well-formed notification buffer whose batch names valid pipes consumes the whole
  batch: it returns the number of notifications, records for every pipe the tail of its last
  notification (and leaves the other pipes alone), appends the pipe identifiers to the FIFO when
  there is room for them, clears the signals it consumed and nothing else, and moves the head in
  memory and in the NIC's register together.
\<close>

theorem get_new_tails_poll:
  assumes "rx_wf nb" "valid_ids (rx_batch nb)" "length (rx_ids nb) + kBatchSize < notif_N"
    and "reg_rx_head (nb_regs nb) = nb_rx_head nb"
  shows "\<exists>nb'. get_new_tails nb = Some (of_nat (length (rx_batch nb)), nb') \<and> rx_wf nb' \<and>
    rx_ids nb' = rx_ids nb @ map notif_pipe_id (rx_batch nb) \<and>
    (\<forall>p. pending_rx_pipe_tails nb' p =
       (case filter (\<lambda>n. unat (notif_pipe_id n) = p) (rx_batch nb) of
          [] \<Rightarrow> pending_rx_pipe_tails nb p
        | n # ns \<Rightarrow> ucast (rx_new_tail (last (n # ns))))) \<and>
    (\<forall>i < notif_N. nb_rx_buf nb' i =
       (if ring_dist notif_N (unat (nb_rx_head nb)) i < length (rx_batch nb)
        then (nb_rx_buf nb i)\<lparr>rx_signal := 0\<rparr> else nb_rx_buf nb i)) \<and>
    unat (nb_rx_head nb') = (unat (nb_rx_head nb) + length (rx_batch nb)) mod notif_N \<and>
    reg_rx_head (nb_regs nb') = nb_rx_head nb'"
proof (intro exI conjI)
  let ?nb = "poll_result nb (rx_batch nb)"
  show "get_new_tails nb = Some (of_nat (length (rx_batch nb)), ?nb)"
    using assms by (simp add: get_new_tails_eq)
  show "rx_wf ?nb" using assms(1) by (rule rx_wf_poll_result)
  show "rx_ids ?nb = rx_ids nb @ map notif_pipe_id (rx_batch nb)"
    using assms rx_batch_le [of nb] by (intro rx_ids_poll_result) (simp_all add: kBatchSize_def)
  show "\<forall>p. pending_rx_pipe_tails ?nb p =
       (case filter (\<lambda>n. unat (notif_pipe_id n) = p) (rx_batch nb) of
          [] \<Rightarrow> pending_rx_pipe_tails nb p
        | n # ns \<Rightarrow> ucast (rx_new_tail (last (n # ns))))"
    by (simp add: note_tails_last split: list.split)
  show "\<forall>i < notif_N. nb_rx_buf ?nb i =
       (if ring_dist notif_N (unat (nb_rx_head nb)) i < length (rx_batch nb)
        then (nb_rx_buf nb i)\<lparr>rx_signal := 0\<rparr> else nb_rx_buf nb i)"
    by (simp add: ring_map_def)
  show "reg_rx_head (nb_regs ?nb) = nb_rx_head ?nb"
    using assms(1,4) by (simp add: poll_result_def Let_def rx_wf_def)
qed simp

theorem get_new_tails_poll_witness:
  "\<exists>nb'. get_new_tails (rs_nb rx_sys_one) = Some (1, nb') \<and> rx_ids nb' = [5] \<and>
     pending_rx_pipe_tails nb' 5 = 7 \<and> unat (nb_rx_head nb') = 1"
proof -
  let ?nb = "rs_nb rx_sys_one"
  have batch: "rx_batch ?nb = [\<lparr>rx_signal = 1, rx_queue_id = 5, rx_new_tail = 7\<rparr>]"
    using rx_batch_inflight [OF rx_reachable_inv [OF rx_reachable_one]]
    by (simp add: rx_inflight_one kBatchSize_def)
  have "rx_wf ?nb" "reg_rx_head (nb_regs ?nb) = nb_rx_head ?nb" "nb_rx_head ?nb = 0"
    by (simp_all add: rx_sys_one_def rx_sys_zero_def zero_defs rx_wf_def)
  then show ?thesis
    using get_new_tails_poll [of ?nb, unfolded batch] rx_inflight_one(2)
    by (auto simp: valid_ids_def notif_pipe_id_def kMaxNbFlows_def kBatchSize_def)
qed

text \<open>
  The poll leaves the bounds of \<^verbatim>\<open>pending_rx_pipe_tails\<close> exactly when a notification of
  the batch carries an identifier whose low 16 bits are not below \<^verbatim>\<open>kMaxNbFlows\<close>: the code
  relies on the NIC for it.
\<close>

theorem get_new_tails_bounds:
  assumes "rx_wf nb"
  shows "get_new_tails nb = None \<longleftrightarrow>
    (\<exists>n \<in> set (rx_batch nb). unat kMaxNbFlows \<le> unat (rx_queue_id n) mod 2 ^ 16)"
  using assms
  by (auto simp: get_new_tails_eq valid_ids_def notif_pipe_id_def unsigned_ucast_eq take_bit_eq_mod
      not_less)

theorem get_new_tails_bounds_witness: "get_new_tails (rs_nb rx_sys_one) \<noteq> None"
  using get_new_tails_bounds [of "rs_nb rx_sys_one"] rx_reachable_inv [OF rx_reachable_one]
    rx_batch_valid [OF rx_reachable_inv [OF rx_reachable_one]]
  by (fastforce simp: rx_inv_def valid_ids_def notif_pipe_id_def unsigned_ucast_eq take_bit_eq_mod)

text \<open>
  Receiving from a pipe returns exactly the bytes between the pipe's tail and the newest tail the
  NIC announced: 64 bytes per ring position, starting 64 bytes per position into the buffer and
  never past its second mapping. A receive moves the pipe's tail to the announced one, so an
  immediate second one returns nothing; a peek leaves the pipe as it is.
\<close>

theorem consume_queue_region:
  assumes "unat (ep_rx_tail ep) < pipe_N" "unat (pending_rx_pipe_tails nb (unat (ep_id ep))) < pipe_N"
  shows "\<exists>size buf. consume_queue ep nb peek =
      (size, buf, if peek then ep else ep\<lparr>ep_rx_tail := pending_rx_pipe_tails nb (unat (ep_id ep))\<rparr>) \<and>
    unat size = 64 * ring_dist pipe_N (unat (ep_rx_tail ep))
      (unat (pending_rx_pipe_tails nb (unat (ep_id ep)))) \<and>
    buf = ep_buf ep + of_nat (64 * unat (ep_rx_tail ep)) \<and>
    64 * unat (ep_rx_tail ep) + unat size < 2 * unat kBufPageSize \<and>
    (size = 0 \<longleftrightarrow> pending_rx_pipe_tails nb (unat (ep_id ep)) = ep_rx_tail ep) \<and>
    (\<not> peek \<longrightarrow> fst (consume_queue (snd (snd (consume_queue ep nb peek))) nb False) = 0)"
proof -
  let ?t = "pending_rx_pipe_tails nb (unat (ep_id ep))" and ?h = "ep_rx_tail ep"
  let ?d = "ring_dist pipe_N (unat ?h) (unat ?t)" and ?buf = "ep_buf ep + of_nat (64 * unat ?h)"
  obtain size where step: "consume_queue ep nb peek = (size, ?buf, if peek then ep else ep\<lparr>ep_rx_tail := ?t\<rparr>)"
    and size: "unat size = 64 * ?d" using consume_queue_eq [OF assms, of peek] by blast
  have zero: "size = 0 \<longleftrightarrow> ?t = ?h"
    using size assms by (metis mult_eq_0_iff ring_dist_eq_0 unat_0 word_unat_eq_iff zero_neq_numeral)
  have "?d < pipe_N" by (rule ring_dist_less) simp
  then have bound: "64 * unat ?h + unat size < 2 * unat kBufPageSize"
    using size assms(1) by (simp add: kBufPageSize_def del: ring_dist_less)
  have "\<not> peek \<longrightarrow> fst (consume_queue (snd (snd (consume_queue ep nb peek))) nb False) = 0"
    unfolding step by (simp add: consume_queue_def Let_def)
  with step size bound zero show ?thesis by blast
qed

definition ep_example :: RxEnsoPipeInternal where
  "ep_example = \<lparr>ep_buf = 4096, ep_buf_phys_addr = 0, ep_regs = regs_zero, ep_rx_head = 32767,
     ep_rx_tail = 32767, ep_phys_buf_offset = 0, ep_id = 5\<rparr>"

theorem consume_queue_region_witness:
  "unat (fst (consume_queue ep_example (nb_zero\<lparr>pending_rx_pipe_tails := (\<lambda>_. 7)\<rparr>) False)) = 512"
  using consume_queue_region [of ep_example "nb_zero\<lparr>pending_rx_pipe_tails := (\<lambda>_. 7)\<rparr>" False]
  by (auto simp: ep_example_def ring_dist_def)

text \<open>
  Freeing \<open>len\<close> bytes of a pipe moves its head, in memory and in the NIC's register, by
  \<open>len\<close> rounded up to 64-byte units, for every length: the unsigned \<^verbatim>\<open>len - 1\<close> wraps for
  length 0, yet the head then stays in place.
\<close>

theorem advance_pipe_rounds_up:
  "unat (ep_rx_head (advance_pipe ep len)) =
     (unat (ep_rx_head ep) + (unat len + 63) div 64) mod pipe_N \<and>
   reg_rx_head (ep_regs (advance_pipe ep len)) = ep_rx_head (advance_pipe ep len) \<and>
   ep_rx_tail (advance_pipe ep len) = ep_rx_tail ep"
  by (simp add: advance_pipe_head) (simp add: advance_pipe_def Let_def)

end
