(* ===== verification/Notif_Tx.thy ===== *)
theory Notif_Tx
  imports Enso_Types
begin

text \<open>
  The transmit half of \<^verbatim>\<open>software/src/pcie.cpp\<close>: splitting a transmission into TX
  notifications (\<^verbatim>\<open>__send_to_queue\<close>), reclaiming the ones the NIC has consumed
  (\<^verbatim>\<open>update_tx_head\<close>) and reporting completions (\<^verbatim>\<open>get_unreported_completions\<close>), and sending
  a configuration message (\<^verbatim>\<open>send_config\<close>).

  The NIC consumes a TX notification by clearing its signal. It is a parameter: a function from the
  notification buffer pair to the contents of the TX buffer it leaves, applied once at each poll.
  As each slot is read at most once per call of \<^verbatim>\<open>update_tx_head\<close>, one NIC action per call
  covers every interleaving. The code's unbounded waits are recursive functions into \<open>option\<close>,
  where \<open>None\<close> is a wait that never ends.
\<close>

type_synonym nic = "NotificationBufPair \<Rightarrow> TxNotification arr"

section \<open>Operations\<close>

definition nic_poll :: "nic \<Rightarrow> NotificationBufPair \<Rightarrow> NotificationBufPair" where
  "nic_poll nic nb = nb\<lparr>nb_tx_buf := nic nb, nb_polls := Suc (nb_polls nb)\<rparr>"

fun update_tx_head_loop ::
    "nat \<Rightarrow> NotificationBufPair \<Rightarrow> u32 \<Rightarrow> u32 \<Rightarrow> NotificationBufPair \<times> u32" where
  "update_tx_head_loop 0 nb head tail = (nb, head)"
| "update_tx_head_loop (Suc i) nb head tail =
     (if head = tail then (nb, head)
      else if tx_signal (nb_tx_buf nb (unat head)) \<noteq> 0 then (nb, head)
      else
        let byte = unat (head div 8);
            wrap_tracker_mask = push_bit (unat (head AND 7)) 1 :: u8;
            no_wrap = (if wrap_tracker nb byte AND wrap_tracker_mask = 0 then 1 else 0) in
        update_tx_head_loop i
          (nb\<lparr>nb_unreported_completions := nb_unreported_completions nb + no_wrap,
              wrap_tracker := (wrap_tracker nb)(byte :=
                wrap_tracker nb byte AND NOT wrap_tracker_mask)\<rparr>)
          ((head + 1) mod kNotificationBufSize) tail)"

definition update_tx_head :: "nic \<Rightarrow> NotificationBufPair \<Rightarrow> NotificationBufPair" where
  "update_tx_head nic nb0 =
     (let nb = nic_poll nic nb0; head = nb_tx_head nb; tail = nb_tx_tail nb in
      if head = tail then nb
      else case update_tx_head_loop kBatchSize nb head tail of
             (nb', head') \<Rightarrow> nb'\<lparr>nb_tx_head := head'\<rparr>)"

definition get_unreported_completions ::
    "nic \<Rightarrow> NotificationBufPair \<Rightarrow> u32 \<times> NotificationBufPair" where
  "get_unreported_completions nic nb =
     (let nb' = update_tx_head nic nb in
      (nb_unreported_completions nb', nb'\<lparr>nb_unreported_completions := 0\<rparr>))"

definition tx_free_slots :: "NotificationBufPair \<Rightarrow> u32 \<Rightarrow> u32" where
  "tx_free_slots nb tx_tail = (nb_tx_head nb - tx_tail - 1) mod kNotificationBufSize"

text \<open>The loop "block until we can send" of \<^verbatim>\<open>__send_to_queue\<close> and \<^verbatim>\<open>send_config\<close>.\<close>

partial_function (option) wait_free_slot ::
    "nic \<Rightarrow> NotificationBufPair \<Rightarrow> u32 \<Rightarrow> NotificationBufPair option" where
  "wait_free_slot nic nb tx_tail =
     (if tx_free_slots nb tx_tail = 0
      then wait_free_slot nic (update_tx_head nic (nb\<lparr>tx_full_cnt := tx_full_cnt nb + 1\<rparr>)) tx_tail
      else Some nb)"

definition tx_req_length :: "u64 \<Rightarrow> u64 \<Rightarrow> u32 \<Rightarrow> u32" where
  "tx_req_length transf_addr hugepage_boundary missing_bytes =
     min (min missing_bytes kMaxTransferLen) (ucast (hugepage_boundary - transf_addr))"

text \<open>One turn of the send loop once a slot is free: the wrap bit and the notification.\<close>

definition put_tx_request ::
    "NotificationBufPair \<Rightarrow> u32 \<Rightarrow> u64 \<Rightarrow> u32 \<Rightarrow> u32 \<Rightarrow> NotificationBufPair" where
  "put_tx_request nb tx_tail transf_addr req_length missing_bytes =
     (let byte = unat (tx_tail div 8);
          wrap_tracker_mask =
            push_bit (unat (tx_tail AND 7)) (if missing_bytes > req_length then 1 else 0) :: u8 in
      nb\<lparr>wrap_tracker := (wrap_tracker nb)(byte := wrap_tracker nb byte OR wrap_tracker_mask),
         nb_tx_buf := (nb_tx_buf nb)(unat tx_tail := (nb_tx_buf nb (unat tx_tail))
           \<lparr>tx_length := ucast req_length, tx_signal := 1, tx_phys_addr := transf_addr\<rparr>)\<rparr>)"

partial_function (option) send_loop ::
    "nic \<Rightarrow> NotificationBufPair \<Rightarrow> u32 \<Rightarrow> u64 \<Rightarrow> u64 \<Rightarrow> u64 \<Rightarrow> u32 \<Rightarrow>
     (NotificationBufPair \<times> u32) option" where
  "send_loop nic nb tx_tail transf_addr hugepage_base_addr hugepage_boundary missing_bytes =
     (if missing_bytes > 0 then
        Option.bind (wait_free_slot nic nb tx_tail) (\<lambda>nb'.
          let req_length = tx_req_length transf_addr hugepage_boundary missing_bytes;
              huge_page_offset = (transf_addr + ucast req_length) mod ucast kBufPageSize in
          send_loop nic (put_tx_request nb' tx_tail transf_addr req_length missing_bytes)
            ((tx_tail + 1) mod kNotificationBufSize) (hugepage_base_addr + huge_page_offset)
            hugepage_base_addr hugepage_boundary (missing_bytes - req_length))
      else Some (nb, tx_tail))"

definition publish_tx_tail :: "NotificationBufPair \<Rightarrow> u32 \<Rightarrow> NotificationBufPair" where
  "publish_tx_tail nb tx_tail =
     nb\<lparr>nb_tx_tail := tx_tail, nb_regs := (nb_regs nb)\<lparr>reg_tx_tail := tx_tail\<rparr>\<rparr>"

definition send_to_queue ::
    "nic \<Rightarrow> NotificationBufPair \<Rightarrow> u64 \<Rightarrow> u32 \<Rightarrow> (u32 \<times> NotificationBufPair) option" where
  "send_to_queue nic nb phys_addr len =
     (let hugepage_mask = NOT (ucast kBufPageSize - 1);
          hugepage_base_addr = phys_addr AND hugepage_mask;
          hugepage_boundary = hugepage_base_addr + ucast kBufPageSize in
      map_option (\<lambda>(nb', tx_tail). (len, publish_tx_tail nb' tx_tail))
        (send_loop nic nb (nb_tx_tail nb) phys_addr hugepage_base_addr hugepage_boundary len))"

text \<open>The wait at the end of \<^verbatim>\<open>send_config\<close>, until the completion counter moves.\<close>

partial_function (option) wait_completion ::
    "nic \<Rightarrow> NotificationBufPair \<Rightarrow> u32 \<Rightarrow> NotificationBufPair option" where
  "wait_completion nic nb old =
     (if nb_unreported_completions nb = old
      then wait_completion nic (update_tx_head nic nb) old
      else Some nb)"

definition send_config ::
    "nic \<Rightarrow> NotificationBufPair \<Rightarrow> TxNotification \<Rightarrow> (int \<times> NotificationBufPair) option" where
  "send_config nic nb config_notification =
     (if tx_signal config_notification < 2 then Some (-1, nb)
      else
        let tx_tail = nb_tx_tail nb in
        Option.bind (wait_free_slot nic nb tx_tail) (\<lambda>nb1.
          let nb2 = nb1\<lparr>nb_tx_buf := (nb_tx_buf nb1)(unat tx_tail := config_notification)\<rparr>;
              nb3 = publish_tx_tail nb2 ((tx_tail + 1) mod kNotificationBufSize);
              old = nb_unreported_completions nb3 in
          Option.bind (wait_completion nic nb3 old) (\<lambda>nb4.
            Some (0, nb4\<lparr>nb_unreported_completions := old\<rparr>))))"

section \<open>The wrap tracker as a bit vector\<close>

lemma unat_div_8 [simp]: "unat (h div 8 :: u32) = unat h div 8"
  by (simp add: unat_div)

lemma unat_and_7 [simp]: "unat (h AND 7 :: u32) = unat h mod 8"
  using unat_and_mask [of "7 :: u32" 3 h] by (simp add: mask_eq_exp_minus_1)

lemma and_bit_u8: "n < 8 \<Longrightarrow> (w AND push_bit n 1 = (0 :: u8)) \<longleftrightarrow> \<not> bit w n"
  by (auto simp: and_exp_eq_0_iff_not_bit push_bit_of_1)

lemma update_tx_head_loop_Suc:
  "update_tx_head_loop (Suc i) nb head tail =
     (if head = tail \<or> tx_signal (nb_tx_buf nb (unat head)) \<noteq> 0 then (nb, head)
      else update_tx_head_loop i
        (nb\<lparr>nb_unreported_completions := nb_unreported_completions nb +
              (if bv_bit (wrap_tracker nb) (unat head) then 0 else 1),
            wrap_tracker := bv_clear (wrap_tracker nb) (unat head)\<rparr>)
        ((head + 1) mod kNotificationBufSize) tail)"
  by (simp add: Let_def and_bit_u8 bv_bit_def bv_clear_def push_bit_of_1
      del: push_bit_of_1 cong: if_cong)

declare update_tx_head_loop.simps(2) [simp del]

lemmas update_tx_head_loop_numeral =
  update_tx_head_loop_Suc [of "pred_numeral k", folded numeral_eq_Suc] for k

lemma put_tx_request_eq:
  "put_tx_request nb t a r m =
     nb\<lparr>wrap_tracker := (if m > r then bv_set (wrap_tracker nb) (unat t) else wrap_tracker nb),
        nb_tx_buf := (nb_tx_buf nb)(unat t := (nb_tx_buf nb (unat t))
           \<lparr>tx_length := ucast r, tx_signal := 1, tx_phys_addr := a\<rparr>)\<rparr>"
  by (simp add: put_tx_request_def Let_def bv_set_def)

section \<open>The NIC\<close>

text \<open>
  A slot is published when it lies between the head and the tail register. The NIC only clears
  signals, and only of published slots (\<open>nic_consumes\<close>); it keeps consuming when it also gets, again
  and again, to every slot that is published (\<open>nic_fair\<close>). \<open>nic_eager\<close> consumes at once.
\<close>

definition published :: "NotificationBufPair \<Rightarrow> nat \<Rightarrow> bool" where
  "published nb i \<longleftrightarrow> i < notif_N \<and> ring_dist notif_N (unat (nb_tx_head nb)) i
     < ring_dist notif_N (unat (nb_tx_head nb)) (unat (reg_tx_tail (nb_regs nb)))"

definition nic_consumes :: "nic \<Rightarrow> bool" where
  "nic_consumes nic \<longleftrightarrow> (\<forall>nb i. nic nb i = nb_tx_buf nb i \<or>
     published nb i \<and> nic nb i = (nb_tx_buf nb i)\<lparr>tx_signal := 0\<rparr>)"

definition nic_fair :: "nic \<Rightarrow> bool" where
  "nic_fair nic \<longleftrightarrow> nic_consumes nic \<and>
     (\<forall>i t. \<exists>t' \<ge> t. \<forall>nb. nb_polls nb = t' \<and> published nb i \<longrightarrow> tx_signal (nic nb i) = 0)"

definition nic_eager :: nic where
  "nic_eager nb = (\<lambda>i. if published nb i then (nb_tx_buf nb i)\<lparr>tx_signal := 0\<rparr> else nb_tx_buf nb i)"

lemma nic_fair_eager: "nic_fair nic_eager"
  by (auto simp: nic_fair_def nic_consumes_def nic_eager_def)

section \<open>Abstract view of the TX ring\<close>

text \<open>
  \<open>tail\<close> is the tail the code works with: the structure's own, or the local \<^verbatim>\<open>tx_tail\<close> of a
  send in progress, whose notifications the NIC does not see yet. \<open>tx_wraps\<close> are the wrap bits of
  the outstanding notifications, oldest first; an outstanding notification without the bit is one
  completion to come. \<open>tx_credit\<close> counts the completions reported by the ring and still to come.
\<close>

abbreviation tx_used :: "NotificationBufPair \<Rightarrow> u32 \<Rightarrow> nat" where
  "tx_used nb tail \<equiv> ring_dist notif_N (unat (nb_tx_head nb)) (unat tail)"

definition tx_wraps :: "NotificationBufPair \<Rightarrow> u32 \<Rightarrow> bool list" where
  "tx_wraps nb tail = ring_slice notif_N (bv_bit (wrap_tracker nb)) (unat (nb_tx_head nb)) (tx_used nb tail)"

definition tx_credit :: "NotificationBufPair \<Rightarrow> u32 \<Rightarrow> u32" where
  "tx_credit nb tail = nb_unreported_completions nb + of_nat (length (filter Not (tx_wraps nb tail)))"

definition tx_inv :: "NotificationBufPair \<Rightarrow> u32 \<Rightarrow> bool" where
  "tx_inv nb tail \<longleftrightarrow>
     unat (nb_tx_head nb) < notif_N \<and> unat (nb_tx_tail nb) < notif_N \<and> unat tail < notif_N \<and>
     reg_tx_tail (nb_regs nb) = nb_tx_tail nb \<and> tx_used nb (nb_tx_tail nb) \<le> tx_used nb tail \<and>
     (\<forall>i < notif_N. tx_used nb tail \<le> ring_dist notif_N (unat (nb_tx_head nb)) i \<longrightarrow>
        \<not> bv_bit (wrap_tracker nb) i)"

text \<open>Number of leading outstanding notifications that the NIC has consumed, at most \<open>k\<close>.\<close>

definition tx_done :: "nat \<Rightarrow> TxNotification arr \<Rightarrow> nat \<Rightarrow> nat \<Rightarrow> nat" where
  "tx_done k b h d = length (takeWhile (\<lambda>n. tx_signal n = 0) (ring_slice notif_N b h (min k d)))"

lemma tx_done_le: "tx_done k b h d \<le> min k d"
  unfolding tx_done_def
  by (metis length_takeWhile_le length_ring_slice)

lemma tx_done_0 [simp]: "tx_done 0 b h d = 0" "tx_done k b h 0 = 0"
  by (simp_all add: tx_done_def)

lemma tx_done_Suc:
  "h < notif_N \<Longrightarrow> tx_done (Suc k) b h (Suc d) =
     (if tx_signal (b h) = 0 then Suc (tx_done k b (Suc h mod notif_N) d) else 0)"
  by (simp add: tx_done_def ring_slice_Cons)

lemma update_tx_head_loop_spec:
  assumes "unat h < notif_N" "unat t < notif_N"
    and "update_tx_head_loop k nb h t = (nb', h')"
  defines "n \<equiv> tx_done k (nb_tx_buf nb) (unat h) (ring_dist notif_N (unat h) (unat t))"
  shows "unat h' = (unat h + n) mod notif_N \<and>
    nb' = nb\<lparr>nb_unreported_completions := nb_unreported_completions nb'
            , wrap_tracker := wrap_tracker nb'\<rparr> \<and>
    nb_unreported_completions nb' = nb_unreported_completions nb +
      of_nat (length (filter Not (ring_slice notif_N (bv_bit (wrap_tracker nb)) (unat h) n))) \<and>
    (\<forall>i < notif_N. bv_bit (wrap_tracker nb') i \<longleftrightarrow>
       bv_bit (wrap_tracker nb) i \<and> n \<le> ring_dist notif_N (unat h) i)"
  using assms(1-3) unfolding n_def
proof (induction k arbitrary: nb h)
  case 0
  then show ?case by simp
next
  case (Suc k)
  let ?stop = "h = t \<or> tx_signal (nb_tx_buf nb (unat h)) \<noteq> 0"
  let ?d = "ring_dist notif_N (unat h) (unat t)"
  show ?case
  proof (cases ?stop)
    case True
    then have "tx_done (Suc k) (nb_tx_buf nb) (unat h) ?d = 0"
      using Suc.prems by (cases ?d) (auto simp: tx_done_Suc)
    moreover have "nb' = nb" "h' = h" using True Suc.prems(3) by (auto simp: update_tx_head_loop_Suc)
    ultimately show ?thesis using Suc.prems by simp
  next
    case False
    let ?h = "(h + 1) mod kNotificationBufSize"
    define nb1 where "nb1 = nb\<lparr>nb_unreported_completions := nb_unreported_completions nb +
              (if bv_bit (wrap_tracker nb) (unat h) then 0 else 1),
            wrap_tracker := bv_clear (wrap_tracker nb) (unat h)\<rparr>"
    have h: "unat ?h = Suc (unat h) mod notif_N" by (rule notif_ring.inc)
    have ne: "unat h \<noteq> unat t" using False by (simp add: word_unat_eq_iff)
    define n where "n = tx_done k (nb_tx_buf nb) (unat ?h) (ring_dist notif_N (unat ?h) (unat t))"
    have d: "?d = Suc (ring_dist notif_N (unat ?h) (unat t))"
      using ring_dist_inc_head [OF Suc.prems(1,2) ne] h by simp
    have n: "tx_done (Suc k) (nb_tx_buf nb) (unat h) ?d = Suc n"
      using False Suc.prems unfolding d by (simp add: tx_done_Suc n_def h)
    have "n \<le> ring_dist notif_N (unat ?h) (unat t)"
      using tx_done_le [of k] unfolding n_def by (metis min.bounded_iff)
    then have small: "n < notif_N"
      by (rule le_less_trans) (rule ring_dist_less, simp)
    have "update_tx_head_loop k nb1 ?h t = (nb', h')"
      using Suc.prems(3) False by (simp add: update_tx_head_loop_Suc nb1_def)
    note step = Suc.IH [OF notif_ring.mod_less Suc.prems(2) this]
    have "nb_tx_buf nb1 = nb_tx_buf nb" by (simp add: nb1_def)
    with step have IH:
      "unat h' = (unat ?h + n) mod notif_N"
      "nb' = nb1\<lparr>nb_unreported_completions := nb_unreported_completions nb'
            , wrap_tracker := wrap_tracker nb'\<rparr>"
      "nb_unreported_completions nb' = nb_unreported_completions nb1 +
        of_nat (length (filter Not (ring_slice notif_N (bv_bit (wrap_tracker nb1)) (unat ?h) n)))"
      "\<forall>i < notif_N. bv_bit (wrap_tracker nb') i \<longleftrightarrow>
         bv_bit (wrap_tracker nb1) i \<and> n \<le> ring_dist notif_N (unat ?h) i"
      unfolding n_def by simp_all metis+
    have bits: "bv_bit (bv_clear w (unat h)) = (bv_bit w)(unat h := False)" for w
      by (rule ext) simp
    have slice: "ring_slice notif_N (bv_bit (wrap_tracker nb1)) (unat ?h) n
        = ring_slice notif_N (bv_bit (wrap_tracker nb)) (Suc (unat h)) n"
      using ring_slice_upd_begin [OF small, of "bv_bit (wrap_tracker nb)" "unat h" False] Suc.prems
      by (simp add: nb1_def bits h)
    have dist: "i < notif_N \<Longrightarrow> i \<noteq> unat h \<Longrightarrow>
        ring_dist notif_N (unat h) i = Suc (ring_dist notif_N (unat ?h) i)" for i
      using ring_dist_inc_head [of "unat h" notif_N i] Suc.prems h by simp
    show ?thesis
      unfolding n
    proof (intro conjI allI impI)
      show "unat h' = (unat h + Suc n) mod notif_N" using IH(1) h by (simp add: mod_add_left_eq)
      show "nb' = nb\<lparr>nb_unreported_completions := nb_unreported_completions nb'
            , wrap_tracker := wrap_tracker nb'\<rparr>"
        using IH(2) by (simp add: nb1_def)
      show "nb_unreported_completions nb' = nb_unreported_completions nb + of_nat (length
          (filter Not (ring_slice notif_N (bv_bit (wrap_tracker nb)) (unat h) (Suc n))))"
        using IH(3) Suc.prems unfolding slice by (simp add: nb1_def ring_slice_Cons)
      fix i assume "i < notif_N"
      then show "bv_bit (wrap_tracker nb') i \<longleftrightarrow>
          bv_bit (wrap_tracker nb) i \<and> Suc n \<le> ring_dist notif_N (unat h) i"
        using IH(4) dist [of i] by (cases "i = unat h") (simp_all add: nb1_def)
    qed
  qed
qed

section \<open>Reclaiming consumed notifications\<close>

lemma nic_poll_simps [simp]:
  "nb_tx_head (nic_poll nic nb) = nb_tx_head nb" "nb_tx_tail (nic_poll nic nb) = nb_tx_tail nb"
  "nb_regs (nic_poll nic nb) = nb_regs nb" "wrap_tracker (nic_poll nic nb) = wrap_tracker nb"
  "nb_unreported_completions (nic_poll nic nb) = nb_unreported_completions nb"
  "nb_tx_buf (nic_poll nic nb) = nic nb" "nb_polls (nic_poll nic nb) = Suc (nb_polls nb)"
  by (simp_all add: nic_poll_def)

definition tx_reclaimed :: "nic \<Rightarrow> NotificationBufPair \<Rightarrow> nat" where
  "tx_reclaimed nic nb = tx_done kBatchSize (nic nb) (unat (nb_tx_head nb)) (tx_used nb (nb_tx_tail nb))"

lemma tx_reclaimed_le: "tx_reclaimed nic nb \<le> tx_used nb (nb_tx_tail nb)"
  using tx_done_le [of kBatchSize "nic nb" "unat (nb_tx_head nb)"] unfolding tx_reclaimed_def
  by (metis min.bounded_iff)

text \<open>The effect of one call, independent of the tail in use.\<close>

lemma update_tx_head_spec:
  fixes nic :: nic and nb :: NotificationBufPair
  assumes "unat (nb_tx_head nb) < notif_N" "unat (nb_tx_tail nb) < notif_N"
  defines "n \<equiv> tx_reclaimed nic nb" and "nb' \<equiv> update_tx_head nic nb"
  shows "unat (nb_tx_head nb') = (unat (nb_tx_head nb) + n) mod notif_N"
    and "nb' = (nic_poll nic nb)\<lparr>nb_unreported_completions := nb_unreported_completions nb',
            wrap_tracker := wrap_tracker nb', nb_tx_head := nb_tx_head nb'\<rparr>"
    and "nb_unreported_completions nb' = nb_unreported_completions nb + of_nat (length (filter Not
            (ring_slice notif_N (bv_bit (wrap_tracker nb)) (unat (nb_tx_head nb)) n)))"
    and "\<forall>i < notif_N. bv_bit (wrap_tracker nb') i \<longleftrightarrow> bv_bit (wrap_tracker nb) i \<and>
            n \<le> ring_dist notif_N (unat (nb_tx_head nb)) i"
proof -
  let ?h = "nb_tx_head nb" and ?t = "nb_tx_tail nb"
  obtain nb1 h1 where loop: "update_tx_head_loop kBatchSize (nic_poll nic nb) ?h ?t = (nb1, h1)"
    by fastforce
  note spec = update_tx_head_loop_spec [OF assms(1,2) loop]
  have n: "n = tx_done kBatchSize (nic nb) (unat ?h) (ring_dist notif_N (unat ?h) (unat ?t))"
    by (simp add: n_def tx_reclaimed_def)
  have nb': "nb' = (if ?h = ?t then nic_poll nic nb else nb1\<lparr>nb_tx_head := h1\<rparr>)"
    by (simp add: nb'_def update_tx_head_def loop Let_def)
  have stay: "?h = ?t \<Longrightarrow> n = 0" by (simp add: n)
  show "unat (nb_tx_head nb') = (unat ?h + n) mod notif_N"
  proof (cases "?h = ?t")
    case True
    then show ?thesis using stay assms(2) unfolding nb' by simp
  next
    case False
    then show ?thesis using spec [THEN conjunct1] unfolding nb' by (simp add: n)
  qed
  have frame: "nb1 = (nic_poll nic nb)\<lparr>nb_unreported_completions := nb_unreported_completions nb1,
            wrap_tracker := wrap_tracker nb1\<rparr>"
    using spec by blast
  show "nb' = (nic_poll nic nb)\<lparr>nb_unreported_completions := nb_unreported_completions nb',
            wrap_tracker := wrap_tracker nb', nb_tx_head := nb_tx_head nb'\<rparr>"
    unfolding nb' using frame by (auto simp: nic_poll_def)
  show "nb_unreported_completions nb' = nb_unreported_completions nb + of_nat (length (filter Not
            (ring_slice notif_N (bv_bit (wrap_tracker nb)) (unat ?h) n)))"
    using spec stay unfolding nb' by (cases "?h = ?t") (simp_all add: n)
  show "\<forall>i < notif_N. bv_bit (wrap_tracker nb') i \<longleftrightarrow> bv_bit (wrap_tracker nb) i \<and>
            n \<le> ring_dist notif_N (unat ?h) i"
    using spec stay unfolding nb' by (cases "?h = ?t") (simp_all add: n)
qed

lemma update_tx_head_frame [simp]:
  assumes "unat (nb_tx_head nb) < notif_N" "unat (nb_tx_tail nb) < notif_N"
  shows "nb_tx_tail (update_tx_head nic nb) = nb_tx_tail nb"
    and "nb_regs (update_tx_head nic nb) = nb_regs nb"
    and "nb_tx_buf (update_tx_head nic nb) = nic nb"
    and "nb_polls (update_tx_head nic nb) = Suc (nb_polls nb)"
  by (subst update_tx_head_spec(2) [OF assms], simp)+

lemma tx_inv_D:
  assumes "tx_inv nb tail"
  shows "unat (nb_tx_head nb) < notif_N" "unat (nb_tx_tail nb) < notif_N" "unat tail < notif_N"
    "reg_tx_tail (nb_regs nb) = nb_tx_tail nb" "tx_used nb (nb_tx_tail nb) \<le> tx_used nb tail"
  using assms by (simp_all add: tx_inv_def)

text \<open>After a call the window starts \<open>n\<close> slots later: distances shrink by \<open>n\<close>.\<close>

lemma update_tx_head_used:
  assumes "unat (nb_tx_head nb) < notif_N" "unat (nb_tx_tail nb) < notif_N" "i < notif_N"
    and "tx_reclaimed nic nb \<le> ring_dist notif_N (unat (nb_tx_head nb)) i"
  shows "ring_dist notif_N (unat (nb_tx_head (update_tx_head nic nb))) i
    = ring_dist notif_N (unat (nb_tx_head nb)) i - tx_reclaimed nic nb"
  using assms by (simp add: update_tx_head_spec(1) ring_dist_advance)

lemma update_tx_head_wraps:
  assumes inv: "tx_inv nb tail"
  shows "tx_wraps (update_tx_head nic nb) tail = drop (tx_reclaimed nic nb) (tx_wraps nb tail)"
proof -
  let ?n = "tx_reclaimed nic nb" and ?h = "unat (nb_tx_head nb)" and ?d = "tx_used nb tail"
  let ?nb = "update_tx_head nic nb"
  note hd = tx_inv_D [OF inv]
  have n: "?n \<le> ?d" using tx_reclaimed_le hd(5) by (rule order_trans)
  have dN: "?d < notif_N" by (rule ring_dist_less) simp
  have "ring_slice notif_N (bv_bit (wrap_tracker ?nb)) (?h + ?n) (?d - ?n)
      = ring_slice notif_N (bv_bit (wrap_tracker nb)) (?h + ?n) (?d - ?n)"
  proof (rule ring_slice_cong)
    fix i assume "i < ?d - ?n"
    then have "?n + i < notif_N" using dN by linarith
    then have "ring_dist notif_N ?h ((?h + (?n + i)) mod notif_N) = ?n + i"
      using hd by (intro ring_dist_add)
    then show "bv_bit (wrap_tracker ?nb) ((?h + ?n + i) mod notif_N)
        = bv_bit (wrap_tracker nb) ((?h + ?n + i) mod notif_N)"
      using update_tx_head_spec(4) [OF hd(1,2), of nic] by (simp add: add.assoc)
  qed
  then show ?thesis
    using n hd update_tx_head_used [OF hd(1,2,3), of nic]
    by (simp add: tx_wraps_def update_tx_head_spec(1) ring_slice_drop)
qed

lemma tx_credit_update:
  assumes inv: "tx_inv nb tail"
  shows "tx_credit (update_tx_head nic nb) tail = tx_credit nb tail"
proof -
  let ?n = "tx_reclaimed nic nb" and ?ws = "tx_wraps nb tail"
  note hd = tx_inv_D [OF inv]
  have n: "?n \<le> tx_used nb tail" using tx_reclaimed_le hd(5) by (rule order_trans)
  then have front: "ring_slice notif_N (bv_bit (wrap_tracker nb)) (unat (nb_tx_head nb)) ?n = take ?n ?ws"
    using ring_slice_take [of notif_N "bv_bit (wrap_tracker nb)" "unat (nb_tx_head nb)" ?n "tx_used nb tail"]
    by (simp add: tx_wraps_def min_absorb1)
  have "length (filter Not ?ws) = length (filter Not (take ?n ?ws)) + length (filter Not (drop ?n ?ws))"
    by (metis append_take_drop_id filter_append length_append)
  then show ?thesis
    by (simp add: tx_credit_def update_tx_head_wraps [OF inv] update_tx_head_spec(3) [OF hd(1,2)] front)
qed

lemma tx_inv_update:
  assumes inv: "tx_inv nb tail"
  shows "tx_inv (update_tx_head nic nb) tail"
proof -
  let ?n = "tx_reclaimed nic nb" and ?h = "unat (nb_tx_head nb)"
  let ?nb = "update_tx_head nic nb"
  note hd = tx_inv_D [OF inv]
  note n = tx_reclaimed_le [of nic nb]
  have n': "?n \<le> tx_used nb tail" using n hd(5) by (rule order_trans)
  have "unat (nb_tx_head ?nb) < notif_N" by (simp add: update_tx_head_spec(1) [OF hd(1,2)])
  moreover have "tx_used ?nb (nb_tx_tail nb) \<le> tx_used ?nb tail"
    using n n' hd by (simp add: update_tx_head_used)
  moreover have "\<not> bv_bit (wrap_tracker ?nb) i"
    if i: "i < notif_N" and far: "tx_used ?nb tail \<le> ring_dist notif_N (unat (nb_tx_head ?nb)) i" for i
  proof (cases "?n \<le> ring_dist notif_N ?h i")
    case True
    then have "tx_used nb tail \<le> ring_dist notif_N ?h i"
      using far n' i hd by (simp add: update_tx_head_used)
    then show ?thesis
      using inv i update_tx_head_spec(4) [OF hd(1,2), of nic] by (simp add: tx_inv_def)
  next
    case False
    then show ?thesis using i update_tx_head_spec(4) [OF hd(1,2), of nic] by simp
  qed
  ultimately show ?thesis using hd by (simp add: tx_inv_def)
qed

text \<open>What polling leaves alone: everything from the published tail on.\<close>

lemma update_tx_head_unpublished:
  assumes "tx_inv nb tail" "nic_consumes nic" "i < notif_N"
    and "tx_used nb (nb_tx_tail nb) \<le> ring_dist notif_N (unat (nb_tx_head nb)) i"
  shows "nb_tx_buf (update_tx_head nic nb) i = nb_tx_buf nb i"
    and "bv_bit (wrap_tracker (update_tx_head nic nb)) i = bv_bit (wrap_tracker nb) i"
proof -
  note hd = tx_inv_D [OF assms(1)]
  have "\<not> published nb i" using assms(4) hd by (simp add: published_def)
  then show "nb_tx_buf (update_tx_head nic nb) i = nb_tx_buf nb i"
    using assms(2) hd by (auto simp: nic_consumes_def)
  show "bv_bit (wrap_tracker (update_tx_head nic nb)) i = bv_bit (wrap_tracker nb) i"
    using update_tx_head_spec(4) [OF hd(1,2), of nic] tx_reclaimed_le [of nic nb] assms(3,4)
    by (meson order_trans)
qed

section \<open>Waiting for a free slot\<close>

text \<open>
  \<open>tx_unsent\<close> are the notifications written after the published tail, as signal, address and
  length: the part of a transmission in progress that the NIC does not see yet.
\<close>

definition tx_triple :: "TxNotification \<Rightarrow> u64 \<times> u64 \<times> u64" where
  "tx_triple n = (tx_signal n, tx_phys_addr n, tx_length n)"

definition tx_unsent :: "NotificationBufPair \<Rightarrow> u32 \<Rightarrow> (u64 \<times> u64 \<times> u64) list" where
  "tx_unsent nb t = map tx_triple (ring_slice notif_N (nb_tx_buf nb) (unat (nb_tx_tail nb))
     (ring_dist notif_N (unat (nb_tx_tail nb)) (unat t)))"

lemma tx_inv_full_cnt [simp]:
  "tx_inv (nb\<lparr>tx_full_cnt := c\<rparr>) t = tx_inv nb t"
  "tx_credit (nb\<lparr>tx_full_cnt := c\<rparr>) t = tx_credit nb t"
  "tx_unsent (nb\<lparr>tx_full_cnt := c\<rparr>) t = tx_unsent nb t"
  by (simp_all add: tx_inv_def tx_credit_def tx_wraps_def tx_unsent_def)

lemma tx_inv_dist:
  assumes "tx_inv nb t"
  shows "ring_dist notif_N (unat (nb_tx_tail nb)) (unat t) = tx_used nb t - tx_used nb (nb_tx_tail nb)"
proof -
  note hd = tx_inv_D [OF assms]
  have "unat (nb_tx_tail nb) = (unat (nb_tx_head nb) + tx_used nb (nb_tx_tail nb)) mod notif_N"
    using hd by simp
  then show ?thesis using ring_dist_advance [OF hd(1,3,5)] by simp
qed

lemma tx_unsent_update:
  assumes "tx_inv nb t" "nic_consumes nic"
  shows "tx_unsent (update_tx_head nic nb) t = tx_unsent nb t"
proof -
  note hd = tx_inv_D [OF assms(1)]
  let ?h = "unat (nb_tx_head nb)" and ?l = "unat (nb_tx_tail nb)"
  let ?u = "tx_used nb (nb_tx_tail nb)" and ?d = "ring_dist notif_N (unat (nb_tx_tail nb)) (unat t)"
  have lt: "tx_used nb t < notif_N" by (rule ring_dist_less) simp
  have "ring_slice notif_N (nb_tx_buf (update_tx_head nic nb)) ?l ?d = ring_slice notif_N (nb_tx_buf nb) ?l ?d"
  proof (rule ring_slice_cong)
    fix i assume i: "i < ?d"
    have "?l = (?h + ?u) mod notif_N" using hd by simp
    then have "(?l + i) mod notif_N = (?h + (?u + i)) mod notif_N"
      by (metis mod_add_left_eq add.assoc)
    moreover have "?u + i < notif_N" using i lt tx_inv_dist [OF assms(1)] by linarith
    ultimately have "ring_dist notif_N ?h ((?l + i) mod notif_N) = ?u + i"
      using hd ring_dist_add by simp
    then show "nb_tx_buf (update_tx_head nic nb) ((?l + i) mod notif_N) = nb_tx_buf nb ((?l + i) mod notif_N)"
      using assms by (intro update_tx_head_unpublished(1)) simp_all
  qed
  then show ?thesis using hd by (simp add: tx_unsent_def)
qed

lemma wait_free_slot_invariant:
  assumes "wait_free_slot nic nb t = Some nb'" "P nb"
    and "\<And>nb. P nb \<Longrightarrow> tx_free_slots nb t = 0 \<Longrightarrow>
      P (update_tx_head nic (nb\<lparr>tx_full_cnt := tx_full_cnt nb + 1\<rparr>))"
  shows "P nb' \<and> tx_free_slots nb' t \<noteq> 0"
proof -
  have "nic' = nic \<and> t' = t \<and> P nb \<longrightarrow> P nb' \<and> tx_free_slots nb' t' \<noteq> 0"
    if "wait_free_slot nic' nb t' = Some nb'" for nic' nb t' nb'
    using _ that
  proof (rule wait_free_slot.raw_induct)
    fix wait nic' nb t' nb'
    assume IH: "\<And>nic' nb t' nb'. wait nic' nb t' = Some nb' \<Longrightarrow>
        nic' = nic \<and> t' = t \<and> P nb \<longrightarrow> P nb' \<and> tx_free_slots nb' t' \<noteq> 0"
      and "(if tx_free_slots nb t' = 0
            then wait nic' (update_tx_head nic' (nb\<lparr>tx_full_cnt := tx_full_cnt nb + 1\<rparr>)) t'
            else Some nb) = Some nb'"
    then show "nic' = nic \<and> t' = t \<and> P nb \<longrightarrow> P nb' \<and> tx_free_slots nb' t' \<noteq> 0"
      using assms(3) by (metis option.inject)
  qed
  with assms(1,2) show ?thesis by blast
qed

lemma wait_free_slot_spec:
  assumes "wait_free_slot nic nb t = Some nb'" "tx_inv nb t" "nic_consumes nic"
  shows "tx_inv nb' t \<and> tx_credit nb' t = tx_credit nb t \<and> tx_unsent nb' t = tx_unsent nb t \<and>
    nb_tx_tail nb' = nb_tx_tail nb \<and> nb_regs nb' = nb_regs nb \<and> tx_free_slots nb' t \<noteq> 0"
proof -
  let ?P = "\<lambda>nb'. tx_inv nb' t \<and> tx_credit nb' t = tx_credit nb t \<and> tx_unsent nb' t = tx_unsent nb t \<and>
    nb_tx_tail nb' = nb_tx_tail nb \<and> nb_regs nb' = nb_regs nb"
  have "?P (update_tx_head nic (nb1\<lparr>tx_full_cnt := tx_full_cnt nb1 + 1\<rparr>))" if "?P nb1" for nb1
  proof -
    let ?nb = "nb1\<lparr>tx_full_cnt := tx_full_cnt nb1 + 1\<rparr>"
    have inv: "tx_inv ?nb t" using that by simp
    then show ?thesis
      using that tx_inv_update [OF inv] tx_inv_D(1,2) [OF inv] assms(3)
      by (simp add: tx_credit_update [OF inv] tx_unsent_update [OF inv])
  qed
  from wait_free_slot_invariant [OF assms(1), of ?P] this show ?thesis using assms(2) by blast
qed

lemma tx_free_slots_eq:
  assumes "tx_inv nb t"
  shows "unat (tx_free_slots nb t) = notif_N - 1 - tx_used nb t"
  using tx_inv_D [OF assms] unfolding tx_free_slots_def by (intro notif_ring.free)

lemma tx_free_slots_0: "tx_inv nb t \<Longrightarrow> tx_free_slots nb t = 0 \<longleftrightarrow> tx_used nb t = notif_N - 1"
  using tx_free_slots_eq [of nb t] ring_dist_less [of notif_N "unat (nb_tx_head nb)" "unat t"]
  by (auto simp: unat_eq_0 simp del: ring_dist_less)

section \<open>Writing one notification\<close>

lemma put_tx_request_simps [simp]:
  "nb_tx_tail (put_tx_request nb t a r m) = nb_tx_tail nb"
  "nb_tx_head (put_tx_request nb t a r m) = nb_tx_head nb"
  "nb_regs (put_tx_request nb t a r m) = nb_regs nb"
  "nb_unreported_completions (put_tx_request nb t a r m) = nb_unreported_completions nb"
  "nb_polls (put_tx_request nb t a r m) = nb_polls nb"
  by (simp_all add: put_tx_request_eq)

lemma put_tx_request_step:
  fixes nb :: NotificationBufPair and t r m :: u32 and a :: u64
  assumes inv: "tx_inv nb t" and free: "tx_free_slots nb t \<noteq> 0"
  defines "nb' \<equiv> put_tx_request nb t a r m" and "t' \<equiv> (t + 1) mod kNotificationBufSize"
  shows "tx_inv nb' t'" and "tx_credit nb' t' = tx_credit nb t + (if r < m then 0 else 1)"
    and "tx_unsent nb' t' = tx_unsent nb t @ [(1, a, ucast r)]"
    and "tx_wraps nb' t' = tx_wraps nb t @ [r < m]"
proof -
  note hd = tx_inv_D [OF inv]
  let ?h = "unat (nb_tx_head nb)" and ?l = "unat (nb_tx_tail nb)" and ?t = "unat t"
  let ?u = "tx_used nb t"
  have t': "unat t' = Suc ?t mod notif_N" by (simp add: t'_def notif_ring.inc)
  have "?u < notif_N" by (rule ring_dist_less) simp
  moreover have "?u \<noteq> notif_N - 1" using free inv by (simp add: tx_free_slots_0)
  ultimately have room: "Suc ?u < notif_N" by linarith
  have u': "tx_used nb' t' = Suc ?u"
    using ring_dist_inc_tail [OF hd(1,3) room] by (simp add: nb'_def t')
  have d: "ring_dist notif_N ?l ?t \<le> ?u" using tx_inv_dist [OF inv] by simp
  have d': "ring_dist notif_N ?l (unat t') = Suc (ring_dist notif_N ?l ?t)"
    using ring_dist_inc_tail [OF hd(2,3)] d room by (simp add: t')
  have here: "?t = (?h + ?u) mod notif_N" "?t = (?l + ring_dist notif_N ?l ?t) mod notif_N"
    using hd by simp_all
  have bits: "bv_bit (wrap_tracker nb') = (if r < m then (bv_bit (wrap_tracker nb))(?t := True)
      else bv_bit (wrap_tracker nb))"
    by (rule ext) (simp add: nb'_def put_tx_request_eq)
  have "\<not> bv_bit (wrap_tracker nb) ?t" using inv hd(3) by (simp add: tx_inv_def)
  then have bits': "bv_bit (wrap_tracker nb') = (bv_bit (wrap_tracker nb))(?t := r < m)"
    by (simp add: bits fun_upd_idem)
  have far: "i \<noteq> ?t" if "Suc ?u \<le> ring_dist notif_N ?h i" for i using that by auto
  show "tx_inv nb' t'"
    using inv far hd unfolding tx_inv_def u' by (simp add: nb'_def [symmetric] bits' u')
       (auto simp: nb'_def t' tx_inv_def)
  show wraps: "tx_wraps nb' t' = tx_wraps nb t @ [r < m]"
    using ring_slice_upd_end [of ?u notif_N "bv_bit (wrap_tracker nb)" ?h "r < m"] room here(1)
    unfolding tx_wraps_def u' by (simp add: ring_slice_snoc bits') (simp add: nb'_def)
  from wraps show "tx_credit nb' t' = tx_credit nb t + (if r < m then 0 else 1)"
    by (simp add: tx_credit_def) (simp add: nb'_def)
  have "ring_dist notif_N ?l ?t < notif_N" by (rule ring_dist_less) simp
  then have "ring_slice notif_N (nb_tx_buf nb') ?l (Suc (ring_dist notif_N ?l ?t))
      = ring_slice notif_N (nb_tx_buf nb) ?l (ring_dist notif_N ?l ?t) @ [nb_tx_buf nb' ?t]"
    using ring_slice_upd_end [of "ring_dist notif_N ?l ?t" notif_N "nb_tx_buf nb" ?l "nb_tx_buf nb' ?t"] here(2)
    by (simp add: ring_slice_snoc) (simp add: nb'_def put_tx_request_eq)
  then show "tx_unsent nb' t' = tx_unsent nb t @ [(1, a, ucast r)]"
    by (simp add: tx_unsent_def d' nb'_def) (simp add: put_tx_request_eq tx_triple_def)
qed

section \<open>How a transmission is split\<close>

text \<open>
  The specification of the split: pieces of at most \<^verbatim>\<open>kMaxTransferLen\<close> bytes that never cross
  the end of the 2 MiB buffer page, as offsets and lengths.
\<close>

abbreviation page_N :: nat where "page_N \<equiv> 2097152"

definition piece_len :: "nat \<Rightarrow> nat \<Rightarrow> nat" where
  "piece_len off m = min (min m 131072) (page_N - off)"

function tx_split :: "nat \<Rightarrow> nat \<Rightarrow> (nat \<times> nat) list" where
  "tx_split off m =
     (if piece_len off m = 0 then []
      else (off, piece_len off m) # tx_split ((off + piece_len off m) mod page_N) (m - piece_len off m))"
  by pat_completeness auto
termination by (relation "measure snd") (auto simp: piece_len_def)

declare tx_split.simps [simp del]

definition circ_bytes :: "nat \<Rightarrow> nat \<Rightarrow> nat list" where
  "circ_bytes off m = map (\<lambda>i. (off + i) mod page_N) [0..<m]"

lemma piece_len_bounds:
  "off < page_N \<Longrightarrow> 0 < m \<Longrightarrow> 0 < piece_len off m" "piece_len off m \<le> m"
  "piece_len off m \<le> 131072" "off < page_N \<Longrightarrow> off + piece_len off m \<le> page_N"
  by (simp_all add: piece_len_def)

lemma tx_split_0 [simp]: "tx_split off 0 = []"
  by (subst tx_split.simps) (simp add: piece_len_def)

lemma tx_split_step:
  assumes "off < page_N" "0 < m"
  shows "tx_split off m =
    (off, piece_len off m) # tx_split ((off + piece_len off m) mod page_N) (m - piece_len off m)"
  using piece_len_bounds(1) [OF assms] by (subst tx_split.simps) simp

lemma tx_split_induct [consumes 1, case_names zero step]:
  assumes "off < page_N"
    and zero: "\<And>off. off < page_N \<Longrightarrow> P off 0"
    and step: "\<And>off m. off < page_N \<Longrightarrow> 0 < m \<Longrightarrow>
      P ((off + piece_len off m) mod page_N) (m - piece_len off m) \<Longrightarrow> P off m"
  shows "P off m"
  using assms(1)
proof (induction m arbitrary: off rule: less_induct)
  case (less m)
  show ?case
  proof (cases "m = 0")
    case False
    then have "m - piece_len off m < m" using piece_len_bounds(1) [OF less.prems, of m] by linarith
    then have IH: "P ((off + piece_len off m) mod page_N) (m - piece_len off m)"
      by (rule less.IH) simp
    have "0 < m" using False by simp
    from step [OF less.prems this IH] show ?thesis .
  qed (use less zero in simp)
qed

lemma circ_bytes_append: "circ_bytes off (a + b) = circ_bytes off a @ circ_bytes ((off + a) mod page_N) b"
  by (intro nth_equalityI)
    (auto simp: circ_bytes_def nth_append mod_add_left_eq)

lemma circ_bytes_linear: "off + l \<le> page_N \<Longrightarrow> circ_bytes off l = [off..<off + l]"
  by (intro nth_equalityI) (auto simp: circ_bytes_def)

lemma tx_split_bytes:
  assumes "off < page_N"
  shows "concat (map (\<lambda>(o', l). [o'..<o' + l]) (tx_split off m)) = circ_bytes off m"
  using assms
proof (induction off m rule: tx_split_induct)
  case (zero off)
  show ?case by (simp add: circ_bytes_def)
next
  case (step off m)
  let ?l = "piece_len off m"
  have "circ_bytes off m = circ_bytes off ?l @ circ_bytes ((off + ?l) mod page_N) (m - ?l)"
    using circ_bytes_append [of off ?l "m - ?l"] piece_len_bounds(2) [of off m] by simp
  also have "circ_bytes off ?l = [off..<off + ?l]"
    using piece_len_bounds(4) [OF step(1)] by (rule circ_bytes_linear)
  finally show ?case using step.IH tx_split_step [OF step.hyps] by simp
qed

lemma tx_split_pieces:
  assumes "off < page_N" "(o', l) \<in> set (tx_split off m)"
  shows "0 < l \<and> l \<le> 131072 \<and> o' + l \<le> page_N"
  using assms
proof (induction off m rule: tx_split_induct)
  case (step off m)
  then consider "o' = off" "l = piece_len off m"
    | "(o', l) \<in> set (tx_split ((off + piece_len off m) mod page_N) (m - piece_len off m))"
    unfolding tx_split_step [OF step.hyps] by auto
  then show ?case using step.IH piece_len_bounds step.hyps by cases blast+
qed simp

lemma tx_split_length:
  assumes "off < page_N"
  shows "length (tx_split off m) \<le> m div 131072 + (off + m) div page_N + 1"
  using assms
proof (induction off m rule: tx_split_induct)
  case (step off m)
  define l where "l = piece_len off m"
  have split: "length (tx_split off m) = Suc (length (tx_split ((off + l) mod page_N) (m - l)))"
    unfolding tx_split_step [OF step.hyps] l_def by simp
  note b = piece_len_bounds(2) [of off m, folded l_def] piece_len_bounds(4) [OF step.hyps(1), of m, folded l_def]
  have IH: "length (tx_split ((off + l) mod page_N) (m - l))
      \<le> (m - l) div 131072 + ((off + l) mod page_N + (m - l)) div page_N + 1"
    using step.IH unfolding l_def .
  consider "l = m" | "l < m" "l = 131072" "off + l < page_N" | "l < m" "off + l = page_N"
    using b unfolding l_def piece_len_def by linarith
  then show ?case
  proof cases
    case 1
    then show ?thesis using split by simp
  next
    case 2
    then have "m div 131072 = Suc ((m - l) div 131072)" using b by (simp add: le_div_geq)
    with IH 2 split b show ?thesis by simp
  next
    case 3
    then have "(off + m) div page_N = Suc ((m - l) div page_N)"
      using div_add_self1 [of page_N "m - l"] b by simp
    moreover have "(m - l) div 131072 \<le> m div 131072" by (simp add: div_le_mono)
    ultimately show ?thesis using IH 3 split by simp
  qed
qed simp

section \<open>The send loop implements the split\<close>

lemma tx_req_length_eq:
  assumes "off < page_N"
  shows "unat (tx_req_length (base + of_nat off) (base + ucast kBufPageSize) m) = piece_len off (unat m)"
proof -
  have "(base + ucast kBufPageSize) - (base + of_nat off) = (of_nat (page_N - off) :: u64)"
    using assms by (simp add: kBufPageSize_def of_nat_diff)
  moreover have "unat (ucast (of_nat (page_N - off) :: u64) :: u32) = page_N - off"
    by (simp add: unsigned_ucast_eq unat_of_nat take_bit_nat_eq_self)
  ultimately show ?thesis
    by (simp add: tx_req_length_def piece_len_def kMaxTransferLen_def min_def word_le_nat_alt)
qed

lemma next_page_offset:
  fixes r :: u32
  assumes "off < page_N" "page_N dvd unat base"
  shows "(base + of_nat off + ucast r) mod ucast kBufPageSize = (of_nat ((off + unat r) mod page_N) :: u64)"
proof -
  have "unat (base + of_nat off + ucast r) mod page_N = (off + unat r) mod page_N"
  proof -
    have "unat (base + of_nat off + ucast r) mod page_N = (unat (base + of_nat off) + unat r) mod page_N"
      using unat_ring_add [of "ucast kBufPageSize" "base + of_nat off" "ucast r"]
      by (simp add: kBufPageSize_def unat_mod)
    moreover have "unat (base + of_nat off) mod page_N = (unat base + off) mod page_N"
      using unat_ring_add [of "ucast kBufPageSize" base "of_nat off"] assms(1)
      by (simp add: kBufPageSize_def unat_mod unat_of_nat_small)
    ultimately show ?thesis
      using assms by (metis (no_types, lifting) add.assoc dvd_imp_mod_0 mod_add_left_eq add_0)
  qed
  then have "unat ((base + of_nat off + ucast r) mod ucast kBufPageSize) = (off + unat r) mod page_N"
    by (simp add: unat_mod kBufPageSize_def)
  moreover have "unat (of_nat ((off + unat r) mod page_N) :: u64) = (off + unat r) mod page_N"
    by (rule unat_of_nat_small) (rule less_trans [of _ page_N], simp_all)
  ultimately show ?thesis by (simp add: word_unat_eq_iff)
qed

text \<open>The notifications the specification asks for, in a page at \<open>base\<close>.\<close>

definition tx_requests :: "u64 \<Rightarrow> nat \<Rightarrow> nat \<Rightarrow> (u64 \<times> u64 \<times> u64) list" where
  "tx_requests base off m = map (\<lambda>(o', l). (1, base + of_nat o', of_nat l)) (tx_split off m)"

lemma send_loop_unfold:
  assumes "off < page_N" "page_N dvd unat base" "m \<noteq> 0"
  defines "l \<equiv> piece_len off (unat m)"
  shows "send_loop nic nb t (base + of_nat off) base (base + ucast kBufPageSize) m =
    Option.bind (wait_free_slot nic nb t) (\<lambda>nb'.
      send_loop nic (put_tx_request nb' t (base + of_nat off) (of_nat l) m)
        ((t + 1) mod kNotificationBufSize) (base + of_nat ((off + l) mod page_N)) base
        (base + ucast kBufPageSize) (m - of_nat l))"
proof -
  have r: "tx_req_length (base + of_nat off) (base + ucast kBufPageSize) m = of_nat l"
    using arg_cong [OF tx_req_length_eq [OF assms(1), of base m], of "of_nat :: nat \<Rightarrow> u32"]
    by (simp add: l_def)
  have u: "unat (of_nat l :: u32) = l"
    using tx_req_length_eq [OF assms(1), of base m] r by (simp add: l_def)
  have next': "(base + of_nat off + ucast (of_nat l :: u32)) mod ucast kBufPageSize
      = (of_nat ((off + l) mod page_N) :: u64)"
    using next_page_offset [OF assms(1,2), of "of_nat l"] u by simp
  have "0 < m" using assms(3) by (simp add: word_gt_0)
  then show ?thesis by (subst send_loop.simps) (simp only: r next' Let_def if_True)
qed

lemma piece_len_word:
  fixes m :: u32
  shows "unat (of_nat (piece_len off (unat m)) :: u32) = piece_len off (unat m)"
    and "unat (m - of_nat (piece_len off (unat m))) = unat m - piece_len off (unat m)"
    and "(of_nat (piece_len off (unat m)) < m) \<longleftrightarrow> m - of_nat (piece_len off (unat m)) \<noteq> 0"
proof -
  let ?l = "piece_len off (unat m)"
  have le: "?l \<le> unat m" by (rule piece_len_bounds)
  then show u: "unat (of_nat ?l :: u32) = ?l"
    using unsigned_less [of m, where ?'a = nat] by (intro unat_of_nat_small) linarith
  with le have "of_nat ?l \<le> m" by (simp add: word_le_nat_alt)
  then show "unat (m - of_nat ?l) = unat m - ?l" using u by (simp add: unat_sub)
  show "(of_nat ?l < m) \<longleftrightarrow> m - of_nat ?l \<noteq> 0" using \<open>of_nat ?l \<le> m\<close> by auto
qed

lemma send_loop_spec:
  assumes "off < page_N" "page_N dvd unat base" "nic_consumes nic"
    and "send_loop nic nb t (base + of_nat off) base (base + ucast kBufPageSize) m = Some (nb', t')"
    and "tx_inv nb t"
  shows "tx_inv nb' t' \<and> tx_credit nb' t' = tx_credit nb t + (if m = 0 then 0 else 1) \<and>
    tx_unsent nb' t' = tx_unsent nb t @ tx_requests base off (unat m) \<and>
    nb_tx_tail nb' = nb_tx_tail nb \<and> nb_regs nb' = nb_regs nb"
  using assms(1,4,5)
proof (induction off "unat m" arbitrary: m nb t rule: tx_split_induct)
  case (zero off)
  then have "m = 0" by (simp add: unat_eq_0)
  with zero.prems show ?case by (subst (asm) send_loop.simps) (simp add: tx_requests_def)
next
  case (step off)
  let ?l = "piece_len off (unat m)" and ?a = "base + of_nat off"
  have m: "m \<noteq> 0" using step.hyps(2) by (simp add: unat_gt_0)
  from step.prems(1) obtain nb1 where wait: "wait_free_slot nic nb t = Some nb1"
    and rest: "send_loop nic (put_tx_request nb1 t ?a (of_nat ?l) m) ((t + 1) mod kNotificationBufSize)
      (base + of_nat ((off + ?l) mod page_N)) base (base + ucast kBufPageSize) (m - of_nat ?l) = Some (nb', t')"
    unfolding send_loop_unfold [OF step.hyps(1) assms(2) m]
    by (auto simp: bind_eq_Some_conv)
  note w = wait_free_slot_spec [OF wait step.prems(2) assms(3)]
  have inv1: "tx_inv nb1 t" and free: "tx_free_slots nb1 t \<noteq> 0" using w by blast+
  note put = put_tx_request_step [OF inv1 free, of ?a "of_nat ?l" m]
  have left: "unat m - ?l = unat (m - of_nat ?l)" by (simp add: piece_len_word)
  note IH = step.hyps(3) [OF left rest put(1)]
  have req: "tx_requests base off (unat m) =
      (1, ?a, of_nat ?l) # tx_requests base ((off + ?l) mod page_N) (unat m - ?l)"
    unfolding tx_requests_def tx_split_step [OF step.hyps(1,2)] by simp
  have len: "ucast (of_nat ?l :: u32) = (of_nat ?l :: u64)"
    using piece_len_word(1) [of off m] piece_len_bounds(3) [of off "unat m"]
    by (simp add: word_unat_eq_iff unat_of_nat_small)
  show ?case
    using IH w put(2,3) m unfolding req left by (auto simp: len piece_len_word(3))
qed

section \<open>Waits end when the NIC is fair\<close>

lemma tx_reclaimed_pos:
  assumes "tx_inv nb t" "nb_tx_head nb \<noteq> nb_tx_tail nb" "tx_signal (nic nb (unat (nb_tx_head nb))) = 0"
  shows "0 < tx_reclaimed nic nb"
proof -
  note hd = tx_inv_D [OF assms(1)]
  have "tx_used nb (nb_tx_tail nb) \<noteq> 0" using hd assms(2) by (simp add: word_unat_eq_iff)
  then obtain d where "tx_used nb (nb_tx_tail nb) = Suc d" using not0_implies_Suc by blast
  then show ?thesis
    using assms(3) hd(1) tx_done_Suc [of "unat (nb_tx_head nb)" 63 "nic nb" d]
    by (simp add: tx_reclaimed_def kBatchSize_def)
qed

lemma published_head:
  assumes "tx_inv nb t" "nb_tx_head nb \<noteq> nb_tx_tail nb"
  shows "published nb (unat (nb_tx_head nb))"
  using tx_inv_D [OF assms(1)] assms(2)
  by (simp add: published_def word_unat_eq_iff flip: neq0_conv)

text \<open>
  The loops that wait for the NIC all poll by \<^verbatim>\<open>update_tx_head\<close> and differ in what else they
  do between two polls. A \<open>tx_poller\<close> is the body of such a loop: it keeps the ring well formed and
  the tail where it is, counts one poll, and reclaims what the NIC has consumed in a buffer pair that
  has the same ring indices.
\<close>

locale tx_poller =
  fixes nic :: nic and tick :: "NotificationBufPair \<Rightarrow> NotificationBufPair"
  assumes inv_tick: "tx_inv nb t \<Longrightarrow> tx_inv (tick nb) t"
    and tail_tick: "tx_inv nb t \<Longrightarrow> nb_tx_tail (tick nb) = nb_tx_tail nb"
    and polls_tick: "tx_inv nb t \<Longrightarrow> nb_polls (tick nb) = Suc (nb_polls nb)"
    and used_tick: "tx_inv nb t \<Longrightarrow> \<exists>nb0. tx_inv nb0 t \<and> nb_tx_head nb0 = nb_tx_head nb \<and>
      nb_tx_tail nb0 = nb_tx_tail nb \<and> nb_polls nb0 = nb_polls nb \<and>
      unat (nb_tx_head (tick nb)) = (unat (nb_tx_head nb) + tx_reclaimed nic nb0) mod notif_N"
begin

lemma inv_ticks: "tx_inv nb t \<Longrightarrow> tx_inv ((tick ^^ k) nb) t"
  by (induction k) (simp_all add: inv_tick)

lemma tail_ticks: "tx_inv nb t \<Longrightarrow> nb_tx_tail ((tick ^^ k) nb) = nb_tx_tail nb"
  by (induction k) (simp_all add: tail_tick [OF inv_ticks])

lemma advance_tick:
  assumes "tx_inv nb t" "nb_tx_head nb0 = nb_tx_head nb" "nb_tx_tail nb0 = nb_tx_tail nb"
    and "unat (nb_tx_head (tick nb)) = (unat (nb_tx_head nb) + tx_reclaimed nic nb0) mod notif_N"
  shows "tx_used (tick nb) t = tx_used nb t - tx_reclaimed nic nb0" "tx_reclaimed nic nb0 \<le> tx_used nb t"
proof -
  note hd = tx_inv_D [OF assms(1)]
  show le: "tx_reclaimed nic nb0 \<le> tx_used nb t"
    using tx_reclaimed_le [of nic nb0] hd(5) assms(2,3) by simp
  show "tx_used (tick nb) t = tx_used nb t - tx_reclaimed nic nb0"
    unfolding assms(4) using hd(1,3) le by (rule ring_dist_advance)
qed

text \<open>A fair NIC makes the loop reclaim something, as long as something is published.\<close>

lemma progress:
  assumes fair: "nic_fair nic" and inv: "tx_inv nb t" and ne: "nb_tx_head nb \<noteq> nb_tx_tail nb"
  shows "\<exists>k. tx_used ((tick ^^ k) nb) t < tx_used nb t"
proof -
  let ?i = "unat (nb_tx_head nb)"
  from fair obtain T where T: "nb_polls nb \<le> T"
    "\<And>nb'. nb_polls nb' = T \<Longrightarrow> published nb' ?i \<Longrightarrow> tx_signal (nic nb' ?i) = 0"
    unfolding nic_fair_def by meson
  have "\<exists>k. tx_used ((tick ^^ k) nb) t < tx_used nb t"
    if "tx_inv nb t" "unat (nb_tx_head nb) = ?i" "nb_tx_head nb \<noteq> nb_tx_tail nb" "nb_polls nb + n = T"
    for n nb
    using that
  proof (induction n arbitrary: nb)
    case 0
    from used_tick [OF 0(1)] obtain nb0 where nb0: "tx_inv nb0 t" "nb_tx_head nb0 = nb_tx_head nb"
      "nb_tx_tail nb0 = nb_tx_tail nb" "nb_polls nb0 = nb_polls nb"
      "unat (nb_tx_head (tick nb)) = (unat (nb_tx_head nb) + tx_reclaimed nic nb0) mod notif_N" by blast
    have "tx_signal (nic nb0 (unat (nb_tx_head nb0))) = 0"
      using T(2) [of nb0] published_head [OF nb0(1)] 0(2-4) nb0 by simp
    then have "0 < tx_reclaimed nic nb0" using tx_reclaimed_pos [OF nb0(1)] 0(3) nb0 by simp
    then have "tx_used (tick nb) t < tx_used nb t"
      using advance_tick [OF 0(1) nb0(2,3,5)] by linarith
    then show ?case by (intro exI [of _ 1]) simp
  next
    case (Suc n)
    from used_tick [OF Suc(2)] obtain nb0 where nb0: "nb_tx_head nb0 = nb_tx_head nb"
      "nb_tx_tail nb0 = nb_tx_tail nb"
      "unat (nb_tx_head (tick nb)) = (unat (nb_tx_head nb) + tx_reclaimed nic nb0) mod notif_N" by blast
    show ?case
    proof (cases "tx_reclaimed nic nb0 = 0")
      case True
      have head: "unat (nb_tx_head (tick nb)) = unat (nb_tx_head nb)"
        using nb0(3) True tx_inv_D(1) [OF Suc(2)] by simp
      then have "nb_tx_head (tick nb) = nb_tx_head nb" by (simp add: word_unat_eq_iff)
      then have "\<exists>k. tx_used ((tick ^^ k) (tick nb)) t < tx_used (tick nb) t"
        using Suc(2-5) head tail_tick [OF Suc(2)] polls_tick [OF Suc(2)] inv_tick [OF Suc(2)]
        by (intro Suc.IH) simp_all
      then obtain k where "tx_used ((tick ^^ k) (tick nb)) t < tx_used (tick nb) t" ..
      moreover have "tx_used (tick nb) t = tx_used nb t" using head by simp
      ultimately show ?thesis by (intro exI [of _ "Suc k"]) (simp add: funpow_swap1)
    next
      case False
      then have "tx_used (tick nb) t < tx_used nb t"
        using advance_tick [OF Suc(2) nb0] by linarith
      then show ?thesis by (intro exI [of _ 1]) simp
    qed
  qed
  from this [of nb "T - nb_polls nb"] T(1) inv ne show ?thesis by simp
qed

text \<open>With a fair NIC the ring is empty after enough polls.\<close>

lemma drains:
  assumes "nic_fair nic" "tx_inv nb (nb_tx_tail nb)"
  shows "\<exists>k. nb_tx_head ((tick ^^ k) nb) = nb_tx_tail nb"
  using assms(2)
proof (induction "tx_used nb (nb_tx_tail nb)" arbitrary: nb rule: less_induct)
  case less
  show ?case
  proof (cases "nb_tx_head nb = nb_tx_tail nb")
    case True
    then show ?thesis by (intro exI [of _ 0]) simp
  next
    case False
    then obtain k where k: "tx_used ((tick ^^ k) nb) (nb_tx_tail nb) < tx_used nb (nb_tx_tail nb)"
      using progress [OF assms(1) less.prems] by blast
    let ?nb = "(tick ^^ k) nb"
    have tail: "nb_tx_tail ?nb = nb_tx_tail nb" by (rule tail_ticks) (rule less.prems)
    have "tx_inv ?nb (nb_tx_tail ?nb)" unfolding tail by (rule inv_ticks) (rule less.prems)
    from less.hyps [OF _ this] k tail
    obtain j where "nb_tx_head ((tick ^^ j) ?nb) = nb_tx_tail nb" by auto
    then show ?thesis by (intro exI [of _ "j + k"]) (simp add: funpow_add)
  qed
qed

end

text \<open>The loop body of \<open>wait_free_slot\<close>.\<close>

definition tx_tick :: "nic \<Rightarrow> NotificationBufPair \<Rightarrow> NotificationBufPair" where
  "tx_tick nic nb = update_tx_head nic (nb\<lparr>tx_full_cnt := tx_full_cnt nb + 1\<rparr>)"

interpretation full_wait: tx_poller nic "tx_tick nic" for nic
proof unfold_locales
  fix nb t assume inv: "tx_inv nb t"
  let ?nb = "nb\<lparr>tx_full_cnt := tx_full_cnt nb + 1\<rparr>"
  have inv': "tx_inv ?nb t" using inv by simp
  note hd = tx_inv_D [OF inv']
  show "tx_inv (tx_tick nic nb) t" using inv' by (simp add: tx_tick_def tx_inv_update)
  show "nb_tx_tail (tx_tick nic nb) = nb_tx_tail nb" "nb_polls (tx_tick nic nb) = Suc (nb_polls nb)"
    using hd by (simp_all add: tx_tick_def)
  show "\<exists>nb0. tx_inv nb0 t \<and> nb_tx_head nb0 = nb_tx_head nb \<and> nb_tx_tail nb0 = nb_tx_tail nb \<and>
      nb_polls nb0 = nb_polls nb \<and>
      unat (nb_tx_head (tx_tick nic nb)) = (unat (nb_tx_head nb) + tx_reclaimed nic nb0) mod notif_N"
    using inv' update_tx_head_spec(1) [OF hd(1,2), of nic]
    by (intro exI [of _ ?nb]) (simp add: tx_tick_def)
qed

interpretation poll: tx_poller nic "update_tx_head nic" for nic
proof unfold_locales
  fix nb t assume inv: "tx_inv nb t"
  note hd = tx_inv_D [OF inv]
  show "tx_inv (update_tx_head nic nb) t" using inv by (rule tx_inv_update)
  show "nb_tx_tail (update_tx_head nic nb) = nb_tx_tail nb"
    "nb_polls (update_tx_head nic nb) = Suc (nb_polls nb)" using hd by simp_all
  show "\<exists>nb0. tx_inv nb0 t \<and> nb_tx_head nb0 = nb_tx_head nb \<and> nb_tx_tail nb0 = nb_tx_tail nb \<and>
      nb_polls nb0 = nb_polls nb \<and>
      unat (nb_tx_head (update_tx_head nic nb)) = (unat (nb_tx_head nb) + tx_reclaimed nic nb0) mod notif_N"
    using inv update_tx_head_spec(1) [OF hd(1,2), of nic] by (intro exI [of _ nb]) simp
qed

lemma wait_free_slot_ticks:
  assumes "tx_free_slots ((tx_tick nic ^^ k) nb) t \<noteq> 0"
  shows "\<exists>nb'. wait_free_slot nic nb t = Some nb'"
  using assms
proof (induction k arbitrary: nb)
  case 0
  then show ?case by (subst wait_free_slot.simps) simp
next
  case (Suc k)
  then have "\<exists>nb'. wait_free_slot nic (tx_tick nic nb) t = Some nb'"
    by (intro Suc.IH) (simp add: funpow_swap1)
  then show ?case by (subst wait_free_slot.simps) (simp add: tx_tick_def)
qed

lemma wait_free_slot_ends:
  assumes "nic_fair nic" "tx_inv nb t" "nb_tx_head nb \<noteq> nb_tx_tail nb \<or> tx_free_slots nb t \<noteq> 0"
  shows "\<exists>nb'. wait_free_slot nic nb t = Some nb'"
proof (cases "tx_free_slots nb t = 0")
  case True
  with assms obtain k where k: "tx_used ((tx_tick nic ^^ k) nb) t < tx_used nb t"
    using full_wait.progress by blast
  moreover have "tx_used nb t < notif_N" by (rule ring_dist_less) simp
  ultimately have "tx_used ((tx_tick nic ^^ k) nb) t \<noteq> notif_N - 1" by linarith
  then have "tx_free_slots ((tx_tick nic ^^ k) nb) t \<noteq> 0"
    using tx_free_slots_0 [OF full_wait.inv_ticks [OF assms(2)]] by blast
  then show ?thesis by (rule wait_free_slot_ticks)
next
  case False
  then show ?thesis by (intro wait_free_slot_ticks [where k = 0]) simp
qed

lemma send_loop_ends:
  assumes "off < page_N" "page_N dvd unat base" "nic_fair nic" "tx_inv nb t"
    and "length (tx_unsent nb t) + length (tx_split off (unat m)) < notif_N"
  shows "\<exists>r. send_loop nic nb t (base + of_nat off) base (base + ucast kBufPageSize) m = Some r"
  using assms(1,4,5)
proof (induction off "unat m" arbitrary: m nb t rule: tx_split_induct)
  case (zero off)
  then have "m = 0" by (simp add: unat_eq_0)
  then show ?case by (subst send_loop.simps) simp
next
  case (step off)
  let ?l = "piece_len off (unat m)" and ?a = "base + of_nat off"
  have consumes: "nic_consumes nic" using assms(3) by (simp add: nic_fair_def)
  have m: "m \<noteq> 0" using step.hyps(2) by (simp add: unat_gt_0)
  have split: "length (tx_split off (unat m)) = Suc (length (tx_split ((off + ?l) mod page_N) (unat m - ?l)))"
    unfolding tx_split_step [OF step.hyps(1,2)] by simp
  have unsent: "tx_used nb t - tx_used nb (nb_tx_tail nb) < notif_N - 1"
    using step.prems(2) tx_inv_dist [OF step.prems(1)] split by (simp add: tx_unsent_def)
  have "nb_tx_head nb \<noteq> nb_tx_tail nb \<or> tx_free_slots nb t \<noteq> 0"
  proof (rule ccontr)
    assume "\<not> ?thesis"
    then have "tx_used nb (nb_tx_tail nb) = 0" "tx_used nb t = notif_N - 1"
      using tx_free_slots_0 [OF step.prems(1)] by simp_all
    with unsent show False by linarith
  qed
  from wait_free_slot_ends [OF assms(3) step.prems(1) this]
  obtain nb1 where wait: "wait_free_slot nic nb t = Some nb1" ..
  note w = wait_free_slot_spec [OF wait step.prems(1) consumes]
  have inv1: "tx_inv nb1 t" and free: "tx_free_slots nb1 t \<noteq> 0" using w by blast+
  note put = put_tx_request_step [OF inv1 free, of ?a "of_nat ?l" m]
  have left: "unat m - ?l = unat (m - of_nat ?l)" by (simp add: piece_len_word)
  have "length (tx_unsent (put_tx_request nb1 t ?a (of_nat ?l) m) ((t + 1) mod kNotificationBufSize))
      + length (tx_split ((off + ?l) mod page_N) (unat (m - of_nat ?l))) < notif_N"
    using put(3) w split step.prems(2) left by simp
  from step.hyps(3) [OF left put(1) this] show ?case
    unfolding send_loop_unfold [OF step.hyps(1) assms(2) m] by (simp add: wait)
qed

section \<open>A whole transmission\<close>

lemma page_base:
  fixes a :: u64
  defines "base \<equiv> a AND NOT (ucast kBufPageSize - 1)" and "off \<equiv> unat a mod page_N"
  shows "page_N dvd unat base" "base + of_nat off = a" "off < page_N"
proof -
  have m: "(ucast kBufPageSize - 1 :: u64) = mask 21"
    by (simp add: kBufPageSize_def mask_eq_exp_minus_1)
  have "unat base = unat a - unat a mod page_N"
    using unat_and_not_mask(1) [of "mask 21" 21 a] by (simp add: base_def m)
  then show "page_N dvd unat base" by (simp add: dvd_minus_mod)
  have "a AND mask 21 = of_nat off"
    using unat_and_mask [of "mask 21" 21 a] unsigned_less [of a, where ?'a = nat]
    by (simp add: word_unat_eq_iff off_def unat_of_nat_small less_imp_diff_less)
  then show "base + of_nat off = a"
    using unat_and_not_mask(2) [of "mask 21" 21 a] by (simp add: base_def m)
  show "off < page_N" by (simp add: off_def)
qed

lemma publish_simps [simp]:
  "nb_tx_tail (publish_tx_tail nb t) = t" "nb_tx_head (publish_tx_tail nb t) = nb_tx_head nb"
  "nb_tx_buf (publish_tx_tail nb t) = nb_tx_buf nb" "tx_credit (publish_tx_tail nb t) t' = tx_credit nb t'"
  "reg_tx_tail (nb_regs (publish_tx_tail nb t)) = t" "nb_polls (publish_tx_tail nb t) = nb_polls nb"
  "nb_unreported_completions (publish_tx_tail nb t) = nb_unreported_completions nb"
  "wrap_tracker (publish_tx_tail nb t) = wrap_tracker nb"
  by (simp_all add: publish_tx_tail_def tx_credit_def tx_wraps_def)

lemma tx_inv_publish: "tx_inv nb t \<Longrightarrow> tx_inv (publish_tx_tail nb t) t"
  by (simp add: tx_inv_def)

text \<open>What a transmission that returns has done.\<close>

lemma send_to_queue_spec:
  fixes addr :: u64 and len :: u32
  assumes "nic_consumes nic" "tx_inv nb (nb_tx_tail nb)" "send_to_queue nic nb addr len = Some (r, nb')"
  defines "off \<equiv> unat addr mod page_N"
  defines "ps \<equiv> tx_split off (unat len)"
  shows "r = len" and "tx_inv nb' (nb_tx_tail nb')"
    and "tx_credit nb' (nb_tx_tail nb') = tx_credit nb (nb_tx_tail nb) + (if len = 0 then 0 else 1)"
    and "unat (nb_tx_tail nb') = (unat (nb_tx_tail nb) + length ps) mod notif_N"
    and "map tx_triple (ring_slice notif_N (nb_tx_buf nb') (unat (nb_tx_tail nb)) (length ps)) =
      map (\<lambda>(o', l). (1, addr - of_nat off + of_nat o', of_nat l)) ps"
proof -
  let ?base = "addr AND NOT (ucast kBufPageSize - 1)"
  note pg = page_base [of addr, folded off_def]
  from assms(3) obtain nb1 t1 where
    loop: "send_loop nic nb (nb_tx_tail nb) addr ?base (?base + ucast kBufPageSize) len = Some (nb1, t1)"
    and r: "r = len" and nb': "nb' = publish_tx_tail nb1 t1"
    by (auto simp: send_to_queue_def Let_def)
  have base: "?base = addr - of_nat off" using pg(2) by (simp add: eq_diff_eq)
  note spec = send_loop_spec [OF pg(3,1) assms(1) _ assms(2), of len nb1 t1, unfolded pg(2), OF loop]
  note hd = tx_inv_D [OF spec [THEN conjunct1]]
  show "r = len" by (rule r)
  show "tx_inv nb' (nb_tx_tail nb')" using spec by (simp add: nb' tx_inv_publish)
  show "tx_credit nb' (nb_tx_tail nb') = tx_credit nb (nb_tx_tail nb) + (if len = 0 then 0 else 1)"
    using spec by (simp add: nb')
  have "tx_unsent nb (nb_tx_tail nb) = []" by (simp add: tx_unsent_def)
  then have unsent: "tx_unsent nb1 t1 = tx_requests ?base off (unat len)" using spec by simp
  have tail: "nb_tx_tail nb1 = nb_tx_tail nb" using spec by blast
  have dist: "ring_dist notif_N (unat (nb_tx_tail nb)) (unat t1) = length ps"
    using arg_cong [OF unsent, of length] tail by (simp add: tx_unsent_def tx_requests_def ps_def)
  have "(unat (nb_tx_tail nb) + ring_dist notif_N (unat (nb_tx_tail nb)) (unat t1)) mod notif_N = unat t1"
    using hd tail by (intro ring_dist_reach) simp_all
  then show "unat (nb_tx_tail nb') = (unat (nb_tx_tail nb) + length ps) mod notif_N"
    by (simp add: nb' dist)
  show "map tx_triple (ring_slice notif_N (nb_tx_buf nb') (unat (nb_tx_tail nb)) (length ps)) =
      map (\<lambda>(o', l). (1, addr - of_nat off + of_nat o', of_nat l)) ps"
    using unsent tail by (simp add: nb' tx_unsent_def dist tx_requests_def ps_def base)
qed

lemma send_to_queue_ends:
  assumes "nic_fair nic" "tx_inv nb (nb_tx_tail nb)" "unat len \<le> 2 ^ 30"
  shows "\<exists>nb'. send_to_queue nic nb addr len = Some (len, nb')"
proof -
  let ?base = "addr AND NOT (ucast kBufPageSize - 1)"
  note pg = page_base [of addr]
  have "unat len div 131072 \<le> 2 ^ 30 div 131072" using assms(3) by (rule div_le_mono)
  moreover have "(unat addr mod page_N + unat len) div page_N \<le> (page_N + 2 ^ 30) div page_N"
    using assms(3) pg(3) by (intro div_le_mono add_mono) simp_all
  ultimately have "length (tx_split (unat addr mod page_N) (unat len)) < notif_N"
    using tx_split_length [OF pg(3), of "unat len"] by simp
  then have "length (tx_unsent nb (nb_tx_tail nb)) + length (tx_split (unat addr mod page_N) (unat len)) < notif_N"
    by (simp add: tx_unsent_def)
  from send_loop_ends [OF pg(3,1) assms(1,2) this, unfolded pg(2)]
  show ?thesis by (auto simp: send_to_queue_def Let_def)
qed

section \<open>Properties\<close>

text \<open>
  C9: Sending. With a NIC that keeps consuming what is published, a transmission of up to 1 GiB
  always returns, and what it leaves in the TX ring from the old tail on is the transmission: every
  notification has its signal set, is at most 128 KiB long and stays inside the 2 MiB page, and the
  byte offsets of the notifications one after the other are exactly those of the circular buffer,
  from the start address on, each once and in order. The tail, in memory and in the NIC's register,
  is behind the last one.
\<close>

theorem send_to_queue_correct:
  assumes "nic_fair nic" "tx_inv nb (nb_tx_tail nb)" "unat len \<le> 2 ^ 30"
  shows "\<exists>nb' ps. send_to_queue nic nb addr len = Some (len, nb') \<and>
    map tx_triple (ring_slice notif_N (nb_tx_buf nb') (unat (nb_tx_tail nb)) (length ps)) =
      map (\<lambda>(o', l). (1, addr - of_nat (unat addr mod page_N) + of_nat o', of_nat l)) ps \<and>
    concat (map (\<lambda>(o', l). [o'..<o' + l]) ps) = circ_bytes (unat addr mod page_N) (unat len) \<and>
    (\<forall>(o', l) \<in> set ps. 0 < l \<and> l \<le> unat kMaxTransferLen \<and> o' + l \<le> unat kBufPageSize) \<and>
    unat (nb_tx_tail nb') = (unat (nb_tx_tail nb) + length ps) mod notif_N \<and>
    reg_tx_tail (nb_regs nb') = nb_tx_tail nb' \<and> tx_inv nb' (nb_tx_tail nb')"
proof -
  have c: "nic_consumes nic" using assms(1) by (simp add: nic_fair_def)
  obtain nb' where send: "send_to_queue nic nb addr len = Some (len, nb')"
    using send_to_queue_ends [OF assms] by blast
  note spec = send_to_queue_spec [OF c assms(2) send]
  have off: "unat addr mod page_N < page_N" by simp
  have "\<forall>(o', l) \<in> set (tx_split (unat addr mod page_N) (unat len)).
      0 < l \<and> l \<le> unat kMaxTransferLen \<and> o' + l \<le> unat kBufPageSize"
    using tx_split_pieces [OF off] by (auto simp: kMaxTransferLen_def kBufPageSize_def)
  moreover have "reg_tx_tail (nb_regs nb') = nb_tx_tail nb'" using tx_inv_D(4) [OF spec(2)] .
  ultimately show ?thesis using send spec tx_split_bytes [OF off] by blast
qed

lemma tx_inv_zero: "tx_inv nb_zero 0"
  by (simp add: tx_inv_def zero_defs bv_bit_def)

theorem send_to_queue_correct_witness:
  "\<exists>nb'. send_to_queue nic_eager nb_zero 2097088 300 = Some (300, nb')"
  using send_to_queue_correct [OF nic_fair_eager, of nb_zero 300 2097088] tx_inv_zero
  by (auto simp: nb_zero_def)

end
