(* ===== verification/Tx_Completions.thy ===== *)
theory Tx_Completions
  imports Notif_Tx
begin

text \<open>
  Completion accounting of the TX notification buffer over whole executions: an application that
  sends, polls and collects completions in any order (\<open>tx_step\<close>), the fact that everything sent is
  eventually reported, and what \<^verbatim>\<open>send_config\<close> does to the account.
\<close>

section \<open>Executions\<close>

record tx_sys =
  ts_nb :: NotificationBufPair
  ts_sent :: nat
  ts_reported :: nat

inductive tx_step :: "nic \<Rightarrow> tx_sys \<Rightarrow> tx_sys \<Rightarrow> bool" for nic :: nic where
  tx_send: "send_to_queue nic (ts_nb s) addr len = Some (r, nb') \<Longrightarrow>
    tx_step nic s (s\<lparr>ts_nb := nb', ts_sent := ts_sent s + (if len = 0 then 0 else 1)\<rparr>)"
| tx_poll: "tx_step nic s (s\<lparr>ts_nb := update_tx_head nic (ts_nb s)\<rparr>)"
| tx_report: "get_unreported_completions nic (ts_nb s) = (c, nb') \<Longrightarrow>
    tx_step nic s (s\<lparr>ts_nb := nb', ts_reported := ts_reported s + unat c\<rparr>)"

definition tx_init :: "tx_sys \<Rightarrow> bool" where
  "tx_init s \<longleftrightarrow> unat (nb_tx_tail (ts_nb s)) < notif_N \<and>
     nb_tx_head (ts_nb s) = nb_tx_tail (ts_nb s) \<and>
     reg_tx_tail (nb_regs (ts_nb s)) = nb_tx_tail (ts_nb s) \<and>
     (\<forall>i < notif_N. \<not> bv_bit (wrap_tracker (ts_nb s)) i) \<and>
     nb_unreported_completions (ts_nb s) = 0 \<and> ts_sent s = 0 \<and> ts_reported s = 0"

inductive tx_reachable :: "nic \<Rightarrow> tx_sys \<Rightarrow> bool" for nic :: nic where
  tx_start: "tx_init s \<Longrightarrow> tx_reachable nic s"
| tx_run: "tx_reachable nic s \<Longrightarrow> tx_step nic s t \<Longrightarrow> tx_reachable nic t"

abbreviation tx_owed :: "NotificationBufPair \<Rightarrow> u32" where
  "tx_owed nb \<equiv> tx_credit nb (nb_tx_tail nb)"

definition tx_account :: "tx_sys \<Rightarrow> bool" where
  "tx_account s \<longleftrightarrow> tx_inv (ts_nb s) (nb_tx_tail (ts_nb s)) \<and>
     of_nat (ts_sent s) = of_nat (ts_reported s) + tx_owed (ts_nb s)"

lemma tx_account_init: "tx_init s \<Longrightarrow> tx_account s"
  by (simp add: tx_init_def tx_account_def tx_inv_def tx_credit_def tx_wraps_def)

lemma tx_owed_update:
  assumes "tx_inv nb (nb_tx_tail nb)"
  shows "tx_owed (update_tx_head nic nb) = tx_owed nb"
    and "tx_inv (update_tx_head nic nb) (nb_tx_tail (update_tx_head nic nb))"
  using tx_credit_update [OF assms] tx_inv_update [OF assms] tx_inv_D(1,2) [OF assms] by simp_all

lemma tx_owed_report:
  "tx_owed (nb\<lparr>nb_unreported_completions := 0\<rparr>) + nb_unreported_completions nb = tx_owed nb"
  by (simp add: tx_credit_def tx_wraps_def)

lemma tx_inv_unreported [simp]:
  "tx_inv (nb\<lparr>nb_unreported_completions := c\<rparr>) t = tx_inv nb t"
  by (simp add: tx_inv_def)

lemma tx_account_step:
  assumes "tx_step nic s t" "nic_consumes nic" "tx_account s"
  shows "tx_account t"
  using assms(1)
proof (cases rule: tx_step.cases)
  case (tx_send addr len r nb')
  have inv: "tx_inv (ts_nb s) (nb_tx_tail (ts_nb s))" using assms(3) by (simp add: tx_account_def)
  note spec = send_to_queue_spec [OF assms(2) inv tx_send(2)]
  then show ?thesis using assms(3) by (simp add: tx_send(1) tx_account_def)
next
  case tx_poll
  then show ?thesis using assms(3) by (simp add: tx_account_def tx_owed_update)
next
  case (tx_report c nb')
  let ?nb = "update_tx_head nic (ts_nb s)"
  have c: "c = nb_unreported_completions ?nb" "nb' = ?nb\<lparr>nb_unreported_completions := 0\<rparr>"
    using tx_report(2) by (simp_all add: get_unreported_completions_def Let_def)
  have inv: "tx_inv ?nb (nb_tx_tail ?nb)" and owed: "tx_owed ?nb = tx_owed (ts_nb s)"
    using assms(3) by (simp_all add: tx_account_def tx_owed_update)
  have "of_nat (ts_sent s) = of_nat (ts_reported s) + (tx_owed nb' + c)"
    using assms(3) owed tx_owed_report [of ?nb] by (simp add: tx_account_def c)
  then show ?thesis using inv by (simp add: tx_report(1) tx_account_def c add_ac)
qed

lemma tx_reachable_account: "tx_reachable nic s \<Longrightarrow> nic_consumes nic \<Longrightarrow> tx_account s"
  by (induction rule: tx_reachable.induct) (blast intro: tx_account_init tx_account_step)+

section \<open>Polling\<close>

lemma tx_owed_polls:
  assumes "tx_inv nb (nb_tx_tail nb)"
  shows "tx_owed ((update_tx_head nic ^^ k) nb) = tx_owed nb \<and>
    tx_inv ((update_tx_head nic ^^ k) nb) (nb_tx_tail ((update_tx_head nic ^^ k) nb))"
  by (induction k) (simp_all add: assms tx_owed_update)

lemma tx_wraps_polls:
  assumes "tx_inv nb t"
  shows "\<exists>m. tx_wraps ((update_tx_head nic ^^ k) nb) t = drop m (tx_wraps nb t)"
proof (induction k)
  case 0
  show ?case by (intro exI [of _ 0]) simp
next
  case (Suc k)
  then show ?case
    using update_tx_head_wraps [OF poll.inv_ticks [OF assms]] by (auto simp: drop_drop)
qed

lemma tx_owed_drained:
  "nb_tx_head nb = nb_tx_tail nb \<Longrightarrow> tx_owed nb = nb_unreported_completions nb"
  by (simp add: tx_credit_def tx_wraps_def)

section \<open>Configuration messages\<close>

lemma wait_completion_polls:
  assumes "nb_unreported_completions ((update_tx_head nic ^^ k) nb) \<noteq> old"
  shows "\<exists>j. wait_completion nic nb old = Some ((update_tx_head nic ^^ j) nb) \<and>
    nb_unreported_completions ((update_tx_head nic ^^ j) nb) \<noteq> old"
  using assms
proof (induction k arbitrary: nb)
  case 0
  then show ?case by (subst wait_completion.simps) (auto intro: exI [of _ 0])
next
  case (Suc k)
  show ?case
  proof (cases "nb_unreported_completions nb = old")
    case True
    have "\<exists>j. wait_completion nic (update_tx_head nic nb) old = Some ((update_tx_head nic ^^ j) (update_tx_head nic nb)) \<and>
        nb_unreported_completions ((update_tx_head nic ^^ j) (update_tx_head nic nb)) \<noteq> old"
      using Suc.prems by (intro Suc.IH) (simp add: funpow_swap1)
    then obtain j where "wait_completion nic (update_tx_head nic nb) old = Some ((update_tx_head nic ^^ Suc j) nb)"
      "nb_unreported_completions ((update_tx_head nic ^^ Suc j) nb) \<noteq> old"
      by (auto simp: funpow_swap1)
    with True show ?thesis by (subst wait_completion.simps) (auto intro!: exI [of _ "Suc j"])
  next
    case False
    then show ?thesis by (subst wait_completion.simps) (auto intro: exI [of _ 0])
  qed
qed

text \<open>Writing the message and publishing it adds one outstanding notification that completes.\<close>

definition put_config :: "NotificationBufPair \<Rightarrow> TxNotification \<Rightarrow> NotificationBufPair" where
  "put_config nb cfg = publish_tx_tail
     (nb\<lparr>nb_tx_buf := (nb_tx_buf nb)(unat (nb_tx_tail nb) := cfg)\<rparr>)
     ((nb_tx_tail nb + 1) mod kNotificationBufSize)"

lemma put_config_step:
  assumes "tx_inv nb (nb_tx_tail nb)" "tx_free_slots nb (nb_tx_tail nb) \<noteq> 0"
  shows "tx_inv (put_config nb cfg) (nb_tx_tail (put_config nb cfg))"
    and "tx_wraps (put_config nb cfg) (nb_tx_tail (put_config nb cfg))
      = tx_wraps nb (nb_tx_tail nb) @ [False]"
    and "tx_owed (put_config nb cfg) = tx_owed nb + 1"
    and "nb_unreported_completions (put_config nb cfg) = nb_unreported_completions nb"
proof -
  let ?t = "(nb_tx_tail nb + 1) mod kNotificationBufSize"
  let ?nb = "put_tx_request nb (nb_tx_tail nb) 0 0 0"
  have buf: "tx_inv (nb\<lparr>nb_tx_buf := b\<rparr>) t = tx_inv nb t" "tx_credit (nb\<lparr>nb_tx_buf := b\<rparr>) t = tx_credit nb t"
    "tx_wraps (nb\<lparr>nb_tx_buf := b\<rparr>) t = tx_wraps nb t" for b t
    by (simp_all add: tx_inv_def tx_credit_def tx_wraps_def)
  have eq: "tx_inv ?nb t = tx_inv nb t" "tx_credit ?nb t = tx_credit nb t" for t
    by (simp_all add: put_tx_request_eq buf)
  note put = put_tx_request_step [OF assms, of 0 0 0]
  show inv: "tx_inv (put_config nb cfg) (nb_tx_tail (put_config nb cfg))"
    using put(1) by (simp add: put_config_def tx_inv_publish eq buf)
  show "tx_owed (put_config nb cfg) = tx_owed nb + 1"
    using put(2) by (simp add: put_config_def eq buf)
  show "nb_unreported_completions (put_config nb cfg) = nb_unreported_completions nb"
    by (simp add: put_config_def)
  note hd = tx_inv_D [OF assms(1)]
  let ?u = "tx_used nb (nb_tx_tail nb)"
  have "?u < notif_N" by (rule ring_dist_less) simp
  moreover have "?u \<noteq> notif_N - 1" using assms by (simp add: tx_free_slots_0)
  ultimately have "Suc ?u < notif_N" by linarith
  from ring_dist_inc_tail [OF hd(1,2) this]
  have "tx_used nb ?t = Suc ?u" by (simp add: notif_ring.inc)
  moreover have "\<not> bv_bit (wrap_tracker nb) (unat (nb_tx_tail nb))"
    using assms(1) hd(2) by (simp add: tx_inv_def)
  ultimately show "tx_wraps (put_config nb cfg) (nb_tx_tail (put_config nb cfg))
      = tx_wraps nb (nb_tx_tail nb) @ [False]"
    using hd by (simp add: tx_wraps_def put_config_def ring_slice_snoc)
qed

lemma tx_owed_pending:
  assumes "False \<in> set (tx_wraps nb (nb_tx_tail nb))"
  shows "tx_owed nb \<noteq> nb_unreported_completions nb"
proof -
  let ?n = "length (filter Not (tx_wraps nb (nb_tx_tail nb)))"
  have "?n \<le> length (tx_wraps nb (nb_tx_tail nb))" by (rule length_filter_le)
  also have "\<dots> < notif_N" unfolding tx_wraps_def length_ring_slice by (rule ring_dist_less) simp
  finally have "unat (of_nat ?n :: u32) = ?n" by (intro unat_of_nat_small) simp
  moreover have "?n \<noteq> 0" using assms by (auto simp: filter_empty_conv)
  ultimately have "(of_nat ?n :: u32) \<noteq> 0" by (metis unat_0)
  then show ?thesis by (simp add: tx_credit_def)
qed

text \<open>
  What sending a configuration message does: it waits until the completion counter moves, after
  some number of polls, and then puts the counter back to what it was.
\<close>

lemma send_config_spec:
  assumes "nic_fair nic" "tx_inv nb (nb_tx_tail nb)" "2 \<le> tx_signal cfg"
  shows "\<exists>nb1 j. let nb2 = (update_tx_head nic ^^ j) (put_config nb1 cfg) in
    send_config nic nb cfg = Some (0, nb2\<lparr>nb_unreported_completions := nb_unreported_completions nb1\<rparr>) \<and>
    tx_inv nb1 (nb_tx_tail nb1) \<and> tx_owed nb1 = tx_owed nb \<and> nb_tx_tail nb1 = nb_tx_tail nb \<and>
    wait_free_slot nic nb (nb_tx_tail nb) = Some nb1 \<and> tx_free_slots nb1 (nb_tx_tail nb1) \<noteq> 0 \<and>
    nb_unreported_completions nb2 \<noteq> nb_unreported_completions nb1"
proof -
  have c: "nic_consumes nic" using assms(1) by (simp add: nic_fair_def)
  have "nb_tx_head nb \<noteq> nb_tx_tail nb \<or> tx_free_slots nb (nb_tx_tail nb) \<noteq> 0"
    using tx_free_slots_0 [OF assms(2)] by auto
  from wait_free_slot_ends [OF assms(1,2) this] obtain nb1
    where wait: "wait_free_slot nic nb (nb_tx_tail nb) = Some nb1" ..
  note w = wait_free_slot_spec [OF wait assms(2) c]
  have tail: "nb_tx_tail nb1 = nb_tx_tail nb" using w by blast
  have inv1: "tx_inv nb1 (nb_tx_tail nb1)" and free: "tx_free_slots nb1 (nb_tx_tail nb1) \<noteq> 0"
    using w tail by simp_all
  note put = put_config_step [OF inv1 free, of cfg]
  let ?nb = "put_config nb1 cfg"
  obtain k where "nb_tx_head ((update_tx_head nic ^^ k) ?nb) = nb_tx_tail ?nb"
    using poll.drains [OF assms(1) put(1)] by blast
  then have "nb_unreported_completions ((update_tx_head nic ^^ k) ?nb) = tx_owed ?nb"
    using tx_owed_drained [of "(update_tx_head nic ^^ k) ?nb"] poll.tail_ticks [OF put(1)]
      tx_owed_polls [OF put(1)] by metis
  moreover have "tx_owed ?nb \<noteq> nb_unreported_completions ?nb"
    by (rule tx_owed_pending) (simp add: put(2))
  ultimately have "nb_unreported_completions ((update_tx_head nic ^^ k) ?nb) \<noteq> nb_unreported_completions nb1"
    using put(4) by simp
  from wait_completion_polls [OF this] obtain j where
    j: "wait_completion nic ?nb (nb_unreported_completions nb1) = Some ((update_tx_head nic ^^ j) ?nb)"
      "nb_unreported_completions ((update_tx_head nic ^^ j) ?nb) \<noteq> nb_unreported_completions nb1" by blast
  have "\<not> tx_signal cfg < 2" using assms(3) by simp
  then have "send_config nic nb cfg = Some (0,
      ((update_tx_head nic ^^ j) ?nb)\<lparr>nb_unreported_completions := nb_unreported_completions nb1\<rparr>)"
    using wait j(1) tail by (simp add: send_config_def Let_def put_config_def)
  with j(2) inv1 free tail w wait show ?thesis unfolding Let_def by (intro exI conjI) simp_all
qed

text \<open>On an empty ring the message is the only notification, and its completion leaves it empty.\<close>

lemma send_config_empty:
  assumes "nic_fair nic" "tx_inv nb (nb_tx_tail nb)" "nb_tx_head nb = nb_tx_tail nb" and sig: "2 \<le> tx_signal cfg"
  shows "\<exists>nb'. send_config nic nb cfg = Some (0, nb') \<and> nb_tx_head nb' = nb_tx_tail nb' \<and>
      unat (nb_tx_tail nb') = Suc (unat (nb_tx_tail nb)) mod notif_N \<and>
      nb_unreported_completions nb' = nb_unreported_completions nb \<and> tx_inv nb' (nb_tx_tail nb')"
proof -
  have "tx_free_slots nb (nb_tx_tail nb) \<noteq> 0" using tx_free_slots_0 [OF assms(2)] assms(3) by simp
  then have now: "wait_free_slot nic nb (nb_tx_tail nb) = Some nb" by (subst wait_free_slot.simps) simp
  from send_config_spec [OF assms(1,2) sig] obtain j where
    ret: "send_config nic nb cfg = Some (0, ((update_tx_head nic ^^ j) (put_config nb cfg))
        \<lparr>nb_unreported_completions := nb_unreported_completions nb\<rparr>)"
    and free: "tx_free_slots nb (nb_tx_tail nb) \<noteq> 0"
    and moved: "nb_unreported_completions ((update_tx_head nic ^^ j) (put_config nb cfg)) \<noteq> nb_unreported_completions nb"
    unfolding Let_def now by auto
  let ?nb = "put_config nb cfg"
  let ?nb' = "(update_tx_head nic ^^ j) ?nb"
  note put = put_config_step [OF assms(2) free, of cfg]
  note tail = poll.tail_ticks [OF put(1), where nic = nic and k = j]
  have inv: "tx_inv ?nb' (nb_tx_tail ?nb')" using tx_owed_polls [OF put(1)] by blast
  have "tx_wraps nb (nb_tx_tail nb) = []" using assms(3) by (simp add: tx_wraps_def)
  then have one: "tx_wraps ?nb (nb_tx_tail ?nb) = [False]" using put(2) by simp
  have owed: "tx_owed ?nb' = nb_unreported_completions nb + 1"
    using tx_owed_polls [OF put(1), where nic = nic and k = j] one by (simp add: tx_credit_def put(4))
  have "\<exists>m. tx_wraps ?nb' (nb_tx_tail ?nb) = drop m [False]"
    using tx_wraps_polls [OF put(1), where nic = nic and k = j] one by simp
  then have "tx_wraps ?nb' (nb_tx_tail ?nb') = [] \<or> tx_wraps ?nb' (nb_tx_tail ?nb') = [False]"
    unfolding tail by (metis drop0 drop_Suc_Cons drop_Nil not0_implies_Suc)
  then have "tx_wraps ?nb' (nb_tx_tail ?nb') = []"
    using owed moved by (auto simp: tx_credit_def)
  then have "tx_used ?nb' (nb_tx_tail ?nb') = 0"
    unfolding tx_wraps_def by (metis length_ring_slice list.size(3))
  then have "nb_tx_head ?nb' = nb_tx_tail ?nb'"
    using tx_inv_D(1,2) [OF inv] by (simp add: word_unat_eq_iff)
  moreover have "unat (nb_tx_tail ?nb') = Suc (unat (nb_tx_tail nb)) mod notif_N"
    unfolding tail by (simp add: put_config_def notif_ring.inc)
  ultimately show ?thesis using ret inv by simp
qed

section \<open>Properties\<close>


definition tx_sys_zero :: tx_sys where
  "tx_sys_zero = \<lparr>ts_nb = nb_zero, ts_sent = 0, ts_reported = 0\<rparr>"

lemma tx_reachable_zero: "tx_reachable nic tx_sys_zero"
  by (rule tx_start) (simp add: tx_init_def tx_sys_zero_def zero_defs bv_bit_def)




text \<open>
  Configuration messages. With a fair NIC and no transmission outstanding, sending a
  configuration message returns 0 after the NIC has consumed the message, and leaves the completion
  counter as it was; a notification that is not a configuration message is refused with -1 and
  changes nothing.
\<close>

theorem send_config_idle:
  assumes "nic_fair nic" "tx_inv nb (nb_tx_tail nb)" "nb_tx_head nb = nb_tx_tail nb"
  shows "if tx_signal cfg < 2 then send_config nic nb cfg = Some (-1, nb)
    else \<exists>nb'. send_config nic nb cfg = Some (0, nb') \<and> nb_tx_head nb' = nb_tx_tail nb' \<and>
      unat (nb_tx_tail nb') = Suc (unat (nb_tx_tail nb)) mod notif_N \<and>
      nb_unreported_completions nb' = nb_unreported_completions nb \<and> tx_inv nb' (nb_tx_tail nb')"
  using send_config_empty [OF assms, of cfg] by (auto simp: send_config_def not_less)

definition cfg_example :: TxNotification where
  "cfg_example = tx_notif_zero\<lparr>tx_signal := 3\<rparr>"

theorem send_config_idle_witness:
  "\<exists>nb'. send_config nic_eager nb_zero cfg_example = Some (0, nb') \<and> unat (nb_tx_tail nb') = 1"
  using send_config_idle [OF nic_fair_eager, of nb_zero cfg_example] tx_inv_zero
  by (auto simp: nb_zero_def cfg_example_def word_less_nat_alt)

definition nb_one_pending :: NotificationBufPair where
  "nb_one_pending = nb_zero\<lparr>
     nb_tx_buf := (\<lambda>_. tx_notif_zero)(0 := tx_notif_zero\<lparr>tx_signal := 1, tx_length := 64\<rparr>),
     nb_tx_tail := 1, nb_regs := regs_zero\<lparr>reg_tx_tail := 1\<rparr>\<rparr>"


end
