(* ===== verification/Drv_State.thy ===== *)
theory Drv_State
  imports Enso_Prelude
begin

text \<open>
  The data of the Linux kernel driver (\<^verbatim>\<open>software/kernel/linux\<close>): the structures of
  \<^verbatim>\<open>intel_fpga_pcie_setup.h\<close> and \<^verbatim>\<open>intel_fpga_pcie_dma.h\<close>, the error codes the
  driver returns and its device semaphore.

  Pointers that are shared between structures are keys: a file handle's \<^verbatim>\<open>dev_bk\<close> is the
  device's bus-device-function number, under which the device is found in the driver's tree. An
  address is a 64-bit word and 0 is the null pointer. What the driver asks of the kernel (copying to
  or from user memory, an allocation, an interrupted sleep) may fail at any time; the outcome of
  each such call is an argument of the operation that makes it.
\<close>

datatype errno = ERESTARTSYS | ENXIO | ENOMEM | EFAULT | EINVAL | ENODEV | ENOTTY | EPERM | EIO
  | EBUSY | ENODATA | ETIME | EADDRNOTAVAIL | ESPIPE | EOPNOTSUPP | EREMOTEIO | ENOSYS | EEXIST

type_synonym 'a kres = "errno + 'a"

definition MAX_NB_APPS :: nat where [enso_simps]: "MAX_NB_APPS = 1024"
definition MAX_NB_FLOWS :: nat where [enso_simps]: "MAX_NB_FLOWS = 8192"
definition DMA_RD_IDX :: nat where [enso_simps]: "DMA_RD_IDX = 0"
definition DMA_WR_IDX :: nat where [enso_simps]: "DMA_WR_IDX = 1"
definition DMA_CTRL_BAR :: nat where [enso_simps]: "DMA_CTRL_BAR = 0"
definition MAX_NUM_DESCS :: nat where [enso_simps]: "MAX_NUM_DESCS = 130"

record bar_info =
  base_addr :: u64
  bar_len :: u64
  is_prefetchable :: bool
  is_hprxm :: bool

record kmem_info =
  virt_addr :: u64
  bus_addr :: u64
  kmem_size :: u64

record desc =
  src_addr :: u64
  dst_addr :: u64
  desc_ctrl :: u32
  desc_reserved :: "u32 list"

record desc_table =
  dt_status :: "u32 arr"
  dt_descriptor :: "desc arr"

record dma_info =
  dt_virt_addr :: "desc_table arr"
  dt_bus_addr :: "u64 arr"
  last_ptr :: "u8 arr"
  num_pending :: "u8 arr"
  last_ptr_wrap :: "bool arr"

record dev_bookkeep =
  dev_bdf :: u16
  dev_bar :: "bar_info arr"
  dev_kmem :: kmem_info
  dev_dma :: dma_info
  chr_open_cnt :: int
  dev_sem :: nat
  dev_nb_fb_queues :: u32
  enable_rr :: bool
  dev_notif_q_status :: "u8 arr"
  dev_pipe_status :: "u8 arr"

record chr_dev_bookkeep =
  chr_dev :: u16
  use_cmd :: bool
  cur_bar_num :: u32
  chr_nb_fb_queues :: u32
  chr_notif_q_status :: "u8 arr"
  chr_pipe_status :: "u8 arr"

section \<open>The device semaphore\<close>

text \<open>
  \<^verbatim>\<open>down_interruptible\<close> returns with an error when a signal arrives while the caller waits
  (\<open>intr\<close>); with the count at zero and no signal the caller sleeps: \<open>None\<close>, an operation
  that never returns.
\<close>

definition down_interruptible :: "bool \<Rightarrow> dev_bookkeep \<Rightarrow> dev_bookkeep kres option" where
  "down_interruptible intr dev =
     (if intr then Some (Inl ERESTARTSYS)
      else if dev_sem dev = 0 then None
      else Some (Inr (dev\<lparr>dev_sem := dev_sem dev - 1\<rparr>)))"

definition up :: "dev_bookkeep \<Rightarrow> dev_bookkeep" where
  "up dev = dev\<lparr>dev_sem := Suc (dev_sem dev)\<rparr>"

lemma up_down: "0 < dev_sem dev \<Longrightarrow> up (dev\<lparr>dev_sem := dev_sem dev - 1\<rparr>) = dev"
  by (simp add: up_def)

end
