(* ===== verification/Drv_Bitmap.thy ===== *)
theory Drv_Bitmap
  imports Drv_State
begin

text \<open>
  The driver's allocation maps: bit vectors of one byte per eight identifiers, searched from the
  front (notification buffers, fallback pipes) or from the back (other pipes) by the loops of
  \<^verbatim>\<open>alloc_notif_buffer\<close> and \<^verbatim>\<open>alloc_pipe\<close>. The interface \<open>id_pool\<close> states
  what such a search promises; the three searches of the driver are its interpretations.
\<close>

section \<open>The searches\<close>

text \<open>\<^verbatim>\<open>while (set & 0x1) { ++id; set >>= 1; }\<close>\<close>

function scan_low :: "u8 \<Rightarrow> nat \<Rightarrow> nat" where
  "scan_low s i = (if s AND 1 \<noteq> 0 then scan_low (drop_bit 1 s) (Suc i) else i)"
  by pat_completeness auto
termination
proof (relation "measure (\<lambda>(s, _). unat s)", simp_all)
  fix s :: u8 assume "s AND 1 \<noteq> 0"
  then have "unat s \<noteq> 0" by (metis and_zero_eq unat_0 unat_eq_0 and.commute)
  then show "unat (drop_bit (Suc 0) s) < unat s" by (simp add: drop_bit_eq_div unat_div)
qed

text \<open>\<^verbatim>\<open>while (set & 0x80) { --id; set <<= 1; }\<close> on a \<^verbatim>\<open>uint8_t\<close>.\<close>

function scan_high :: "u8 \<Rightarrow> int \<Rightarrow> int" where
  "scan_high s i = (if s AND 0x80 \<noteq> 0 then scan_high (push_bit 1 s) (i - 1) else i)"
  by pat_completeness auto
termination
proof (relation "measure (\<lambda>(s, _). unat s)")
  fix s :: u8 and i :: int
  assume "s AND 0x80 \<noteq> 0"
  then have "bit s 7" using and_exp_eq_0_iff_not_bit [of s 7] by simp
  then have "s AND 128 = 128"
    using bit_exp_u8 [of _ 7] by (intro u8_eqI) (auto simp: bit_and_iff)
  then have "128 \<le> s" using word_and_le2 [of s 128] by simp
  then have "128 \<le> unat s" by (simp add: word_le_nat_alt)
  moreover have "unat s < 256" using unsigned_less [of s, where ?'a = nat] by simp
  ultimately have "unat (s * 2) < unat s" by (simp add: unat_word_ariths mod_if less_diff_conv2)
  then show "((push_bit 1 s, i - 1), s, i) \<in> measure (\<lambda>(s, _). unat s)" by simp
qed simp

declare scan_low.simps [simp del] scan_high.simps [simp del]

fun find_clear_up :: "u8 arr \<Rightarrow> nat \<Rightarrow> nat \<Rightarrow> (nat \<times> nat) option" where
  "find_clear_up st i 0 = None"
| "find_clear_up st i (Suc n) =
     (let b = scan_low (st i) 0 in if b < 8 then Some (i, b) else find_clear_up st (Suc i) n)"

fun find_clear_down :: "u8 arr \<Rightarrow> nat \<Rightarrow> (nat \<times> nat) option" where
  "find_clear_down st 0 = None"
| "find_clear_down st (Suc i) =
     (let b = scan_high (st i) 7 in if b \<ge> 0 then Some (i, nat b) else find_clear_down st i)"

section \<open>What they find\<close>

lemma scan_low_spec: "\<exists>j. scan_low s k = k + j \<and> (\<forall>i < j. bit s i) \<and> \<not> bit s j"
proof (induction s k rule: scan_low.induct)
  case (1 s k)
  show ?case
  proof (cases "s AND 1 = 0")
    case True
    then have "\<not> bit s 0" using and_exp_eq_0_iff_not_bit [of s 0] by simp
    with True show ?thesis by (subst scan_low.simps) (intro exI [of _ 0], simp)
  next
    case False
    then have b0: "bit s 0" using and_exp_eq_0_iff_not_bit [of s 0] by simp
    from 1 [OF False] obtain j where j: "scan_low (drop_bit 1 s) (Suc k) = Suc k + j"
      "\<forall>i < j. bit (drop_bit 1 s) i" "\<not> bit (drop_bit 1 s) j" by blast
    have "\<forall>i < Suc j. bit s i" using b0 j(2) by (auto simp: bit_drop_bit_eq less_Suc_eq_0_disj)
    moreover have "\<not> bit s (Suc j)" using j(3) by (simp add: bit_drop_bit_eq)
    ultimately show ?thesis using False j(1) by (subst scan_low.simps) (intro exI [of _ "Suc j"], simp)
  qed
qed

lemma scan_high_spec:
  "\<exists>j \<le> 8. scan_high s k = k - int j \<and> (\<forall>i < j. bit s (7 - i)) \<and> (j < 8 \<longrightarrow> \<not> bit s (7 - j))"
proof (induction s k rule: scan_high.induct)
  case (1 s k)
  have b7: "s AND 128 = 0 \<longleftrightarrow> \<not> bit s 7" using and_exp_eq_0_iff_not_bit [of s 7] by simp
  show ?case
  proof (cases "s AND 128 = 0")
    case True
    with b7 show ?thesis by (subst scan_high.simps) (intro exI [of _ 0], simp)
  next
    case False
    from 1 [OF False] obtain j where j: "j \<le> 8" "scan_high (push_bit 1 s) (k - 1) = k - 1 - int j"
      "\<forall>i < j. bit (push_bit 1 s) (7 - i)" "j < 8 \<longrightarrow> \<not> bit (push_bit 1 s) (7 - j)" by blast
    have up: "bit (push_bit 1 s) n \<longleftrightarrow> n \<noteq> 0 \<and> n < 8 \<and> bit s (n - 1)" for n
      by (simp only: bit_push_bit_iff) (auto dest: bit_imp_le_length)
    have "j \<noteq> 8"
    proof
      assume "j = 8"
      then have "bit (push_bit 1 s) (7 - 7)" using j(3) by (metis lessI numeral_eq_Suc pred_numeral_simps(2,3) semiring_norm(26,27,28))
      then show False unfolding up by simp
    qed
    then have lt: "j < 8" using j(1) by simp
    have "bit s (7 - i)" if "i < Suc j" for i
      using that False b7 j(3) lt unfolding up by (cases i) auto
    moreover have "Suc j < 8 \<longrightarrow> \<not> bit s (7 - Suc j)"
      using j(4) lt unfolding up by auto
    ultimately show ?thesis
      using False j(2) lt by (subst scan_high.simps) (intro exI [of _ "Suc j"], simp)
  qed
qed

lemma bv_bit_split: "b < 8 \<Longrightarrow> bv_bit st (q * 8 + b) \<longleftrightarrow> bit (st q) b"
  by (simp add: bv_bit_def)

lemma find_clear_up_Some:
  assumes "find_clear_up st i n = Some (q, b)"
  shows "b < 8 \<and> i \<le> q \<and> q < i + n \<and> \<not> bv_bit st (q * 8 + b) \<and>
    (\<forall>k. 8 * i \<le> k \<and> k < q * 8 + b \<longrightarrow> bv_bit st k)"
  using assms
proof (induction n arbitrary: i)
  case (Suc n)
  obtain j where j: "scan_low (st i) 0 = j" "\<forall>k < j. bit (st i) k" "\<not> bit (st i) j"
    using scan_low_spec [of "st i" 0] by auto
  show ?case
  proof (cases "j < 8")
    case True
    then have "q = i" "b = j" using Suc.prems j(1) by (simp_all add: Let_def)
    moreover have "bv_bit st k" if "8 * i \<le> k" "k < i * 8 + j" for k
      using that j(2) True bv_bit_split [of "k - i * 8" st i] by simp
    ultimately show ?thesis using j True by (simp add: bv_bit_split)
  next
    case False
    then have "find_clear_up st (Suc i) n = Some (q, b)" using Suc.prems j(1) by (simp add: Let_def)
    note IH = Suc.IH [OF this]
    have "bv_bit st k" if "8 * i \<le> k" "k < q * 8 + b" for k
    proof (cases "k < 8 * Suc i")
      case True
      then show ?thesis using that(1) j(2) False bv_bit_split [of "k - i * 8" st i] by simp
    next
      case False
      then show ?thesis using IH that(2) by simp
    qed
    then show ?thesis using IH by simp
  qed
qed simp

lemma find_clear_up_None:
  assumes "find_clear_up st i n = None" "8 * i \<le> k" "k < 8 * (i + n)"
  shows "bv_bit st k"
  using assms
proof (induction n arbitrary: i)
  case (Suc n)
  obtain j where j: "scan_low (st i) 0 = j" "\<forall>k < j. bit (st i) k"
    using scan_low_spec [of "st i" 0] by auto
  have full: "\<not> j < 8" and rest: "find_clear_up st (Suc i) n = None"
    using Suc.prems(1) j(1) by (auto simp: Let_def split: if_splits)
  show ?case
  proof (cases "k < 8 * Suc i")
    case True
    then show ?thesis using Suc.prems(2) j(2) full bv_bit_split [of "k - i * 8" st i] by simp
  next
    case False
    then show ?thesis using Suc.IH [OF rest] Suc.prems(3) by simp
  qed
qed simp

lemma scan_high_byte:
  assumes "\<forall>k < j. bit (st i) (7 - k)" "8 * i + r < 8 * Suc i" "i * 8 + 7 < (8 * i + r) + j"
  shows "bv_bit st (8 * i + r)"
proof -
  have r: "r < 8" "7 - r < j" using assms(2,3) by auto
  then have "bit (st i) (7 - (7 - r))" using assms(1) by blast
  then show ?thesis using r(1) bv_bit_split [of r st i] by (simp add: mult.commute)
qed

lemma find_clear_down_Some:
  assumes "find_clear_down st n = Some (q, b)"
  shows "b < 8 \<and> q < n \<and> \<not> bv_bit st (q * 8 + b) \<and>
    (\<forall>k. q * 8 + b < k \<and> k < 8 * n \<longrightarrow> bv_bit st k)"
  using assms
proof (induction n)
  case (Suc i)
  obtain j where j: "j \<le> 8" "scan_high (st i) 7 = 7 - int j" "\<forall>k < j. bit (st i) (7 - k)"
    "j < 8 \<longrightarrow> \<not> bit (st i) (7 - j)" using scan_high_spec [of "st i" 7] by blast
  have byte: "bv_bit st k" if "8 * i \<le> k" "k < 8 * Suc i" "i * 8 + 7 < k + j" for k
    using that scan_high_byte [where st = st and i = i, OF j(3)] by (metis le_Suc_ex)
  show ?case
  proof (cases "j < 8")
    case True
    then have "q = i" "b = 7 - j" using Suc.prems j(2) by (auto simp: Let_def)
    moreover have "bv_bit st k" if "i * 8 + (7 - j) < k" "k < 8 * Suc i" for k
      using that True by (intro byte) linarith+
    moreover have "\<not> bv_bit st (i * 8 + (7 - j))" using j(4) True bv_bit_split [of "7 - j" st i] by simp
    moreover have "7 - j < 8" by simp
    ultimately show ?thesis by blast
  next
    case False
    then have "find_clear_down st i = Some (q, b)" using Suc.prems j(2) by (simp add: Let_def)
    note IH = Suc.IH [OF this]
    have "bv_bit st k" if "q * 8 + b < k" "k < 8 * Suc i" for k
      using that IH byte [of k] False j(1) by (cases "k < 8 * i") auto
    then show ?thesis using IH by simp
  qed
qed simp

lemma find_clear_down_None:
  assumes "find_clear_down st n = None" "k < 8 * n"
  shows "bv_bit st k"
  using assms
proof (induction n)
  case (Suc i)
  obtain j where j: "j \<le> 8" "scan_high (st i) 7 = 7 - int j" "\<forall>k < j. bit (st i) (7 - k)"
    using scan_high_spec [of "st i" 7] by blast
  have j8: "j = 8" and rest: "find_clear_down st i = None"
    using Suc.prems(1) j(1,2) by (auto simp: Let_def split: if_splits)
  show ?case
  proof (cases "k < 8 * i")
    case True
    then show ?thesis using Suc.IH [OF rest] by simp
  next
    case False
    then obtain r where "k = 8 * i + r" using le_Suc_ex by (metis linorder_not_less)
    then show ?thesis using scan_high_byte [where st = st and i = i, OF j(3)] Suc.prems(2) j8 by simp
  qed
qed simp

section \<open>The interface of a pool of identifiers\<close>

text \<open>
  A pool hands out identifiers below its capacity. \<open>grab\<close> is a client that asks for \<open>k\<close>
  identifiers one after the other.
\<close>

primrec grab :: "('s \<Rightarrow> nat option) \<Rightarrow> (nat \<Rightarrow> 's \<Rightarrow> 's) \<Rightarrow> nat \<Rightarrow> 's \<Rightarrow> nat list \<times> 's" where
  "grab pick mark 0 s = ([], s)"
| "grab pick mark (Suc k) s =
     (case pick s of
        None \<Rightarrow> ([], s)
      | Some i \<Rightarrow> (case grab pick mark k (mark i s) of (is, s') \<Rightarrow> (i # is, s')))"

locale id_pool =
  fixes pick :: "'s \<Rightarrow> nat option"
    and mark :: "nat \<Rightarrow> 's \<Rightarrow> 's"
    and unmark :: "nat \<Rightarrow> 's \<Rightarrow> 's"
    and used :: "'s \<Rightarrow> nat set"
    and cap :: nat
  assumes pick_fresh: "pick s = Some i \<Longrightarrow> i < cap \<and> i \<notin> used s"
    and pick_full: "pick s = None \<Longrightarrow> {..<cap} \<subseteq> used s"
    and used_mark: "used (mark i s) = insert i (used s)"
    and used_unmark: "used (unmark i s) = used s - {i}"
begin

lemma pick_None_iff: "pick s = None \<longleftrightarrow> {..<cap} \<subseteq> used s"
  using pick_fresh [of s] pick_full [of s] by (cases "pick s") auto

lemma mark_unmark: "pick s = Some i \<Longrightarrow> used (unmark i (mark i s)) = used s"
  using pick_fresh [of s i] by (auto simp: used_mark used_unmark)

lemma unmark_pick: "i < cap \<Longrightarrow> pick (unmark i s) \<noteq> None"
  by (auto simp: pick_None_iff used_unmark)

lemma grab_spec:
  "grab pick mark k s = (is, s') \<Longrightarrow>
   distinct is \<and> set is \<inter> used s = {} \<and> set is \<subseteq> {..<cap} \<and> used s' = used s \<union> set is \<and>
   (length is < k \<longrightarrow> {..<cap} \<subseteq> used s')"
proof (induction k arbitrary: s "is")
  case (Suc k)
  show ?case
  proof (cases "pick s")
    case None
    then show ?thesis using Suc.prems pick_full [of s] by auto
  next
    case (Some i)
    then obtain js where js: "grab pick mark k (mark i s) = (js, s')" "is = i # js"
      using Suc.prems by (auto split: prod.splits)
    with Suc.IH [OF js(1)] pick_fresh [OF Some] show ?thesis by (auto simp: used_mark)
  qed
qed simp

text \<open>From an empty pool exactly \<open>cap\<close> identifiers can be had.\<close>

lemma grab_all:
  assumes "used s = {}" "cap \<le> k" "grab pick mark k s = (is, s')"
  shows "length is = cap" "distinct is" "set is = {..<cap}"
proof -
  note g = grab_spec [OF assms(3)]
  have "{..<cap} \<subseteq> set is"
  proof (cases "length is < k")
    case False
    then have "cap \<le> card (set is)" using g assms(2) by (simp add: distinct_card)
    moreover have "finite (set is)" "set is \<subseteq> {..<cap}" using g by auto
    ultimately have "set is = {..<cap}" by (intro card_subset_eq) (auto intro: le_antisym dest: card_mono [OF finite_lessThan])
    then show ?thesis by simp
  qed (use g assms(1) in blast)
  with g show "set is = {..<cap}" by blast
  with g show "length is = cap" by (metis card_lessThan distinct_card)
  from g show "distinct is" by blast
qed

end

definition bv_used :: "u8 arr \<Rightarrow> nat set" where
  "bv_used st = {i. bv_bit st i}"

definition pick_up :: "nat \<Rightarrow> u8 arr \<Rightarrow> nat option" where
  "pick_up n st = map_option (\<lambda>(q, b). q * 8 + b) (find_clear_up st 0 n)"

definition pick_down :: "nat \<Rightarrow> u8 arr \<Rightarrow> nat option" where
  "pick_down n st = map_option (\<lambda>(q, b). q * 8 + b) (find_clear_down st n)"

lemma pick_up_Some:
  assumes "pick_up n st = Some i"
  shows "i < 8 * n \<and> \<not> bv_bit st i \<and> (\<forall>k < i. bv_bit st k)"
  using assms find_clear_up_Some [of st 0 n] by (auto simp: pick_up_def)

lemma pick_down_Some:
  assumes "pick_down n st = Some i"
  shows "i < 8 * n \<and> \<not> bv_bit st i \<and> (\<forall>k. i < k \<and> k < 8 * n \<longrightarrow> bv_bit st k)"
  using assms find_clear_down_Some [of st n] by (auto simp: pick_down_def)

lemma pick_None:
  "pick_up n st = None \<Longrightarrow> k < 8 * n \<Longrightarrow> bv_bit st k"
  "pick_down n st = None \<Longrightarrow> k < 8 * n \<Longrightarrow> bv_bit st k"
  using find_clear_up_None [of st 0 n k] find_clear_down_None [of st n k]
  by (auto simp: pick_up_def pick_down_def)

lemma bv_used_set [simp]: "bv_used (bv_set st i) = insert i (bv_used st)"
  and bv_used_clear [simp]: "bv_used (bv_clear st i) = bv_used st - {i}"
  by (auto simp: bv_used_def)

lemma id_pool_up: "id_pool (pick_up n) (\<lambda>i st. bv_set st i) (\<lambda>i st. bv_clear st i) bv_used (8 * n)"
proof
  fix st i assume "pick_up n st = Some i"
  then show "i < 8 * n \<and> i \<notin> bv_used st" using pick_up_Some [of n st i] by (simp add: bv_used_def)
next
  fix st assume "pick_up n st = None"
  then show "{..<8 * n} \<subseteq> bv_used st" using pick_None(1) [of n st] by (auto simp: bv_used_def)
qed simp_all

lemma id_pool_down: "id_pool (pick_down n) (\<lambda>i st. bv_set st i) (\<lambda>i st. bv_clear st i) bv_used (8 * n)"
proof
  fix st i assume "pick_down n st = Some i"
  then show "i < 8 * n \<and> i \<notin> bv_used st" using pick_down_Some [of n st i] by (simp add: bv_used_def)
next
  fix st assume "pick_down n st = None"
  then show "{..<8 * n} \<subseteq> bv_used st" using pick_None(2) [of n st] by (auto simp: bv_used_def)
qed simp_all

interpretation notif_pool: id_pool "pick_up (MAX_NB_APPS div 8)" "\<lambda>i st. bv_set st i" "\<lambda>i st. bv_clear st i"
    bv_used MAX_NB_APPS
  using id_pool_up [of "MAX_NB_APPS div 8"] by (simp add: MAX_NB_APPS_def)

interpretation fallback_pool: id_pool "pick_up (MAX_NB_FLOWS div 8)" "\<lambda>i st. bv_set st i" "\<lambda>i st. bv_clear st i"
    bv_used MAX_NB_FLOWS
  using id_pool_up [of "MAX_NB_FLOWS div 8"] by (simp add: MAX_NB_FLOWS_def)

interpretation pipe_pool: id_pool "pick_down (MAX_NB_FLOWS div 8)" "\<lambda>i st. bv_set st i" "\<lambda>i st. bv_clear st i"
    bv_used MAX_NB_FLOWS
  using id_pool_down [of "MAX_NB_FLOWS div 8"] by (simp add: MAX_NB_FLOWS_def)

text \<open>The code sets and clears bit \<open>j\<close> of byte \<open>i\<close>.\<close>

lemma bv_set_byte: "j < 8 \<Longrightarrow> st(i := st i OR push_bit j 1) = bv_set st (i * 8 + j)"
  and bv_clear_byte: "j < 8 \<Longrightarrow> st(i := st i AND NOT (push_bit j 1)) = bv_clear st (i * 8 + j)"
  by (simp_all add: bv_set_def bv_clear_def)

end
