(* ===== verification/Drv_Alloc.thy ===== *)
theory Drv_Alloc
  imports Drv_Bitmap
begin

text \<open>
  Allocation of notification buffers and pipes by the driver
  (\<^verbatim>\<open>intel_fpga_pcie_ioctl.c\<close>): \<^verbatim>\<open>alloc_notif_buffer\<close>, \<^verbatim>\<open>free_notif_buffer\<close>,
  \<^verbatim>\<open>alloc_pipe\<close>, \<^verbatim>\<open>free_pipe\<close>, and the flags that processes share through the driver.
  Every operation works on the file handle's structure and the structure of the device it has
  selected and returns the system call's result with both updated; \<open>None\<close> is a call that sleeps
  on the device semaphore for ever.

  \<^verbatim>\<open>alloc_pipe\<close> chooses the identifier while it holds the semaphore and marks it after
  releasing it; the two parts are separate definitions so that calls can interleave between them.
\<close>

type_synonym 'a chr_op = "chr_dev_bookkeep \<Rightarrow> dev_bookkeep \<Rightarrow>
  ('a kres \<times> chr_dev_bookkeep \<times> dev_bookkeep) option"

section \<open>Operations\<close>

text \<open>Take the semaphore or return the error; \<open>f\<close> is the rest of the function.\<close>

definition with_dev :: "bool \<Rightarrow> (chr_dev_bookkeep \<Rightarrow> dev_bookkeep \<Rightarrow>
    'a kres \<times> chr_dev_bookkeep \<times> dev_bookkeep) \<Rightarrow> 'a chr_op" where
  "with_dev intr f chr dev =
     (case down_interruptible intr dev of
        None \<Rightarrow> None
      | Some (Inl e) \<Rightarrow> Some (Inl e, chr, dev)
      | Some (Inr dev') \<Rightarrow> Some (f chr dev'))"

definition alloc_notif_buffer :: "bool \<Rightarrow> bool \<Rightarrow> u32 chr_op" where
  "alloc_notif_buffer intr ufault = with_dev intr (\<lambda>chr dev.
     case find_clear_up (dev_notif_q_status dev) 0 (MAX_NB_APPS div 8) of
       None \<Rightarrow> (Inl ENOMEM, chr, up dev)
     | Some (i, set_buf_id) \<Rightarrow>
         let dev' = dev\<lparr>dev_notif_q_status := (dev_notif_q_status dev)
               (i := dev_notif_q_status dev i OR push_bit set_buf_id 1)\<rparr>;
             chr' = chr\<lparr>chr_notif_q_status := (chr_notif_q_status chr)
               (i := chr_notif_q_status chr i OR push_bit set_buf_id 1)\<rparr>;
             buf_id = of_nat (i * 8 + set_buf_id) in
         (if ufault then Inl EFAULT else Inr buf_id, chr', up dev'))"

definition free_notif_buffer :: "bool \<Rightarrow> u64 \<Rightarrow> unit chr_op" where
  "free_notif_buffer intr uarg = with_dev intr (\<lambda>chr dev.
     let buf_id = sint (ucast uarg :: u32) in
     if buf_id < 0 \<or> buf_id \<ge> int MAX_NB_APPS then (Inl EINVAL, chr, dev)
     else
       let i = nat buf_id div 8; j = nat buf_id mod 8 in
       (Inr (),
        chr\<lparr>chr_notif_q_status := (chr_notif_q_status chr)
          (i := chr_notif_q_status chr i AND NOT (push_bit j 1))\<rparr>,
        up (dev\<lparr>dev_notif_q_status := (dev_notif_q_status dev)
          (i := dev_notif_q_status dev i AND NOT (push_bit j 1))\<rparr>)))"

text \<open>
  \<open>arg\<close> is the byte read from user memory, \<open>None\<close> when the copy faults (which returns without
  releasing the semaphore).
\<close>

definition alloc_pipe_select :: "bool \<Rightarrow> bool option \<Rightarrow> nat chr_op" where
  "alloc_pipe_select intr arg = with_dev intr (\<lambda>chr dev.
     case arg of
       None \<Rightarrow> (Inl EFAULT, chr, dev)
     | Some is_fallback \<Rightarrow>
         if is_fallback then
           (case find_clear_up (dev_pipe_status dev) 0 (MAX_NB_FLOWS div 8) of
              None \<Rightarrow> (Inl ENOMEM, chr, up dev)
            | Some (i, set_pipe_id) \<Rightarrow>
                let pipe_id = i * 8 + set_pipe_id in
                if of_nat pipe_id \<noteq> dev_nb_fb_queues dev then (Inl EINVAL, chr, up dev)
                else (Inr pipe_id,
                      chr\<lparr>chr_nb_fb_queues := chr_nb_fb_queues chr + 1\<rparr>,
                      up (dev\<lparr>dev_nb_fb_queues := dev_nb_fb_queues dev + 1\<rparr>)))
         else
           (case find_clear_down (dev_pipe_status dev) (MAX_NB_FLOWS div 8) of
              None \<Rightarrow> (Inl ENOMEM, chr, up dev)
            | Some (i, set_pipe_id) \<Rightarrow> (Inr (i * 8 + set_pipe_id), chr, up dev)))"

definition alloc_pipe_commit ::
    "bool \<Rightarrow> nat \<Rightarrow> chr_dev_bookkeep \<Rightarrow> dev_bookkeep \<Rightarrow>
     u32 kres \<times> chr_dev_bookkeep \<times> dev_bookkeep" where
  "alloc_pipe_commit ufault pipe_id chr dev =
     (let i = pipe_id div 8; j = pipe_id mod 8 in
      (if ufault then Inl EFAULT else Inr (of_nat pipe_id),
       chr\<lparr>chr_pipe_status := (chr_pipe_status chr)(i := chr_pipe_status chr i OR push_bit j 1)\<rparr>,
       dev\<lparr>dev_pipe_status := (dev_pipe_status dev)(i := dev_pipe_status dev i OR push_bit j 1)\<rparr>))"

definition alloc_pipe :: "bool \<Rightarrow> bool option \<Rightarrow> bool \<Rightarrow> u32 chr_op" where
  "alloc_pipe intr arg ufault chr dev =
     (case alloc_pipe_select intr arg chr dev of
        None \<Rightarrow> None
      | Some (Inl e, chr', dev') \<Rightarrow> Some (Inl e, chr', dev')
      | Some (Inr pipe_id, chr', dev') \<Rightarrow> Some (alloc_pipe_commit ufault pipe_id chr' dev'))"

definition free_pipe :: "bool \<Rightarrow> u64 \<Rightarrow> unit chr_op" where
  "free_pipe intr uarg = with_dev intr (\<lambda>chr dev.
     let pipe_id = sint (ucast uarg :: u32) in
     if pipe_id < 0 \<or> pipe_id \<ge> int MAX_NB_FLOWS then (Inl EINVAL, chr, dev)
     else
       let i = nat pipe_id div 8; j = nat pipe_id mod 8 in
       if chr_pipe_status chr i AND push_bit j 1 = 0 then (Inl EINVAL, chr, dev)
       else
         let chr' = chr\<lparr>chr_pipe_status := (chr_pipe_status chr)
               (i := chr_pipe_status chr i AND NOT (push_bit j 1))\<rparr>;
             dev' = dev\<lparr>dev_pipe_status := (dev_pipe_status dev)
               (i := dev_pipe_status dev i AND NOT (push_bit j 1))\<rparr> in
         if of_int pipe_id < dev_nb_fb_queues dev'
         then (Inr (), chr'\<lparr>chr_nb_fb_queues := chr_nb_fb_queues chr' - 1\<rparr>,
               up (dev'\<lparr>dev_nb_fb_queues := dev_nb_fb_queues dev' - 1\<rparr>))
         else (Inr (), chr', up dev'))"

definition set_rr_status :: "bool \<Rightarrow> bool \<Rightarrow> unit chr_op" where
  "set_rr_status intr rr_status =
     with_dev intr (\<lambda>chr dev. (Inr (), chr, up (dev\<lparr>enable_rr := rr_status\<rparr>)))"

definition get_rr_status :: "bool \<Rightarrow> dev_bookkeep \<Rightarrow> bool kres" where
  "get_rr_status ufault dev = (if ufault then Inl EFAULT else Inr (enable_rr dev))"

definition get_nb_fallback_queues :: "bool \<Rightarrow> dev_bookkeep \<Rightarrow> u32 kres" where
  "get_nb_fallback_queues ufault dev = (if ufault then Inl EFAULT else Inr (dev_nb_fb_queues dev))"

section \<open>The operations on the bit vectors\<close>

lemma with_dev_run:
  "0 < dev_sem dev \<Longrightarrow> with_dev False f chr dev = Some (f chr (dev\<lparr>dev_sem := dev_sem dev - 1\<rparr>))"
  by (simp add: with_dev_def down_interruptible_def)

lemma with_dev_intr [simp]: "with_dev True f chr dev = Some (Inl ERESTARTSYS, chr, dev)"
  by (simp add: with_dev_def down_interruptible_def)

lemma with_dev_sleep: "dev_sem dev = 0 \<Longrightarrow> with_dev False f chr dev = None"
  by (simp add: with_dev_def down_interruptible_def)

lemma up_simps [simp]:
  "up (dev\<lparr>dev_sem := n, dev_notif_q_status := st\<rparr>) = dev\<lparr>dev_sem := Suc n, dev_notif_q_status := st\<rparr>"
  "dev_notif_q_status (up dev) = dev_notif_q_status dev" "dev_pipe_status (up dev) = dev_pipe_status dev"
  "dev_nb_fb_queues (up dev) = dev_nb_fb_queues dev" "dev_sem (up dev) = Suc (dev_sem dev)"
  "enable_rr (up dev) = enable_rr dev" "chr_open_cnt (up dev) = chr_open_cnt dev"
  "dev_bdf (up dev) = dev_bdf dev"
  by (simp_all add: up_def)

lemma set_byte: "b < 8 \<Longrightarrow> st(i := st i OR 2 ^ b) = bv_set st (i * 8 + b)"
  using bv_set_byte [of b st i] by simp

lemma set_byte': "st(k div 8 := st (k div 8) OR 2 ^ (k mod 8)) = bv_set st k"
  by (simp add: bv_set_def)

lemma clear_byte': "st(k div 8 := st (k div 8) AND NOT (2 ^ (k mod 8))) = bv_clear st k"
  by (simp add: bv_clear_def)

lemma test_byte': "(st (k div 8) AND 2 ^ (k mod 8) = (0 :: u8)) \<longleftrightarrow> \<not> bv_bit st k"
  by (simp add: bv_bit_def and_exp_eq_0_iff_not_bit)

lemma alloc_notif_buffer_eq:
  assumes "0 < dev_sem dev"
  shows "alloc_notif_buffer False ufault chr dev = Some
    (case pick_up (MAX_NB_APPS div 8) (dev_notif_q_status dev) of
       None \<Rightarrow> (Inl ENOMEM, chr, dev)
     | Some k \<Rightarrow> (if ufault then Inl EFAULT else Inr (of_nat k),
         chr\<lparr>chr_notif_q_status := bv_set (chr_notif_q_status chr) k\<rparr>,
         dev\<lparr>dev_notif_q_status := bv_set (dev_notif_q_status dev) k\<rparr>))"
  using assms find_clear_up_Some [of "dev_notif_q_status dev" 0 "MAX_NB_APPS div 8"]
  by (auto simp: alloc_notif_buffer_def with_dev_run pick_up_def set_byte Let_def up_def
      split: option.split)

lemma free_notif_buffer_eq:
  assumes "0 < dev_sem dev"
  shows "free_notif_buffer False uarg chr dev = Some
    (let k = sint (ucast uarg :: u32) in
     if 0 \<le> k \<and> k < int MAX_NB_APPS
     then (Inr (), chr\<lparr>chr_notif_q_status := bv_clear (chr_notif_q_status chr) (nat k)\<rparr>,
                   dev\<lparr>dev_notif_q_status := bv_clear (dev_notif_q_status dev) (nat k)\<rparr>)
     else (Inl EINVAL, chr, dev\<lparr>dev_sem := dev_sem dev - 1\<rparr>))"
  using assms by (simp add: free_notif_buffer_def with_dev_run clear_byte' Let_def up_def not_less)

lemma alloc_pipe_commit_eq:
  "alloc_pipe_commit ufault k chr dev =
     (if ufault then Inl EFAULT else Inr (of_nat k),
      chr\<lparr>chr_pipe_status := bv_set (chr_pipe_status chr) k\<rparr>,
      dev\<lparr>dev_pipe_status := bv_set (dev_pipe_status dev) k\<rparr>)"
  by (simp add: alloc_pipe_commit_def Let_def set_byte')

lemma alloc_pipe_select_eq:
  assumes "0 < dev_sem dev"
  shows "alloc_pipe_select False arg chr dev = Some
    (case arg of
       None \<Rightarrow> (Inl EFAULT, chr, dev\<lparr>dev_sem := dev_sem dev - 1\<rparr>)
     | Some fb \<Rightarrow>
         (case (if fb then pick_up else pick_down) (MAX_NB_FLOWS div 8) (dev_pipe_status dev) of
            None \<Rightarrow> (Inl ENOMEM, chr, dev)
          | Some k \<Rightarrow>
              if fb \<and> of_nat k \<noteq> dev_nb_fb_queues dev then (Inl EINVAL, chr, dev)
              else (Inr k,
                chr\<lparr>chr_nb_fb_queues := chr_nb_fb_queues chr + (if fb then 1 else 0)\<rparr>,
                dev\<lparr>dev_nb_fb_queues := dev_nb_fb_queues dev + (if fb then 1 else 0)\<rparr>)))"
  using assms
  by (cases arg) (auto simp: alloc_pipe_select_def with_dev_run
      pick_up_def pick_down_def Let_def up_def split: option.split)

lemma alloc_pipe_eq:
  assumes "0 < dev_sem dev"
  shows "alloc_pipe False arg ufault chr dev = Some
    (case arg of
       None \<Rightarrow> (Inl EFAULT, chr, dev\<lparr>dev_sem := dev_sem dev - 1\<rparr>)
     | Some fb \<Rightarrow>
         (case (if fb then pick_up else pick_down) (MAX_NB_FLOWS div 8) (dev_pipe_status dev) of
            None \<Rightarrow> (Inl ENOMEM, chr, dev)
          | Some k \<Rightarrow>
              if fb \<and> of_nat k \<noteq> dev_nb_fb_queues dev then (Inl EINVAL, chr, dev)
              else (if ufault then Inl EFAULT else Inr (of_nat k),
                chr\<lparr>chr_pipe_status := bv_set (chr_pipe_status chr) k,
                    chr_nb_fb_queues := chr_nb_fb_queues chr + (if fb then 1 else 0)\<rparr>,
                dev\<lparr>dev_pipe_status := bv_set (dev_pipe_status dev) k,
                    dev_nb_fb_queues := dev_nb_fb_queues dev + (if fb then 1 else 0)\<rparr>)))"
  unfolding alloc_pipe_def alloc_pipe_select_eq [OF assms]
  by (simp add: alloc_pipe_commit_eq split: option.split)

lemma free_pipe_eq:
  assumes "0 < dev_sem dev"
  shows "free_pipe False uarg chr dev = Some
    (let k = sint (ucast uarg :: u32) in
     if 0 \<le> k \<and> k < int MAX_NB_FLOWS \<and> bv_bit (chr_pipe_status chr) (nat k)
     then (Inr (),
       chr\<lparr>chr_pipe_status := bv_clear (chr_pipe_status chr) (nat k),
           chr_nb_fb_queues := chr_nb_fb_queues chr - (if of_int k < dev_nb_fb_queues dev then 1 else 0)\<rparr>,
       dev\<lparr>dev_pipe_status := bv_clear (dev_pipe_status dev) (nat k),
           dev_nb_fb_queues := dev_nb_fb_queues dev - (if of_int k < dev_nb_fb_queues dev then 1 else 0)\<rparr>)
     else (Inl EINVAL, chr, dev\<lparr>dev_sem := dev_sem dev - 1\<rparr>))"
  using assms
  by (auto simp: free_pipe_def with_dev_run clear_byte' test_byte' Let_def up_def not_less)

section \<open>Repeated allocation\<close>

text \<open>A process that asks for notification buffers until a call fails, at most \<open>n\<close> times.\<close>

primrec alloc_notif_buffers ::
    "nat \<Rightarrow> chr_dev_bookkeep \<Rightarrow> dev_bookkeep \<Rightarrow> u32 list \<times> chr_dev_bookkeep \<times> dev_bookkeep" where
  "alloc_notif_buffers 0 chr dev = ([], chr, dev)"
| "alloc_notif_buffers (Suc n) chr dev =
     (case alloc_notif_buffer False False chr dev of
        Some (Inr b, chr', dev') \<Rightarrow>
          (case alloc_notif_buffers n chr' dev' of (bs, r) \<Rightarrow> (b # bs, r))
      | _ \<Rightarrow> ([], chr, dev))"

lemma alloc_notif_buffers_grab:
  assumes "0 < dev_sem dev"
  shows "fst (alloc_notif_buffers n chr dev) =
    map of_nat (fst (grab (pick_up (MAX_NB_APPS div 8)) (\<lambda>i st. bv_set st i) n (dev_notif_q_status dev)))"
  using assms
proof (induction n arbitrary: chr dev)
  case (Suc n)
  show ?case
    using Suc.prems
    by (simp add: alloc_notif_buffer_eq case_prod_unfold Suc.IH split: option.split)
qed simp

section \<open>Properties\<close>

text \<open>
  Allocating a notification buffer returns the lowest identifier that is free on the device and
  marks it, in the device's map and in the handle's; it fails with -ENOMEM exactly when all 1024 are
  in use, and then changes nothing. The semaphore is released either way.
\<close>

theorem alloc_notif_buffer_lowest:
  assumes "0 < dev_sem dev"
  shows "\<exists>r chr' dev'. alloc_notif_buffer False False chr dev = Some (r, chr', dev') \<and>
    dev_sem dev' = dev_sem dev \<and>
    (case r of
       Inl e \<Rightarrow> e = ENOMEM \<and> {..<MAX_NB_APPS} \<subseteq> bv_used (dev_notif_q_status dev) \<and>
         chr' = chr \<and> dev' = dev
     | Inr b \<Rightarrow> unat b < MAX_NB_APPS \<and> unat b \<notin> bv_used (dev_notif_q_status dev) \<and>
         (\<forall>k < unat b. k \<in> bv_used (dev_notif_q_status dev)) \<and>
         bv_used (dev_notif_q_status dev') = insert (unat b) (bv_used (dev_notif_q_status dev)) \<and>
         bv_used (chr_notif_q_status chr') = insert (unat b) (bv_used (chr_notif_q_status chr)))"
proof (cases "pick_up (MAX_NB_APPS div 8) (dev_notif_q_status dev)")
  case None
  with assms notif_pool.pick_full [OF None] show ?thesis by (simp add: alloc_notif_buffer_eq)
next
  case (Some k)
  have "unat (of_nat k :: u32) = k"
    using notif_pool.pick_fresh [OF Some] by (intro unat_of_nat_small) (simp add: MAX_NB_APPS_def)
  moreover have "\<forall>j < k. j \<in> bv_used (dev_notif_q_status dev)"
    using pick_up_Some [OF Some] by (simp add: bv_used_def)
  ultimately show ?thesis
    using assms Some notif_pool.pick_fresh [OF Some] by (simp add: alloc_notif_buffer_eq)
qed

definition dev_zero :: dev_bookkeep where
  "dev_zero = \<lparr>dev_bdf = 0,
     dev_bar = (\<lambda>_. \<lparr>base_addr = 0, bar_len = 0, is_prefetchable = False, is_hprxm = False\<rparr>),
     dev_kmem = \<lparr>virt_addr = 0, bus_addr = 0, kmem_size = 0\<rparr>,
     dev_dma = \<lparr>dt_virt_addr = (\<lambda>_. \<lparr>dt_status = (\<lambda>_. 0), dt_descriptor = (\<lambda>_.
         \<lparr>src_addr = 0, dst_addr = 0, desc_ctrl = 0, desc_reserved = [0, 0, 0]\<rparr>)\<rparr>),
       dt_bus_addr = (\<lambda>_. 0), last_ptr = (\<lambda>_. 127), num_pending = (\<lambda>_. 0), last_ptr_wrap = (\<lambda>_. False)\<rparr>,
     chr_open_cnt = 0, dev_sem = 1, dev_nb_fb_queues = 0, enable_rr = False,
     dev_notif_q_status = (\<lambda>_. 0), dev_pipe_status = (\<lambda>_. 0)\<rparr>"

definition chr_zero :: chr_dev_bookkeep where
  "chr_zero = \<lparr>chr_dev = 0, use_cmd = False, cur_bar_num = 0, chr_nb_fb_queues = 0,
     chr_notif_q_status = (\<lambda>_. 0), chr_pipe_status = (\<lambda>_. 0)\<rparr>"

theorem alloc_notif_buffer_lowest_witness:
  "0 < dev_sem dev_zero \<and> (\<exists>r. alloc_notif_buffer False False chr_zero dev_zero = Some r)"
  using alloc_notif_buffer_lowest [of dev_zero chr_zero] by (auto simp: dev_zero_def)

text \<open>
  A device with no notification buffer in use hands out exactly 1024 of them, every identifier
  below 1024 once, no matter how often a process asks.
\<close>

theorem notif_buffers_exactly_once:
  assumes "0 < dev_sem dev" "bv_used (dev_notif_q_status dev) = {}" "MAX_NB_APPS \<le> n"
  shows "let bs = fst (alloc_notif_buffers n chr dev) in
    length bs = MAX_NB_APPS \<and> distinct (map unat bs) \<and> set (map unat bs) = {..<MAX_NB_APPS}"
proof -
  let ?g = "grab (pick_up (MAX_NB_APPS div 8)) (\<lambda>i st. bv_set st i) n (dev_notif_q_status dev)"
  obtain "is" st where g: "?g = (is, st)" by fastforce
  note all = notif_pool.grab_all [OF assms(2,3) g]
  have "unat (of_nat i :: u32) = i" if "i \<in> set is" for i
    using that all(3) by (intro unat_of_nat_small) (simp add: MAX_NB_APPS_def)
  then have id: "map unat (map of_nat is :: u32 list) = is" by (simp add: map_idI)
  show ?thesis
    unfolding alloc_notif_buffers_grab [OF assms(1)] g fst_conv Let_def id using all by simp
qed

theorem notif_buffers_exactly_once_witness:
  "length (fst (alloc_notif_buffers 5000 chr_zero dev_zero)) = 1024"
  using notif_buffers_exactly_once [of dev_zero 5000 chr_zero]
  by (simp add: dev_zero_def bv_used_def bv_bit_def MAX_NB_APPS_def Let_def)

text \<open>
  Allocating a pipe. A fallback pipe gets the lowest free identifier, which has to be the number
  of fallback pipes (otherwise -EINVAL and nothing changes), so fallback pipes stay a prefix; any
  other pipe gets the highest free identifier. -ENOMEM is returned exactly when all 8192 pipes are in
  use. A successful call marks the identifier for the device and the handle.
\<close>

theorem alloc_pipe_placement:
  assumes "0 < dev_sem dev"
  shows "\<exists>r chr' dev'. alloc_pipe False (Some fb) False chr dev = Some (r, chr', dev') \<and>
    dev_sem dev' = dev_sem dev \<and>
    (case r of
       Inl e \<Rightarrow> chr' = chr \<and> dev' = dev \<and>
         (e = ENOMEM \<and> {..<MAX_NB_FLOWS} \<subseteq> bv_used (dev_pipe_status dev) \<or>
          e = EINVAL \<and> fb \<and> (\<exists>k < MAX_NB_FLOWS. k \<notin> bv_used (dev_pipe_status dev) \<and>
            (\<forall>j < k. j \<in> bv_used (dev_pipe_status dev)) \<and> of_nat k \<noteq> dev_nb_fb_queues dev))
     | Inr p \<Rightarrow> unat p < MAX_NB_FLOWS \<and> unat p \<notin> bv_used (dev_pipe_status dev) \<and>
         bv_used (dev_pipe_status dev') = insert (unat p) (bv_used (dev_pipe_status dev)) \<and>
         bv_used (chr_pipe_status chr') = insert (unat p) (bv_used (chr_pipe_status chr)) \<and>
         (if fb then p = dev_nb_fb_queues dev \<and> dev_nb_fb_queues dev' = p + 1 \<and>
              (\<forall>j < unat p. j \<in> bv_used (dev_pipe_status dev))
          else dev_nb_fb_queues dev' = dev_nb_fb_queues dev \<and>
              (\<forall>j < MAX_NB_FLOWS. unat p < j \<longrightarrow> j \<in> bv_used (dev_pipe_status dev))))"
proof -
  let ?pick = "(if fb then pick_up else pick_down) (MAX_NB_FLOWS div 8) (dev_pipe_status dev)"
  have eight: "8 * (MAX_NB_FLOWS div 8) = MAX_NB_FLOWS" by (simp add: MAX_NB_FLOWS_def)
  show ?thesis
  proof (cases ?pick)
    case None
    then have "{..<MAX_NB_FLOWS} \<subseteq> bv_used (dev_pipe_status dev)"
      using fallback_pool.pick_full pipe_pool.pick_full by (cases fb) auto
    with None assms show ?thesis by (simp add: alloc_pipe_eq)
  next
    case (Some k)
    then have k: "k < MAX_NB_FLOWS" "k \<notin> bv_used (dev_pipe_status dev)"
      using fallback_pool.pick_fresh pipe_pool.pick_fresh by (cases fb; simp)+
    have u: "unat (of_nat k :: u32) = k"
      using k(1) by (intro unat_of_nat_small) (simp add: MAX_NB_FLOWS_def)
    have low: "fb \<Longrightarrow> \<forall>j < k. j \<in> bv_used (dev_pipe_status dev)"
      using pick_up_Some [of _ "dev_pipe_status dev" k] Some by (simp add: bv_used_def)
    have high: "\<not> fb \<Longrightarrow> \<forall>j < MAX_NB_FLOWS. k < j \<longrightarrow> j \<in> bv_used (dev_pipe_status dev)"
      using pick_down_Some [of "MAX_NB_FLOWS div 8" "dev_pipe_status dev" k] Some eight
      by (auto simp: bv_used_def)
    show ?thesis
    proof (cases "fb \<and> of_nat k \<noteq> dev_nb_fb_queues dev")
      case True
      then show ?thesis using Some assms k low by (auto simp: alloc_pipe_eq)
    next
      case False
      then have "fb \<Longrightarrow> unat (dev_nb_fb_queues dev) = k" using u by auto
      then show ?thesis using False Some assms k low high by (auto simp: alloc_pipe_eq u)
    qed
  qed
qed

theorem alloc_pipe_placement_witness:
  "\<exists>r. alloc_pipe False (Some True) False chr_zero dev_zero = Some r"
  using alloc_pipe_placement [of dev_zero True chr_zero] by (auto simp: dev_zero_def)

text \<open>
  Two processes that allocate a pipe at the same time can get the same one. The identifier is
  chosen under the device semaphore but marked after it is released: when the second process chooses
  in between, both calls succeed with the same identifier and both handles own it.
\<close>

theorem alloc_pipe_race:
  assumes "0 < dev_sem dev" "k < MAX_NB_FLOWS" "k \<notin> bv_used (dev_pipe_status dev)"
  shows "\<exists>i a1 b1 dev1 dev2. alloc_pipe_select False (Some False) a dev = Some (Inr i, a1, dev1) \<and>
    alloc_pipe_select False (Some False) b dev1 = Some (Inr i, b1, dev2) \<and>
    (let (ra, a2, dev3) = alloc_pipe_commit False i a1 dev2;
         (rb, b2, dev4) = alloc_pipe_commit False i b1 dev3
     in ra = Inr (of_nat i) \<and> rb = Inr (of_nat i) \<and>
        i \<in> bv_used (chr_pipe_status a2) \<and> i \<in> bv_used (chr_pipe_status b2))"
proof -
  have "pick_down (MAX_NB_FLOWS div 8) (dev_pipe_status dev) \<noteq> None"
    using assms(2,3) pipe_pool.pick_None_iff by auto
  then obtain i where i: "pick_down (MAX_NB_FLOWS div 8) (dev_pipe_status dev) = Some i" by blast
  then have "alloc_pipe_select False (Some False) c dev = Some (Inr i, c, dev)" for c
    using assms(1) by (simp add: alloc_pipe_select_eq)
  then show ?thesis by (simp add: alloc_pipe_commit_eq)
qed

theorem alloc_pipe_race_witness:
  "\<exists>i a1 b1 dev1 dev2. alloc_pipe_select False (Some False) chr_zero dev_zero = Some (Inr i, a1, dev1) \<and>
     alloc_pipe_select False (Some False) chr_zero dev1 = Some (Inr i, b1, dev2)"
proof -
  have "0 < dev_sem dev_zero" "5 < MAX_NB_FLOWS" "5 \<notin> bv_used (dev_pipe_status dev_zero)"
    by (simp_all add: dev_zero_def bv_used_def bv_bit_def MAX_NB_FLOWS_def)
  from alloc_pipe_race [OF this, of chr_zero chr_zero] show ?thesis by blast
qed

text \<open>
  Error paths that keep the semaphore. A faulting user address in \<^verbatim>\<open>alloc_pipe\<close>, an
  invalid or foreign pipe in \<^verbatim>\<open>free_pipe\<close> and an invalid identifier in
  \<^verbatim>\<open>free_notif_buffer\<close> return their error without releasing the device semaphore. When its
  count was one, every later operation that needs it sleeps for ever.
\<close>

theorem semaphore_leaks:
  assumes "dev_sem dev = 1" "\<not> unat uarg < MAX_NB_FLOWS" "unat uarg < 2 ^ 31"
  shows "\<exists>dev'. dev_sem dev' = 0 \<and>
    free_pipe False uarg chr dev = Some (Inl EINVAL, chr, dev') \<and>
    free_notif_buffer False uarg chr dev = Some (Inl EINVAL, chr, dev') \<and>
    alloc_pipe False None ufault chr dev = Some (Inl EFAULT, chr, dev') \<and>
    alloc_notif_buffer False ufault chr dev' = None \<and> alloc_pipe False arg ufault chr dev' = None \<and>
    free_pipe False uarg' chr dev' = None \<and> set_rr_status False rr chr dev' = None"
proof -
  have "unat (ucast uarg :: u32) = unat uarg"
    using assms(3) by (simp add: unsigned_ucast_eq take_bit_nat_eq_self)
  then have "sint (ucast uarg :: u32) = int (unat uarg)"
    using assms(3) sint_small [of "ucast uarg"] by simp
  then have "\<not> sint (ucast uarg :: u32) < int MAX_NB_FLOWS" "\<not> sint (ucast uarg :: u32) < int MAX_NB_APPS"
    using assms(2) unfolding MAX_NB_FLOWS_def MAX_NB_APPS_def by linarith+
  moreover have "0 < dev_sem dev" using assms(1) by simp
  moreover have "with_dev False f c (dev\<lparr>dev_sem := 0\<rparr>) = None"
    for f :: "chr_dev_bookkeep \<Rightarrow> dev_bookkeep \<Rightarrow> 'a kres \<times> chr_dev_bookkeep \<times> dev_bookkeep" and c
    by (simp add: with_dev_sleep)
  ultimately show ?thesis
    using assms(1)
    by (intro exI [of _ "dev\<lparr>dev_sem := 0\<rparr>"])
      (simp add: free_pipe_eq free_notif_buffer_eq alloc_pipe_eq Let_def with_dev_sleep
        alloc_notif_buffer_def alloc_pipe_def [of _ arg] alloc_pipe_select_def free_pipe_def [of _ uarg'] set_rr_status_def)
qed

theorem semaphore_leaks_witness:
  "\<exists>dev'. free_pipe False 9000 chr_zero dev_zero = Some (Inl EINVAL, chr_zero, dev') \<and>
     alloc_pipe False (Some False) False chr_zero dev' = None"
  using semaphore_leaks [of dev_zero 9000 chr_zero False "Some False" 0 False]
  by (auto simp: dev_zero_def MAX_NB_FLOWS_def)

end
