(* ===== verification/Drv_Dma.thy ===== *)
theory Drv_Dma
  imports Drv_Alloc
begin

text \<open>
  The driver's DMA engine, \<^verbatim>\<open>intel_fpga_pcie_dma.c\<close>, in the version the generated parameters
  select (version 4 of the controller): queueing transfers as descriptors, starting them and waiting
  for the device's status word. The device writes the status word by itself: \<open>hw k i\<close> says
  whether it has done so for direction \<open>i\<close> when the driver polls for the \<open>k\<close>-th time. Writes to
  device registers are collected as pairs of address and value. The code runs on a little-endian
  machine, where \<^verbatim>\<open>cpu_to_le32\<close> is the identity.
\<close>

definition DMA_TIMEOUT :: nat where [enso_simps]: "DMA_TIMEOUT = 0x2000000"
definition ONCHIP_MEM_BASE :: u64 where [enso_simps]: "ONCHIP_MEM_BASE = 0x40000000"
definition WRITE_DESC_NORM_OFFSET :: u64 where [enso_simps]: "WRITE_DESC_NORM_OFFSET = 0x000"
definition WRITE_DESC_PRIO_OFFSET :: u64 where [enso_simps]: "WRITE_DESC_PRIO_OFFSET = 0x200"
definition READ_DESC_NORM_OFFSET :: u64 where [enso_simps]: "READ_DESC_NORM_OFFSET = 0x800"
definition READ_DESC_PRIO_OFFSET :: u64 where [enso_simps]: "READ_DESC_PRIO_OFFSET = 0xA00"

record intel_fpga_pcie_arg =
  ep_addr :: u64
  user_addr :: u64
  arg_size :: u32
  is_read :: bool

section \<open>Operations\<close>

definition set_desc :: "u64 \<Rightarrow> u64 \<Rightarrow> u32 \<Rightarrow> u32 \<Rightarrow> bool \<Rightarrow> desc" where
  "set_desc ep rp byte_len ident rd =
     \<lparr>src_addr = (if rd then ep else rp), dst_addr = (if rd then rp else ep),
      desc_ctrl = byte_len div 4 OR push_bit 24 ident, desc_reserved = [0, 0, 0]\<rparr>"

definition set_status_desc :: "u64 \<Rightarrow> desc" where
  "set_status_desc status_addr =
     \<lparr>src_addr = 1, dst_addr = status_addr,
      desc_ctrl = 1 OR push_bit 18 1 OR push_bit 24 255, desc_reserved = [0, 0, 0]\<rparr>"

definition put_desc :: "nat \<Rightarrow> nat \<Rightarrow> desc \<Rightarrow> dma_info \<Rightarrow> dma_info" where
  "put_desc idx slot d info = info\<lparr>dt_virt_addr := (dt_virt_addr info)(idx :=
     (dt_virt_addr info idx)\<lparr>dt_descriptor := (dt_descriptor (dt_virt_addr info idx))(slot := d)\<rparr>)\<rparr>"

definition dma_idx :: "bool \<Rightarrow> nat" where
  "dma_idx rd = (if rd then DMA_RD_IDX else DMA_WR_IDX)"

definition intel_fpga_pcie_dma_queue :: "intel_fpga_pcie_arg option \<Rightarrow> dev_bookkeep \<Rightarrow> unit kres \<times> dev_bookkeep" where
  "intel_fpga_pcie_dma_queue uarg dev =
     (case uarg of
        None \<Rightarrow> (Inl EFAULT, dev)
      | Some karg \<Rightarrow>
          let kmem = dev_kmem dev; info = dev_dma dev;
              ep = ep_addr karg + ONCHIP_MEM_BASE;
              kmem_offset = user_addr karg;
              size = arg_size karg;
              idx = dma_idx (is_read karg) in
          if size mod 4 \<noteq> 0 \<or> size < 4 \<or> size > 1024 * 1024 then (Inl EINVAL, dev)
          else if kmem_offset + ucast size > kmem_size kmem then (Inl EINVAL, dev)
          else if num_pending info idx = 128 then (Inl EBUSY, dev)
          else
            let full = last_ptr info idx \<ge> 127;
                lptr = (if full then 0 else last_ptr info idx + 1);
                info1 = (if full \<and> num_pending info idx > 0
                         then info\<lparr>last_ptr_wrap := (last_ptr_wrap info)(idx := True)\<rparr> else info);
                info2 = put_desc idx (unat lptr)
                  (set_desc ep (bus_addr kmem + kmem_offset) size (ucast lptr) (is_read karg)) info1;
                info3 = info2\<lparr>last_ptr := (last_ptr info2)(idx := lptr),
                  num_pending := (num_pending info2)(idx := num_pending info2 idx + 1)\<rparr> in
            (Inr (), dev\<lparr>dev_dma := info3\<rparr>))"

text \<open>\<^verbatim>\<open>dma_start\<close> returns the register writes it makes, in order.\<close>

definition dma_start :: "u8 \<Rightarrow> bool \<Rightarrow> bool \<Rightarrow> dev_bookkeep \<Rightarrow> (u64 \<times> u32) list \<times> dev_bookkeep" where
  "dma_start lptr lptr_wrap rd dev =
     (if lptr_wrap then ([], dev)
      else
        let idx = dma_idx rd; l = unat lptr; info = dev_dma dev;
            info1 = info\<lparr>dt_virt_addr := (dt_virt_addr info)(idx :=
              (dt_virt_addr info idx)\<lparr>dt_status := (dt_status (dt_virt_addr info idx))(l := 0)\<rparr>)\<rparr>;
            bus = dt_bus_addr info1 idx;
            info2 =
              (if rd then put_desc DMA_RD_IDX (l + 1) (set_status_desc (bus + 4 * ucast lptr)) info1
               else put_desc DMA_WR_IDX (l + 2) (set_status_desc (bus + 4 * ucast lptr))
                 (put_desc DMA_WR_IDX (l + 1) (set_desc WRITE_DESC_PRIO_OFFSET
                   (bus + (512 + (ucast lptr + 2) * 32)) 32 (ucast lptr + 1) False) info1));
            src = bus + 512;
            dst = (if rd then WRITE_DESC_NORM_OFFSET else READ_DESC_NORM_OFFSET);
            ctrl = (ucast lptr + 2) * 8 OR push_bit 20 1 OR push_bit 24 0xFE :: u32;
            queue = base_addr (dev_bar dev DMA_CTRL_BAR) +
              (if rd then READ_DESC_PRIO_OFFSET else READ_DESC_NORM_OFFSET);
            words = [ucast src, ucast (drop_bit 32 src), ucast dst, ucast (drop_bit 32 dst), ctrl] in
        (map (\<lambda>i. (queue + of_nat (i * 4), words ! i)) [0..<5],
         dev\<lparr>dev_dma := info2\<lparr>last_ptr := (last_ptr info2)(DMA_RD_IDX := 127, DMA_WR_IDX := 127)\<rparr>\<rparr>))"

text \<open>The polling loop; the result is the value of \<^verbatim>\<open>timeout\<close> when it ends.\<close>

fun dma_wait :: "(nat \<Rightarrow> bool) \<Rightarrow> nat \<Rightarrow> nat \<Rightarrow> nat" where
  "dma_wait finished k timeout =
     (if finished k then timeout
      else if timeout = 0 then 0
      else dma_wait finished (Suc k) (timeout - 1))"

declare dma_wait.simps [simp del]

definition dma_take :: "(nat \<Rightarrow> bool) \<Rightarrow> dma_info \<Rightarrow> dma_info" where
  "dma_take send info = info\<lparr>
     last_ptr_wrap := (\<lambda>i. if i < 2 \<and> send i then False else last_ptr_wrap info i),
     num_pending := (\<lambda>i. if i < 2 \<and> send i then 0 else num_pending info i)\<rparr>"

definition intel_fpga_pcie_dma_send ::
    "(nat \<Rightarrow> nat \<Rightarrow> bool) \<Rightarrow> u64 \<Rightarrow> dev_bookkeep \<Rightarrow> unit kres \<times> (u64 \<times> u32) list \<times> dev_bookkeep" where
  "intel_fpga_pcie_dma_send hw uarg dev =
     (let send_transfer = (\<lambda>i. bit uarg i);
          info = dev_dma dev;
          has_pending = (\<lambda>i. num_pending info i > 0);
          lptr = last_ptr info;
          lptr_wrap = last_ptr_wrap info;
          dev1 = dev\<lparr>dev_dma := dma_take send_transfer info\<rparr> in
      if \<not> send_transfer 0 \<and> \<not> send_transfer 1 then (Inl EINVAL, [], dev1)
      else if \<not> (send_transfer 0 \<and> has_pending 0) \<and> \<not> (send_transfer 1 \<and> has_pending 1)
      then (Inl ENODATA, [], dev1)
      else
        let (io0, dev2) = (if send_transfer 0 then dma_start (lptr 0) (lptr_wrap 0) True dev1 else ([], dev1));
            (io1, dev3) = (if send_transfer 1 then dma_start (lptr 1) (lptr_wrap 1) False dev2 else ([], dev2));
            status = (\<lambda>k i. dt_status (dt_virt_addr (dev_dma dev3) i) (unat (lptr i)) \<noteq> 0 \<or> hw k i);
            timeout = dma_wait (\<lambda>k. (\<not> send_transfer 0 \<or> status k 0) \<and> (\<not> send_transfer 1 \<or> status k 1))
              0 DMA_TIMEOUT in
        (if timeout = 0 then Inl ETIME else Inr (), io0 @ io1, dev3))"

definition dma_init :: "dev_bookkeep \<Rightarrow> dev_bookkeep" where
  "dma_init dev = dev\<lparr>dev_dma := (dev_dma dev)
     \<lparr>last_ptr := (last_ptr (dev_dma dev))(DMA_RD_IDX := 127, DMA_WR_IDX := 127)\<rparr>\<rparr>"

text \<open>
  \<^verbatim>\<open>intel_fpga_pcie_dma_probe\<close>: whether the 64-bit and the 32-bit mask are accepted and the
  tables the two allocations return (\<open>None\<close> when they fail). The second result counts the tables
  that stay allocated.
\<close>

definition intel_fpga_pcie_dma_probe ::
    "bool \<Rightarrow> bool \<Rightarrow> (desc_table \<times> u64) option \<Rightarrow> (desc_table \<times> u64) option \<Rightarrow> dev_bookkeep \<Rightarrow>
     unit kres \<times> nat \<times> dev_bookkeep" where
  "intel_fpga_pcie_dma_probe mask64 mask32 rd_dt wr_dt dev =
     (if \<not> mask64 \<and> \<not> mask32 then (Inl EADDRNOTAVAIL, 0, dev)
      else case rd_dt of
        None \<Rightarrow> (Inl ENOMEM, 0, dev)
      | Some (dt0, bus0) \<Rightarrow>
          (case wr_dt of
             None \<Rightarrow> (Inl ENOMEM, 0, dev)
           | Some (dt1, bus1) \<Rightarrow>
               let info = dev_dma dev;
                   info' = info\<lparr>dt_virt_addr := (dt_virt_addr info)(DMA_RD_IDX := dt0, DMA_WR_IDX := dt1),
                     dt_bus_addr := (dt_bus_addr info)(DMA_RD_IDX := bus0, DMA_WR_IDX := bus1)\<rparr> in
               (Inr (), 2, up (dma_init (dev\<lparr>dev_dma := info'\<rparr>)))))"

section \<open>Queued transfers\<close>

text \<open>
  The transfers queued in one direction are the descriptors from slot 0 on. The queue is in order
  when the last pointer is behind the newest of them (or at 127 when there is none) and the wrap
  flag is clear.
\<close>

definition dma_pending :: "dma_info \<Rightarrow> nat \<Rightarrow> desc list" where
  "dma_pending info i = map (dt_descriptor (dt_virt_addr info i)) [0..<unat (num_pending info i)]"

definition dma_ok :: "dma_info \<Rightarrow> nat \<Rightarrow> bool" where
  "dma_ok info i \<longleftrightarrow> unat (num_pending info i) \<le> 128 \<and> \<not> last_ptr_wrap info i \<and>
     unat (last_ptr info i) = (if num_pending info i = 0 then 127 else unat (num_pending info i) - 1)"

definition dma_valid :: "intel_fpga_pcie_arg \<Rightarrow> dev_bookkeep \<Rightarrow> bool" where
  "dma_valid karg dev \<longleftrightarrow> arg_size karg mod 4 = 0 \<and> 4 \<le> arg_size karg \<and> arg_size karg \<le> 1024 * 1024 \<and>
     user_addr karg + ucast (arg_size karg) \<le> kmem_size (dev_kmem dev)"

definition dma_desc :: "intel_fpga_pcie_arg \<Rightarrow> dev_bookkeep \<Rightarrow> nat \<Rightarrow> desc" where
  "dma_desc karg dev n = set_desc (ep_addr karg + ONCHIP_MEM_BASE)
     (bus_addr (dev_kmem dev) + user_addr karg) (arg_size karg) (of_nat n) (is_read karg)"

lemma put_desc_simps [simp]:
  "num_pending (put_desc i s d info) = num_pending info" "last_ptr (put_desc i s d info) = last_ptr info"
  "last_ptr_wrap (put_desc i s d info) = last_ptr_wrap info" "dt_bus_addr (put_desc i s d info) = dt_bus_addr info"
  "dt_status (dt_virt_addr (put_desc i s d info) j) = dt_status (dt_virt_addr info j)"
  "dt_descriptor (dt_virt_addr (put_desc i s d info) j) =
     (if j = i then (dt_descriptor (dt_virt_addr info i))(s := d) else dt_descriptor (dt_virt_addr info j))"
  by (simp_all add: put_desc_def)

lemma dma_idx_cases [simp]: "dma_idx True = 0" "dma_idx False = 1" "dma_idx rd < 2"
  by (simp_all add: dma_idx_def enso_simps)

lemma dma_ok_pending_0: "dma_ok info i \<Longrightarrow> last_ptr info i \<ge> 127 \<Longrightarrow> num_pending info i \<noteq> 128 \<Longrightarrow> num_pending info i = 0"
  by (rule ccontr) (auto simp: dma_ok_def word_le_nat_alt word_unat_eq_iff)

lemma dma_queue_slot:
  assumes "dma_ok info i" "num_pending info i \<noteq> 128"
  shows "unat (if last_ptr info i \<ge> 127 then 0 else last_ptr info i + 1) = unat (num_pending info i)"
proof (cases "last_ptr info i \<ge> 127")
  case True
  then show ?thesis using dma_ok_pending_0 [OF assms(1) True assms(2)] by simp
next
  case False
  then have lt: "unat (last_ptr info i) < 127" by (simp add: word_le_nat_alt not_le)
  then have "num_pending info i \<noteq> 0" "unat (last_ptr info i) = unat (num_pending info i) - 1"
    using assms(1) by (auto simp: dma_ok_def split: if_splits)
  moreover have "unat (last_ptr info i + 1) = unat (last_ptr info i) + 1"
    using lt unat_plus_small [of "last_ptr info i" 1] by simp
  ultimately show ?thesis using False by (simp add: unat_gt_0)
qed

lemma dma_queue_ok:
  assumes "dma_ok (dev_dma dev) (dma_idx (is_read karg))" "dma_valid karg dev"
    and "num_pending (dev_dma dev) (dma_idx (is_read karg)) \<noteq> 128"
  defines "i \<equiv> dma_idx (is_read karg)" and "n \<equiv> unat (num_pending (dev_dma dev) (dma_idx (is_read karg)))"
  shows "\<exists>info'. intel_fpga_pcie_dma_queue (Some karg) dev = (Inr (), dev\<lparr>dev_dma := info'\<rparr>) \<and>
    dma_ok info' i \<and> dma_pending info' i = dma_pending (dev_dma dev) i @ [dma_desc karg dev n] \<and>
    (\<forall>j. j \<noteq> i \<longrightarrow> dma_pending info' j = dma_pending (dev_dma dev) j \<and>
       (dma_ok (dev_dma dev) j \<longrightarrow> dma_ok info' j))"
proof -
  let ?info = "dev_dma dev"
  define lptr where "lptr = (if last_ptr ?info i \<ge> 127 then 0 else last_ptr ?info i + 1)"
  have l: "unat lptr = n"
    using dma_queue_slot [OF assms(1,3)] unfolding lptr_def n_def i_def .
  have n: "n < 128"
    using assms(1,3) by (simp add: dma_ok_def n_def word_unat_eq_iff)
  define info' where "info' = (put_desc i n (dma_desc karg dev n) ?info)
    \<lparr>last_ptr := (last_ptr ?info)(i := lptr), num_pending := (num_pending ?info)(i := num_pending ?info i + 1)\<rparr>"
  have wrap: "\<not> (last_ptr ?info i \<ge> 127 \<and> num_pending ?info i > 0)"
    using dma_ok_pending_0 [OF assms(1) _ assms(3)] by (auto simp: i_def)
  have ident: "(ucast lptr :: u32) = of_nat n"
    using l n by (simp add: word_unat_eq_iff unat_of_nat_small unat_ucast_up)
  have np: "unat (num_pending ?info i + 1) = Suc n"
    using n unat_plus_small [of "num_pending ?info i" 1] by (simp add: n_def i_def)
  have "intel_fpga_pcie_dma_queue (Some karg) dev = (Inr (), dev\<lparr>dev_dma := info'\<rparr>)"
    using assms(2,3) wrap
    by (auto simp: intel_fpga_pcie_dma_queue_def dma_valid_def Let_def i_def [symmetric] lptr_def [symmetric]
        not_less l ident dma_desc_def info'_def cong: if_cong)
  moreover have "dma_ok info' i"
    using assms(1) l n np by (auto simp: dma_ok_def info'_def i_def [symmetric] word_unat_eq_iff)
  moreover have "dma_pending info' i = dma_pending ?info i @ [dma_desc karg dev n]"
    by (simp add: dma_pending_def info'_def np) (simp add: n_def i_def)
  moreover have "j \<noteq> i \<Longrightarrow> dma_pending info' j = dma_pending ?info j \<and> dma_ok info' j = dma_ok ?info j" for j
    by (simp add: dma_pending_def dma_ok_def info'_def)
  ultimately show ?thesis by blast
qed

section \<open>Starting transfers\<close>

lemma dma_wait_0: "dma_wait f k t = 0 \<longleftrightarrow> (\<forall>j < t. \<not> f (k + j))"
proof (induction t arbitrary: k)
  case 0
  show ?case by (subst dma_wait.simps) simp
next
  case (Suc t)
  have "dma_wait f k (Suc t) = (if f k then Suc t else dma_wait f (Suc k) t)"
    by (subst dma_wait.simps) simp
  then show ?case using Suc.IH [of "Suc k"] by (auto simp: less_Suc_eq_0_disj)
qed

lemma not_False: "\<not> False"
  by simp

lemma dma_start_fields:
  assumes "\<not> wrap" "dma_start lptr wrap rd dev = (io, dev')"
  shows "length io = 5" and "snd (last io) = (ucast lptr + 2) * 8 OR push_bit 20 1 OR push_bit 24 0xFE"
    and "num_pending (dev_dma dev') = num_pending (dev_dma dev)"
    and "last_ptr_wrap (dev_dma dev') = last_ptr_wrap (dev_dma dev)"
    and "last_ptr (dev_dma dev') = (last_ptr (dev_dma dev))(0 := 127, 1 := 127)"
    and "dt_status (dt_virt_addr (dev_dma dev') (dma_idx rd)) (unat lptr) = 0"
    and "\<forall>k \<le> unat lptr. dt_descriptor (dt_virt_addr (dev_dma dev') (dma_idx rd)) k
      = dt_descriptor (dt_virt_addr (dev_dma dev) (dma_idx rd)) k"
proof -
  have io: "io = map (\<lambda>i. (base_addr (dev_bar dev DMA_CTRL_BAR) +
      (if rd then READ_DESC_PRIO_OFFSET else READ_DESC_NORM_OFFSET) + of_nat (i * 4),
      [ucast (dt_bus_addr (dev_dma dev) (dma_idx rd) + 512), ucast (drop_bit 32 (dt_bus_addr (dev_dma dev) (dma_idx rd) + 512)),
       ucast (if rd then WRITE_DESC_NORM_OFFSET else READ_DESC_NORM_OFFSET),
       ucast (drop_bit 32 (if rd then WRITE_DESC_NORM_OFFSET else READ_DESC_NORM_OFFSET)),
       (ucast lptr + 2) * 8 OR push_bit 20 1 OR push_bit 24 0xFE] ! i)) [0..<5]"
    using assms by (simp add: dma_start_def Let_def)
  show "length io = 5" by (simp add: io)
  show "snd (last io) = (ucast lptr + 2) * 8 OR push_bit 20 1 OR push_bit 24 0xFE"
    by (simp add: io last_map)
  show "num_pending (dev_dma dev') = num_pending (dev_dma dev)"
    "last_ptr_wrap (dev_dma dev') = last_ptr_wrap (dev_dma dev)"
    "last_ptr (dev_dma dev') = (last_ptr (dev_dma dev))(0 := 127, 1 := 127)"
    "dt_status (dt_virt_addr (dev_dma dev') (dma_idx rd)) (unat lptr) = 0"
    "\<forall>k \<le> unat lptr. dt_descriptor (dt_virt_addr (dev_dma dev') (dma_idx rd)) k
      = dt_descriptor (dt_virt_addr (dev_dma dev) (dma_idx rd)) k"
    using assms by (auto simp: dma_start_def Let_def enso_simps)
qed

lemma bit_numerals [simp]: "bit (1 :: u64) 0" "\<not> bit (1 :: u64) (Suc 0)" "\<not> bit (2 :: u64) 0" "bit (2 :: u64) (Suc 0)"
  by (simp_all add: bit_1_iff bit_iff_odd)

lemma dma_send_one:
  fixes rd :: bool
  defines "i \<equiv> dma_idx rd" and "j \<equiv> dma_idx (\<not> rd)"
  assumes "num_pending (dev_dma dev) i > 0" "\<not> last_ptr_wrap (dev_dma dev) i"
  shows "\<exists>r io dev'. intel_fpga_pcie_dma_send hw (if rd then 1 else 2) dev = (r, io, dev') \<and>
    r = (if \<exists>k < DMA_TIMEOUT. hw k i then Inr () else Inl ETIME) \<and>
    dma_start (last_ptr (dev_dma dev) i) False rd
      (dev\<lparr>dev_dma := dma_take (\<lambda>k. k = i) (dev_dma dev)\<rparr>) = (io, dev')"
proof -
  let ?s = "\<lambda>k. bit (if rd then 1 else 2 :: u64) k"
  let ?lptr = "last_ptr (dev_dma dev) i"
  have send: "?s 0 \<longleftrightarrow> i = 0" "?s 1 \<longleftrightarrow> i = 1"
    by (simp_all add: i_def dma_idx_def enso_simps)
  have i: "i = 0 \<or> i = 1" by (simp add: i_def dma_idx_def enso_simps)
  have take: "dma_take ?s (dev_dma dev) = dma_take (\<lambda>k. k = i) (dev_dma dev)"
  proof -
    have "k < 2 \<and> ?s k \<longleftrightarrow> k < 2 \<and> k = i" for k
      using send by (cases "k = 0 \<or> k = 1") (auto simp: less_2_cases_iff)
    then show ?thesis by (simp only: dma_take_def)
  qed
  obtain io dev' where start: "dma_start ?lptr False rd
      (dev\<lparr>dev_dma := dma_take (\<lambda>k. k = i) (dev_dma dev)\<rparr>) = (io, dev')" by fastforce
  note f = dma_start_fields [OF not_False start]
  let ?f = "\<lambda>k. hw k i"
  have "intel_fpga_pcie_dma_send hw (if rd then 1 else 2) dev =
      (if dma_wait ?f 0 DMA_TIMEOUT = 0 then Inl ETIME else Inr (), io, dev')"
    using assms(3,4) start f(6) unfolding intel_fpga_pcie_dma_send_def Let_def take
    by (cases rd) (simp_all add: i_def dma_idx_def enso_simps)
  then show ?thesis using start by (auto simp: dma_wait_0)
qed

section \<open>Properties\<close>

text \<open>
  Queueing a transfer. In an orderly queue a valid request is appended behind the transfers
  queued so far in its direction, as the descriptor the device will read, and the other direction is
  untouched; an invalid request, or the 129th, is refused with -EINVAL or -EBUSY and changes nothing.
\<close>

theorem dma_queue_appends:
  assumes "dma_ok (dev_dma dev) (dma_idx (is_read karg))"
  defines "i \<equiv> dma_idx (is_read karg)"
  shows "\<exists>r info'. intel_fpga_pcie_dma_queue (Some karg) dev = (r, dev\<lparr>dev_dma := info'\<rparr>) \<and>
    (case r of
       Inl e \<Rightarrow> info' = dev_dma dev \<and> (e = EINVAL \<and> \<not> dma_valid karg dev \<or>
         e = EBUSY \<and> dma_valid karg dev \<and> length (dma_pending (dev_dma dev) i) = 128)
     | Inr _ \<Rightarrow> dma_valid karg dev \<and> dma_ok info' i \<and>
         dma_pending info' i = dma_pending (dev_dma dev) i @
           [dma_desc karg dev (length (dma_pending (dev_dma dev) i))] \<and>
         (\<forall>j. j \<noteq> i \<longrightarrow> dma_pending info' j = dma_pending (dev_dma dev) j))"
proof -
  consider "\<not> dma_valid karg dev" | "dma_valid karg dev" "num_pending (dev_dma dev) i = 128"
    | "dma_valid karg dev" "num_pending (dev_dma dev) i \<noteq> 128" by blast
  then show ?thesis
  proof cases
    case 1
    then have "intel_fpga_pcie_dma_queue (Some karg) dev = (Inl EINVAL, dev\<lparr>dev_dma := dev_dma dev\<rparr>)"
      by (auto simp: intel_fpga_pcie_dma_queue_def dma_valid_def Let_def not_le not_less)
    with 1 show ?thesis by (intro exI conjI) (assumption, simp)
  next
    case 2
    then have "intel_fpga_pcie_dma_queue (Some karg) dev = (Inl EBUSY, dev\<lparr>dev_dma := dev_dma dev\<rparr>)"
      by (auto simp: intel_fpga_pcie_dma_queue_def dma_valid_def i_def Let_def not_less)
    with 2 show ?thesis by (intro exI conjI) (assumption, simp add: dma_pending_def)
  next
    case 3
    then have "\<exists>info'. intel_fpga_pcie_dma_queue (Some karg) dev = (Inr (), dev\<lparr>dev_dma := info'\<rparr>) \<and>
        dma_ok info' i \<and> dma_pending info' i = dma_pending (dev_dma dev) i @
          [dma_desc karg dev (unat (num_pending (dev_dma dev) i))] \<and>
        (\<forall>j. j \<noteq> i \<longrightarrow> dma_pending info' j = dma_pending (dev_dma dev) j \<and>
          (dma_ok (dev_dma dev) j \<longrightarrow> dma_ok info' j))"
      unfolding i_def by (intro dma_queue_ok assms(1))
    moreover have "length (dma_pending (dev_dma dev) i) = unat (num_pending (dev_dma dev) i)"
      by (simp add: dma_pending_def)
    ultimately show ?thesis using 3 by fastforce
  qed
qed

definition dev_dma_example :: dev_bookkeep where
  "dev_dma_example = dev_zero\<lparr>dev_kmem := \<lparr>virt_addr = 4096, bus_addr = 8192, kmem_size = 1024\<rparr>\<rparr>"

definition arg_example :: intel_fpga_pcie_arg where
  "arg_example = \<lparr>ep_addr = 64, user_addr = 0, arg_size = 128, is_read = True\<rparr>"

theorem dma_queue_appends_witness:
  "dma_ok (dev_dma dev_dma_example) 0 \<and>
   (\<exists>r. intel_fpga_pcie_dma_queue (Some arg_example) dev_dma_example = r)"
  using dma_queue_appends [of dev_dma_example arg_example]
  by (auto simp: dma_ok_def dev_dma_example_def dev_zero_def arg_example_def)

text \<open>
  Starting the transfers of one direction. When at least one is queued, the device is told to
  fetch exactly the queued descriptors and one more (the control word counts 8 double words for
  each), the queue is empty and orderly afterwards, the queued descriptors are unchanged in memory
  and the status word of the last one is cleared. The call succeeds exactly when the device reports
  completion within the polling limit and returns -ETIME otherwise.
\<close>

theorem dma_send_starts_queued:
  fixes rd :: bool
  defines "i \<equiv> dma_idx rd"
  assumes "dma_ok (dev_dma dev) i" "dma_pending (dev_dma dev) i \<noteq> []"
  defines "n \<equiv> length (dma_pending (dev_dma dev) i)"
  shows "\<exists>io dev'. intel_fpga_pcie_dma_send hw (if rd then 1 else 2) dev =
      (if \<exists>k < DMA_TIMEOUT. hw k i then Inr () else Inl ETIME, io, dev') \<and>
    snd (last io) = of_nat ((n + 1) * 8) OR push_bit 20 1 OR push_bit 24 0xFE \<and>
    dma_ok (dev_dma dev') i \<and> dma_pending (dev_dma dev') i = [] \<and>
    map (dt_descriptor (dt_virt_addr (dev_dma dev') i)) [0..<n] = dma_pending (dev_dma dev) i \<and>
    dt_status (dt_virt_addr (dev_dma dev') i) (n - 1) = 0"
proof -
  let ?info = "dev_dma dev"
  have n: "n = unat (num_pending ?info i)" by (simp add: n_def dma_pending_def)
  have pos: "0 < n" using assms(3) by (simp add: n_def)
  then have np: "num_pending ?info i \<noteq> 0" using n by auto
  then have gt: "num_pending ?info i > 0" by (simp add: word_gt_0)
  have wrap: "\<not> last_ptr_wrap ?info i" using assms(2) by (simp add: dma_ok_def)
  have l: "unat (last_ptr ?info i) = n - 1" "n \<le> 128" using assms(2) np by (simp_all add: dma_ok_def n)
  obtain io dev' where ret: "intel_fpga_pcie_dma_send hw (if rd then 1 else 2) dev =
      (if \<exists>k < DMA_TIMEOUT. hw k i then Inr () else Inl ETIME, io, dev')"
    and start: "dma_start (last_ptr ?info i) False rd (dev\<lparr>dev_dma := dma_take (\<lambda>k. k = i) ?info\<rparr>) = (io, dev')"
    using dma_send_one [of dev rd hw] gt wrap unfolding i_def by blast
  note f = dma_start_fields [OF not_False start, folded i_def]
  have ctrl: "((ucast (last_ptr ?info i) + 2) * 8 :: u32) = of_nat ((n + 1) * 8)"
  proof -
    have "(ucast (last_ptr ?info i) :: u32) = of_nat (n - 1)"
      using l by (simp add: word_unat_eq_iff unat_of_nat_small unat_ucast_up)
    then show ?thesis using pos by (simp add: of_nat_diff)
  qed
  have i2: "i < 2" by (simp add: i_def)
  have "dma_ok (dev_dma dev') i"
    using f(3,4,5) i2 by (auto simp: dma_ok_def dma_take_def i_def dma_idx_def enso_simps)
  moreover have "dma_pending (dev_dma dev') i = []"
    using f(3) i2 by (simp add: dma_pending_def dma_take_def)
  moreover have "map (dt_descriptor (dt_virt_addr (dev_dma dev') i)) [0..<n] = dma_pending ?info i"
    using f(7) l pos by (auto simp: dma_pending_def n [symmetric] dma_take_def)
  moreover have "dt_status (dt_virt_addr (dev_dma dev') i) (n - 1) = 0" using f(6) l by simp
  moreover have "snd (last io) = of_nat ((n + 1) * 8) OR push_bit 20 1 OR push_bit 24 0xFE"
    using f(2) unfolding ctrl .
  ultimately show ?thesis using ret by blast
qed

definition dev_queued_example :: dev_bookkeep where
  "dev_queued_example = snd (intel_fpga_pcie_dma_queue (Some arg_example) dev_dma_example)"

lemma dev_queued_example_ok:
  "dma_ok (dev_dma dev_queued_example) 0 \<and> dma_pending (dev_dma dev_queued_example) 0 \<noteq> []"
proof -
  have "dma_ok (dev_dma dev_dma_example) (dma_idx (is_read arg_example))"
    "dma_valid arg_example dev_dma_example"
    "num_pending (dev_dma dev_dma_example) (dma_idx (is_read arg_example)) \<noteq> 128"
    by (simp_all add: dma_ok_def dev_dma_example_def dev_zero_def arg_example_def dma_valid_def
        word_le_nat_alt unat_mod word_unat_eq_iff [of "_ mod _"] unat_word_ariths)
  from dma_queue_ok [OF this] show ?thesis
    by (auto simp: dev_queued_example_def arg_example_def)
qed

theorem dma_send_starts_queued_witness:
  "\<exists>io dev'. intel_fpga_pcie_dma_send (\<lambda>_ _. True) 1 dev_queued_example = (Inr (), io, dev')"
proof -
  have "0 < DMA_TIMEOUT" by (simp add: DMA_TIMEOUT_def)
  then have "\<exists>k < DMA_TIMEOUT. True" by blast
  then show ?thesis
    using dma_send_starts_queued [of dev_queued_example True "\<lambda>_ _. True"] dev_queued_example_ok by auto
qed

text \<open>
  Starting one direction strands the other. \<^verbatim>\<open>dma_start\<close> resets the last pointers of
  both directions. If transfers are queued in both and only the writes are started, the next read
  that is queued is accepted but overwrites the first queued read and sets the wrap flag, and
  starting the reads then writes no register at all: none of them is ever carried out.
\<close>

theorem dma_send_strands_other_direction:
  assumes "dma_ok (dev_dma dev) 0" "dma_pending (dev_dma dev) 0 \<noteq> []" "length (dma_pending (dev_dma dev) 0) < 128"
    and "dma_ok (dev_dma dev) 1" "dma_pending (dev_dma dev) 1 \<noteq> []"
    and "is_read karg" "dma_valid karg dev"
  shows "let (r1, io1, dev1) = intel_fpga_pcie_dma_send hw 2 dev;
      (r2, dev2) = intel_fpga_pcie_dma_queue (Some karg) dev1;
      (r3, io3, dev3) = intel_fpga_pcie_dma_send hw 1 dev2
    in r2 = Inr () \<and> hd (dma_pending (dev_dma dev2) 0) = dma_desc karg dev 0 \<and>
       last_ptr_wrap (dev_dma dev2) 0 \<and> io3 = []"
proof -
  let ?info = "dev_dma dev"
  have np: "num_pending ?info 0 \<noteq> 0" "num_pending ?info 0 \<noteq> 128" "num_pending ?info 1 > 0"
    using assms(2,3,5) by (auto simp: dma_pending_def word_gt_0)
  have w: "\<not> last_ptr_wrap ?info 0" "\<not> last_ptr_wrap ?info 1" using assms(1,4) by (simp_all add: dma_ok_def)
  from dma_send_one [of dev False hw] np(3) w(2) obtain r1 io1 dev1 where
    send: "intel_fpga_pcie_dma_send hw 2 dev = (r1, io1, dev1)"
    and start: "dma_start (last_ptr ?info 1) False False (dev\<lparr>dev_dma := dma_take (\<lambda>k. k = 1) ?info\<rparr>) = (io1, dev1)"
    by auto
  note f = dma_start_fields [OF not_False start]
  have one: "num_pending (dev_dma dev1) 0 = num_pending ?info 0" "last_ptr (dev_dma dev1) 0 = 127"
    using f(3,5) by (simp_all add: dma_take_def)
  have kmem: "dev_kmem dev1 = dev_kmem dev" using start by (auto simp: dma_start_def Let_def)
  have gt: "0 < num_pending ?info 0" using np(1) by (simp add: word_gt_0)
  obtain dev2 where queue: "intel_fpga_pcie_dma_queue (Some karg) dev1 = (Inr (), dev2)"
    and two: "last_ptr_wrap (dev_dma dev2) 0" "num_pending (dev_dma dev2) 0 = num_pending ?info 0 + 1"
      "dt_descriptor (dt_virt_addr (dev_dma dev2) 0) 0 = dma_desc karg dev 0"
    using assms(6,7) np(2) gt one kmem
    by (auto simp: intel_fpga_pcie_dma_queue_def dma_valid_def Let_def not_less dma_desc_def)
  have "unat (num_pending ?info 0) < 128" using assms(3) by (simp add: dma_pending_def)
  then have n2: "unat (num_pending (dev_dma dev2) 0) = Suc (unat (num_pending ?info 0))"
    using unat_plus_small [of "num_pending ?info 0" 1] by (simp add: two(2))
  have "hd (dma_pending (dev_dma dev2) 0) = dma_desc karg dev 0"
    by (simp add: dma_pending_def n2 upt_conv_Cons two(3) del: upt_Suc)
  moreover have "0 < num_pending (dev_dma dev2) 0" using n2 by (simp add: word_gt_0 flip: unat_eq_0)
  then have "fst (snd (intel_fpga_pcie_dma_send hw 1 dev2)) = []"
    using two(1) by (simp add: intel_fpga_pcie_dma_send_def Let_def dma_start_def)
  ultimately show ?thesis using two(1) by (simp only: Let_def send queue case_prod_unfold fst_conv snd_conv)
qed

definition dev_both_example :: dev_bookkeep where
  "dev_both_example = dev_dma_example\<lparr>dev_dma := (dev_dma dev_dma_example)
     \<lparr>num_pending := (\<lambda>_. 1), last_ptr := (\<lambda>_. 0)\<rparr>\<rparr>"

theorem dma_send_strands_other_direction_witness:
  "fst (snd (intel_fpga_pcie_dma_send (\<lambda>_ _. True) 1 (snd (intel_fpga_pcie_dma_queue (Some arg_example)
     (snd (snd (intel_fpga_pcie_dma_send (\<lambda>_ _. True) 2 dev_both_example))))))) = []"
proof -
  have "dma_valid arg_example dev_both_example"
    by (simp add: dma_valid_def dev_both_example_def dev_dma_example_def arg_example_def
        word_le_nat_alt word_unat_eq_iff [of "_ mod _"] unat_mod)
  moreover have "dma_ok (dev_dma dev_both_example) i" "length (dma_pending (dev_dma dev_both_example) i) = 1" for i
    by (simp_all add: dma_ok_def dma_pending_def dev_both_example_def dev_dma_example_def dev_zero_def)
  moreover have "is_read arg_example" by (simp add: arg_example_def)
  ultimately show ?thesis
    using dma_send_strands_other_direction [of dev_both_example arg_example "\<lambda>_ _. True"]
    by (simp add: Let_def case_prod_unfold flip: length_0_conv)
qed

end
