(* ===== verification/Drv_Ioctl.thy ===== *)
theory Drv_Ioctl
  imports Drv_Dma
begin

text \<open>
  The handlers of \<^verbatim>\<open>intel_fpga_pcie_ioctl.c\<close> that do not allocate identifiers: access to
  the device's configuration space, the kernel memory region, the selected BAR and the values that
  are copied out; and the numbering of the commands. The PCI configuration space is a parameter (a
  read and a write function that return the kernel's status code); so are the outcomes of the
  kernel's memory services.
\<close>

text \<open>
  How a system call can end: it returns, it sleeps for ever, or the kernel faults (a division by
  zero, or a copy past the end of a buffer).
\<close>

datatype 'a kernel = Ret 'a | Sleep | Oops

definition INT_MAX :: nat where [enso_simps]: "INT_MAX = 2147483647"
definition FPGA2CPU_OFFSET :: u64 where [enso_simps]: "FPGA2CPU_OFFSET = 8"
definition CPU2FPGA_OFFSET :: u64 where [enso_simps]: "CPU2FPGA_OFFSET = 24"
definition PAGE_SIZE :: u64 where [enso_simps]: "PAGE_SIZE = 4096"

record intel_fpga_pcie_ksize =
  rx_size :: u32
  tx_size :: u32
  core_id :: u32

section \<open>Handlers\<close>

text \<open>
  \<open>udata\<close> is what copying the write data from the user yields, \<open>None\<close> if it faults; \<open>ufault\<close>
  whether copying read data back faults. The local buffer has four bytes. The result is the status
  of the access and the bytes delivered to the user.
\<close>

definition checked_cfg_access ::
    "(nat \<Rightarrow> nat \<Rightarrow> int \<times> u8 list) \<Rightarrow> (nat \<Rightarrow> u8 list \<Rightarrow> int) \<Rightarrow>
     intel_fpga_pcie_arg option \<Rightarrow> u8 list option \<Rightarrow> bool \<Rightarrow> (int \<times> u8 list) kres kernel" where
  "checked_cfg_access pci_read pci_write uarg udata ufault =
     (case uarg of
        None \<Rightarrow> Ret (Inl EFAULT)
      | Some karg \<Rightarrow>
          let count = unat (arg_size karg) in
          if \<not> is_read karg \<and> count > 4 then Oops
          else if \<not> is_read karg \<and> udata = None then Ret (Inl EFAULT)
          else if unat (ep_addr karg) > INT_MAX then Ret (Inl EINVAL)
          else
            let cfg_addr = unat (ep_addr karg) in
            if count = 0 then Oops
            else if cfg_addr mod count \<noteq> 0 then Ret (Inl EINVAL)
            else if cfg_addr \<ge> 0xC00 then Ret (Inl EINVAL)
            else if is_read karg then
              (if count \<in> {1, 2, 4} then
                 (case pci_read cfg_addr count of (retval, bytes) \<Rightarrow>
                    if ufault then Ret (Inl EFAULT) else Ret (Inr (retval, bytes)))
               else Ret (Inl EINVAL))
            else
              (if count \<in> {1, 2, 4} then Ret (Inr (pci_write cfg_addr (take count (the udata)), []))
               else Ret (Inl EINVAL)))"

text \<open>
  \<open>mask_ok\<close>: the DMA mask is accepted; \<open>mem\<close>: the virtual and bus address of the new region. The
  result has the register writes and the regions that were given back.
\<close>

definition set_kmem_size ::
    "bool \<Rightarrow> bool \<Rightarrow> (u64 \<times> u64) option \<Rightarrow> intel_fpga_pcie_ksize option \<Rightarrow> dev_bookkeep \<Rightarrow>
     (unit kres \<times> (u64 \<times> u32) list \<times> kmem_info list \<times> dev_bookkeep) kernel" where
  "set_kmem_size intr mask_ok mem uarg dev =
     (case uarg of
        None \<Rightarrow> Ret (Inl EFAULT, [], [], dev)
      | Some karg \<Rightarrow>
          let size = rx_size karg + tx_size karg in
          (case down_interruptible intr dev of
             None \<Rightarrow> Sleep
           | Some (Inl e) \<Rightarrow> Ret (Inl e, [], [], dev)
           | Some (Inr dev0) \<Rightarrow>
               if size > 0 \<and> \<not> mask_ok then Ret (Inl EIO, [], [], dev0)
               else
                 let old = dev_kmem dev0;
                     (r, freed, dev1) =
                       (if size > 0 then
                          (case mem of
                             None \<Rightarrow> (Inl ENOMEM, [], dev0)
                           | Some (virt, bus) \<Rightarrow>
                               (Inr (), [], dev0\<lparr>dev_kmem :=
                                  \<lparr>virt_addr = virt, bus_addr = bus, kmem_size = ucast size\<rparr>\<rparr>))
                        else (Inr (), [old], dev0\<lparr>dev_kmem :=
                                  \<lparr>virt_addr = 0, bus_addr = 0, kmem_size = 0\<rparr>\<rparr>));
                     dev2 = up dev1;
                     kmem_addr_l = ucast (bus_addr (dev_kmem dev2)) :: u32;
                     kmem_addr_h = ucast (drop_bit 32 (bus_addr (dev_kmem dev2))) :: u32;
                     ep = base_addr (dev_bar dev2 2);
                     page = scast (core_id karg) * PAGE_SIZE;
                     io0 = [(ep + FPGA2CPU_OFFSET + page, kmem_addr_l),
                            (ep + FPGA2CPU_OFFSET + 4 + page, kmem_addr_h)];
                     io1 =
                       (if core_id karg = 0 then
                          [(ep + CPU2FPGA_OFFSET, kmem_addr_l + rx_size karg),
                           (ep + CPU2FPGA_OFFSET + 4,
                            if kmem_addr_l + rx_size karg < kmem_addr_l then kmem_addr_h + 1
                            else kmem_addr_h)]
                        else []) in
                 Ret (r, io0 @ io1, freed, dev2)))"

definition sel_bar :: "u64 \<Rightarrow> chr_dev_bookkeep \<Rightarrow> dev_bookkeep \<Rightarrow> unit kres \<times> chr_dev_bookkeep" where
  "sel_bar new_bar chr dev =
     (if new_bar \<ge> 6 then (Inl EINVAL, chr)
      else if use_cmd chr then (Inl EPERM, chr)
      else if base_addr (dev_bar dev (unat new_bar)) = 0 then (Inl EINVAL, chr)
      else (Inr (), chr\<lparr>cur_bar_num := ucast new_bar\<rparr>))"

definition get_bar :: "bool \<Rightarrow> chr_dev_bookkeep \<Rightarrow> u32 kres" where
  "get_bar ufault chr = (if ufault then Inl EFAULT else Inr (cur_bar_num chr))"

definition get_dev :: "bool \<Rightarrow> dev_bookkeep \<Rightarrow> u32 kres" where
  "get_dev ufault dev = (if ufault then Inl EFAULT else Inr (ucast (dev_bdf dev)))"

text \<open>The UIO device's name belongs to the kernel: \<open>None\<close> when there is none.\<close>

definition get_uio_dev_name :: "bool \<Rightarrow> string option \<Rightarrow> string kres" where
  "get_uio_dev_name ufault dev_name =
     (case dev_name of
        None \<Rightarrow> Inl EFAULT
      | Some n \<Rightarrow> if ufault then Inl EFAULT else Inr n)"

text \<open>\<open>enable\<close> is the kernel's \<^verbatim>\<open>pci_enable_sriov\<close>: 0 or a negative error code.\<close>

definition intel_fpga_pcie_sriov_configure :: "(int \<Rightarrow> int) \<Rightarrow> int \<Rightarrow> int kres" where
  "intel_fpga_pcie_sriov_configure enable numvfs =
     (if numvfs > 0 then (let result = enable numvfs in Inr (if result = 0 then numvfs else result))
      else if numvfs = 0 then Inr 0
      else Inl EINVAL)"

section \<open>Command numbers\<close>

definition INTEL_FPGA_PCIE_IOCTL_MAGIC :: u32 where "INTEL_FPGA_PCIE_IOCTL_MAGIC = 0x70"
definition INTEL_FPGA_PCIE_IOCTL_MAXNR :: u32 where "INTEL_FPGA_PCIE_IOCTL_MAXNR = 17"

text \<open>The kernel's encoding: direction, size, type and number from the top bits down.\<close>

definition IOC :: "u32 \<Rightarrow> u32 \<Rightarrow> u32 \<Rightarrow> u32" where
  "IOC dir nr sz = push_bit 30 dir OR push_bit 16 sz OR
     push_bit 8 INTEL_FPGA_PCIE_IOCTL_MAGIC OR nr"

definition IOC_TYPE :: "u32 \<Rightarrow> u32" where "IOC_TYPE cmd = drop_bit 8 cmd AND 0xFF"
definition IOC_NR :: "u32 \<Rightarrow> u32" where "IOC_NR cmd = cmd AND 0xFF"

datatype ioctl_cmd = CHR_SEL_DEV | CHR_GET_DEV | CHR_SEL_BAR | CHR_GET_BAR | CHR_USE_CMD
  | CFG_ACCESS | SRIOV_NUMVFS | SET_KMEM_SIZE | DMA_QUEUE | DMA_SEND | CHR_GET_UIO_DEV_NAME
  | GET_NB_FALLBACK_QUEUES | SET_RR_STATUS | GET_RR_STATUS | ALLOC_NOTIF_BUFFER
  | FREE_NOTIF_BUFFER | ALLOC_PIPE | FREE_PIPE

text \<open>\<^verbatim>\<open>_IOW\<close> is direction 1, \<^verbatim>\<open>_IOR\<close> 2 and \<^verbatim>\<open>_IOWR\<close> 3; pointers have 8 bytes.\<close>

fun ioctl_code :: "ioctl_cmd \<Rightarrow> u32" where
  "ioctl_code CHR_SEL_DEV = IOC 1 0 4"
| "ioctl_code CHR_GET_DEV = IOC 2 1 8"
| "ioctl_code CHR_SEL_BAR = IOC 1 2 4"
| "ioctl_code CHR_GET_BAR = IOC 2 3 8"
| "ioctl_code CHR_USE_CMD = IOC 1 4 1"
| "ioctl_code CFG_ACCESS = IOC 3 5 8"
| "ioctl_code SRIOV_NUMVFS = IOC 1 6 4"
| "ioctl_code SET_KMEM_SIZE = IOC 1 7 4"
| "ioctl_code DMA_QUEUE = IOC 3 8 8"
| "ioctl_code DMA_SEND = IOC 1 9 4"
| "ioctl_code CHR_GET_UIO_DEV_NAME = IOC 2 10 8"
| "ioctl_code GET_NB_FALLBACK_QUEUES = IOC 2 11 8"
| "ioctl_code SET_RR_STATUS = IOC 2 12 1"
| "ioctl_code GET_RR_STATUS = IOC 2 13 8"
| "ioctl_code ALLOC_NOTIF_BUFFER = IOC 2 14 8"
| "ioctl_code FREE_NOTIF_BUFFER = IOC 2 15 4"
| "ioctl_code ALLOC_PIPE = IOC 2 16 8"
| "ioctl_code FREE_PIPE = IOC 2 17 4"

definition ioctl_cmds :: "ioctl_cmd list" where
  "ioctl_cmds = [CHR_SEL_DEV, CHR_GET_DEV, CHR_SEL_BAR, CHR_GET_BAR, CHR_USE_CMD, CFG_ACCESS,
     SRIOV_NUMVFS, SET_KMEM_SIZE, DMA_QUEUE, DMA_SEND, CHR_GET_UIO_DEV_NAME, GET_NB_FALLBACK_QUEUES,
     SET_RR_STATUS, GET_RR_STATUS, ALLOC_NOTIF_BUFFER, FREE_NOTIF_BUFFER, ALLOC_PIPE, FREE_PIPE]"

text \<open>The checks before the switch and the switch itself.\<close>

definition ioctl_decode :: "bool \<Rightarrow> u32 \<Rightarrow> ioctl_cmd kres" where
  "ioctl_decode access_ok cmd =
     (if IOC_TYPE cmd \<noteq> INTEL_FPGA_PCIE_IOCTL_MAGIC then Inl ENOTTY
      else if IOC_NR cmd > INTEL_FPGA_PCIE_IOCTL_MAXNR then Inl ENOTTY
      else if \<not> access_ok then Inl EFAULT
      else case find (\<lambda>c. ioctl_code c = cmd) ioctl_cmds of None \<Rightarrow> Inl ENOTTY | Some c \<Rightarrow> Inr c)"

section \<open>Properties\<close>

text \<open>
  Configuration accesses are confined. Whatever the user passes, an access that reaches the
  device has a size of 1, 2 or 4 bytes, is aligned to its size and lies entirely below 0xC00: with a
  configuration space that answers only such accesses, replacing all its other answers makes no
  difference to the call.
\<close>

theorem cfg_access_confined:
  assumes "\<And>a n. n \<in> {1, 2, 4} \<Longrightarrow> a mod n = 0 \<Longrightarrow> a + n \<le> 0xC00 \<Longrightarrow> rd a n = rd' a n"
    and "\<And>a bs. length bs \<in> {1, 2, 4} \<Longrightarrow> a mod length bs = 0 \<Longrightarrow> a + length bs \<le> 0xC00 \<Longrightarrow> wr a bs = wr' a bs"
    and "\<And>karg bs. uarg = Some karg \<Longrightarrow> udata = Some bs \<Longrightarrow> length bs = unat (arg_size karg)"
  shows "checked_cfg_access rd wr uarg udata ufault = checked_cfg_access rd' wr' uarg udata ufault"
proof (cases uarg)
  case (Some karg)
  let ?a = "unat (ep_addr karg)" and ?n = "unat (arg_size karg)"
  have below: "?a + ?n \<le> 0xC00" if "?a mod ?n = 0" "?a < 0xC00" "?n \<in> {1, 2, 4}"
    using that by auto
  have "rd ?a ?n = rd' ?a ?n" if "?a mod ?n = 0" "?a < 0xC00" "?n \<in> {1, 2, 4}"
    using that below by (intro assms(1)) simp_all
  moreover have "wr ?a (take ?n bs) = wr' ?a (take ?n bs)"
    if "?a mod ?n = 0" "?a < 0xC00" "?n \<in> {1, 2, 4}" "udata = Some bs" for bs
    using that below assms(3) [OF Some that(4)] by (intro assms(2)) simp_all
  ultimately show ?thesis
    unfolding checked_cfg_access_def Some option.case Let_def
    by (cases udata) (simp_all add: not_le cong: if_cong)
qed (simp add: checked_cfg_access_def)

definition cfg_arg_example :: intel_fpga_pcie_arg where
  "cfg_arg_example = \<lparr>ep_addr = 0x10, user_addr = 0, arg_size = 4, is_read = True\<rparr>"

theorem cfg_access_confined_witness:
  "checked_cfg_access (\<lambda>a n. (0, replicate n 7)) (\<lambda>_ _. 0) (Some cfg_arg_example) None False =
   checked_cfg_access (\<lambda>a n. if a < 0xC00 then (0, replicate n 7) else (5, [])) (\<lambda>_ _. 0)
     (Some cfg_arg_example) None False"
  by (rule cfg_access_confined) auto

text \<open>
  A configuration access of size zero divides by zero in the kernel, for every address up to
  \<^verbatim>\<open>INT_MAX\<close> that the user names.
\<close>

theorem cfg_access_size_zero:
  assumes "arg_size karg = 0" "is_read karg" "unat (ep_addr karg) \<le> INT_MAX"
  shows "checked_cfg_access rd wr (Some karg) udata ufault = Oops"
  using assms by (simp add: checked_cfg_access_def Let_def not_less)

theorem cfg_access_size_zero_witness:
  "checked_cfg_access (\<lambda>_ _. (0, [])) (\<lambda>_ _. 0) (Some (cfg_arg_example\<lparr>arg_size := 0\<rparr>)) None False = Oops"
  using cfg_access_size_zero [of "cfg_arg_example\<lparr>arg_size := 0\<rparr>"]
  by (simp add: cfg_arg_example_def INT_MAX_def)

text \<open>
  Replacing the kernel memory region does not give the old one back: when a new region is
  obtained nothing is freed and the only record of the old region is overwritten. A failing
  allocation keeps the old region, and a failing DMA mask returns without releasing the semaphore.
\<close>

theorem set_kmem_size_region:
  assumes "0 < dev_sem dev" "rx_size karg + tx_size karg > 0"
  shows "(case set_kmem_size False True (Some (virt, bus)) (Some karg) dev of
      Ret (r, io, freed, dev') \<Rightarrow> r = Inr () \<and> freed = [] \<and> dev_sem dev' = dev_sem dev \<and>
        dev_kmem dev' = \<lparr>virt_addr = virt, bus_addr = bus, kmem_size = ucast (rx_size karg + tx_size karg)\<rparr>
    | _ \<Rightarrow> False) \<and>
   (case set_kmem_size False True None (Some karg) dev of
      Ret (r, io, freed, dev') \<Rightarrow> r = Inl ENOMEM \<and> freed = [] \<and> dev' = dev
    | _ \<Rightarrow> False) \<and>
   (case set_kmem_size False False mem (Some karg) dev of
      Ret (r, io, freed, dev') \<Rightarrow> r = Inl EIO \<and> io = [] \<and> dev_sem dev' = dev_sem dev - 1
    | _ \<Rightarrow> False)"
  using assms by (simp add: set_kmem_size_def down_interruptible_def Let_def up_def)

theorem set_kmem_size_region_witness:
  "case set_kmem_size False True (Some (4096, 8192))
     (Some \<lparr>rx_size = 64, tx_size = 64, core_id = 0\<rparr>) dev_dma_example of
     Ret (r, io, freed, dev') \<Rightarrow> r = Inr () \<and> freed = [] | _ \<Rightarrow> False"
  using set_kmem_size_region [of dev_dma_example "\<lparr>rx_size = 64, tx_size = 64, core_id = 0\<rparr>" 4096 8192 None]
  by (auto simp: dev_dma_example_def dev_zero_def word_gt_0 split: kernel.splits)

text \<open>
  The 18 commands have different numbers, all of which pass the checks on the magic number and
  the range, so a valid request is dispatched to its own handler and no other number reaches one.
\<close>

theorem ioctl_decode_exact:
  "ioctl_decode True (ioctl_code c) = Inr c \<and>
   (ioctl_decode True cmd = Inr c \<longleftrightarrow> cmd = ioctl_code c)"
proof -
  have dec: "ioctl_decode True (ioctl_code c) = Inr c" for c
    by (cases c) (simp_all add: ioctl_decode_def ioctl_cmds_def IOC_def IOC_TYPE_def IOC_NR_def
        INTEL_FPGA_PCIE_IOCTL_MAGIC_def INTEL_FPGA_PCIE_IOCTL_MAXNR_def)
  moreover have "cmd = ioctl_code c" if "ioctl_decode True cmd = Inr c"
    using that by (auto simp: ioctl_decode_def find_Some_iff split: if_splits option.splits)
  ultimately show ?thesis by blast
qed

end
