(* ===== verification/Drv_Files.thy ===== *)
theory Drv_Files
  imports Drv_Ioctl
begin

text \<open>
  The driver as a whole: the tree of probed devices, the open file handles, the system calls
  \<^verbatim>\<open>open\<close> and \<^verbatim>\<open>close\<close> (\<^verbatim>\<open>chr_open\<close> and \<^verbatim>\<open>chr_release\<close> of
  \<^verbatim>\<open>intel_fpga_pcie_chr.c\<close>), the selection of a device and the dispatch of \<^verbatim>\<open>ioctl\<close>.
  The kernel's radix tree is a map from bus-device-function numbers. \<open>live\<close> counts the memory
  blocks that \<^verbatim>\<open>chr_open\<close> has allocated and nothing has freed.
\<close>

record drv =
  dev_tree :: "u16 \<rightharpoonup> dev_bookkeep"
  files :: "nat \<rightharpoonup> chr_dev_bookkeep"
  live :: int

section \<open>Open and close\<close>

definition lowest_bdf :: "(u16 \<rightharpoonup> dev_bookkeep) \<Rightarrow> u16 option" where
  "lowest_bdf tree = map_option of_nat (find (\<lambda>k. tree (of_nat k) \<noteq> None) [0..<65536])"

definition first_bar :: "dev_bookkeep \<Rightarrow> u32" where
  "first_bar dev = (case find (\<lambda>i. base_addr (dev_bar dev i) \<noteq> 0) [0..<6] of
     None \<Rightarrow> 0 | Some i \<Rightarrow> of_nat i)"

text \<open>
  \<open>lock_intr\<close> and \<open>intr\<close> are interrupted waits for the global lock and the device; the three flags
  say which of the allocations succeed.
\<close>

definition chr_open ::
    "bool \<Rightarrow> bool \<Rightarrow> bool \<Rightarrow> bool \<Rightarrow> bool \<Rightarrow> nat \<Rightarrow> drv \<Rightarrow> (unit kres \<times> drv) kernel" where
  "chr_open lock_intr alloc_bk alloc_notif alloc_pipes intr fd drv =
     (if lock_intr then Ret (Inl ERESTARTSYS, drv)
      else case lowest_bdf (dev_tree drv) of
        None \<Rightarrow> Ret (Inl ENXIO, drv)
      | Some bdf \<Rightarrow>
          if \<not> alloc_bk then Ret (Inl ENOMEM, drv)
          else if \<not> alloc_notif then Ret (Inl ENOMEM, drv)
          else if \<not> alloc_pipes then Ret (Inl ENOMEM, drv)
          else
            let dev = the (dev_tree drv bdf);
                chr = \<lparr>chr_dev = bdf, use_cmd = False, cur_bar_num = first_bar dev, chr_nb_fb_queues = 0,
                  chr_notif_q_status = (\<lambda>_. 0), chr_pipe_status = (\<lambda>_. 0)\<rparr> in
            (case down_interruptible intr dev of
               None \<Rightarrow> Sleep
             | Some (Inl e) \<Rightarrow> Ret (Inl e, drv\<lparr>live := live drv + 3\<rparr>)
             | Some (Inr dev') \<Rightarrow>
                 Ret (Inr (), drv\<lparr>
                   dev_tree := (dev_tree drv)(bdf \<mapsto> up (dev'\<lparr>chr_open_cnt := chr_open_cnt dev' + 1\<rparr>)),
                   files := (files drv)(fd \<mapsto> chr), live := live drv + 3\<rparr>)))"

definition chr_release :: "bool \<Rightarrow> chr_dev_bookkeep \<Rightarrow> dev_bookkeep \<Rightarrow> (unit kres \<times> dev_bookkeep) option" where
  "chr_release intr chr dev =
     (case down_interruptible intr dev of
        None \<Rightarrow> None
      | Some (Inl e) \<Rightarrow> Some (Inl e, dev)
      | Some (Inr dev0) \<Rightarrow>
          Some (Inr (), up (dev0\<lparr>
            chr_open_cnt := chr_open_cnt dev0 - 1,
            dev_notif_q_status := (\<lambda>i. if i < MAX_NB_APPS div 8
              then dev_notif_q_status dev0 i AND NOT (chr_notif_q_status chr i)
              else dev_notif_q_status dev0 i),
            dev_pipe_status := (\<lambda>i. if i < MAX_NB_FLOWS div 8
              then dev_pipe_status dev0 i AND NOT (chr_pipe_status chr i)
              else dev_pipe_status dev0 i),
            dev_nb_fb_queues := dev_nb_fb_queues dev0 - chr_nb_fb_queues chr\<rparr>)))"

text \<open>Closing: the kernel drops the handle whatever the driver returns.\<close>

definition drv_close :: "bool \<Rightarrow> nat \<Rightarrow> drv \<Rightarrow> (unit kres \<times> drv) kernel" where
  "drv_close intr fd drv =
     (case files drv fd of
        None \<Rightarrow> Oops
      | Some chr \<Rightarrow>
          (case dev_tree drv (chr_dev chr) of
             None \<Rightarrow> Oops
           | Some dev \<Rightarrow>
               (case chr_release intr chr dev of
                  None \<Rightarrow> Sleep
                | Some (r, dev') \<Rightarrow>
                    Ret (r, drv\<lparr>dev_tree := (dev_tree drv)(chr_dev chr \<mapsto> dev'),
                                files := (files drv)(fd := None),
                                live := live drv - (case r of Inl _ \<Rightarrow> 0 | Inr _ \<Rightarrow> 3)\<rparr>))))"

section \<open>Selecting a device\<close>

definition sel_dev :: "bool \<Rightarrow> bool \<Rightarrow> bool \<Rightarrow> u64 \<Rightarrow> nat \<Rightarrow> drv \<Rightarrow> (unit kres \<times> drv) kernel" where
  "sel_dev lock_intr intr1 intr2 new_bdf fd drv =
     (case files drv fd of
        None \<Rightarrow> Oops
      | Some chr \<Rightarrow>
          if lock_intr then Ret (Inl ERESTARTSYS, drv)
          else case (if new_bdf < 65536 then dev_tree drv (ucast new_bdf) else None) of
            None \<Rightarrow> Ret (Inl ENODEV, drv)
          | Some new_dev \<Rightarrow>
              (case dev_tree drv (chr_dev chr) of
                 None \<Rightarrow> Oops
               | Some old_dev \<Rightarrow>
                   let old_bdf = chr_dev chr; new = ucast new_bdf;
                       locks = (if old_bdf < new then (old_dev, new_dev) else (new_dev, old_dev)) in
                   if old_bdf = new then Ret (Inr (), drv)
                   else
                     (case down_interruptible intr1 (fst locks) of
                        None \<Rightarrow> Sleep
                      | Some (Inl e) \<Rightarrow> Ret (Inl e, drv)
                      | Some (Inr first) \<Rightarrow>
                          (case down_interruptible intr2 (snd locks) of
                             None \<Rightarrow> Sleep
                           | Some (Inl e) \<Rightarrow>
                               Ret (Inl e, drv\<lparr>dev_tree := (dev_tree drv)
                                 ((if old_bdf < new then old_bdf else new) \<mapsto> up first)\<rparr>)
                           | Some (Inr second) \<Rightarrow>
                               let (old1, new1) = (if old_bdf < new then (first, second) else (second, first)) in
                               Ret (Inr (), drv\<lparr>
                                 dev_tree := (dev_tree drv)
                                   (old_bdf \<mapsto> up (old1\<lparr>chr_open_cnt := chr_open_cnt old1 - 1\<rparr>),
                                    new \<mapsto> up (new1\<lparr>chr_open_cnt := chr_open_cnt new1 + 1\<rparr>)),
                                 files := (files drv)(fd \<mapsto> chr\<lparr>chr_dev := new\<rparr>)\<rparr>)))))"

section \<open>Dispatch\<close>

text \<open>A request is the command with the argument the user passed, as far as it could be read.\<close>

datatype ioctl_req = SelDev u64 | GetDev | SelBar u64 | GetBar | UseCmd u64
  | CfgAccess "intel_fpga_pcie_arg option" "u8 list option" | SriovNumvfs int
  | SetKmemSize "intel_fpga_pcie_ksize option" | DmaQueue "intel_fpga_pcie_arg option" | DmaSend u64
  | GetUioDevName | GetNbFallbackQueues | SetRrStatus u64 | GetRrStatus | AllocNotifBuffer
  | FreeNotifBuffer u64 | AllocPipe "bool option" | FreePipe u64

datatype ioctl_out = OUnit | OWord u32 | OFlag bool | OStatus int "u8 list" | OName string

text \<open>What the kernel and the device do during a call.\<close>

record kenv =
  e_lock_intr :: bool
  e_intr :: bool
  e_intr2 :: bool
  e_ufault :: bool
  e_pci_read :: "nat \<Rightarrow> nat \<Rightarrow> int \<times> u8 list"
  e_pci_write :: "nat \<Rightarrow> u8 list \<Rightarrow> int"
  e_sriov :: "int \<Rightarrow> int"
  e_mask_ok :: bool
  e_mem :: "(u64 \<times> u64) option"
  e_uio_name :: "string option"
  e_hw :: "nat \<Rightarrow> nat \<Rightarrow> bool"

definition on_handle ::
    "(chr_dev_bookkeep \<Rightarrow> dev_bookkeep \<Rightarrow> ('a kres \<times> chr_dev_bookkeep \<times> dev_bookkeep) kernel) \<Rightarrow>
     nat \<Rightarrow> drv \<Rightarrow> ('a kres \<times> drv) kernel" where
  "on_handle f fd drv =
     (case files drv fd of
        None \<Rightarrow> Oops
      | Some chr \<Rightarrow>
          (case dev_tree drv (chr_dev chr) of
             None \<Rightarrow> Oops
           | Some dev \<Rightarrow>
               (case f chr dev of
                  Ret (r, chr', dev') \<Rightarrow>
                    Ret (r, drv\<lparr>dev_tree := (dev_tree drv)(chr_dev chr \<mapsto> dev'),
                                files := (files drv)(fd \<mapsto> chr')\<rparr>)
                | Sleep \<Rightarrow> Sleep
                | Oops \<Rightarrow> Oops)))"

definition kmap :: "('a \<Rightarrow> 'b) \<Rightarrow> 'a kres \<Rightarrow> 'b kres" where
  "kmap f r = (case r of Inl e \<Rightarrow> Inl e | Inr x \<Rightarrow> Inr (f x))"

definition lift_op :: "('a \<Rightarrow> ioctl_out) \<Rightarrow> ('a kres \<times> chr_dev_bookkeep \<times> dev_bookkeep) option \<Rightarrow>
    (ioctl_out kres \<times> chr_dev_bookkeep \<times> dev_bookkeep) kernel" where
  "lift_op f r = (case r of None \<Rightarrow> Sleep | Some (x, s) \<Rightarrow> Ret (kmap f x, s))"

text \<open>The handlers that work on the handle and its device.\<close>

fun handle_req :: "kenv \<Rightarrow> ioctl_req \<Rightarrow> chr_dev_bookkeep \<Rightarrow> dev_bookkeep \<Rightarrow>
    (ioctl_out kres \<times> chr_dev_bookkeep \<times> dev_bookkeep) kernel" where
  "handle_req env (SelDev b) chr dev = Oops"
| "handle_req env GetDev chr dev = Ret (kmap OWord (get_dev (e_ufault env) dev), chr, dev)"
| "handle_req env (SelBar b) chr dev =
     (case sel_bar b chr dev of (r, chr') \<Rightarrow> Ret (kmap (\<lambda>_. OUnit) r, chr', dev))"
| "handle_req env GetBar chr dev = Ret (kmap OWord (get_bar (e_ufault env) chr), chr, dev)"
| "handle_req env (UseCmd u) chr dev = Ret (Inr OUnit, chr\<lparr>use_cmd := (u \<noteq> 0)\<rparr>, dev)"
| "handle_req env (CfgAccess a d) chr dev =
     (case checked_cfg_access (e_pci_read env) (e_pci_write env) a d (e_ufault env) of
        Ret r \<Rightarrow> Ret (kmap (\<lambda>(st, bytes). OStatus st bytes) r, chr, dev)
      | Sleep \<Rightarrow> Sleep | Oops \<Rightarrow> Oops)"
| "handle_req env (SriovNumvfs n) chr dev =
     Ret ((case intel_fpga_pcie_sriov_configure (e_sriov env) n of
             Inl e \<Rightarrow> Inl e
           | Inr numvfs \<Rightarrow> if numvfs = n then Inr OUnit else if numvfs > 0 then Inl ENODEV
                          else Inr (OStatus numvfs [])), chr, dev)"
| "handle_req env (SetKmemSize a) chr dev =
     (case set_kmem_size (e_intr env) (e_mask_ok env) (e_mem env) a dev of
        Ret (r, _, _, dev') \<Rightarrow> Ret (kmap (\<lambda>_. OUnit) r, chr, dev')
      | Sleep \<Rightarrow> Sleep | Oops \<Rightarrow> Oops)"
| "handle_req env (DmaQueue a) chr dev =
     (case intel_fpga_pcie_dma_queue a dev of (r, dev') \<Rightarrow> Ret (kmap (\<lambda>_. OUnit) r, chr, dev'))"
| "handle_req env (DmaSend u) chr dev =
     (case intel_fpga_pcie_dma_send (e_hw env) u dev of (r, _, dev') \<Rightarrow> Ret (kmap (\<lambda>_. OUnit) r, chr, dev'))"
| "handle_req env GetUioDevName chr dev =
     Ret (kmap OName (get_uio_dev_name (e_ufault env) (e_uio_name env)), chr, dev)"
| "handle_req env GetNbFallbackQueues chr dev =
     Ret (kmap OWord (get_nb_fallback_queues (e_ufault env) dev), chr, dev)"
| "handle_req env (SetRrStatus u) chr dev =
     lift_op (\<lambda>_. OUnit) (set_rr_status (e_intr env) (u \<noteq> 0) chr dev)"
| "handle_req env GetRrStatus chr dev = Ret (kmap OFlag (get_rr_status (e_ufault env) dev), chr, dev)"
| "handle_req env AllocNotifBuffer chr dev =
     lift_op OWord (alloc_notif_buffer (e_intr env) (e_ufault env) chr dev)"
| "handle_req env (FreeNotifBuffer u) chr dev =
     lift_op (\<lambda>_. OUnit) (free_notif_buffer (e_intr env) u chr dev)"
| "handle_req env (AllocPipe a) chr dev = lift_op OWord (alloc_pipe (e_intr env) a (e_ufault env) chr dev)"
| "handle_req env (FreePipe u) chr dev = lift_op (\<lambda>_. OUnit) (free_pipe (e_intr env) u chr dev)"

definition intel_fpga_pcie_unlocked_ioctl ::
    "kenv \<Rightarrow> ioctl_req \<Rightarrow> nat \<Rightarrow> drv \<Rightarrow> (ioctl_out kres \<times> drv) kernel" where
  "intel_fpga_pcie_unlocked_ioctl env req fd drv =
     (case req of
        SelDev b \<Rightarrow>
          (case sel_dev (e_lock_intr env) (e_intr env) (e_intr2 env) b fd drv of
             Ret (r, drv') \<Rightarrow> Ret (kmap (\<lambda>_. OUnit) r, drv')
           | Sleep \<Rightarrow> Sleep | Oops \<Rightarrow> Oops)
      | _ \<Rightarrow> on_handle (handle_req env req) fd drv)"

end
