(* ===== verification/Drv_Ownership.thy ===== *)
theory Drv_Ownership
  imports Drv_Files
begin

text \<open>
  Who owns what across all processes: executions of the driver that open and close handles and make
  system calls on them in any order, and the invariant that ties the device's allocation maps to
  those of the open handles. Calls that select another device are left out of the executions; what
  they do to the invariant is stated at the end.
\<close>

section \<open>Executions\<close>

inductive drv_step :: "drv \<Rightarrow> drv \<Rightarrow> bool" where
  s_open: "\<lbrakk>chr_open li a b c intr fd s = Ret (r, t); files s fd = None\<rbrakk> \<Longrightarrow> drv_step s t"
| s_close: "drv_close False fd s = Ret (r, t) \<Longrightarrow> drv_step s t"
| s_ioctl: "\<lbrakk>intel_fpga_pcie_unlocked_ioctl env req fd s = Ret (r, t); \<And>b. req \<noteq> SelDev b\<rbrakk> \<Longrightarrow> drv_step s t"

definition drv_init :: "drv \<Rightarrow> bool" where
  "drv_init s \<longleftrightarrow> files s = Map.empty \<and>
     (\<forall>b dev. dev_tree s b = Some dev \<longrightarrow>
        bv_used (dev_pipe_status dev) = {} \<and> bv_used (dev_notif_q_status dev) = {})"

inductive drv_reachable :: "drv \<Rightarrow> bool" where
  d_start: "drv_init s \<Longrightarrow> drv_reachable s"
| d_run: "drv_reachable s \<Longrightarrow> drv_step s t \<Longrightarrow> drv_reachable t"

section \<open>The invariant\<close>

definition owns_pipe :: "drv \<Rightarrow> nat \<Rightarrow> u16 \<Rightarrow> nat \<Rightarrow> bool" where
  "owns_pipe s fd b i \<longleftrightarrow> (\<exists>c. files s fd = Some c \<and> chr_dev c = b \<and> i \<in> bv_used (chr_pipe_status c))"

definition owns_notif :: "drv \<Rightarrow> nat \<Rightarrow> u16 \<Rightarrow> nat \<Rightarrow> bool" where
  "owns_notif s fd b i \<longleftrightarrow> (\<exists>c. files s fd = Some c \<and> chr_dev c = b \<and> i \<in> bv_used (chr_notif_q_status c))"

definition drv_inv :: "drv \<Rightarrow> bool" where
  "drv_inv s \<longleftrightarrow>
     (\<forall>b dev i. dev_tree s b = Some dev \<longrightarrow>
        (i \<in> bv_used (dev_pipe_status dev) \<longleftrightarrow> (\<exists>fd. owns_pipe s fd b i)) \<and>
        (i \<in> bv_used (dev_notif_q_status dev) \<longrightarrow> (\<exists>fd. owns_notif s fd b i))) \<and>
     (\<forall>fd fd' b i. owns_pipe s fd b i \<and> owns_pipe s fd' b i \<longrightarrow> fd = fd') \<and>
     (\<forall>fd b i. owns_pipe s fd b i \<longrightarrow> i < MAX_NB_FLOWS \<and> b \<in> dom (dev_tree s)) \<and>
     (\<forall>fd b i. owns_notif s fd b i \<longrightarrow> i < MAX_NB_APPS)"

text \<open>
  What a call does to the two maps of one kind: it marks fresh identifiers and unmarks others, the
  same ones for the handle and for the device.
\<close>

definition map_effect :: "nat \<Rightarrow> u8 arr \<Rightarrow> u8 arr \<Rightarrow> u8 arr \<Rightarrow> u8 arr \<Rightarrow> nat set \<Rightarrow> nat set \<Rightarrow> bool" where
  "map_effect cap c d c' d' A R \<longleftrightarrow>
     bv_used c' = (bv_used c \<union> A) - R \<and> bv_used d' = (bv_used d \<union> A) - R \<and>
     A \<inter> bv_used d = {} \<and> A \<subseteq> {..<cap}"

lemma map_effect_none: "map_effect cap c d c d {} {}"
  by (simp add: map_effect_def)

lemma map_effect_mark:
  "k < cap \<Longrightarrow> k \<notin> bv_used d \<Longrightarrow> map_effect cap c d (bv_set c k) (bv_set d k) {k} {}"
  by (auto simp: map_effect_def)

lemma map_effect_unmark: "map_effect cap c d (bv_clear c k) (bv_clear d k) {} {k}"
  by (simp add: map_effect_def)

definition call_effect :: "chr_dev_bookkeep \<Rightarrow> dev_bookkeep \<Rightarrow> chr_dev_bookkeep \<Rightarrow> dev_bookkeep \<Rightarrow> bool" where
  "call_effect chr dev chr' dev' \<longleftrightarrow> chr_dev chr' = chr_dev chr \<and>
     (\<exists>A R. map_effect MAX_NB_FLOWS (chr_pipe_status chr) (dev_pipe_status dev)
        (chr_pipe_status chr') (dev_pipe_status dev') A R \<and> R \<subseteq> bv_used (chr_pipe_status chr)) \<and>
     (\<exists>A R. map_effect MAX_NB_APPS (chr_notif_q_status chr) (dev_notif_q_status dev)
        (chr_notif_q_status chr') (dev_notif_q_status dev') A R)"

lemma call_effect_same:
  assumes "chr_dev chr' = chr_dev chr" "chr_pipe_status chr' = chr_pipe_status chr"
    "chr_notif_q_status chr' = chr_notif_q_status chr" "dev_pipe_status dev' = dev_pipe_status dev"
    "dev_notif_q_status dev' = dev_notif_q_status dev"
  shows "call_effect chr dev chr' dev'"
  using assms map_effect_none unfolding call_effect_def by (metis empty_subsetI)

lemma call_effect_pipes:
  assumes "map_effect MAX_NB_FLOWS (chr_pipe_status chr) (dev_pipe_status dev)
      (chr_pipe_status chr') (dev_pipe_status dev') A R" "R \<subseteq> bv_used (chr_pipe_status chr)"
    "chr_dev chr' = chr_dev chr" "chr_notif_q_status chr' = chr_notif_q_status chr"
    "dev_notif_q_status dev' = dev_notif_q_status dev"
  shows "call_effect chr dev chr' dev'"
  using assms map_effect_none unfolding call_effect_def by metis

lemma call_effect_notifs:
  assumes "map_effect MAX_NB_APPS (chr_notif_q_status chr) (dev_notif_q_status dev)
      (chr_notif_q_status chr') (dev_notif_q_status dev') A R"
    "chr_dev chr' = chr_dev chr" "chr_pipe_status chr' = chr_pipe_status chr"
    "dev_pipe_status dev' = dev_pipe_status dev"
  shows "call_effect chr dev chr' dev'"
  using assms map_effect_none unfolding call_effect_def by (metis empty_subsetI)

section \<open>Every handler has such an effect\<close>

lemma with_dev_cases:
  assumes "with_dev intr f chr dev = Some (r, chr', dev')"
  obtains "r = Inl ERESTARTSYS" "chr' = chr" "dev' = dev"
  | "0 < dev_sem dev" "intr = False" "with_dev False f chr dev = Some (r, chr', dev')"
  using assms by (cases intr) (auto simp: with_dev_def down_interruptible_def split: if_splits)

lemma alloc_notif_effect:
  assumes "alloc_notif_buffer intr uf chr dev = Some (r, chr', dev')"
  shows "call_effect chr dev chr' dev'"
  using assms unfolding alloc_notif_buffer_def
proof (cases rule: with_dev_cases)
  case 1
  then show ?thesis by (simp add: call_effect_same)
next
  case 2
  then have run: "alloc_notif_buffer False uf chr dev = Some (r, chr', dev')"
    by (simp add: alloc_notif_buffer_def)
  show ?thesis
  proof (cases "pick_up (MAX_NB_APPS div 8) (dev_notif_q_status dev)")
    case None
    then show ?thesis using run 2 by (simp add: alloc_notif_buffer_eq call_effect_same)
  next
    case (Some k)
    have "map_effect MAX_NB_APPS (chr_notif_q_status chr) (dev_notif_q_status dev)
        (bv_set (chr_notif_q_status chr) k) (bv_set (dev_notif_q_status dev) k) {k} {}"
      using notif_pool.pick_fresh [OF Some] by (intro map_effect_mark) simp_all
    then show ?thesis
      using run 2(1) Some by (intro call_effect_notifs) (auto simp: alloc_notif_buffer_eq)
  qed
qed

lemma free_notif_effect:
  assumes "free_notif_buffer intr u chr dev = Some (r, chr', dev')"
  shows "call_effect chr dev chr' dev'"
  using assms unfolding free_notif_buffer_def
proof (cases rule: with_dev_cases)
  case 1
  then show ?thesis by (simp add: call_effect_same)
next
  case 2
  then have run: "free_notif_buffer False u chr dev = Some (r, chr', dev')"
    by (simp add: free_notif_buffer_def)
  let ?k = "sint (ucast u :: u32)"
  show ?thesis
  proof (cases "0 \<le> ?k \<and> ?k < int MAX_NB_APPS")
    case True
    then show ?thesis
      using run 2(1) map_effect_unmark [of MAX_NB_APPS _ _ "nat ?k"]
      by (intro call_effect_notifs) (auto simp: free_notif_buffer_eq Let_def)
  next
    case False
    then show ?thesis using run 2(1) by (intro call_effect_same) (auto simp: free_notif_buffer_eq Let_def)
  qed
qed

lemma alloc_pipe_effect:
  assumes "alloc_pipe intr a uf chr dev = Some (r, chr', dev')"
  shows "call_effect chr dev chr' dev'"
proof (cases "intr \<or> dev_sem dev = 0")
  case True
  then show ?thesis
    using assms by (auto simp: alloc_pipe_def alloc_pipe_select_def with_dev_sleep call_effect_same
        split: if_splits) (cases intr; simp add: with_dev_sleep call_effect_same)
next
  case False
  then have run: "alloc_pipe False a uf chr dev = Some (r, chr', dev')" and sem: "0 < dev_sem dev"
    using assms by auto
  show ?thesis
  proof (cases a)
    case None
    then show ?thesis using run sem by (auto simp: alloc_pipe_eq call_effect_same)
  next
    case (Some fb)
    show ?thesis
    proof (cases "(if fb then pick_up else pick_down) (MAX_NB_FLOWS div 8) (dev_pipe_status dev)")
      case None
      then show ?thesis using run sem Some by (auto simp: alloc_pipe_eq call_effect_same)
    next
      case (Some k)
      have "k < MAX_NB_FLOWS \<and> k \<notin> bv_used (dev_pipe_status dev)"
        using Some fallback_pool.pick_fresh pipe_pool.pick_fresh by (cases fb) auto
      then have "map_effect MAX_NB_FLOWS (chr_pipe_status chr) (dev_pipe_status dev)
          (bv_set (chr_pipe_status chr) k) (bv_set (dev_pipe_status dev) k) {k} {}"
        by (intro map_effect_mark) simp_all
      then have "call_effect chr dev
          (chr\<lparr>chr_pipe_status := bv_set (chr_pipe_status chr) k, chr_nb_fb_queues := m\<rparr>)
          (dev\<lparr>dev_pipe_status := bv_set (dev_pipe_status dev) k, dev_nb_fb_queues := n\<rparr>)" for m n
        by (intro call_effect_pipes [where A = "{k}" and R = "{}"]) simp_all
      from this this [of "chr_nb_fb_queues chr" "dev_nb_fb_queues dev", simplified] show ?thesis
        using run sem \<open>a = Some fb\<close> Some by (auto simp: alloc_pipe_eq call_effect_same split: if_splits)
    qed
  qed
qed

lemma free_pipe_effect:
  assumes "free_pipe intr u chr dev = Some (r, chr', dev')"
  shows "call_effect chr dev chr' dev'"
  using assms unfolding free_pipe_def
proof (cases rule: with_dev_cases)
  case 1
  then show ?thesis by (simp add: call_effect_same)
next
  case 2
  then have run: "free_pipe False u chr dev = Some (r, chr', dev')" by (simp add: free_pipe_def)
  let ?k = "sint (ucast u :: u32)"
  show ?thesis
  proof (cases "0 \<le> ?k \<and> ?k < int MAX_NB_FLOWS \<and> bv_bit (chr_pipe_status chr) (nat ?k)")
    case True
    then have "{nat ?k} \<subseteq> bv_used (chr_pipe_status chr)" by (simp add: bv_used_def)
    then show ?thesis
      using run 2(1) True map_effect_unmark [of MAX_NB_FLOWS _ _ "nat ?k"]
      by (intro call_effect_pipes [where A = "{}" and R = "{nat ?k}"]) (auto simp: free_pipe_eq Let_def)
  next
    case False
    then show ?thesis using run 2(1) by (intro call_effect_same) (auto simp: free_pipe_eq Let_def)
  qed
qed

lemma set_kmem_keeps_maps:
  assumes "set_kmem_size intr mk mem a dev = Ret (r, io, freed, dev')"
  shows "dev_pipe_status dev' = dev_pipe_status dev \<and> dev_notif_q_status dev' = dev_notif_q_status dev"
  using assms
  by (auto simp: set_kmem_size_def down_interruptible_def Let_def up_def
      split: option.splits if_splits prod.splits)

lemma dma_keeps_maps:
  "dev_pipe_status (snd (intel_fpga_pcie_dma_queue a dev)) = dev_pipe_status dev"
  "dev_notif_q_status (snd (intel_fpga_pcie_dma_queue a dev)) = dev_notif_q_status dev"
  "dev_pipe_status (snd (dma_start l w rd dev)) = dev_pipe_status dev"
  "dev_notif_q_status (snd (dma_start l w rd dev)) = dev_notif_q_status dev"
  by (auto simp: intel_fpga_pcie_dma_queue_def dma_start_def Let_def split: option.split)

lemma dma_send_keeps_maps:
  "dev_pipe_status (snd (snd (intel_fpga_pcie_dma_send hw u dev))) = dev_pipe_status dev"
  "dev_notif_q_status (snd (snd (intel_fpga_pcie_dma_send hw u dev))) = dev_notif_q_status dev"
  by (simp_all add: intel_fpga_pcie_dma_send_def Let_def case_prod_unfold dma_keeps_maps)

lemma handle_req_effect:
  assumes "handle_req env req chr dev = Ret (r, chr', dev')"
  shows "call_effect chr dev chr' dev'"
proof (cases req)
  case (SelBar b)
  then show ?thesis
    using assms by (auto simp: sel_bar_def call_effect_same split: if_splits prod.splits)
next
  case (CfgAccess a d)
  then show ?thesis using assms by (auto simp: call_effect_same split: kernel.splits)
next
  case (SetKmemSize a)
  then show ?thesis
    using assms set_kmem_keeps_maps by (fastforce intro!: call_effect_same split: kernel.splits)
next
  case (DmaQueue a)
  then show ?thesis
    using assms dma_keeps_maps(1,2) [of a dev] by (auto intro!: call_effect_same simp: case_prod_unfold)
next
  case (DmaSend u)
  then show ?thesis
    using assms dma_send_keeps_maps [of "e_hw env" u dev]
    by (auto intro!: call_effect_same simp: case_prod_unfold)
next
  case (SetRrStatus u)
  then show ?thesis
    using assms by (auto simp: set_rr_status_def lift_op_def with_dev_def down_interruptible_def up_def
        intro!: call_effect_same split: option.splits sum.splits if_splits)
next
  case AllocNotifBuffer
  then show ?thesis using assms alloc_notif_effect by (auto simp: lift_op_def split: option.splits)
next
  case (FreeNotifBuffer u)
  then show ?thesis using assms free_notif_effect by (auto simp: lift_op_def split: option.splits)
next
  case (AllocPipe a)
  then show ?thesis using assms alloc_pipe_effect by (auto simp: lift_op_def split: option.splits)
next
  case (FreePipe u)
  then show ?thesis using assms free_pipe_effect by (auto simp: lift_op_def split: option.splits)
qed (use assms in \<open>auto simp: call_effect_same\<close>)

section \<open>The invariant holds in every execution\<close>

lemma drv_inv_init: "drv_init s \<Longrightarrow> drv_inv s"
  by (auto simp: drv_init_def drv_inv_def owns_pipe_def owns_notif_def)

lemma drv_inv_D:
  assumes "drv_inv s"
  shows "dev_tree s b = Some dev \<Longrightarrow> i \<in> bv_used (dev_pipe_status dev) \<longleftrightarrow> (\<exists>fd. owns_pipe s fd b i)"
    and "dev_tree s b = Some dev \<Longrightarrow> i \<in> bv_used (dev_notif_q_status dev) \<Longrightarrow> \<exists>fd. owns_notif s fd b i"
    and "owns_pipe s fd b i \<Longrightarrow> owns_pipe s fd' b i \<Longrightarrow> fd = fd'"
    and "owns_pipe s fd b i \<Longrightarrow> i < MAX_NB_FLOWS" "owns_pipe s fd b i \<Longrightarrow> b \<in> dom (dev_tree s)"
    and "owns_notif s fd b i \<Longrightarrow> i < MAX_NB_APPS"
  using assms unfolding drv_inv_def by blast+

lemma drv_inv_call:
  assumes inv: "drv_inv s" and chr: "files s fd = Some chr" and dev: "dev_tree s (chr_dev chr) = Some dev"
    and eff: "call_effect chr dev chr' dev'"
  defines "t \<equiv> s\<lparr>dev_tree := (dev_tree s)(chr_dev chr \<mapsto> dev'), files := (files s)(fd \<mapsto> chr')\<rparr>"
  shows "drv_inv t"
proof -
  let ?b = "chr_dev chr"
  have same: "chr_dev chr' = ?b" using eff by (simp add: call_effect_def)
  obtain A R where p: "bv_used (chr_pipe_status chr') = (bv_used (chr_pipe_status chr) \<union> A) - R"
      "bv_used (dev_pipe_status dev') = (bv_used (dev_pipe_status dev) \<union> A) - R"
      "A \<inter> bv_used (dev_pipe_status dev) = {}" "A \<subseteq> {..<MAX_NB_FLOWS}"
      "R \<subseteq> bv_used (chr_pipe_status chr)"
    using eff by (auto simp: call_effect_def map_effect_def)
  obtain B S where n: "bv_used (chr_notif_q_status chr') = (bv_used (chr_notif_q_status chr) \<union> B) - S"
      "bv_used (dev_notif_q_status dev') = (bv_used (dev_notif_q_status dev) \<union> B) - S"
      "B \<subseteq> {..<MAX_NB_APPS}"
    using eff by (auto simp: call_effect_def map_effect_def)
  have op: "owns_pipe t f b i \<longleftrightarrow> (if f = fd then b = ?b \<and> i \<in> (bv_used (chr_pipe_status chr) \<union> A) - R
      else owns_pipe s f b i)" for f b i
    by (auto simp: owns_pipe_def t_def same p(1))
  have on: "owns_notif t f b i \<longleftrightarrow> (if f = fd then b = ?b \<and> i \<in> (bv_used (chr_notif_q_status chr) \<union> B) - S
      else owns_notif s f b i)" for f b i
    by (auto simp: owns_notif_def t_def same n(1))
  have mine: "owns_pipe s fd b i \<longleftrightarrow> b = ?b \<and> i \<in> bv_used (chr_pipe_status chr)"
    "owns_notif s fd b i \<longleftrightarrow> b = ?b \<and> i \<in> bv_used (chr_notif_q_status chr)" for b i
    using chr by (auto simp: owns_pipe_def owns_notif_def)
  have devs: "i \<in> bv_used (dev_pipe_status dev) \<longleftrightarrow> (\<exists>f. owns_pipe s f ?b i)"
    "i \<in> bv_used (dev_notif_q_status dev) \<Longrightarrow> \<exists>f. owns_notif s f ?b i" for i
    using drv_inv_D(1,2) [OF inv dev] by blast+
  note uniq = drv_inv_D(3) [OF inv]
  have "(i \<in> bv_used (dev_pipe_status d) \<longleftrightarrow> (\<exists>f. owns_pipe t f b i)) \<and>
      (i \<in> bv_used (dev_notif_q_status d) \<longrightarrow> (\<exists>f. owns_notif t f b i))" if "dev_tree t b = Some d" for b d i
  proof (cases "b = ?b")
    case True
    then have d: "d = dev'" using that by (simp add: t_def)
    have "i \<in> bv_used (dev_pipe_status dev') \<longleftrightarrow> (\<exists>f. owns_pipe t f ?b i)"
    proof -
      let ?other = "\<exists>f. f \<noteq> fd \<and> owns_pipe s f ?b i"
      have "(\<exists>f. owns_pipe t f ?b i) \<longleftrightarrow> ?other \<or> i \<in> (bv_used (chr_pipe_status chr) \<union> A) - R"
        unfolding op by auto
      moreover have "i \<in> bv_used (dev_pipe_status dev) \<longleftrightarrow> ?other \<or> i \<in> bv_used (chr_pipe_status chr)"
        unfolding devs(1) using mine(1) [of ?b i] by metis
      moreover have "?other \<Longrightarrow> i \<notin> bv_used (chr_pipe_status chr)"
        using uniq [of _ ?b i fd] mine(1) [of ?b i] by metis
      moreover have "i \<in> A \<Longrightarrow> i \<notin> bv_used (dev_pipe_status dev)"
        "i \<in> R \<Longrightarrow> i \<in> bv_used (chr_pipe_status chr)" using p(3,5) by auto
      ultimately show ?thesis unfolding p(2) by (simp only: Un_iff Diff_iff) metis
    qed
    moreover have "i \<in> bv_used (dev_notif_q_status dev') \<longrightarrow> (\<exists>f. owns_notif t f ?b i)"
    proof
      assume i: "i \<in> bv_used (dev_notif_q_status dev')"
      show "\<exists>f. owns_notif t f ?b i"
      proof (cases "i \<in> B")
        case True
        then show ?thesis using i n(2) on [of fd ?b i] by auto
      next
        case False
        then obtain f where "owns_notif s f ?b i" using i n(2) devs(2) [of i] by auto
        then show ?thesis using i n(2) on [of f ?b i] mine(2) [of ?b i] by (auto split: if_splits)
      qed
    qed
    ultimately show ?thesis using d True by simp
  next
    case False
    then have "dev_tree s b = Some d" using that by (simp add: t_def)
    then have "i \<in> bv_used (dev_pipe_status d) \<longleftrightarrow> (\<exists>f. owns_pipe s f b i)"
      "i \<in> bv_used (dev_notif_q_status d) \<longrightarrow> (\<exists>f. owns_notif s f b i)"
      using inv unfolding drv_inv_def by blast+
    moreover have "owns_pipe t f b i = owns_pipe s f b i" "owns_notif t f b i = owns_notif s f b i" for f
      using mine [of b i] False by (simp_all add: op on)
    ultimately show ?thesis by simp
  qed
  moreover have "f = f'" if "owns_pipe t f b i" "owns_pipe t f' b i" for f f' b i
  proof -
    have new: "i \<notin> A" if "owns_pipe s g ?b i" for g using that devs(1) [of i] p(3) by blast
    have "owns_pipe s fd ?b i" if "owns_pipe t fd b i" "owns_pipe s g ?b i" for g
      using that(1) new [OF that(2)] mine(1) [of ?b i] by (simp add: op)
    then show ?thesis
      using that uniq [of f b i f'] uniq [of f b i fd] uniq [of f' b i fd]
      by (cases "f = fd"; cases "f' = fd") (auto simp: op)
  qed
  moreover have "i < MAX_NB_FLOWS \<and> b \<in> dom (dev_tree t)" if "owns_pipe t f b i" for f b i
  proof (cases "f = fd")
    case True
    then have "b = ?b" "i \<in> A \<or> owns_pipe s fd b i" using that mine(1) [of b i] by (auto simp: op)
    then show ?thesis using p(4) drv_inv_D(4) [OF inv, of fd b i] by (auto simp: t_def)
  next
    case False
    then have "owns_pipe s f b i" using that by (simp add: op)
    then show ?thesis using drv_inv_D(4,5) [OF inv] by (fastforce simp: t_def)
  qed
  moreover have "i < MAX_NB_APPS" if "owns_notif t f b i" for f b i
    using that n(3) mine(2) [of b i] drv_inv_D(6) [OF inv, of f b i] by (auto simp: on split: if_splits)
  ultimately show ?thesis unfolding drv_inv_def by blast
qed

lemma lowest_bdf_Some:
  assumes "lowest_bdf tree = Some b"
  shows "\<exists>dev. tree b = Some dev"
  using assms by (auto simp: lowest_bdf_def find_Some_iff)

text \<open>
  A device may change in fields other than its maps (a counter, the semaphore) without effect on
  ownership, and a handle with empty maps may be added.
\<close>

lemma drv_inv_open:
  assumes inv: "drv_inv s" and fresh: "files s fd = None" and op: "chr_open li a b c intr fd s = Ret (r, t)"
  shows "drv_inv t"
proof (cases r)
  case (Inl e)
  then have "dev_tree t = dev_tree s" "files t = files s"
    using op by (auto simp: chr_open_def Let_def split: if_splits option.splits sum.splits)
  then show ?thesis using inv by (simp add: drv_inv_def owns_pipe_def owns_notif_def)
next
  case (Inr u)
  then obtain bdf dev chr where t: "dev_tree s bdf = Some dev"
      "dev_tree t = (dev_tree s)(bdf \<mapsto> dev\<lparr>chr_open_cnt := chr_open_cnt dev + 1\<rparr>)"
      "files t = (files s)(fd \<mapsto> chr)" "chr_pipe_status chr = (\<lambda>_. 0)" "chr_notif_q_status chr = (\<lambda>_. 0)"
    using op lowest_bdf_Some [of "dev_tree s"]
    by (auto simp: chr_open_def Let_def down_interruptible_def up_def
        split: if_splits option.splits sum.splits)
  have none: "bv_used (chr_pipe_status chr) = {}" "bv_used (chr_notif_q_status chr) = {}"
    by (simp_all add: t bv_used_def bv_bit_def)
  have own: "owns_pipe t f x i = owns_pipe s f x i" "owns_notif t f x i = owns_notif s f x i" for f x i
    using fresh none by (cases "f = fd"; simp add: owns_pipe_def owns_notif_def t(3))+
  have dev: "\<exists>d'. dev_tree s x = Some d' \<and> dev_pipe_status d' = dev_pipe_status d \<and>
      dev_notif_q_status d' = dev_notif_q_status d" if "dev_tree t x = Some d" for x d
    using that t(1,2) by (cases "x = bdf") auto
  have "dom (dev_tree s) \<subseteq> dom (dev_tree t)" using t(2) by auto
  then have range: "owns_pipe s f x i \<Longrightarrow> i < MAX_NB_FLOWS \<and> x \<in> dom (dev_tree t)" for f x i
    using drv_inv_D(4,5) [OF inv, of f x i] by blast
  have "(i \<in> bv_used (dev_pipe_status d) \<longleftrightarrow> (\<exists>f. owns_pipe s f x i)) \<and>
      (i \<in> bv_used (dev_notif_q_status d) \<longrightarrow> (\<exists>f. owns_notif s f x i))" if "dev_tree t x = Some d" for x d i
    using dev [OF that] drv_inv_D(1,2) [OF inv, of x] by metis
  then show ?thesis
    unfolding drv_inv_def own using range drv_inv_D(3,6) [OF inv] by blast
qed

lemma bv_used_minus:
  assumes "bv_used c \<subseteq> {..<8 * n}"
  shows "bv_used (\<lambda>i. if i < n then d i AND NOT (c i) else d i) = bv_used d - bv_used c"
proof -
  have "bv_bit (\<lambda>i. if i < n then d i AND NOT (c i) else d i) k \<longleftrightarrow> bv_bit d k \<and> \<not> bv_bit c k" for k
  proof (cases "k div 8 < n")
    case True
    then show ?thesis by (simp add: bv_bit_def bit_and_iff bit_not_iff)
  next
    case False
    then have "\<not> k < 8 * n" by (simp add: div_less_iff_less_mult mult.commute)
    then have "\<not> bv_bit c k" using assms by (auto simp: bv_used_def)
    then show ?thesis using False by (simp add: bv_bit_def)
  qed
  then show ?thesis by (auto simp: bv_used_def)
qed

lemma drv_inv_close:
  assumes inv: "drv_inv s" and cl: "drv_close False fd s = Ret (r, t)"
  shows "drv_inv t"
proof -
  from cl obtain chr dev dev' where c: "files s fd = Some chr" "dev_tree s (chr_dev chr) = Some dev"
      "chr_release False chr dev = Some (r, dev')" "dev_tree t = (dev_tree s)(chr_dev chr \<mapsto> dev')"
      "files t = (files s)(fd := None)"
    by (auto simp: drv_close_def split: option.splits prod.splits)
  let ?b = "chr_dev chr"
  have mine: "owns_pipe s fd b i \<longleftrightarrow> b = ?b \<and> i \<in> bv_used (chr_pipe_status chr)"
    "owns_notif s fd b i \<longleftrightarrow> b = ?b \<and> i \<in> bv_used (chr_notif_q_status chr)" for b i
    using c(1) by (auto simp: owns_pipe_def owns_notif_def)
  have "bv_used (chr_pipe_status chr) \<subseteq> {..<8 * (MAX_NB_FLOWS div 8)}"
    "bv_used (chr_notif_q_status chr) \<subseteq> {..<8 * (MAX_NB_APPS div 8)}"
    using drv_inv_D(4,6) [OF inv, of fd ?b] mine [of ?b] by (auto simp: MAX_NB_FLOWS_def MAX_NB_APPS_def)
  from this [THEN bv_used_minus] have d: "bv_used (dev_pipe_status dev') = bv_used (dev_pipe_status dev) - bv_used (chr_pipe_status chr)"
    "bv_used (dev_notif_q_status dev') = bv_used (dev_notif_q_status dev) - bv_used (chr_notif_q_status chr)"
    using c(3) by (auto simp: chr_release_def down_interruptible_def split: if_splits)
  have op: "owns_pipe t f b i \<longleftrightarrow> f \<noteq> fd \<and> owns_pipe s f b i"
    "owns_notif t f b i \<longleftrightarrow> f \<noteq> fd \<and> owns_notif s f b i" for f b i
    using c(5) by (auto simp: owns_pipe_def owns_notif_def)
  have devs: "dev_tree s b = Some e \<Longrightarrow> i \<in> bv_used (dev_pipe_status e) \<longleftrightarrow> (\<exists>f. owns_pipe s f b i)"
    "dev_tree s b = Some e \<Longrightarrow> i \<in> bv_used (dev_notif_q_status e) \<Longrightarrow> \<exists>f. owns_notif s f b i" for b e i
    using drv_inv_D(1,2) [OF inv] by blast+
  note uniq = drv_inv_D(3) [OF inv]
  have "(i \<in> bv_used (dev_pipe_status e) \<longleftrightarrow> (\<exists>f. owns_pipe t f b i)) \<and>
      (i \<in> bv_used (dev_notif_q_status e) \<longrightarrow> (\<exists>f. owns_notif t f b i))" if "dev_tree t b = Some e" for b e i
  proof (cases "b = ?b")
    case True
    then have "e = dev'" using that c(4) by simp
    moreover have "i \<in> bv_used (dev_pipe_status dev') \<longleftrightarrow> (\<exists>f. f \<noteq> fd \<and> owns_pipe s f ?b i)"
      unfolding d Diff_iff devs(1) [OF c(2)] using mine(1) [of ?b i] uniq [of _ ?b i fd] by metis
    moreover have "i \<in> bv_used (dev_notif_q_status dev') \<Longrightarrow> \<exists>f. f \<noteq> fd \<and> owns_notif s f ?b i"
      unfolding d Diff_iff using mine(2) [of ?b i] devs(2) [OF c(2), of i] by metis
    ultimately show ?thesis using True unfolding op by simp
  next
    case False
    then have e: "dev_tree s b = Some e" using that c(4) by simp
    have "owns_pipe t f b i = owns_pipe s f b i" "owns_notif t f b i = owns_notif s f b i" for f
      using mine [of b i] False unfolding op by blast+
    then show ?thesis using devs [OF e, of i] by simp
  qed
  moreover have "dom (dev_tree s) \<subseteq> dom (dev_tree t)" using c(4) by auto
  ultimately show ?thesis using inv unfolding drv_inv_def op by blast
qed

lemma drv_inv_step: "drv_step s t \<Longrightarrow> drv_inv s \<Longrightarrow> drv_inv t"
proof (induction rule: drv_step.induct)
  case (s_open li a b c intr fd s r t)
  then show ?case using drv_inv_open by blast
next
  case (s_close fd s r t)
  then show ?case using drv_inv_close by blast
next
  case (s_ioctl env req fd s r t)
  then have "on_handle (handle_req env req) fd s = Ret (r, t)"
    by (cases req) (auto simp: intel_fpga_pcie_unlocked_ioctl_def)
  then obtain chr dev chr' dev' where "files s fd = Some chr" "dev_tree s (chr_dev chr) = Some dev"
      "handle_req env req chr dev = Ret (r, chr', dev')"
      "t = s\<lparr>dev_tree := (dev_tree s)(chr_dev chr \<mapsto> dev'), files := (files s)(fd \<mapsto> chr')\<rparr>"
    by (auto simp: on_handle_def split: option.splits kernel.splits)
  then show ?case using drv_inv_call [OF s_ioctl.prems _ _ handle_req_effect] by blast
qed

lemma drv_reachable_inv: "drv_reachable s \<Longrightarrow> drv_inv s"
  by (induction rule: drv_reachable.induct) (blast intro: drv_inv_init drv_inv_step)+

section \<open>Properties\<close>


text \<open>One device and, later, two open handles.\<close>

definition drv_one :: drv where
  "drv_one = \<lparr>dev_tree = [0 \<mapsto> dev_zero], files = Map.empty, live = 0\<rparr>"

definition drv_two :: drv where
  "drv_two = \<lparr>dev_tree = [0 \<mapsto> dev_zero\<lparr>chr_open_cnt := 2\<rparr>], files = [1 \<mapsto> chr_zero, 2 \<mapsto> chr_zero], live = 6\<rparr>"

lemma lowest_bdf_0: "tree 0 = Some d \<Longrightarrow> lowest_bdf tree = Some 0"
  unfolding lowest_bdf_def upt_conv_Cons [OF zero_less_numeral] by simp

lemma chr_open_ok:
  assumes "tree 0 = Some dev" "0 < dev_sem dev" "first_bar dev = 0" "fs fd = None"
  shows "drv_step \<lparr>dev_tree = tree, files = fs, live = n\<rparr>
    \<lparr>dev_tree = tree(0 \<mapsto> dev\<lparr>chr_open_cnt := chr_open_cnt dev + 1\<rparr>), files = fs(fd \<mapsto> chr_zero), live = n + 3\<rparr>"
proof -
  have "chr_open False True True True False fd \<lparr>dev_tree = tree, files = fs, live = n\<rparr> = Ret (Inr (),
    \<lparr>dev_tree = tree(0 \<mapsto> dev\<lparr>chr_open_cnt := chr_open_cnt dev + 1\<rparr>), files = fs(fd \<mapsto> chr_zero), live = n + 3\<rparr>)"
    using assms by (simp add: chr_open_def lowest_bdf_0 down_interruptible_def up_def chr_zero_def Let_def)
  then show ?thesis by (rule s_open) (simp add: assms(4))
qed

lemma first_bar_zero: "first_bar (dev_zero\<lparr>chr_open_cnt := n\<rparr>) = 0" "first_bar dev_zero = 0"
  by (simp_all add: first_bar_def dev_zero_def find_None_iff [THEN iffD2])

lemma drv_two_reachable: "drv_reachable drv_two"
proof -
  have "drv_reachable drv_one"
    by (rule d_start) (auto simp: drv_init_def drv_one_def dev_zero_def bv_used_def bv_bit_def)
  moreover have "drv_step drv_one \<lparr>dev_tree = [0 \<mapsto> dev_zero\<lparr>chr_open_cnt := 1\<rparr>], files = [1 \<mapsto> chr_zero], live = 3\<rparr>"
    using chr_open_ok [of "[0 \<mapsto> dev_zero]" dev_zero Map.empty 1 0] first_bar_zero
    by (simp add: drv_one_def dev_zero_def)
  moreover have "drv_step \<lparr>dev_tree = [0 \<mapsto> dev_zero\<lparr>chr_open_cnt := 1\<rparr>], files = [1 \<mapsto> chr_zero], live = 3\<rparr> drv_two"
    using chr_open_ok [of "[0 \<mapsto> dev_zero\<lparr>chr_open_cnt := 1\<rparr>]" "dev_zero\<lparr>chr_open_cnt := 1\<rparr>" "[1 \<mapsto> chr_zero]" 2 3]
      first_bar_zero(1) [of 1]
    by (simp add: drv_two_def dev_zero_def)
  ultimately show ?thesis by (blast intro: d_run)
qed




lemma ioctl_alloc_pipeE:
  assumes "intel_fpga_pcie_unlocked_ioctl env (AllocPipe (Some fb)) fd s = Ret (Inr (OWord w), t)"
  obtains chr dev chr' dev' where "files s fd = Some chr" "dev_tree s (chr_dev chr) = Some dev"
    "alloc_pipe (e_intr env) (Some fb) (e_ufault env) chr dev = Some (Inr w, chr', dev')"
    "t = s\<lparr>dev_tree := (dev_tree s)(chr_dev chr \<mapsto> dev'), files := (files s)(fd \<mapsto> chr')\<rparr>"
  using assms
  by (auto simp: intel_fpga_pcie_unlocked_ioctl_def on_handle_def lift_op_def kmap_def
      split: option.splits kernel.splits sum.splits)

lemma alloc_pipe_Inr:
  assumes "alloc_pipe intr (Some fb) uf chr dev = Some (Inr w, chr', dev')"
  shows "unat w < MAX_NB_FLOWS \<and> unat w \<notin> bv_used (dev_pipe_status dev) \<and> chr_dev chr' = chr_dev chr \<and>
    bv_used (chr_pipe_status chr') = insert (unat w) (bv_used (chr_pipe_status chr))"
proof -
  have sem: "0 < dev_sem dev" "\<not> intr"
    using assms by (cases intr; auto simp: alloc_pipe_def alloc_pipe_select_def with_dev_def
        down_interruptible_def split: if_splits)+
  then obtain k where k: "(if fb then pick_up else pick_down) (MAX_NB_FLOWS div 8) (dev_pipe_status dev) = Some k"
    "w = of_nat k" "chr_pipe_status chr' = bv_set (chr_pipe_status chr) k" "chr_dev chr' = chr_dev chr"
    using assms by (auto simp: alloc_pipe_eq split: option.splits if_splits)
  have "k < MAX_NB_FLOWS \<and> k \<notin> bv_used (dev_pipe_status dev)"
    using k(1) fallback_pool.pick_fresh pipe_pool.pick_fresh by (cases fb) auto
  moreover from this have "unat w = k" unfolding k(2) by (intro unat_of_nat_small) (simp add: MAX_NB_FLOWS_def)
  ultimately show ?thesis using k(3,4) by simp
qed

text \<open>
  A process that allocates a pipe gets one that nobody owned and that it alone owns afterwards;
  every other handle keeps exactly what it had.
\<close>

theorem alloc_pipe_exclusive:
  assumes "drv_reachable s" "files s fd = Some chr"
    and "intel_fpga_pcie_unlocked_ioctl env (AllocPipe (Some fb)) fd s = Ret (Inr (OWord w), t)"
  shows "unat w < MAX_NB_FLOWS \<and> \<not> (\<exists>f. owns_pipe s f (chr_dev chr) (unat w)) \<and>
    (\<forall>f b i. owns_pipe t f b i \<longleftrightarrow> owns_pipe s f b i \<or> f = fd \<and> b = chr_dev chr \<and> i = unat w)"
proof -
  obtain dev chr' dev' where r: "dev_tree s (chr_dev chr) = Some dev"
      "alloc_pipe (e_intr env) (Some fb) (e_ufault env) chr dev = Some (Inr w, chr', dev')"
      "t = s\<lparr>dev_tree := (dev_tree s)(chr_dev chr \<mapsto> dev'), files := (files s)(fd \<mapsto> chr')\<rparr>"
    using ioctl_alloc_pipeE [OF assms(3)] assms(2) by (metis option.inject)
  note a = alloc_pipe_Inr [OF r(2)]
  have "\<not> (\<exists>f. owns_pipe s f (chr_dev chr) (unat w))"
    using a drv_inv_D(1) [OF drv_reachable_inv [OF assms(1)] r(1)] by blast
  moreover have "owns_pipe t f b i \<longleftrightarrow> owns_pipe s f b i \<or> f = fd \<and> b = chr_dev chr \<and> i = unat w" for f b i
    using a assms(2) by (auto simp: owns_pipe_def r(3))
  ultimately show ?thesis using a by blast
qed

definition env_ok :: kenv where
  "env_ok = \<lparr>e_lock_intr = False, e_intr = False, e_intr2 = False, e_ufault = False,
     e_pci_read = (\<lambda>_ _. (0, [])), e_pci_write = (\<lambda>_ _. 0), e_sriov = (\<lambda>_. 0), e_mask_ok = True,
     e_mem = None, e_uio_name = None, e_hw = (\<lambda>_ _. True)\<rparr>"

definition drv_pipe0 :: "drv" where
  "drv_pipe0 = drv_two\<lparr>
     dev_tree := [0 \<mapsto> dev_zero\<lparr>chr_open_cnt := 2, dev_pipe_status := bv_set (\<lambda>_. 0) 0, dev_nb_fb_queues := 1\<rparr>],
     files := [1 \<mapsto> chr_zero\<lparr>chr_pipe_status := bv_set (\<lambda>_. 0) 0, chr_nb_fb_queues := 1\<rparr>, 2 \<mapsto> chr_zero]\<rparr>"

lemma pick_up_empty: "pick_up (Suc n) (\<lambda>_. 0) = Some 0"
  by (simp add: pick_up_def find_clear_up.simps scan_low.simps)

lemma drv_pipe0_step:
  "intel_fpga_pcie_unlocked_ioctl env_ok (AllocPipe (Some True)) 1 drv_two = Ret (Inr (OWord 0), drv_pipe0)"
  using pick_up_empty [of 1023]
  by (simp add: intel_fpga_pcie_unlocked_ioctl_def on_handle_def drv_two_def env_ok_def lift_op_def kmap_def
      dev_zero_def chr_zero_def alloc_pipe_eq MAX_NB_FLOWS_def drv_pipe0_def fun_upd_twist)

theorem alloc_pipe_exclusive_witness:
  "\<not> (\<exists>f. owns_pipe drv_two f 0 0) \<and> owns_pipe drv_pipe0 1 0 0"
proof -
  have f: "files drv_two 1 = Some chr_zero" by (simp add: drv_two_def)
  show ?thesis
    using alloc_pipe_exclusive [OF drv_two_reachable f drv_pipe0_step]
    by (auto simp: chr_zero_def)
qed

lemma ioctl_notif_run:
  assumes "files s fd = Some chr" "dev_tree s (chr_dev chr) = Some dev" "0 < dev_sem dev"
  shows "intel_fpga_pcie_unlocked_ioctl env_ok (FreeNotifBuffer u) fd s =
      (case free_notif_buffer False u chr dev of Some (r, chr', dev') \<Rightarrow>
        Ret (kmap (\<lambda>_. OUnit) r, s\<lparr>dev_tree := (dev_tree s)(chr_dev chr \<mapsto> dev'), files := (files s)(fd \<mapsto> chr')\<rparr>))"
    "intel_fpga_pcie_unlocked_ioctl env_ok AllocNotifBuffer fd s =
      (case alloc_notif_buffer False False chr dev of Some (r, chr', dev') \<Rightarrow>
        Ret (kmap OWord r, s\<lparr>dev_tree := (dev_tree s)(chr_dev chr \<mapsto> dev'), files := (files s)(fd \<mapsto> chr')\<rparr>))"
  using assms
  by (auto simp: intel_fpga_pcie_unlocked_ioctl_def on_handle_def env_ok_def lift_op_def
      alloc_notif_buffer_eq free_notif_buffer_eq split: option.split prod.split)

text \<open>
  Freeing a notification buffer does not check who owns it: with two handles on a device, the
  second can free the lowest buffer in use by the first and allocate it again, after which both
  handles own the same buffer.
\<close>

theorem free_notif_buffer_steals:
  assumes "drv_reachable s" "owns_notif s f1 b k" "f1 \<noteq> f2" "files s f2 = Some c" "chr_dev c = b"
    "dev_tree s b = Some dev" "0 < dev_sem dev" "{..<k} \<subseteq> bv_used (dev_notif_q_status dev)"
  shows "\<exists>t. drv_reachable t \<and> owns_notif t f1 b k \<and> owns_notif t f2 b k"
proof -
  have k: "k < MAX_NB_APPS" using drv_inv_D(6) [OF drv_reachable_inv [OF assms(1)] assms(2)] .
  then have "unat (ucast (of_nat k :: u64) :: u32) = k"
    by (simp add: MAX_NB_APPS_def unsigned_ucast_eq unat_of_nat_small take_bit_nat_eq_self)
  then have small: "sint (ucast (of_nat k :: u64) :: u32) = int k"
    using k sint_small [of "ucast (of_nat k :: u64)"] by (simp add: MAX_NB_APPS_def)
  define c1 where "c1 = c\<lparr>chr_notif_q_status := bv_clear (chr_notif_q_status c) k\<rparr>"
  define d1 where "d1 = dev\<lparr>dev_notif_q_status := bv_clear (dev_notif_q_status dev) k\<rparr>"
  define s1 where "s1 = s\<lparr>dev_tree := (dev_tree s)(b \<mapsto> d1), files := (files s)(f2 \<mapsto> c1)\<rparr>"
  have "intel_fpga_pcie_unlocked_ioctl env_ok (FreeNotifBuffer (of_nat k)) f2 s = Ret (Inr OUnit, s1)"
    using ioctl_notif_run(1) [OF assms(4), of dev "of_nat k"] assms(5-7) k
    by (simp add: free_notif_buffer_eq small kmap_def s1_def c1_def d1_def)
  then have r1: "drv_reachable s1" using assms(1) by (blast intro: d_run s_ioctl)
  have "pick_up (MAX_NB_APPS div 8) (dev_notif_q_status d1) = Some k"
  proof (cases "pick_up (MAX_NB_APPS div 8) (dev_notif_q_status d1)")
    case None
    then show ?thesis using notif_pool.pick_full [OF None] k by (auto simp: d1_def)
  next
    case (Some j)
    note f = notif_pool.pick_fresh [OF Some] pick_up_Some [OF Some]
    have "\<not> k < j" using f by (auto simp: d1_def bv_used_def)
    moreover have "\<not> j < k" using f(1) assms(8) by (auto simp: d1_def)
    ultimately show ?thesis using Some by simp
  qed
  then obtain r c2 d2 where "alloc_notif_buffer False False c1 d1 = Some (Inr r, c2, d2)"
      "k \<in> bv_used (chr_notif_q_status c2)" "chr_dev c2 = b"
    using assms(5,7) by (auto simp: alloc_notif_buffer_eq d1_def c1_def)
  moreover define t where "t = s1\<lparr>dev_tree := (dev_tree s1)(b \<mapsto> d2), files := (files s1)(f2 \<mapsto> c2)\<rparr>"
  ultimately have "intel_fpga_pcie_unlocked_ioctl env_ok AllocNotifBuffer f2 s1 = Ret (Inr (OWord r), t)"
    using ioctl_notif_run(2) [of s1 f2 c1 d1] assms(5,7)
    by (simp add: kmap_def s1_def c1_def d1_def)
  then have "drv_reachable t" using r1 by (blast intro: d_run s_ioctl)
  moreover have "owns_notif t f1 b k" "owns_notif t f2 b k"
    using assms(2,3) \<open>k \<in> bv_used (chr_notif_q_status c2)\<close> \<open>chr_dev c2 = b\<close>
    by (simp_all add: owns_notif_def t_def s1_def)
  ultimately show ?thesis by blast
qed

theorem free_notif_buffer_steals_witness:
  "\<exists>t. drv_reachable t \<and> owns_notif t 1 0 0 \<and> owns_notif t 2 0 0"
proof -
  let ?d = "dev_zero\<lparr>chr_open_cnt := 2, dev_notif_q_status := bv_set (\<lambda>_. 0) 0\<rparr>"
  let ?s = "drv_two\<lparr>dev_tree := [0 \<mapsto> ?d], files := [1 \<mapsto> chr_zero\<lparr>chr_notif_q_status := bv_set (\<lambda>_. 0) 0\<rparr>, 2 \<mapsto> chr_zero]\<rparr>"
  have "intel_fpga_pcie_unlocked_ioctl env_ok AllocNotifBuffer 1 drv_two = Ret (Inr (OWord 0), ?s)"
    using ioctl_notif_run(2) [of drv_two 1 chr_zero "dev_zero\<lparr>chr_open_cnt := 2\<rparr>"] pick_up_empty [of 127]
    by (simp add: drv_two_def kmap_def dev_zero_def chr_zero_def alloc_notif_buffer_eq MAX_NB_APPS_def fun_upd_twist)
  then have "drv_reachable ?s" using drv_two_reachable by (blast intro: d_run s_ioctl)
  from free_notif_buffer_steals [OF this, of 1 0 0 2 chr_zero ?d] show ?thesis
    by (simp add: owns_notif_def chr_zero_def dev_zero_def)
qed

text \<open>
  When the wait of a closing process for the device is interrupted, the handle is gone but
  nothing is released: the pipes it owned stay marked on the device with no owner left to free them,
  and its memory is never freed.
\<close>

theorem interrupted_close_leaks:
  assumes "drv_reachable s" "owns_pipe s fd b i" "drv_close True fd s = Ret (r, t)" "dev_tree s b = Some dev"
  shows "r = Inl ERESTARTSYS \<and> live t = live s \<and> dev_tree t b = Some dev \<and>
    i \<in> bv_used (dev_pipe_status dev) \<and> \<not> (\<exists>f. owns_pipe t f b i)"
proof -
  note inv = drv_reachable_inv [OF assms(1)]
  obtain c where "files s fd = Some c" "chr_dev c = b" using assms(2) by (auto simp: owns_pipe_def)
  with assms(3,4) have t: "r = Inl ERESTARTSYS" "live t = live s" "dev_tree t b = Some dev" "files t = (files s)(fd := None)"
    by (auto simp: drv_close_def chr_release_def down_interruptible_def)
  have "\<not> owns_pipe t f b i" for f
    using drv_inv_D(3) [OF inv assms(2), of f] t(4) by (auto simp: owns_pipe_def)
  then show ?thesis using t drv_inv_D(1) [OF inv assms(4), of i] assms(2) by blast
qed

theorem interrupted_close_leaks_witness:
  "\<exists>t. drv_close True 1 drv_pipe0 = Ret (Inl ERESTARTSYS, t) \<and> \<not> (\<exists>f. owns_pipe t f 0 0)"
proof -
  obtain t where t: "drv_close True 1 drv_pipe0 = Ret (Inl ERESTARTSYS, t)"
    by (simp add: drv_close_def drv_pipe0_def chr_zero_def chr_release_def down_interruptible_def)
  have "drv_reachable drv_pipe0"
    using drv_two_reachable drv_pipe0_step by (blast intro: d_run s_ioctl)
  from interrupted_close_leaks [OF this _ t, of 0 0] t show ?thesis
    by (simp add: owns_pipe_def drv_pipe0_def chr_zero_def)
qed

text \<open>
  A handle that selects another device takes its allocation map along: closing it then clears,
  on the newly selected device, every pipe with the number of one it had allocated on the old one,
  although another handle owns it, and leaves its own pipes marked on the old device.
\<close>

theorem sel_dev_then_close:
  assumes "files s f1 = Some c" "chr_dev c = old" "dev_tree s old = Some d_old" "dev_tree s new = Some d_new"
    "old \<noteq> new" "0 < dev_sem d_old" "0 < dev_sem d_new" "f1 \<noteq> f2" "i < MAX_NB_FLOWS"
    "i \<in> bv_used (chr_pipe_status c)" "i \<in> bv_used (dev_pipe_status d_old)" "owns_pipe s f2 new i"
  shows "\<exists>t1 t2 e_old e_new. sel_dev False False False (ucast new) f1 s = Ret (Inr (), t1) \<and>
    drv_close False f1 t1 = Ret (Inr (), t2) \<and>
    dev_tree t2 old = Some e_old \<and> i \<in> bv_used (dev_pipe_status e_old) \<and>
    dev_tree t2 new = Some e_new \<and> i \<notin> bv_used (dev_pipe_status e_new) \<and> owns_pipe t2 f2 new i"
proof -
  have u: "(ucast new :: u64) < 65536" using unsigned_less [of new, where ?'a = nat]
    by (simp add: word_less_nat_alt unat_ucast_up)
  have uu: "ucast (ucast new :: u64) = new"
    by (rule bit_word_eqI) (simp add: bit_unsigned_iff)
  define t1 where "t1 = s\<lparr>
      dev_tree := (dev_tree s)(old \<mapsto> d_old\<lparr>chr_open_cnt := chr_open_cnt d_old - 1\<rparr>,
        new \<mapsto> d_new\<lparr>chr_open_cnt := chr_open_cnt d_new + 1\<rparr>),
      files := (files s)(f1 \<mapsto> c\<lparr>chr_dev := new\<rparr>)\<rparr>"
  have 1: "sel_dev False False False (ucast new) f1 s = Ret (Inr (), t1)"
    using assms(1-7) u uu by (simp add: sel_dev_def down_interruptible_def up_def Let_def t1_def)
  obtain e where rel: "chr_release False (c\<lparr>chr_dev := new\<rparr>) (d_new\<lparr>chr_open_cnt := chr_open_cnt d_new + 1\<rparr>) = Some (Inr (), e)"
      "dev_pipe_status e = (\<lambda>j. if j < MAX_NB_FLOWS div 8 then dev_pipe_status d_new j AND NOT (chr_pipe_status c j)
          else dev_pipe_status d_new j)"
    using assms(7) by (fastforce simp: chr_release_def down_interruptible_def up_def)
  then obtain t2 where 2: "drv_close False f1 t1 = Ret (Inr (), t2)" "dev_tree t2 = (dev_tree t1)(new \<mapsto> e)"
      "files t2 = (files t1)(f1 := None)"
    by (simp add: drv_close_def t1_def)
  have "\<not> bv_bit (dev_pipe_status e) i"
    using assms(9,10) by (simp add: rel(2) bv_bit_def bit_and_iff bit_not_iff bv_used_def MAX_NB_FLOWS_def
        div_less_iff_less_mult)
  then have "i \<notin> bv_used (dev_pipe_status e)" by (simp add: bv_used_def)
  moreover have "owns_pipe t2 f2 new i" using assms(8,12) by (auto simp: owns_pipe_def 2(3) t1_def)
  moreover have "dev_tree t2 old = Some (d_old\<lparr>chr_open_cnt := chr_open_cnt d_old - 1\<rparr>)"
    using assms(5) by (simp add: 2(2) t1_def)
  ultimately show ?thesis using 1 2(1,2) assms(11) by fastforce
qed

theorem sel_dev_then_close_witness:
  "\<exists>s t1 t2 e. sel_dev False False False 1 1 s = Ret (Inr (), t1) \<and> drv_close False 1 t1 = Ret (Inr (), t2) \<and>
     dev_tree t2 1 = Some e \<and> 3 \<notin> bv_used (dev_pipe_status e) \<and> owns_pipe t2 2 1 3"
proof -
  let ?d = "dev_zero\<lparr>dev_pipe_status := bv_set (\<lambda>_. 0) 3\<rparr>"
  let ?c = "chr_zero\<lparr>chr_pipe_status := bv_set (\<lambda>_. 0) 3\<rparr>"
  let ?s = "\<lparr>dev_tree = [0 \<mapsto> ?d, 1 \<mapsto> ?d], files = [1 \<mapsto> ?c, 2 \<mapsto> ?c\<lparr>chr_dev := 1\<rparr>], live = 6\<rparr>"
  have "owns_pipe ?s 2 1 3" by (simp add: owns_pipe_def)
  then show ?thesis
    using sel_dev_then_close [of ?s 1 ?c 0 ?d 1 ?d 2 3]
    by (auto simp: dev_zero_def chr_zero_def MAX_NB_FLOWS_def)
qed

end
