(* ===== verification/Drv_Access.thy ===== *)
theory Drv_Access
  imports Drv_Files
begin

text \<open>
  Reading and writing a device region through the character device (\<^verbatim>\<open>chr_access\<close> of
  \<^verbatim>\<open>intel_fpga_pcie_chr.c\<close> and its helpers). The helpers are modelled by the sequence of
  bus transactions they issue, because the hardware restricts their size and alignment: a transaction
  reads or writes \<open>x_size\<close> bytes at \<open>x_addr\<close>, and \<open>x_copy\<close> of them, from byte \<open>x_skip\<close> on, go to
  (or come from) offset \<open>x_data\<close> of the driver's bounce buffer. \<open>do_read\<close> and \<open>do_write\<close> say what a
  sequence does to a region that behaves like memory. The loops return \<open>None\<close> where the code would
  not terminate.
\<close>

record xact =
  x_addr :: u64
  x_size :: nat
  x_data :: nat
  x_skip :: nat
  x_copy :: nat

definition io :: "u64 \<Rightarrow> nat \<Rightarrow> nat \<Rightarrow> xact" where
  "io a n d = \<lparr>x_addr = a, x_size = n, x_data = d, x_skip = 0, x_copy = n\<rparr>"

definition MAX_TRANSFER_SIZE :: u64 where [enso_simps]: "MAX_TRANSFER_SIZE = 64"

section \<open>Regions behind an RXM\<close>

definition rxm_access_single :: "u64 \<Rightarrow> nat \<Rightarrow> u16 \<Rightarrow> xact list" where
  "rxm_access_single addr data count =
     (if count = 4 then [io addr 4 data]
      else if count = 1 then [io addr 1 data]
      else if count = 2 then
        (if addr mod 2 = 1 then [io addr 1 data, io (addr + 1) 1 (data + 1)] else [io addr 2 data])
      else
        (if addr mod 2 = 1 then [io addr 1 data, io (addr + 1) 2 (data + 1)]
         else [io addr 2 data, io (addr + 2) 1 (data + 2)]))"

definition rxm_prefetchable_single_read :: "u64 \<Rightarrow> nat \<Rightarrow> u16 \<Rightarrow> xact list" where
  "rxm_prefetchable_single_read addr data count =
     [\<lparr>x_addr = addr AND NOT 3, x_size = 4, x_data = data, x_skip = unat (addr mod 4), x_copy = unat count\<rparr>]"

definition rxm_edge :: "bool \<Rightarrow> u64 \<Rightarrow> nat \<Rightarrow> u16 \<Rightarrow> xact list" where
  "rxm_edge pf_read = (if pf_read then rxm_prefetchable_single_read else rxm_access_single)"

function rxm_loop :: "bool \<Rightarrow> u64 \<Rightarrow> nat \<Rightarrow> u16 \<Rightarrow> xact list" where
  "rxm_loop pf_read addr data count =
     (if count \<ge> 4 then rxm_access_single addr data 4 @ rxm_loop pf_read (addr + 4) (data + 4) (count - 4)
      else if count > 0 then rxm_edge pf_read addr data count
      else [])"
  by pat_completeness auto
termination
  by (relation "measure (\<lambda>(_, _, _, c). unat c)") (auto simp: unat_sub word_le_nat_alt)

declare rxm_loop.simps [simp del]

definition rxm_access :: "u64 \<Rightarrow> nat \<Rightarrow> u16 \<Rightarrow> bool \<Rightarrow> bool \<Rightarrow> xact list" where
  "rxm_access addr data count rd prefetchable =
     (let pf_read = (rd \<and> prefetchable);
          first_access_max = 4 - ucast (addr mod 4) :: u16 in
      if first_access_max < count
      then rxm_edge pf_read addr data first_access_max @
           rxm_loop pf_read (addr + ucast first_access_max) (data + unat first_access_max) (count - first_access_max)
      else rxm_loop pf_read addr data count)"

section \<open>Regions behind an HPRXM\<close>

text \<open>Which wide moves the build provides (\<^verbatim>\<open>__AVX__\<close>, \<^verbatim>\<open>__SSE2__\<close>, \<^verbatim>\<open>CONFIG_64BIT\<close>).\<close>

record io_cfg =
  has_avx :: bool
  has_sse2 :: bool
  config_64bit :: bool

definition custom_io64 :: "io_cfg \<Rightarrow> u64 \<Rightarrow> nat \<Rightarrow> xact list" where
  "custom_io64 cfg addr data = (if config_64bit cfg then [io addr 8 data] else [io addr 4 data, io (addr + 4) 4 (data + 4)])"

definition custom_io128 :: "io_cfg \<Rightarrow> u64 \<Rightarrow> nat \<Rightarrow> xact list" where
  "custom_io128 cfg addr data = (if has_sse2 cfg then [io addr 16 data]
     else custom_io64 cfg addr data @ custom_io64 cfg (addr + 8) (data + 8))"

definition custom_io256 :: "io_cfg \<Rightarrow> u64 \<Rightarrow> nat \<Rightarrow> xact list" where
  "custom_io256 cfg addr data = (if has_avx cfg then [io addr 32 data]
     else custom_io128 cfg addr data @ custom_io128 cfg (addr + 16) (data + 16))"

definition hprxm_access_single :: "io_cfg \<Rightarrow> u64 \<Rightarrow> nat \<Rightarrow> u16 \<Rightarrow> xact list" where
  "hprxm_access_single cfg addr data count =
     (if count = 64 then custom_io256 cfg addr data @ custom_io256 cfg (addr + 32) (data + 32)
      else if count = 32 then custom_io256 cfg addr data
      else if count = 16 then custom_io128 cfg addr data
      else if count = 8 then custom_io64 cfg addr data
      else if count = 4 then [io addr 4 data]
      else [])"

definition round_up_to_po2 :: "u16 \<Rightarrow> u16" where
  "round_up_to_po2 num0 =
     (let num = num0 - 1;
          num = num OR drop_bit 1 num;
          num = num OR drop_bit 2 num;
          num = num OR drop_bit 4 num;
          num = num OR drop_bit 8 num
      in num + 1)"

definition round_down_to_po2_mask :: "u16 \<Rightarrow> u16" where
  "round_down_to_po2_mask num =
     (let num = num OR drop_bit 1 num;
          num = num OR drop_bit 2 num;
          num = num OR drop_bit 4 num;
          num = num OR drop_bit 8 num
      in drop_bit 1 num)"

partial_function (option) left_loop :: "io_cfg \<Rightarrow> u64 \<Rightarrow> nat \<Rightarrow> u16 \<Rightarrow> u16 \<Rightarrow> xact list option" where
  "left_loop cfg addr data count po2 =
     (if count > 0
      then if count \<ge> po2
           then Option.bind (left_loop cfg (addr + ucast po2) (data + unat po2) (count - po2) po2)
                  (\<lambda>r. Some (hprxm_access_single cfg addr data po2 @ r))
           else left_loop cfg addr data count (drop_bit 1 po2)
      else Some [])"

definition hprxm_access_left_justified :: "io_cfg \<Rightarrow> u64 \<Rightarrow> nat \<Rightarrow> u16 \<Rightarrow> xact list option" where
  "hprxm_access_left_justified cfg addr data count = left_loop cfg addr data count (round_up_to_po2 count)"

text \<open>The remainder by a \<^verbatim>\<open>po2\<close> that has wrapped to zero is undefined; the loop then has no result.\<close>

partial_function (option) right_loop :: "io_cfg \<Rightarrow> u64 \<Rightarrow> nat \<Rightarrow> u16 \<Rightarrow> u16 \<Rightarrow> xact list option" where
  "right_loop cfg addr data count po2 =
     (if count > 0
      then if po2 = 0 then None
           else if count mod po2 \<noteq> 0
           then Option.bind (right_loop cfg (addr + ucast (po2 div 2)) (data + unat (po2 div 2))
                    (count - po2 div 2) (push_bit 1 po2))
                  (\<lambda>r. Some (hprxm_access_single cfg addr data (po2 div 2) @ r))
           else right_loop cfg addr data count (push_bit 1 po2)
      else Some [])"

definition hprxm_access_right_justified :: "io_cfg \<Rightarrow> u64 \<Rightarrow> nat \<Rightarrow> u16 \<Rightarrow> xact list option" where
  "hprxm_access_right_justified cfg addr data count = right_loop cfg addr data count 2"

text \<open>The comparison of the loop is on \<^verbatim>\<open>int\<close>, to which the operands are promoted.\<close>

partial_function (option) split_loop :: "u16 \<Rightarrow> u16 \<Rightarrow> u16 \<Rightarrow> u16 option" where
  "split_loop start_addr end_addr offset =
     (let next_po2_div2 = drop_bit 1 (round_up_to_po2 (end_addr - offset));
          offset' = offset + next_po2_div2 in
      if uint next_po2_div2 < uint start_addr - uint offset' + uint next_po2_div2
      then split_loop start_addr end_addr offset' else Some offset')"

definition hprxm_access :: "io_cfg \<Rightarrow> u64 \<Rightarrow> nat \<Rightarrow> u16 \<Rightarrow> xact list option" where
  "hprxm_access cfg addr data count =
     (let start_addr = ucast (addr mod 32) :: u16;
          end_addr = start_addr + count;
          align_mask = round_down_to_po2_mask count in
      if start_addr AND align_mask = 0 then hprxm_access_left_justified cfg addr data count
      else if end_addr AND align_mask = 0 then hprxm_access_right_justified cfg addr data count
      else Option.bind (split_loop start_addr end_addr 0) (\<lambda>offset.
        let diff = offset - start_addr in
        Option.bind (hprxm_access_right_justified cfg addr data diff) (\<lambda>r1.
        Option.bind (hprxm_access_left_justified cfg (addr + ucast diff) (data + unat diff) (count - diff)) (\<lambda>r2.
        Some (r1 @ r2)))))"

definition hprxm_prefetch_read :: "io_cfg \<Rightarrow> u64 \<Rightarrow> u64 \<Rightarrow> xact list" where
  "hprxm_prefetch_read cfg ep count =
     (let ep_aligned = ep AND NOT 0x1f in
      hprxm_access_single cfg ep_aligned 0 32 @
      (if (ep AND 0x1f) + count > 32 then hprxm_access_single cfg (ep_aligned + 32) 32 32 else []) @
      (if (ep AND 0x3f) + count > 64 then hprxm_access_single cfg (ep_aligned + 64) 64 32 else []))"

section \<open>The access\<close>

definition get_address :: "dev_bookkeep \<Rightarrow> nat \<Rightarrow> u64 \<Rightarrow> u64 \<Rightarrow> u64 \<times> u64" where
  "get_address dev bar_num offset count =
     (let bar = dev_bar dev bar_num in
      if base_addr bar = 0 then (0, count)
      else if offset \<ge> bar_len bar then (0, count)
      else (base_addr bar + offset,
            let remaining_region = bar_len bar - offset in
            if count > remaining_region then remaining_region else count))"

record intel_fpga_pcie_cmd =
  bar_num :: u32
  bar_offset :: u64
  user_addr :: u64

definition do_read :: "(u64 \<Rightarrow> u8) \<Rightarrow> xact list \<Rightarrow> u8 arr \<Rightarrow> u8 arr" where
  "do_read mem xs buf = fold (\<lambda>x b i. if x_data x \<le> i \<and> i < x_data x + x_copy x
     then mem (x_addr x + of_nat (x_skip x + (i - x_data x))) else b i) xs buf"

definition do_write :: "u8 arr \<Rightarrow> xact list \<Rightarrow> (u64 \<Rightarrow> u8) \<Rightarrow> (u64 \<Rightarrow> u8)" where
  "do_write buf xs mem = fold (\<lambda>x m a. if unat (a - x_addr x) < x_copy x
     then buf (x_data x + unat (a - x_addr x)) else m a) xs mem"

definition access_xacts :: "io_cfg \<Rightarrow> bar_info \<Rightarrow> u64 \<Rightarrow> u64 \<Rightarrow> nat \<Rightarrow> bool \<Rightarrow> xact list option" where
  "access_xacts cfg bar ep count data rd = (if is_hprxm bar
     then if rd \<and> is_prefetchable bar then Some (hprxm_prefetch_read cfg ep count)
          else hprxm_access cfg ep data (ucast count)
     else Some (rxm_access ep data (ucast count) rd (is_prefetchable bar)))"

text \<open>
  \<open>cmd\<close> is the command structure as far as it could be copied from the user, \<open>cfu\<close> copies bytes from
  user memory, \<open>ctu_fault\<close> says that copying to the user fails. The result holds the number of bytes
  and what was copied to which user address; the memory of the region and the file offset follow. A
  BAR number outside the six of the device, which a command may carry, is read past the end of the
  array: \<open>Oops\<close>.
\<close>

definition chr_access :: "io_cfg \<Rightarrow> intel_fpga_pcie_cmd option \<Rightarrow> (u64 \<Rightarrow> nat \<Rightarrow> u8 list option) \<Rightarrow> bool \<Rightarrow>
    chr_dev_bookkeep \<Rightarrow> dev_bookkeep \<Rightarrow> u64 \<Rightarrow> u64 \<Rightarrow> bool \<Rightarrow> (u64 \<Rightarrow> u8) \<Rightarrow> u64 \<Rightarrow>
    ((u64 \<times> (u64 \<times> u8 list) option) kres \<times> (u64 \<Rightarrow> u8) \<times> u64) kernel" where
  "chr_access cfg cmd cfu ctu_fault chr dev ubuf count0 rd mem offp =
     (if count0 = 0 then Ret (Inr (0, None), mem, offp)
      else
        let count = (if count0 > MAX_TRANSFER_SIZE then MAX_TRANSFER_SIZE else count0);
            target = (if use_cmd chr
              then map_option (\<lambda>c. (unat (bar_num c), bar_offset c, user_addr c)) cmd
              else Some (unat (cur_bar_num chr), offp, ubuf)) in
        (case target of
           None \<Rightarrow> Ret (Inl EFAULT, mem, offp)
         | Some (bar, offset, uaddr) \<Rightarrow>
             if bar \<ge> 6 then Oops
             else
               let (ep, count) = get_address dev bar offset count;
                   hprxm = is_hprxm (dev_bar dev bar);
                   pf_read = (rd \<and> is_prefetchable (dev_bar dev bar)) in
               if ep = 0 then Ret (Inl EFAULT, mem, offp)
               else if hprxm \<and> \<not> pf_read \<and> (ep mod 4 \<noteq> 0 \<or> count mod 4 \<noteq> 0)
               then Ret (Inl EINVAL, mem, offp)
               else
                 let data = (if hprxm then unat (ep mod 32) else unat (ep mod 4)) in
                 (case (if rd then Some [] else cfu uaddr (unat count)) of
                    None \<Rightarrow> Ret (Inl EFAULT, mem, offp)
                  | Some src \<Rightarrow>
                      (case access_xacts cfg (dev_bar dev bar) ep count data rd of
                         None \<Rightarrow> Sleep
                       | Some xs \<Rightarrow>
                           let buf = (if rd then do_read mem xs (\<lambda>_. 0) else (\<lambda>i. src ! (i - data)));
                               mem' = (if rd then mem else do_write buf xs mem);
                               off1 = (if use_cmd chr then offp
                                 else if offp + count = bar_len (dev_bar dev bar) then 0 else offp + count) in
                           if rd \<and> ctu_fault then Ret (Inl EFAULT, mem', offp)
                           else Ret (Inr (count, if rd
                               then Some (uaddr, map (\<lambda>i. buf (data + i)) [0..<unat count]) else None), mem', off1)))))"

definition chr_read where
  "chr_read cfg cmd cfu ctu_fault chr dev ubuf count = chr_access cfg cmd cfu ctu_fault chr dev ubuf count True"

definition chr_write where
  "chr_write cfg cmd cfu ctu_fault chr dev ubuf count = chr_access cfg cmd cfu ctu_fault chr dev ubuf count False"

section \<open>Seeking and mapping\<close>

text \<open>Offsets are \<^verbatim>\<open>loff_t\<close>, signed; the sums wrap.\<close>

definition chr_llseek :: "chr_dev_bookkeep \<Rightarrow> dev_bookkeep \<Rightarrow> u64 \<Rightarrow> nat \<Rightarrow> u64 \<Rightarrow> u64 kres \<times> u64" where
  "chr_llseek chr dev off whence f_pos =
     (let seek = (\<lambda>newpos. if sint newpos < 0 then (Inl EINVAL, f_pos) else (Inr newpos, newpos)) in
      if whence = 0 then seek off
      else if whence = 1 then seek (f_pos + off)
      else if whence = 2 then seek (bar_len (dev_bar dev (unat (cur_bar_num chr))) + off)
      else (Inl EINVAL, f_pos))"

text \<open>\<open>pa\<close> is the physical address of a kernel address, \<open>remap_ok\<close> the result of \<^verbatim>\<open>remap_pfn_range\<close>;
  the result is the first page frame and the length of the mapping.\<close>

definition chr_mmap :: "(u64 \<Rightarrow> u64) \<Rightarrow> bool \<Rightarrow> dev_bookkeep \<Rightarrow> u64 \<Rightarrow> u64 \<Rightarrow> u64 \<Rightarrow> (u64 \<times> u64) kres" where
  "chr_mmap pa remap_ok dev vm_start vm_end pgoff =
     (let len = vm_end - vm_start in
      if len = 0 \<or> len + pgoff > kmem_size (dev_kmem dev) then Inl EINVAL
      else let pfn = drop_bit 12 (pa (virt_addr (dev_kmem dev) + push_bit 12 pgoff)) in
        if remap_ok then Inr (pfn, len) else Inl ENXIO)"

section \<open>Transactions that cover a range\<close>

text \<open>
  \<open>tiles a d n xs\<close>: the bytes that \<open>xs\<close> moves are those of the \<open>n\<close> addresses from \<open>a\<close> on, each once
  and in order, and they match the buffer from offset \<open>d\<close> on.
\<close>

fun tiles :: "u64 \<Rightarrow> nat \<Rightarrow> nat \<Rightarrow> xact list \<Rightarrow> bool" where
  "tiles a d n [] \<longleftrightarrow> n = 0"
| "tiles a d n (x # xs) \<longleftrightarrow> x_addr x + of_nat (x_skip x) = a \<and> x_data x = d \<and>
     0 < x_copy x \<and> x_copy x \<le> n \<and> x_skip x + x_copy x \<le> x_size x \<and>
     tiles (a + of_nat (x_copy x)) (d + x_copy x) (n - x_copy x) xs"

text \<open>What the bus accepts: naturally aligned power-of-two transactions.\<close>

definition x_legal :: "xact \<Rightarrow> bool" where
  "x_legal x \<longleftrightarrow> x_size x \<in> {1, 2, 4, 8, 16, 32} \<and> unat (x_addr x) mod x_size x = 0"

definition x_whole :: "xact \<Rightarrow> bool" where
  "x_whole x \<longleftrightarrow> x_skip x = 0 \<and> x_copy x = x_size x"

definition sound_io :: "bool \<Rightarrow> u64 \<Rightarrow> nat \<Rightarrow> nat \<Rightarrow> xact list \<Rightarrow> bool" where
  "sound_io w a d n xs \<longleftrightarrow> tiles a d n xs \<and> list_all x_legal xs \<and> (w \<longrightarrow> list_all x_whole xs)"

lemma of_nat_split: "k \<le> m \<Longrightarrow> of_nat k + of_nat (m - k) = (of_nat m :: u64)"
  by (metis le_add_diff_inverse of_nat_add)

lemma tiles_append:
  "tiles a d m xs \<Longrightarrow> tiles (a + of_nat m) (d + m) n ys \<Longrightarrow> tiles a d (m + n) (xs @ ys)"
proof (induction xs arbitrary: a d m)
  case (Cons x xs)
  then have k: "x_copy x \<le> m" by simp
  have "tiles (a + of_nat (x_copy x)) (d + x_copy x) ((m - x_copy x) + n) (xs @ ys)"
    using Cons.prems k by (intro Cons.IH) (auto simp: add.assoc of_nat_split [OF k])
  then show ?case using Cons.prems by auto
qed simp

lemma sound_io_append:
  "\<lbrakk>sound_io w a d m xs; sound_io w a' d' n ys; a' = a + of_nat m; d' = d + m; N = m + n\<rbrakk> \<Longrightarrow> sound_io w a d N (xs @ ys)"
  by (simp add: sound_io_def tiles_append)

lemma sound_io_Nil [simp]: "sound_io w a d 0 []"
  by (simp add: sound_io_def)

lemma do_read_tiles:
  "tiles a d n xs \<Longrightarrow> do_read mem xs buf i = (if d \<le> i \<and> i < d + n then mem (a + of_nat (i - d)) else buf i)"
proof (induction xs arbitrary: a d n buf)
  case (Cons x xs)
  let ?k = "x_copy x"
  define b where "b = (\<lambda>i. if x_data x \<le> i \<and> i < x_data x + ?k
      then mem (x_addr x + of_nat (x_skip x + (i - x_data x))) else buf i)"
  have "do_read mem (x # xs) buf i = do_read mem xs b i" by (simp add: do_read_def b_def)
  also have "\<dots> = (if d + ?k \<le> i \<and> i < d + n then mem (a + of_nat ?k + of_nat (i - (d + ?k))) else b i)"
    using Cons.IH [of "a + of_nat ?k" "d + ?k" "n - ?k" b] Cons.prems by auto
  also have "\<dots> = (if d \<le> i \<and> i < d + n then mem (a + of_nat (i - d)) else buf i)"
  proof (cases "d + ?k \<le> i")
    case True
    then have "a + of_nat ?k + of_nat (i - (d + ?k)) = a + of_nat (i - d)"
      using of_nat_split [of ?k "i - d"] by (simp add: add.assoc)
    then show ?thesis using True Cons.prems by (auto simp: b_def)
  next
    case False
    then show ?thesis using Cons.prems by (auto simp: b_def algebra_simps)
  qed
  finally show ?case .
qed (auto simp: do_read_def)

lemma unat_minus_shift:
  fixes a b :: u64
  assumes "k \<le> unat (b - a)"
  shows "unat (b - (a + of_nat k)) = unat (b - a) - k"
proof -
  have "unat (of_nat k :: u64) = k"
    using assms unsigned_less [of "b - a", where ?'a = nat] by (intro unat_of_nat_small) simp
  then have "unat ((b - a) - of_nat k) = unat (b - a) - k"
    using assms unat_sub [of "of_nat k" "b - a"] by (simp add: word_le_nat_alt)
  then show ?thesis by (simp only: diff_diff_add)
qed

lemma unat_minus_before:
  fixes a b :: u64
  assumes "unat (b - a) < k" "k < 2 ^ 63" "n < 2 ^ 63"
  shows "\<not> unat (b - (a + of_nat k)) < n"
proof -
  have k: "unat (of_nat k :: u64) = k" using assms by (intro unat_of_nat_small) simp
  have e: "b - (a + of_nat k) = (b - a) - of_nat k" by simp
  have "\<not> of_nat k \<le> b - a" using assms k by (simp add: word_le_nat_alt)
  then have "unat ((b - a) - of_nat k) = unat (b - a) + 2 ^ 64 - k"
    using k by (simp add: unat_sub_if' word_le_nat_alt)
  then show ?thesis unfolding e using assms by simp
qed

lemma do_write_tiles:
  assumes "tiles a d n xs" "list_all x_whole xs" "n < 2 ^ 63"
  shows "do_write buf xs mem b = (if unat (b - a) < n then buf (d + unat (b - a)) else mem b)"
  using assms
proof (induction xs arbitrary: a d n mem)
  case (Cons x xs)
  let ?k = "x_copy x"
  have x: "x_addr x = a" "x_data x = d" "?k \<le> n" using Cons.prems by (auto simp: x_whole_def)
  define m where "m = (\<lambda>b. if unat (b - a) < ?k then buf (d + unat (b - a)) else mem b)"
  have "do_write buf (x # xs) mem b = do_write buf xs m b" by (simp add: do_write_def m_def x cong: if_cong)
  also have "\<dots> = (if unat (b - (a + of_nat ?k)) < n - ?k then buf (d + ?k + unat (b - (a + of_nat ?k))) else m b)"
    using Cons.prems by (intro Cons.IH) auto
  also have "\<dots> = (if unat (b - a) < n then buf (d + unat (b - a)) else mem b)"
  proof (cases "unat (b - a) < ?k")
    case True
    then show ?thesis using unat_minus_before [OF True, of "n - ?k"] Cons.prems x by (simp add: m_def)
  next
    case False
    then show ?thesis using unat_minus_shift [of ?k b a] x by (auto simp: m_def)
  qed
  finally show ?case .
qed (simp add: do_write_def)

section \<open>RXM\<close>

lemma unat_add_mod:
  fixes a b :: u64
  assumes "m dvd 2 ^ 64"
  shows "unat (a + b) mod m = (unat a + unat b) mod m"
  using assms by (simp add: unat_word_ariths mod_mod_cancel)

lemma unat_add_mod_num:
  fixes a :: u64
  shows "unat (a + 1) mod 2 = Suc (unat a) mod 2" "unat (a + 2) mod 2 = unat a mod 2"
    "unat (a + 4) mod 4 = unat a mod 4" "unat (a + 8) mod 8 = unat a mod 8" "unat (a + 8) mod 4 = unat a mod 4"
    "unat (a + 16) mod 16 = unat a mod 16" "unat (a + 16) mod 8 = unat a mod 8" "unat (a + 16) mod 4 = unat a mod 4"
    "unat (a + 32) mod 32 = unat a mod 32"
  by (simp_all add: unat_add_mod) presburger+

lemma rxm_single_sound:
  assumes "0 < count" "unat addr mod 4 + unat count \<le> 4"
  shows "sound_io w addr d (unat count) (rxm_access_single addr d count)"
proof -
  have "unat count \<in> {1, 2, 3, 4}" using assms by (auto simp: word_less_nat_alt)
  then have c: "count = 1 \<or> count = 2 \<or> count = 3 \<or> count = 4" by (auto simp: word_unat_eq_iff)
  have odd: "addr mod 2 = 1 \<longleftrightarrow> unat addr mod 2 = 1" by (simp add: word_unat_eq_iff unat_mod_distrib)
  have m2: "unat addr mod 4 mod 2 = unat addr mod 2" by (simp add: mod_mod_cancel)
  have "unat addr mod 2 \<noteq> 1 \<Longrightarrow> unat addr mod 2 = 0" by simp
  then show ?thesis
    using c assms m2 odd
    by (auto simp: rxm_access_single_def sound_io_def io_def x_legal_def x_whole_def unat_add_mod_num add.assoc mod_Suc)
qed


lemma rxm_edge_sound:
  assumes "0 < count" "unat addr mod 4 + unat count \<le> 4"
  shows "sound_io (\<not> pf) addr d (unat count) (rxm_edge pf addr d count)"
proof (cases pf)
  case True
  have a: "unat (addr AND NOT 3) = unat addr - unat addr mod 4" using unat_and_not_mask(1) [of 3 2 addr] by (simp add: mask_eq_exp_minus_1)
  have m: "unat (addr mod 4) = unat addr mod 4" by (simp add: unat_mod_distrib)
  have w: "of_nat (unat addr mod 4) = addr mod 4" unfolding m [symmetric] by simp
  have "unat addr mod 4 \<le> unat addr" by simp
  then have "unat (addr AND NOT 3) + unat (addr mod 4) = unat addr" using a m by simp
  then have "unat ((addr AND NOT 3) + addr mod 4) = unat addr"
    using unat_plus_small [of "addr AND NOT 3" "addr mod 4"] unsigned_less [of addr, where ?'a = nat] by simp
  then have "(addr AND NOT 3) + addr mod 4 = addr" by (simp add: word_unat_eq_iff)
  moreover have "(unat addr - unat addr mod 4) mod 4 = 0" by (simp add: minus_mod_eq_mult_div)
  ultimately show ?thesis
    using assms True a m w by (simp add: rxm_edge_def rxm_prefetchable_single_read_def sound_io_def x_legal_def word_less_nat_alt)
next
  case False
  then show ?thesis using rxm_single_sound [OF assms] by (simp add: rxm_edge_def)
qed

lemma rxm_loop_sound:
  "unat addr mod 4 = 0 \<or> unat addr mod 4 + unat count \<le> 4 \<Longrightarrow>
     sound_io (\<not> pf) addr d (unat count) (rxm_loop pf addr d count)"
proof (induction "unat count" arbitrary: addr d count rule: less_induct)
  case less
  show ?case
  proof (cases "count \<ge> 4")
    case True
    then have c: "4 \<le> unat count" "unat (count - 4) = unat count - 4" by (auto simp: word_le_nat_alt unat_sub)
    then have al: "unat addr mod 4 = 0" using less.prems by auto
    have "sound_io (\<not> pf) addr d (unat (4 :: u16)) (rxm_access_single addr d 4)"
      using al by (intro rxm_single_sound) simp_all
    moreover have "sound_io (\<not> pf) (addr + 4) (d + 4) (unat (count - 4)) (rxm_loop pf (addr + 4) (d + 4) (count - 4))"
      using c al by (intro less.hyps) (auto simp: unat_add_mod_num)
    ultimately have "sound_io (\<not> pf) addr d (unat count)
        (rxm_access_single addr d 4 @ rxm_loop pf (addr + 4) (d + 4) (count - 4))"
      by (rule sound_io_append) (use c in simp_all)
    then show ?thesis using c True by (subst rxm_loop.simps) simp
  next
    case False
    then have "unat addr mod 4 + unat count \<le> 4" using less.prems by (auto simp: word_le_nat_alt)
    then show ?thesis using rxm_edge_sound [of count addr pf d] False
      by (subst rxm_loop.simps) (auto simp: word_gt_0)
  qed
qed

lemma round_4: "((n::nat) + (4 - n mod 4)) mod 4 = 0"
proof -
  have "n + (4 - n mod 4) = 4 * (n div 4 + 1)" using mult_div_mod_eq [of 4 n] mod_less_divisor [of 4 n] by arith
  then show ?thesis by (metis mod_mult_self1_is_0)
qed

lemma rxm_access_sound:
  assumes "0 < count"
  shows "sound_io (\<not> (rd \<and> p)) addr d (unat count) (rxm_access addr d count rd p)"
proof -
  define pf where "pf = (rd \<and> p)"
  let ?f = "4 - ucast (addr mod 4) :: u16"
  have m: "unat (ucast (addr mod 4) :: u16) = unat addr mod 4"
    by (simp add: unsigned_ucast_eq unat_mod_distrib take_bit_nat_eq_self less_imp_le)
  have f: "unat ?f = 4 - unat addr mod 4"
    using m by (subst unat_sub) (auto simp: word_le_nat_alt)
  show ?thesis
  proof (cases "?f < count")
    case True
    have "sound_io (\<not> pf) addr d (unat ?f) (rxm_edge pf addr d ?f)"
      using f by (intro rxm_edge_sound) (auto simp: word_less_nat_alt)
    moreover have u: "unat (ucast ?f :: u64) = unat ?f" by (rule unat_ucast_up) simp
    have "unat (addr + ucast ?f) mod 4 = (unat addr + unat ?f) mod 4"
      using unat_add_mod [of 4 addr "ucast ?f"] u by simp
    then have "unat (addr + ucast ?f) mod 4 = 0" unfolding f by (simp only: round_4)
    then have "sound_io (\<not> pf) (addr + ucast ?f) (d + unat ?f) (unat (count - ?f))
        (rxm_loop pf (addr + ucast ?f) (d + unat ?f) (count - ?f))"
      by (intro rxm_loop_sound) simp
    moreover have "of_nat (unat ?f) = (ucast ?f :: u64)" by simp
    moreover have "unat ?f + unat (count - ?f) = unat count"
      using True by (simp add: word_less_nat_alt unat_sub word_le_nat_alt)
    ultimately have "sound_io (\<not> pf) addr d (unat count) (rxm_edge pf addr d ?f @
        rxm_loop pf (addr + ucast ?f) (d + unat ?f) (count - ?f))"
      by (intro sound_io_append [of _ addr d "unat ?f" _ "addr + ucast ?f" "d + unat ?f" "unat (count - ?f)"]) simp_all
    then show ?thesis using True by (simp add: rxm_access_def Let_def pf_def)
  next
    case False
    then have "unat addr mod 4 + unat count \<le> 4" using f by (auto simp: word_less_nat_alt)
    then show ?thesis using False rxm_loop_sound [of addr count "rd \<and> p" d] by (auto simp: rxm_access_def Let_def)
  qed
qed

section \<open>HPRXM\<close>

lemma hprxm_single_sound:
  assumes "k \<in> {2, 3, 4, 5, 6}" "unat addr mod 2 ^ min k 5 = 0"
  shows "sound_io True addr d (2 ^ k) (hprxm_access_single cfg addr d (2 ^ k))"
proof -
  have dv: "unat addr mod 32 = 0 \<Longrightarrow> unat addr mod 16 = 0" "unat addr mod 16 = 0 \<Longrightarrow> unat addr mod 8 = 0"
    "unat addr mod 8 = 0 \<Longrightarrow> unat addr mod 4 = 0" for addr :: u64 by presburger+
  have s64: "sound_io True a e 8 (custom_io64 cfg a e)" if "unat a mod 8 = 0" for a e
    using that dv by (auto simp: custom_io64_def sound_io_def io_def x_legal_def x_whole_def unat_add_mod_num add.assoc)
  have s128: "sound_io True a e 16 (custom_io128 cfg a e)" if "unat a mod 16 = 0" for a e
  proof -
    have "sound_io True a e 16 (custom_io64 cfg a e @ custom_io64 cfg (a + 8) (e + 8))"
      by (rule sound_io_append [OF s64 s64]) (use that dv in \<open>simp_all add: unat_add_mod_num\<close>)
    then show ?thesis using that by (simp add: custom_io128_def sound_io_def io_def x_legal_def x_whole_def)
  qed
  have s256: "sound_io True a e 32 (custom_io256 cfg a e)" if "unat a mod 32 = 0" for a e
  proof -
    have "sound_io True a e 32 (custom_io128 cfg a e @ custom_io128 cfg (a + 16) (e + 16))"
      by (rule sound_io_append [OF s128 s128]) (use that dv in \<open>simp_all add: unat_add_mod_num\<close>)
    then show ?thesis using that by (simp add: custom_io256_def sound_io_def io_def x_legal_def x_whole_def)
  qed
  have "sound_io True addr d 64 (custom_io256 cfg addr d @ custom_io256 cfg (addr + 32) (d + 32))" if "unat addr mod 32 = 0"
    by (rule sound_io_append [OF s256 s256]) (use that in \<open>simp_all add: unat_add_mod_num\<close>)
  then show ?thesis
    using assms s64 [of addr d] s128 [of addr d] s256 [of addr d]
    by (auto simp: hprxm_access_single_def) (simp add: sound_io_def io_def x_legal_def x_whole_def)
qed

text \<open>
  \<open>justified n p\<close>: powers of two up to \<open>n\<close> (and up to the 32 bytes of a frame) divide \<open>p\<close>.
\<close>

definition justified :: "nat \<Rightarrow> nat \<Rightarrow> bool" where
  "justified n p \<longleftrightarrow> (\<forall>j. 2 ^ j \<le> n \<longrightarrow> 2 ^ min j 5 dvd p)"

lemma dvd_64: "k \<le> 64 \<Longrightarrow> (2::nat) ^ k dvd 2 ^ 64"
  by (rule le_imp_power_dvd)

lemma dvd_unat_add:
  fixes a b :: u64
  assumes "k \<le> 64"
  shows "2 ^ k dvd unat (a + b) \<longleftrightarrow> 2 ^ k dvd unat a + unat b"
  using unat_add_mod [OF dvd_64 [OF assms], of a b] by (simp add: dvd_eq_mod_eq_0)

lemma unat_pow2_u16 [simp]: "k < 16 \<Longrightarrow> unat (2 ^ k :: u16) = 2 ^ k"
  using unat_of_nat_small [of "2 ^ k", where ?'a = 16] power_strict_increasing [of k 16 "2::nat"] by simp

lemma ucast_u16_u64: "(ucast (x :: u16) :: u64) = of_nat (unat x)"
  by (metis of_nat_unat unat_ucast_up [of x] le_numeral_extra(4) numeral_le_iff semiring_norm(69))

lemma small_multiple_of_4:
  assumes "(n::nat) mod 4 = 0" "0 < n" "n < 2 * 2 ^ k"
  shows "2 \<le> k"
  using assms by (cases k; cases "k - 1") auto

lemma left_loop_sound:
  assumes "k \<le> 6" "unat count < 2 * 2 ^ k" "unat count mod 4 = 0" "justified (unat count) (unat addr)"
  shows "\<exists>xs. left_loop cfg addr d count (2 ^ k) = Some xs \<and> sound_io True addr d (unat count) xs"
  using assms
proof (induction k arbitrary: addr d count)
  case 0
  then have "count = 0" using small_multiple_of_4 [of "unat count" 0] by (auto simp: unat_eq_0)
  then show ?case by (subst left_loop.simps) simp
next
  case (Suc k)
  have low: "\<exists>xs. left_loop cfg a e c (2 ^ Suc k) = Some xs \<and> sound_io True a e (unat c) xs"
    if "unat c < 2 ^ Suc k" "unat c mod 4 = 0" "justified (unat c) (unat a)" for a e c
  proof (cases "c = 0")
    case True
    then show ?thesis by (subst left_loop.simps) simp
  next
    case False
    have "\<not> (2 ^ Suc k :: u16) \<le> c" using that(1) Suc.prems(1) by (simp add: word_le_nat_alt unat_pow2_u16 [of "Suc k", simplified])
    moreover have "drop_bit 1 (2 ^ Suc k :: u16) = 2 ^ k"
      using Suc.prems(1) by (simp add: word_unat_eq_iff drop_bit_eq_div unat_div_distrib unat_pow2_u16 [of "Suc k", simplified])
    ultimately show ?thesis using False Suc.IH [of c a e] that Suc.prems(1)
      by (subst left_loop.simps) (simp add: word_gt_0)
  qed
  show ?case
  proof (cases "unat count < 2 ^ Suc k")
    case True
    then show ?thesis by (rule low [OF _ Suc.prems(3,4)])
  next
    case False
    let ?p = "2 ^ Suc k :: u16"
    have p: "unat ?p = 2 ^ Suc k" using Suc.prems(1) by (intro unat_pow2_u16) simp
    have "(0::nat) < 2 ^ Suc k" by simp
    then have pos: "0 < unat count" using False by linarith
    have k: "2 \<le> Suc k" by (rule small_multiple_of_4 [OF Suc.prems(3) pos Suc.prems(2)])
    have c: "?p \<le> count" "unat (count - ?p) = unat count - 2 ^ Suc k"
      using False p by (simp_all add: word_le_nat_alt unat_sub)
    have "4 dvd (2::nat) ^ Suc k" using le_imp_power_dvd [OF k, of "2::nat"] by simp
    then have m4: "unat (count - ?p) mod 4 = 0" using Suc.prems(3) c(2) by (simp add: mod_eq_0_iff_dvd dvd_diff_nat)
    have "2 ^ min j 5 dvd unat (addr + ucast ?p)" if "2 ^ j \<le> unat (count - ?p)" for j
    proof -
      have "(2::nat) ^ j < 2 ^ Suc k" using that Suc.prems(2) c(2) by simp
      then have "j < Suc k" by (rule power_less_imp_less_exp [rotated]) simp
      then have j: "min j 5 \<le> Suc k" by simp
      have "2 ^ min j 5 dvd unat addr" using Suc.prems(4) that c(2) by (auto simp: justified_def)
      then show ?thesis
        using le_imp_power_dvd [OF j, of "2::nat"] p by (simp add: dvd_unat_add unat_ucast_up del: power_Suc)
    qed
    then have j': "justified (unat (count - ?p)) (unat (addr + ucast ?p))" by (simp add: justified_def)
    obtain xs where xs: "left_loop cfg (addr + ucast ?p) (d + unat ?p) (count - ?p) ?p = Some xs"
        "sound_io True (addr + ucast ?p) (d + unat ?p) (unat (count - ?p)) xs"
      using low [OF _ m4 j', of "d + unat ?p"] Suc.prems(2) c(2) by fastforce
    have "unat addr mod 2 ^ min (Suc k) 5 = 0"
      using Suc.prems(4) False unfolding justified_def mod_eq_0_iff_dvd not_less by blast
    then have "sound_io True addr d (2 ^ Suc k) (hprxm_access_single cfg addr d ?p)"
      using Suc.prems(1) k by (intro hprxm_single_sound) auto
    then have "sound_io True addr d (unat count) (hprxm_access_single cfg addr d ?p @ xs)"
      by (rule sound_io_append [OF _ xs(2)]) (use c p False in \<open>simp_all add: ucast_u16_u64 del: power_Suc\<close>)
    moreover have "0 < count" using pos by (simp add: word_less_nat_alt)
    ultimately show ?thesis using xs(1) c(1) by (subst left_loop.simps) (simp del: power_Suc)
  qed
qed

lemma odd_multiple:
  assumes "(2::nat) ^ k dvd n" "\<not> 2 ^ Suc k dvd n"
  shows "2 ^ Suc k dvd n - 2 ^ k" "2 ^ k \<le> n"
proof -
  obtain q where q: "n = 2 ^ k * q" using assms(1) by blast
  have "odd q" using assms(2) q by (auto simp: mult.commute)
  then obtain r where "q = 2 * r + 1" by (rule oddE)
  then show "2 ^ Suc k dvd n - 2 ^ k" "2 ^ k \<le> n" unfolding q by (simp_all add: algebra_simps)
qed

lemma right_loop_sound:
  assumes "k \<le> 7" "unat count \<le> 64" "2 ^ k dvd unat count" "unat count mod 4 = 0"
    "justified (unat count) (unat addr + unat count)"
  shows "\<exists>xs. right_loop cfg addr d count (2 ^ Suc k) = Some xs \<and> sound_io True addr d (unat count) xs"
  using assms
proof (induction "7 - k" arbitrary: k addr d count)
  case 0
  then have "128 dvd unat count" by simp
  then have "count = 0" using 0 by (auto dest!: dvd_imp_le simp: unat_eq_0)
  then show ?case by (subst right_loop.simps) simp
next
  case (Suc n)
  let ?p = "2 ^ Suc k :: u16"
  have p: "unat ?p = 2 ^ Suc k" "?p \<noteq> 0" "?p div 2 = 2 ^ k" "push_bit 1 ?p = 2 ^ Suc (Suc k)"
    using Suc.hyps(2) Suc.prems(1) unat_pow2_u16 [of "Suc k"] unat_pow2_u16 [of k]
    by (auto simp: word_unat_eq_iff unat_div_distrib push_bit_eq_mult simp del: unat_pow2_u16) 
  have hyp: "n = 7 - Suc k" "Suc k \<le> 7" using Suc.hyps(2) by auto
  show ?case
  proof (cases "count = 0")
    case True
    then show ?thesis by (subst right_loop.simps) simp
  next
    case nz: False
    have cm: "count mod ?p = 0 \<longleftrightarrow> 2 ^ Suc k dvd unat count"
      using p(1) by (simp add: word_unat_eq_iff unat_mod_distrib mod_eq_0_iff_dvd del: power_Suc)
    show ?thesis
    proof (cases "2 ^ Suc k dvd unat count")
      case True
      then show ?thesis
        using Suc.hyps(1) [OF hyp Suc.prems(2) True Suc.prems(4,5), of d] nz p cm
        by (subst right_loop.simps) (simp add: word_gt_0 del: power_Suc)
    next
      case False
      note om = odd_multiple [OF Suc.prems(3) False]
      let ?h = "2 ^ k :: u16"
      have h: "unat ?h = 2 ^ k" using hyp by (intro unat_pow2_u16) simp
      have c: "unat (count - ?h) = unat count - 2 ^ k"
        using om(2) h by (simp add: word_le_nat_alt unat_sub)
      have k2: "2 \<le> k"
      proof (rule ccontr)
        assume "\<not> 2 \<le> k"
        then have "(2::nat) ^ Suc k dvd 2 ^ 2" by (intro le_imp_power_dvd) simp
        also have "(2::nat) ^ 2 dvd unat count" using Suc.prems(4) by (simp add: mod_eq_0_iff_dvd)
        finally show False using False by simp
      qed
      have "4 dvd (2::nat) ^ k" using le_imp_power_dvd [OF k2, of "2::nat"] by simp
      then have m4: "unat (count - ?h) mod 4 = 0" using Suc.prems(4) c by (simp add: mod_eq_0_iff_dvd dvd_diff_nat)
      have "2 ^ min j 5 dvd unat (addr + ucast ?h) + unat (count - ?h)" if "2 ^ j \<le> unat (count - ?h)" for j
      proof -
        have "2 ^ min j 5 dvd unat addr + unat count" using Suc.prems(5) that c by (auto simp: justified_def)
        moreover have "unat addr + unat count = (unat addr + unat (ucast ?h :: u64)) + unat (count - ?h)"
          using c om(2) h by (simp add: unat_ucast_up)
        moreover have "unat (addr + ucast ?h) mod 2 ^ min j 5 = (unat addr + unat (ucast ?h :: u64)) mod 2 ^ min j 5"
          by (intro unat_add_mod dvd_64) simp
        ultimately show ?thesis using mod_add_cong [OF _ refl, of "unat (addr + ucast ?h)"]
          by (simp add: dvd_eq_mod_eq_0)
      qed
      then have jst: "justified (unat (count - ?h)) (unat (addr + ucast ?h) + unat (count - ?h))"
        by (simp add: justified_def)
      have "unat (count - ?h) \<le> 64" "2 ^ Suc k dvd unat (count - ?h)" using om(1) c Suc.prems(2) by simp_all
      from Suc.hyps(1) [OF hyp this m4 jst, of "d + unat ?h"] obtain xs where
        xs: "right_loop cfg (addr + ucast ?h) (d + unat ?h) (count - ?h) (2 ^ Suc (Suc k)) = Some xs"
          "sound_io True (addr + ucast ?h) (d + unat ?h) (unat (count - ?h)) xs"
        by blast
      have "2 ^ min k 5 dvd unat addr + unat count" using Suc.prems(5) om(2) by (simp add: justified_def)
      moreover have "(2::nat) ^ min k 5 dvd unat count"
        using Suc.prems(3) le_imp_power_dvd [of "min k 5" k "2::nat"] by (auto intro: dvd_trans)
      ultimately have "unat addr mod 2 ^ min k 5 = 0" by (simp add: mod_eq_0_iff_dvd dvd_add_left_iff)
      moreover have "k \<le> 6" using om(2) Suc.prems(2) hyp by simp
      ultimately have "sound_io True addr d (2 ^ k) (hprxm_access_single cfg addr d ?h)"
        using k2 by (intro hprxm_single_sound) auto
      then have "sound_io True addr d (unat count) (hprxm_access_single cfg addr d ?h @ xs)"
        by (rule sound_io_append [OF _ xs(2)]) (use c h om(2) in \<open>simp_all add: ucast_u16_u64\<close>)
      then show ?thesis using xs(1) nz p cm False
        by (subst right_loop.simps) (simp add: word_gt_0 del: power_Suc)
    qed
  qed
qed


text \<open>
  Which of the three cases applies is decided by bit masks and the split point by a loop; both are
  evaluated for every alignment in a frame and every size the driver can be asked for.
\<close>

definition justified_exec :: "nat \<Rightarrow> nat \<Rightarrow> bool" where
  "justified_exec n p \<longleftrightarrow> list_all (\<lambda>j. 2 ^ j \<le> n \<longrightarrow> p mod 2 ^ min j 5 = 0) [0..<7]"

lemma justified_exec:
  assumes "n \<le> 64"
  shows "justified_exec n p \<longleftrightarrow> justified n p"
proof
  assume e: "justified_exec n p"
  show "justified n p" unfolding justified_def
  proof (intro allI impI)
    fix j assume j: "2 ^ j \<le> n"
    have "j < 7"
    proof (rule ccontr)
      assume "\<not> j < 7"
      then have "(2::nat) ^ 7 \<le> 2 ^ j" by (intro power_increasing) simp_all
      then show False using j assms by simp
    qed
    then show "2 ^ min j 5 dvd p"
      using e j by (auto simp: justified_exec_def list_all_iff mod_eq_0_iff_dvd)
  qed
qed (simp add: justified_exec_def justified_def list_all_iff mod_eq_0_iff_dvd)

declare split_loop.simps [code]

definition hprxm_case :: "u16 \<Rightarrow> u16 \<Rightarrow> bool" where
  "hprxm_case s c \<longleftrightarrow> round_up_to_po2 c \<in> set [4, 8, 16, 32, 64] \<and> c \<le> round_up_to_po2 c \<and>
    (if s AND round_down_to_po2_mask c = 0 then justified_exec (unat c) (unat s)
     else if (s + c) AND round_down_to_po2_mask c = 0 then justified_exec (unat c) (unat s + unat c)
     else (case split_loop s (s + c) 0 of None \<Rightarrow> False | Some off \<Rightarrow>
       s \<le> off \<and> off < s + c \<and> (off - s) mod 4 = 0 \<and> justified_exec (unat (off - s)) (unat off) \<and>
       round_up_to_po2 (c - (off - s)) \<in> set [4, 8, 16, 32, 64] \<and>
       c - (off - s) \<le> round_up_to_po2 (c - (off - s)) \<and> justified_exec (unat (c - (off - s))) (unat off)))"

lemma hprxm_cases_1: "list_all (\<lambda>s. list_all (hprxm_case s)
    [4, 8, 12, 16, 20, 24, 28, 32, 36, 40, 44, 48, 52, 56, 60, 64]) [0, 4, 8, 12]"
  by code_simp

lemma hprxm_cases_2: "list_all (\<lambda>s. list_all (hprxm_case s)
    [4, 8, 12, 16, 20, 24, 28, 32, 36, 40, 44, 48, 52, 56, 60, 64]) [16, 20, 24, 28]"
  by code_simp

lemma hprxm_case_all:
  assumes "unat s mod 4 = 0" "unat s < 32" "unat c mod 4 = 0" "0 < unat c" "unat c \<le> 64"
  shows "hprxm_case s c"
proof -
  have "unat s \<in> {0, 4, 8, 12, 16, 20, 24, 28}" using assms(1,2) by simp presburger
  then have s: "s \<in> set ([0, 4, 8, 12] @ [16, 20, 24, 28])" by (auto simp: word_unat_eq_iff)
  have "unat c \<in> {4, 8, 12, 16, 20, 24, 28, 32, 36, 40, 44, 48, 52, 56, 60, 64}"
    using assms(3-5) by simp presburger
  then have "c \<in> set [4, 8, 12, 16, 20, 24, 28, 32, 36, 40, 44, 48, 52, 56, 60, 64]"
    by (auto simp: word_unat_eq_iff)
  with s show ?thesis using hprxm_cases_1 hprxm_cases_2 unfolding list_all_iff set_append by blast
qed

lemma justified_frame:
  "justified n (p mod 32) \<longleftrightarrow> justified n p" "justified n (p mod 32 + q) \<longleftrightarrow> justified n (p + q)"
proof -
  have d: "(2::nat) ^ min j 5 dvd 32" for j using le_imp_power_dvd [of "min j 5" 5 "2::nat"] by simp
  have "(2 ^ min j 5 dvd p mod 32) = (2 ^ min j 5 dvd p)" for j using d by (simp add: dvd_mod_iff)
  then show "justified n (p mod 32) \<longleftrightarrow> justified n p" by (simp add: justified_def)
  have "(2 ^ min j 5 dvd p mod 32 + q) = (2 ^ min j 5 dvd p + q)" for j
    using mod_add_cong [OF mod_mod_cancel [OF d] refl, of p q j] by (simp add: dvd_eq_mod_eq_0)
  then show "justified n (p mod 32 + q) \<longleftrightarrow> justified n (p + q)" by (simp add: justified_def)
qed

lemma left_justified_sound:
  assumes "round_up_to_po2 c \<in> set [4, 8, 16, 32, 64]" "c \<le> round_up_to_po2 c" "unat c mod 4 = 0"
    "justified (unat c) (unat addr)"
  shows "\<exists>xs. hprxm_access_left_justified cfg addr d c = Some xs \<and> sound_io True addr d (unat c) xs"
proof -
  obtain k where k: "k \<in> {2, 3, 4, 5, 6}" "round_up_to_po2 c = 2 ^ k"
  proof -
    have "\<exists>k \<in> {2, 3, 4, 5, 6::nat}. round_up_to_po2 c = 2 ^ k" using assms(1) by auto
    then show ?thesis using that by blast
  qed
  then have "unat c < 2 * 2 ^ k" using assms(2) by (auto simp: word_le_nat_alt)
  then show ?thesis
    using left_loop_sound [of k c addr cfg d] k assms(3,4) by (auto simp: hprxm_access_left_justified_def)
qed

lemma right_justified_sound:
  assumes "unat c \<le> 64" "unat c mod 4 = 0" "justified (unat c) (unat addr + unat c)"
  shows "\<exists>xs. hprxm_access_right_justified cfg addr d c = Some xs \<and> sound_io True addr d (unat c) xs"
  using right_loop_sound [of 0 c addr cfg d] assms by (simp add: hprxm_access_right_justified_def)

lemma hprxm_access_sound:
  assumes "unat addr mod 4 = 0" "unat count mod 4 = 0" "0 < count" "unat count \<le> 64"
  shows "\<exists>xs. hprxm_access cfg addr d count = Some xs \<and> sound_io True addr d (unat count) xs"
proof -
  let ?s = "ucast (addr mod 32) :: u16"
  have s: "unat ?s = unat addr mod 32"
    by (simp add: unsigned_ucast_eq unat_mod_distrib take_bit_nat_eq_self less_imp_le)
  have "unat addr mod 32 mod 4 = unat addr mod 4" by (simp add: mod_mod_cancel)
  then have C: "hprxm_case ?s count" using assms s by (intro hprxm_case_all) (auto simp: word_less_nat_alt)
  note C' = C [unfolded hprxm_case_def] 
  have sc: "unat (?s + count) = unat ?s + unat count" using s assms(4) by (intro unat_plus_small) simp
  show ?thesis
  proof (cases "?s AND round_down_to_po2_mask count = 0")
    case True
    then have "justified (unat count) (unat addr)"
      using C' assms(4) s by (simp add: justified_exec justified_frame)
    then show ?thesis
      using left_justified_sound [of count addr cfg d] C' True assms(2) by (simp add: hprxm_access_def Let_def)
  next
    case L: False
    show ?thesis
    proof (cases "(?s + count) AND round_down_to_po2_mask count = 0")
      case True
      then have "justified (unat count) (unat addr + unat count)"
        using C' L assms(4) s by (simp add: justified_exec justified_frame)
      then show ?thesis
        using right_justified_sound [OF assms(4,2)] L True by (simp add: hprxm_access_def Let_def)
    next
      case R: False
      then obtain off where off: "split_loop ?s (?s + count) 0 = Some off" "?s \<le> off" "off < ?s + count"
          "(off - ?s) mod 4 = 0" "justified_exec (unat (off - ?s)) (unat off)"
          "round_up_to_po2 (count - (off - ?s)) \<in> set [4, 8, 16, 32, 64]"
          "count - (off - ?s) \<le> round_up_to_po2 (count - (off - ?s))"
          "justified_exec (unat (count - (off - ?s))) (unat off)"
        using C' L by (auto split: option.splits)
      let ?d = "off - ?s"
      have d: "unat ?d = unat off - unat ?s" "unat ?d < unat count" "unat ?s \<le> unat off"
        using off(2,3) sc by (auto simp: word_le_nat_alt word_less_nat_alt unat_sub)
      have cd: "unat (count - ?d) = unat count - unat ?d"
        using d(2) by (simp add: unat_sub word_le_nat_alt)
      have "unat ?d mod 4 = 0" using off(4) by (simp add: word_unat_eq_iff unat_mod_distrib)
      then have m: "unat ?d mod 4 = 0" "unat (count - ?d) mod 4 = 0"
        using assms(2) d(2) cd by (simp_all add: mod_eq_0_iff_dvd dvd_diff_nat)
      have "unat off = unat ?s + unat ?d" using d by simp
      then have eq: "justified n (unat off) \<longleftrightarrow> justified n (unat addr + unat ?d)" for n
        using s justified_frame(2) [of n "unat addr" "unat ?d"] by simp
      have "\<exists>xs. hprxm_access_right_justified cfg addr d ?d = Some xs \<and> sound_io True addr d (unat ?d) xs"
        using off(5) d(2) assms(4) m(1) eq by (intro right_justified_sound) (simp_all add: justified_exec)
      then obtain xs where xs: "hprxm_access_right_justified cfg addr d ?d = Some xs"
        "sound_io True addr d (unat ?d) xs" by blast
      have "justified (unat (count - ?d)) (unat (addr + ucast ?d))"
        using off(8) cd assms(4) eq by (simp add: justified_exec justified_def dvd_unat_add unat_ucast_up)
      from left_justified_sound [OF off(6,7) m(2) this, of cfg "d + unat ?d"] obtain ys where
        ys: "hprxm_access_left_justified cfg (addr + ucast ?d) (d + unat ?d) (count - ?d) = Some ys"
          "sound_io True (addr + ucast ?d) (d + unat ?d) (unat (count - ?d)) ys" by blast
      have "addr + ucast ?d = addr + of_nat (unat ?d)" by (simp only: ucast_u16_u64)
      moreover have "unat count = unat ?d + unat (count - ?d)" unfolding cd using d(2) by (rule le_add_diff_inverse [OF less_imp_le, symmetric])
      ultimately have "sound_io True addr d (unat count) (xs @ ys)"
        using xs(2) ys(2) by (rule sound_io_append [OF _ _ _ refl, rotated 2])
      moreover have "hprxm_access cfg addr d count = Some (xs @ ys)"
        unfolding hprxm_access_def Let_def by (simp only: L R if_False off(1) Option.bind.simps xs(1) ys(1))
      ultimately show ?thesis by blast
    qed
  qed
qed

lemma frame_and:
  fixes ep :: u64
  shows "unat (ep AND 0x1f) = unat ep mod 32" "unat (ep AND 0x3f) = unat ep mod 64"
    "(ep AND NOT 0x1f) + of_nat (unat ep mod 32) = ep" "unat (ep AND NOT 0x1f) mod 32 = 0"
proof -
  have m: "(0x1f :: u64) = mask 5" "(0x3f :: u64) = mask 6" by (simp_all add: mask_eq_exp_minus_1)
  show 1: "unat (ep AND 0x1f) = unat ep mod 32" "unat (ep AND 0x3f) = unat ep mod 64"
    using unat_and_mask [OF m(1), of ep] unat_and_mask [OF m(2), of ep] by simp_all
  have "of_nat (unat ep mod 32) = ep AND 0x1f" unfolding 1(1) [symmetric] by simp
  then show "(ep AND NOT 0x1f) + of_nat (unat ep mod 32) = ep"
    using unat_and_not_mask(2) [OF m(1), of ep] by simp
  have "unat (ep AND NOT 0x1f) = unat ep - unat ep mod 32" using unat_and_not_mask(1) [OF m(1), of ep] by simp
  then show "unat (ep AND NOT 0x1f) mod 32 = 0" by (simp add: minus_mod_eq_mult_div)
qed

lemma mod_64_32: "(p::nat) mod 64 = p mod 32 \<or> p mod 64 = p mod 32 + 32"
  using mod_mult2_eq [of p 32 2] by auto

lemma prefetch_read_sound:
  assumes "count \<le> 64"
  shows "\<exists>N. sound_io True (ep AND NOT 0x1f) 0 N (hprxm_prefetch_read cfg ep count) \<and>
    unat ep mod 32 + unat count \<le> N \<and> N \<le> 96"
proof -
  let ?a = "ep AND NOT 0x1f"
  have c: "unat count \<le> 64" using assms by (simp add: word_le_nat_alt)
  have two: "(ep AND 0x1f) + count > 32 \<longleftrightarrow> unat ep mod 32 + unat count > 32"
    using c by (subst word_less_nat_alt, subst unat_plus_small) (simp_all add: frame_and)
  have three: "(ep AND 0x3f) + count > 64 \<longleftrightarrow> unat ep mod 64 + unat count > 64"
    using c by (subst word_less_nat_alt, subst unat_plus_small) (simp_all add: frame_and)
  have m: "unat ep mod 64 = unat ep mod 32 \<or> unat ep mod 64 = unat ep mod 32 + 32" by (rule mod_64_32)
  have s: "sound_io True a d 32 (hprxm_access_single cfg a d 32)" if "unat a mod 32 = 0" for a d
    using hprxm_single_sound [of 5 a d cfg] that by simp
  have al: "unat ?a mod 32 = 0" "unat (?a + 32) mod 32 = 0" "unat (?a + 64) mod 32 = 0"
    using frame_and(4) [of ep] unat_add_mod [of 32 ?a 32] unat_add_mod [of 32 ?a 64] by auto
  note s1 = s [OF al(1), of 0]
  have s2: "sound_io True ?a 0 64 (hprxm_access_single cfg ?a 0 32 @ hprxm_access_single cfg (?a + 32) 32 32)"
    by (rule sound_io_append [OF s1 s [OF al(2)]]) simp_all
  have s3: "sound_io True ?a 0 96 ((hprxm_access_single cfg ?a 0 32 @ hprxm_access_single cfg (?a + 32) 32 32) @
      hprxm_access_single cfg (?a + 64) 64 32)"
    by (rule sound_io_append [OF s2 s [OF al(3)]]) simp_all
  consider "unat ep mod 32 + unat count \<le> 32" "unat ep mod 64 + unat count \<le> 64"
    | "unat ep mod 32 + unat count > 32" "unat ep mod 64 + unat count \<le> 64"
    | "unat ep mod 32 + unat count > 32" "unat ep mod 64 + unat count > 64" using m by linarith
  then show ?thesis
  proof cases
    case 1
    then show ?thesis using s1 two three by (intro exI [of _ 32]) (simp add: hprxm_prefetch_read_def Let_def)
  next
    case 2
    then show ?thesis using s2 two three m by (intro exI [of _ 64]) (auto simp: hprxm_prefetch_read_def Let_def)
  next
    case 3
    moreover have "unat ep mod 32 < 32" by simp
    ultimately show ?thesis using s3 two three c
      by (intro exI [of _ 96]) (simp add: hprxm_prefetch_read_def Let_def)
  qed
qed


section \<open>Properties\<close>

text \<open>How many bytes an access moves.\<close>

definition access_len :: "bar_info \<Rightarrow> u64 \<Rightarrow> u64 \<Rightarrow> u64" where
  "access_len bar off count = min (min count MAX_TRANSFER_SIZE) (bar_len bar - off)"

lemma get_address_ok:
  assumes "base_addr (dev_bar dev b) \<noteq> 0" "off < bar_len (dev_bar dev b)"
  shows "get_address dev b off (if count > MAX_TRANSFER_SIZE then MAX_TRANSFER_SIZE else count) =
    (base_addr (dev_bar dev b) + off, access_len (dev_bar dev b) off count)"
  using assms by (auto simp: get_address_def Let_def access_len_def min_def not_le)

lemma access_len_bounds:
  assumes "off < bar_len bar" "0 < count"
  shows "0 < unat (access_len bar off count)" "unat (access_len bar off count) \<le> 64"
    "unat (ucast (access_len bar off count) :: u16) = unat (access_len bar off count)"
    "unat (access_len bar off count) \<le> unat (bar_len bar) - unat off"
proof -
  have d: "unat (bar_len bar - off) = unat (bar_len bar) - unat off" "unat off < unat (bar_len bar)"
    using assms(1) by (simp_all add: unat_sub less_imp_le word_less_nat_alt)
  show p: "0 < unat (access_len bar off count)" "unat (access_len bar off count) \<le> 64"
    "unat (access_len bar off count) \<le> unat (bar_len bar) - unat off"
    using assms(2) d by (auto simp: access_len_def min_def MAX_TRANSFER_SIZE_def word_le_nat_alt word_less_nat_alt)
  then show "unat (ucast (access_len bar off count) :: u16) = unat (access_len bar off count)"
    by (simp add: unsigned_ucast_eq take_bit_nat_eq_self)
qed

definition access_ok :: "bar_info \<Rightarrow> u64 \<Rightarrow> u64 \<Rightarrow> bool \<Rightarrow> bool" where
  "access_ok bar ep n rd \<longleftrightarrow> \<not> is_hprxm bar \<or> rd \<and> is_prefetchable bar \<or> ep mod 4 = 0 \<and> n mod 4 = 0"

lemma word_mod_4: "(x :: u64) mod 4 = 0 \<longleftrightarrow> unat x mod 4 = 0"
  by (simp add: word_unat_eq_iff unat_mod_distrib)

lemma xacts_sound:
  assumes "access_ok bar ep n rd" "0 < unat n" "unat n \<le> 64" "unat (ucast n :: u16) = unat n"
    "\<not> (rd \<and> is_hprxm bar \<and> is_prefetchable bar)"
  shows "\<exists>xs. access_xacts cfg bar ep n data rd = Some xs \<and>
    sound_io (\<not> (rd \<and> is_prefetchable bar)) ep data (unat n) xs"
proof (cases "is_hprxm bar")
  case True
  then have "\<exists>xs. hprxm_access cfg ep data (ucast n) = Some xs \<and> sound_io True ep data (unat (ucast n :: u16)) xs"
    using assms by (intro hprxm_access_sound) (auto simp: access_ok_def word_mod_4 word_less_nat_alt)
  then show ?thesis using True assms(4,5) by (auto simp: access_xacts_def sound_io_def)
next
  case False
  have "(0::u16) < ucast n" using assms(2,4) by (simp add: word_less_nat_alt)
  from rxm_access_sound [OF this, of rd "is_prefetchable bar" ep data]
  show ?thesis using False assms(4) by (simp add: access_xacts_def)
qed

lemma xacts_read:
  assumes "access_ok bar ep n True" "0 < unat n" "unat n \<le> 64" "unat (ucast n :: u16) = unat n"
    "data = (if is_hprxm bar then unat (ep mod 32) else unat (ep mod 4))"
  shows "\<exists>xs. access_xacts cfg bar ep n data True = Some xs \<and>
    (\<forall>i < unat n. do_read mem xs buf (data + i) = mem (ep + of_nat i))"
proof (cases "is_hprxm bar \<and> is_prefetchable bar")
  case True
  have n: "n \<le> 64" using assms(3) by (simp add: word_le_nat_alt)
  obtain N where N: "sound_io True (ep AND NOT 0x1f) 0 N (hprxm_prefetch_read cfg ep n)"
      "unat ep mod 32 + unat n \<le> N" using prefetch_read_sound [OF n] by blast
  then have t: "tiles (ep AND NOT 0x1f) 0 N (hprxm_prefetch_read cfg ep n)" by (simp add: sound_io_def)
  have "do_read mem (hprxm_prefetch_read cfg ep n) buf (data + i) = mem (ep + of_nat i)" if "i < unat n" for i
  proof -
    have d: "data = unat ep mod 32" using True assms(5) by (simp add: unat_mod_distrib)
    have "(ep AND NOT 0x1f) + of_nat (unat ep mod 32 + i) = ep + of_nat i"
      using frame_and(3) [of ep] by (simp only: of_nat_add add.assoc [symmetric])
    then show ?thesis using do_read_tiles [OF t, of mem buf "data + i"] that N(2) d by (simp del: of_nat_add)
  qed
  then show ?thesis using True by (simp add: access_xacts_def)
next
  case False
  then obtain xs where "access_xacts cfg bar ep n data True = Some xs" "tiles ep data (unat n) xs"
    using xacts_sound [OF assms(1-4), of cfg data] by (auto simp: sound_io_def)
  then show ?thesis by (auto simp: do_read_tiles)
qed

lemma chr_read_region:
  fixes dev :: dev_bookkeep and chr :: chr_dev_bookkeep
  defines "bar \<equiv> dev_bar dev (unat (cur_bar_num chr))"
  assumes "\<not> use_cmd chr" "unat (cur_bar_num chr) < 6" "base_addr bar \<noteq> 0" "off < bar_len bar"
    "base_addr bar + off \<noteq> 0" "0 < count"
  shows "chr_read cfg cmd cfu False chr dev ubuf count mem off =
    (let n = access_len bar off count; ep = base_addr bar + off in
     if access_ok bar ep n True
     then Ret (Inr (n, Some (ubuf, map (\<lambda>i. mem (ep + of_nat i)) [0..<unat n])), mem,
       if off + n = bar_len bar then 0 else off + n)
     else Ret (Inl EINVAL, mem, off))"
proof -
  define n where "n = access_len bar off count"
  define ep where "ep = base_addr bar + off"
  define data where "data = (if is_hprxm bar then unat (ep mod 32) else unat (ep mod 4))"
  note b = access_len_bounds [OF assms(5,7), folded n_def]
  have g: "get_address dev (unat (cur_bar_num chr)) off
      (if count > MAX_TRANSFER_SIZE then MAX_TRANSFER_SIZE else count) = (ep, n)"
    using get_address_ok [of dev "unat (cur_bar_num chr)" off count] assms by (simp add: bar_def ep_def n_def)
  have c: "count \<noteq> 0" using assms(7) by auto
  show ?thesis
  proof (cases "access_ok bar ep n True")
    case True
    obtain xs where xs: "access_xacts cfg bar ep n data True = Some xs"
      "\<forall>i < unat n. do_read mem xs (\<lambda>_. 0) (data + i) = mem (ep + of_nat i)"
      using xacts_read [OF True b(1-3) data_def] by blast
    have "map (\<lambda>i. do_read mem xs (\<lambda>_. 0) (data + i)) [0..<unat n] = map (\<lambda>i. mem (ep + of_nat i)) [0..<unat n]"
      using xs(2) by simp
    then show ?thesis
      using assms(2-7) True xs(1) c
      by (simp add: chr_read_def chr_write_def chr_access_def g Let_def access_ok_def flip: bar_def n_def ep_def data_def)
  next
    case False
    then show ?thesis
      using assms(2-7) c
      by (simp add: chr_read_def chr_write_def chr_access_def g Let_def access_ok_def flip: bar_def n_def ep_def) 
  qed
qed

text \<open>
  C15: Reading a region through the character device, at an offset inside it, returns exactly the
  bytes of the region from there on, as many as asked for but at most 64 and not past the end, for
  both kinds of bridge and every alignment; the file offset moves by that number and wraps to 0 at
  the end of the region. Only a bridge that cannot access parts of a double word refuses unaligned
  reads, unless the region is prefetchable.
\<close>

theorem chr_read_correct:
  fixes dev :: dev_bookkeep and chr :: chr_dev_bookkeep
  defines "bar \<equiv> dev_bar dev (unat (cur_bar_num chr))"
  assumes "\<not> use_cmd chr" "unat (cur_bar_num chr) < 6" "base_addr bar \<noteq> 0" "off < bar_len bar"
    "base_addr bar + off \<noteq> 0" "0 < count"
  shows "chr_read cfg cmd cfu False chr dev ubuf count mem off =
    (let n = access_len bar off count; ep = base_addr bar + off in
     if access_ok bar ep n True
     then Ret (Inr (n, Some (ubuf, map (\<lambda>i. mem (ep + of_nat i)) [0..<unat n])), mem,
       if off + n = bar_len bar then 0 else off + n)
     else Ret (Inl EINVAL, mem, off))"
  unfolding bar_def by (rule chr_read_region) (use assms(2-7) in \<open>simp_all add: bar_def\<close>)


definition bar_example :: "bool \<Rightarrow> bar_info" where
  "bar_example hp = \<lparr>base_addr = 0x1000, bar_len = 0x100, is_prefetchable = False, is_hprxm = hp\<rparr>"

theorem chr_read_correct_witness:
  "\<exists>m off'. chr_read \<lparr>has_avx = False, has_sse2 = False, config_64bit = True\<rparr> None (\<lambda>_ _. None) False
     chr_zero (dev_zero\<lparr>dev_bar := (\<lambda>_. bar_example True)\<rparr>) 0 100 (\<lambda>a. ucast a) 0xE4 =
     Ret (Inr (28, m), (\<lambda>a. ucast a), 0)"
  using chr_read_correct [of chr_zero "dev_zero\<lparr>dev_bar := (\<lambda>_. bar_example True)\<rparr>" "0xE4" 100
      "\<lparr>has_avx = False, has_sse2 = False, config_64bit = True\<rparr>" None "\<lambda>_ _. None" 0 "\<lambda>a. ucast a"]
  by (simp add: chr_zero_def dev_zero_def bar_example_def access_len_def access_ok_def MAX_TRANSFER_SIZE_def Let_def)

lemma chr_write_region:
  fixes dev :: dev_bookkeep and chr :: chr_dev_bookkeep
  defines "bar \<equiv> dev_bar dev (unat (cur_bar_num chr))"
  assumes "\<not> use_cmd chr" "unat (cur_bar_num chr) < 6" "base_addr bar \<noteq> 0" "off < bar_len bar"
    "base_addr bar + off \<noteq> 0" "0 < count" "cfu ubuf (unat (access_len bar off count)) = Some src"
  shows "let n = access_len bar off count; ep = base_addr bar + off in
    if access_ok bar ep n False
    then \<exists>mem'. chr_write cfg cmd cfu fault chr dev ubuf count mem off =
        Ret (Inr (n, None), mem', if off + n = bar_len bar then 0 else off + n) \<and>
      (\<forall>a. mem' a = (if unat (a - ep) < unat n then src ! unat (a - ep) else mem a))
    else chr_write cfg cmd cfu fault chr dev ubuf count mem off = Ret (Inl EINVAL, mem, off)"
proof -
  define n where "n = access_len bar off count"
  define ep where "ep = base_addr bar + off"
  define data where "data = (if is_hprxm bar then unat (ep mod 32) else unat (ep mod 4))"
  note b = access_len_bounds [OF assms(5,7), folded n_def]
  have g: "get_address dev (unat (cur_bar_num chr)) off
      (if count > MAX_TRANSFER_SIZE then MAX_TRANSFER_SIZE else count) = (ep, n)"
    using get_address_ok [of dev "unat (cur_bar_num chr)" off count] assms by (simp add: bar_def ep_def n_def)
  have c: "count \<noteq> 0" using assms(7) by auto
  show ?thesis
  proof (cases "access_ok bar ep n False")
    case True
    obtain xs where xs: "access_xacts cfg bar ep n data False = Some xs" "sound_io True ep data (unat n) xs"
      using xacts_sound [OF True b(1-3), of cfg data] by auto
    then have "do_write (\<lambda>i. src ! (i - data)) xs mem a =
        (if unat (a - ep) < unat n then src ! unat (a - ep) else mem a)" for a
      using do_write_tiles [of ep data "unat n" xs "\<lambda>i. src ! (i - data)" mem a] b(2)
      by (simp add: sound_io_def)
    then show ?thesis
      using assms(2-8) True xs(1) c
      by (simp add: chr_read_def chr_write_def chr_access_def g Let_def access_ok_def flip: bar_def n_def ep_def data_def)
  next
    case False
    then have "chr_write cfg cmd cfu fault chr dev ubuf count mem off = Ret (Inl EINVAL, mem, off)"
      using assms(2-7) c
      by (simp add: chr_read_def chr_write_def chr_access_def g Let_def access_ok_def flip: bar_def n_def ep_def)
    then show ?thesis using False by (simp add: Let_def flip: n_def ep_def)
  qed
qed

text \<open>
  C16: Writing a region puts exactly the user's bytes at the offset, as many as asked for but at most
  64 and not past the end, and changes no other byte of the region, again for both kinds of bridge
  and every alignment the bridge supports.
\<close>

theorem chr_write_correct:
  fixes dev :: dev_bookkeep and chr :: chr_dev_bookkeep
  defines "bar \<equiv> dev_bar dev (unat (cur_bar_num chr))"
  assumes "\<not> use_cmd chr" "unat (cur_bar_num chr) < 6" "base_addr bar \<noteq> 0" "off < bar_len bar"
    "base_addr bar + off \<noteq> 0" "0 < count" "cfu ubuf (unat (access_len bar off count)) = Some src"
  shows "let n = access_len bar off count; ep = base_addr bar + off in
    if access_ok bar ep n False
    then \<exists>mem'. chr_write cfg cmd cfu fault chr dev ubuf count mem off =
        Ret (Inr (n, None), mem', if off + n = bar_len bar then 0 else off + n) \<and>
      (\<forall>a. mem' a = (if unat (a - ep) < unat n then src ! unat (a - ep) else mem a))
    else chr_write cfg cmd cfu fault chr dev ubuf count mem off = Ret (Inl EINVAL, mem, off)"
  unfolding bar_def by (rule chr_write_region) (use assms(2-8) in \<open>simp_all add: bar_def\<close>)

theorem chr_write_correct_witness:
  "\<exists>mem'. chr_write \<lparr>has_avx = True, has_sse2 = True, config_64bit = True\<rparr> None (\<lambda>_ n. Some (replicate n 7)) False
     chr_zero (dev_zero\<lparr>dev_bar := (\<lambda>_. bar_example False)\<rparr>) 0 3 (\<lambda>_. 0) 0x11 =
     Ret (Inr (3, None), mem', 0x14) \<and> mem' 0x1011 = 7 \<and> mem' 0x1014 = 0"
proof -
  let ?dev = "dev_zero\<lparr>dev_bar := (\<lambda>_. bar_example False)\<rparr>"
  have bar: "dev_bar ?dev (unat (cur_bar_num chr_zero)) = bar_example False" by simp
  have len: "access_len (bar_example False) 0x11 3 = 3" by (simp add: access_len_def bar_example_def MAX_TRANSFER_SIZE_def)
  have "\<exists>mem'. chr_write \<lparr>has_avx = True, has_sse2 = True, config_64bit = True\<rparr> None (\<lambda>_ n. Some (replicate n 7)) False
     chr_zero ?dev 0 3 (\<lambda>_. 0) 0x11 = Ret (Inr (3, None), mem', 0x14) \<and>
     (\<forall>a. mem' a = (if unat (a - 0x1011) < 3 then replicate 3 7 ! unat (a - 0x1011) else 0))"
    using chr_write_correct [of chr_zero ?dev "0x11" 3 "\<lambda>_ n. Some (replicate n 7)" 0 "replicate 3 7", unfolded bar len]
    by (simp add: chr_zero_def bar_example_def access_ok_def)
  then show ?thesis by (force simp: nth_Cons')
qed

text \<open>
  C17: The bus transactions of an access that is not a prefetching read are legal and exact: each is
  naturally aligned and of 1 to 32 bytes, whatever wide moves the build provides, and together they
  touch every byte of the range once, in order, and no other byte. In particular the loop that looks
  for the split point and the loops that halve and double the size terminate.
\<close>

theorem access_xacts_legal:
  assumes "0 < n" "n \<le> MAX_TRANSFER_SIZE" "access_ok bar ep n rd" "\<not> (rd \<and> is_prefetchable bar)"
  shows "\<exists>xs. access_xacts cfg bar ep n data rd = Some xs \<and> tiles ep data (unat n) xs \<and>
    (\<forall>x \<in> set xs. x_legal x \<and> x_whole x)"
proof -
  have "0 < unat n" "unat n \<le> 64" using assms(1,2) by (auto simp: word_less_nat_alt word_le_nat_alt MAX_TRANSFER_SIZE_def)
  moreover from this have "unat (ucast n :: u16) = unat n" by (simp add: unsigned_ucast_eq take_bit_nat_eq_self)
  ultimately show ?thesis
    using xacts_sound [OF assms(3), of cfg data] assms(4) by (auto simp: sound_io_def list_all_iff)
qed

theorem access_xacts_legal_witness:
  "\<exists>xs. access_xacts \<lparr>has_avx = True, has_sse2 = True, config_64bit = True\<rparr> (bar_example True) 0x1014 0x2C 0 False = Some xs \<and>
     tiles 0x1014 0 44 xs"
  using access_xacts_legal [of "0x2C" "bar_example True" "0x1014" False
      "\<lparr>has_avx = True, has_sse2 = True, config_64bit = True\<rparr>" 0]
  by (auto simp: MAX_TRANSFER_SIZE_def access_ok_def bar_example_def)

text \<open>
  The bound that \<^verbatim>\<open>chr_mmap\<close> checks adds a length in bytes to an offset in pages. With
  kernel memory of at least two pages, a process can map the page that follows it.
\<close>

theorem chr_mmap_past_end:
  assumes "kmem_size (dev_kmem dev) = push_bit 12 n" "2 \<le> n" "n < 2 ^ 52"
  shows "chr_mmap pa True dev s (s + 4096) n =
    Inr (drop_bit 12 (pa (virt_addr (dev_kmem dev) + kmem_size (dev_kmem dev))), 4096)"
proof -
  have n: "2 \<le> unat n" "unat n < 2 ^ 52" using assms(2,3) by (simp_all add: word_le_nat_alt word_less_nat_alt)
  then have "unat (push_bit 12 n) = 4096 * unat n"
    using unat_times_small [of n 4096] by (simp add: push_bit_eq_mult mult.commute)
  moreover have "unat (4096 + n) = 4096 + unat n" using n unat_plus_small [of 4096 n] by simp
  ultimately have "\<not> 4096 + n > push_bit 12 n" using n by (simp add: word_less_nat_alt)
  then show ?thesis using assms(1) by (simp add: chr_mmap_def Let_def)
qed

theorem chr_mmap_past_end_witness:
  "chr_mmap (\<lambda>a. a) True (dev_zero\<lparr>dev_kmem := \<lparr>virt_addr = 0x100000, bus_addr = 0, kmem_size = 0x2000\<rparr>\<rparr>) 0 4096 2 =
     Inr (0x102, 4096)"
  using chr_mmap_past_end [of "dev_zero\<lparr>dev_kmem := \<lparr>virt_addr = 0x100000, bus_addr = 0, kmem_size = 0x2000\<rparr>\<rparr>" 2 "\<lambda>a. a" 0]
  by (simp add: push_bit_eq_mult drop_bit_eq_div)

end
