(* ===== verification/Drv_Setup.thy ===== *)
theory Drv_Setup
  imports Drv_Dma Drv_Ownership
begin

text \<open>
  Loading the driver and attaching devices: \<^verbatim>\<open>intel_fpga_pcie_setup.c\<close> (probe, remove, mapping of the
  BARs, module initialisation and exit), the registration of the character device in
  \<^verbatim>\<open>intel_fpga_pcie_chr.c\<close> and the start of the event thread in \<^verbatim>\<open>event_queue.c\<close>.

  What the kernel has given to the driver and not taken back is a set of objects. Giving back an object
  that is not held is an error of the driver, and so is following a null pointer: the result is then
  \<open>None\<close>. The results of the kernel's functions are arguments.
\<close>

section \<open>Objects of a device\<close>

datatype dev_obj = Bookkeeper | NotifStatus | PipeStatus | Enabled | Regions | BarMapping nat | Uio
  | DmaTable nat | BusMaster | KMem

record pci_dev =
  pd_held :: "dev_obj set"
  pd_drvdata :: bool

definition hold :: "dev_obj \<Rightarrow> pci_dev \<Rightarrow> pci_dev" where
  "hold x p = p\<lparr>pd_held := insert x (pd_held p)\<rparr>"

definition release :: "dev_obj \<Rightarrow> pci_dev \<Rightarrow> pci_dev option" where
  "release x p = (if x \<in> pd_held p then Some (p\<lparr>pd_held := pd_held p - {x}\<rparr>) else None)"

fun release_all :: "dev_obj list \<Rightarrow> pci_dev \<Rightarrow> pci_dev option" where
  "release_all [] p = Some p"
| "release_all (x # xs) p = Option.bind (release x p) (release_all xs)"

text \<open>What the kernel answers during \<^verbatim>\<open>intel_fpga_pcie_probe\<close>; \<open>None\<close> for a result of 0.\<close>

record probe_env =
  pe_kzalloc :: "nat \<Rightarrow> bool"
  pe_enable :: "errno option"
  pe_request :: "errno option"
  pe_bar_len :: "nat \<Rightarrow> u64"
  pe_bar_io :: "nat \<Rightarrow> bool"
  pe_bar_prefetch :: "nat \<Rightarrow> bool"
  pe_bar_map :: "nat \<Rightarrow> u64"
  pe_uio :: "errno option"
  pe_mask64 :: bool
  pe_mask32 :: bool
  pe_rd_dt :: "(desc_table \<times> u64) option"
  pe_wr_dt :: "(desc_table \<times> u64) option"
  pe_lock_intr :: bool
  pe_insert_nomem :: bool

section \<open>BARs\<close>

text \<open>All BARs are of type \<^verbatim>\<open>BAM\<close> in the parameters of the hardware design.\<close>

datatype bar_type = RXM | HPRXM | BAM

definition bar_types :: "nat \<Rightarrow> bar_type" where
  "bar_types i = BAM"

fun unmap_from :: "nat list \<Rightarrow> dev_bookkeep \<Rightarrow> pci_dev \<Rightarrow> (dev_bookkeep \<times> pci_dev) option" where
  "unmap_from [] dev p = Some (dev, p)"
| "unmap_from (i # is) dev p =
     (if base_addr (dev_bar dev i) \<noteq> 0 then
        Option.bind (release (BarMapping i) p)
          (unmap_from is (dev\<lparr>dev_bar := (dev_bar dev)(i := (dev_bar dev i)\<lparr>base_addr := 0, bar_len := 0\<rparr>)\<rparr>))
      else unmap_from is dev p)"

definition unmap_bars :: "dev_bookkeep \<Rightarrow> pci_dev \<Rightarrow> (dev_bookkeep \<times> pci_dev) option" where
  "unmap_bars dev p = unmap_from [0..<6] dev p"

definition clear_bars :: "dev_bookkeep \<Rightarrow> dev_bookkeep" where
  "clear_bars dev = dev\<lparr>dev_bar := (\<lambda>i. if i < 6 then (dev_bar dev i)
     \<lparr>base_addr := 0, is_hprxm := bar_types i = HPRXM \<or> bar_types i = BAM, is_prefetchable := False\<rparr> else dev_bar dev i)\<rparr>"

text \<open>The loop of \<^verbatim>\<open>map_bars_default\<close>; the first result is whether it ran to the end.\<close>

fun map_from :: "probe_env \<Rightarrow> nat list \<Rightarrow> dev_bookkeep \<Rightarrow> pci_dev \<Rightarrow> bool \<times> dev_bookkeep \<times> pci_dev" where
  "map_from env [] dev p = (True, dev, p)"
| "map_from env (i # is) dev p =
     (if pe_bar_len env i \<noteq> 0 then
        let base = pe_bar_map env i;
            bar = (dev_bar dev i)\<lparr>bar_len := pe_bar_len env i, base_addr := base,
              is_prefetchable := (if \<not> pe_bar_io env i \<and> pe_bar_prefetch env i then True else is_prefetchable (dev_bar dev i))\<rparr>;
            dev' = dev\<lparr>dev_bar := (dev_bar dev)(i := bar)\<rparr>
        in if base = 0 then (False, dev', p) else map_from env is dev' (hold (BarMapping i) p)
      else map_from env is dev p)"

definition map_bars_default :: "probe_env \<Rightarrow> dev_bookkeep \<Rightarrow> pci_dev \<Rightarrow> (unit kres \<times> dev_bookkeep \<times> pci_dev) option" where
  "map_bars_default env dev p =
     (case map_from env [0..<6] (clear_bars dev) p of
        (ok, dev', p') \<Rightarrow>
          if ok then Some (Inr (), dev', p')
          else map_option (\<lambda>(dev'', p''). (Inl ENOMEM, dev'', p'')) (unmap_bars dev' p'))"

definition intel_fpga_pcie_dma_remove :: "pci_dev \<Rightarrow> pci_dev option" where
  "intel_fpga_pcie_dma_remove = release_all [BusMaster, DmaTable DMA_WR_IDX, DmaTable DMA_RD_IDX]"

section \<open>Probe\<close>

text \<open>The labels at the end of \<^verbatim>\<open>intel_fpga_pcie_probe\<close>; each falls through to the next.\<close>

definition failed_notif_q_status_alloc :: "pci_dev \<Rightarrow> pci_dev option" where
  "failed_notif_q_status_alloc p = release Bookkeeper p"

definition failed_pcie_enable :: "pci_dev \<Rightarrow> pci_dev option" where
  "failed_pcie_enable p = failed_notif_q_status_alloc (p\<lparr>pd_drvdata := False\<rparr>)"

definition failed_pipe_status_alloc :: "pci_dev \<Rightarrow> pci_dev option" where
  "failed_pipe_status_alloc p = Option.bind (release NotifStatus p) failed_pcie_enable"

definition failed_req_region :: "pci_dev \<Rightarrow> pci_dev option" where
  "failed_req_region p = Option.bind (release_all [Enabled, PipeStatus] p) failed_pipe_status_alloc"

definition failed_map :: "pci_dev \<Rightarrow> pci_dev option" where
  "failed_map p = Option.bind (release Regions p) failed_req_region"

definition failed_uio_register :: "dev_bookkeep \<Rightarrow> pci_dev \<Rightarrow> pci_dev option" where
  "failed_uio_register dev p = Option.bind (unmap_bars dev p) (\<lambda>(_, p'). failed_map p')"

definition failed_dma_init :: "dev_bookkeep \<Rightarrow> pci_dev \<Rightarrow> pci_dev option" where
  "failed_dma_init dev p = Option.bind (release Uio p) (failed_uio_register dev)"

definition failed_get_gbk :: "dev_bookkeep \<Rightarrow> pci_dev \<Rightarrow> pci_dev option" where
  "failed_get_gbk dev p = Option.bind (intel_fpga_pcie_dma_remove p) (failed_dma_init dev)"

definition new_bookkeep :: "u16 \<Rightarrow> dev_bookkeep" where
  "new_bookkeep bdf = dev_zero\<lparr>dev_bdf := bdf, dev_dma := (dev_dma dev_zero)\<lparr>last_ptr := (\<lambda>_. 0)\<rparr>\<rparr>"

definition fail_with :: "errno \<Rightarrow> drv \<Rightarrow> pci_dev option \<Rightarrow> (unit kres \<times> pci_dev \<times> drv) option" where
  "fail_with e s = map_option (\<lambda>p. (Inl e, p, s))"

definition intel_fpga_pcie_probe :: "probe_env \<Rightarrow> u16 \<Rightarrow> pci_dev \<Rightarrow> drv \<Rightarrow> (unit kres \<times> pci_dev \<times> drv) option" where
  "intel_fpga_pcie_probe env bdf p0 s =
     (if \<not> pe_kzalloc env 0 then Some (Inl ENOMEM, p0, s)
      else let p1 = hold Bookkeeper p0; dev = new_bookkeep bdf in
      if \<not> pe_kzalloc env 1 then fail_with ENOMEM s (failed_notif_q_status_alloc p1)
      else let p2 = hold NotifStatus p1 in
      if \<not> pe_kzalloc env 2 then fail_with ENOMEM s (failed_pipe_status_alloc p2)
      else let p3 = (hold PipeStatus p2)\<lparr>pd_drvdata := True\<rparr> in
      case pe_enable env of Some e \<Rightarrow> fail_with e s (failed_pcie_enable p3)
      | None \<Rightarrow> let p4 = hold Enabled p3 in
      case pe_request env of Some e \<Rightarrow> fail_with e s (failed_req_region p4)
      | None \<Rightarrow> let p5 = hold Regions p4 in
      Option.bind (map_bars_default env dev p5) (\<lambda>(r, dev1, p6).
        case r of Inl e \<Rightarrow> fail_with e s (failed_map p6)
        | Inr _ \<Rightarrow>
          case pe_uio env of Some e \<Rightarrow> fail_with e s (failed_uio_register dev1 p6)
          | None \<Rightarrow> let p7 = hold Uio p6 in
          case intel_fpga_pcie_dma_probe (pe_mask64 env) (pe_mask32 env) (pe_rd_dt env) (pe_wr_dt env) dev1 of
            (Inl e, _, dev2) \<Rightarrow> fail_with e s (failed_dma_init dev2 p7)
          | (Inr _, _, dev2) \<Rightarrow> let p8 = hold BusMaster (hold (DmaTable DMA_WR_IDX) (hold (DmaTable DMA_RD_IDX) p7)) in
            if pe_lock_intr env then fail_with ERESTARTSYS s (failed_get_gbk dev2 p8)
            else if pe_insert_nomem env then fail_with ENOMEM s (failed_get_gbk dev2 p8)
            else if dev_tree s bdf \<noteq> None then fail_with EEXIST s (failed_get_gbk dev2 p8)
            else Some (Inr (), p8, s\<lparr>dev_tree := (dev_tree s)(bdf \<mapsto> dev2)\<rparr>)))"

section \<open>Remove\<close>

text \<open>
  The global lock only decides about a warning: the removal goes on without it. A device that is not in
  the tree is reported and then used all the same.
\<close>

definition intel_fpga_pcie_remove :: "u16 \<Rightarrow> pci_dev \<Rightarrow> drv \<Rightarrow> (pci_dev \<times> drv) option" where
  "intel_fpga_pcie_remove bdf p s =
     (if \<not> pd_drvdata p then None
      else case dev_tree s bdf of
        None \<Rightarrow> None
      | Some dev \<Rightarrow>
          let s' = s\<lparr>dev_tree := (dev_tree s)(bdf := None)\<rparr> in
          Option.bind (if kmem_size (dev_kmem dev) \<noteq> 0 then release KMem p else Some p) (\<lambda>p1.
          Option.bind (intel_fpga_pcie_dma_remove p1) (\<lambda>p2.
          Option.bind (unmap_bars dev p2) (\<lambda>(_, p3).
          Option.bind (release_all [Uio, Regions, Enabled] p3) (\<lambda>p4.
          map_option (\<lambda>p5. (p5, s')) (release_all [PipeStatus, NotifStatus, Bookkeeper] (p4\<lparr>pd_drvdata := False\<rparr>)))))))"

section \<open>Mapping and unmapping\<close>

definition mapped :: "dev_bookkeep \<Rightarrow> nat set" where
  "mapped dev = {i. i < 6 \<and> base_addr (dev_bar dev i) \<noteq> 0}"

lemma unmap_from_spec:
  assumes "distinct is" "\<forall>i\<in>set is. base_addr (dev_bar dev i) \<noteq> 0 \<longleftrightarrow> BarMapping i \<in> pd_held p"
  shows "\<exists>dev'. unmap_from is dev p = Some (dev', p\<lparr>pd_held := pd_held p - BarMapping ` set is\<rparr>)"
  using assms
proof (induction "is" arbitrary: dev p)
  case (Cons i "is")
  show ?case
  proof (cases "base_addr (dev_bar dev i) = 0")
    case True
    then have "BarMapping i \<notin> pd_held p" using Cons.prems(2) by simp
    then show ?thesis using Cons.IH [of dev p] Cons.prems True by (simp add: Diff_insert0)
  next
    case False
    let ?dev = "dev\<lparr>dev_bar := (dev_bar dev)(i := (dev_bar dev i)\<lparr>base_addr := 0, bar_len := 0\<rparr>)\<rparr>"
    have "\<forall>k\<in>set is. base_addr (dev_bar ?dev k) \<noteq> 0 \<longleftrightarrow> BarMapping k \<in> pd_held (p\<lparr>pd_held := pd_held p - {BarMapping i}\<rparr>)"
      using Cons.prems by auto
    from Cons.IH [OF _ this] Cons.prems(1) obtain dev' where
      "unmap_from is ?dev (p\<lparr>pd_held := pd_held p - {BarMapping i}\<rparr>) =
        Some (dev', p\<lparr>pd_held := pd_held p - {BarMapping i} - BarMapping ` set is\<rparr>)" by auto
    moreover have "pd_held p - {BarMapping i} - BarMapping ` set is = pd_held p - BarMapping ` set (i # is)" by auto
    ultimately show ?thesis using Cons.prems(2) False by (simp add: release_def)
  qed
qed simp

lemma unmap_bars_spec:
  assumes "\<forall>i<6. i \<in> mapped dev \<longleftrightarrow> BarMapping i \<in> pd_held p"
  shows "\<exists>dev'. unmap_bars dev p = Some (dev', p\<lparr>pd_held := pd_held p - BarMapping ` {..<6}\<rparr>)"
  using unmap_from_spec [of "[0..<6]" dev p] assms by (simp add: unmap_bars_def mapped_def atLeast0LessThan)

lemma map_from_spec:
  assumes "map_from env is dev p = (ok, dev', p')" "distinct is" "\<forall>i\<in>set is. base_addr (dev_bar dev i) = 0"
  shows "p' = p\<lparr>pd_held := pd_held p \<union> BarMapping ` {i\<in>set is. base_addr (dev_bar dev' i) \<noteq> 0}\<rparr> \<and>
    (\<forall>i. i \<notin> set is \<longrightarrow> dev_bar dev' i = dev_bar dev i) \<and> dev' = dev\<lparr>dev_bar := dev_bar dev'\<rparr> \<and>
    (ok \<longrightarrow> (\<forall>i\<in>set is. base_addr (dev_bar dev' i) \<noteq> 0 \<longleftrightarrow> pe_bar_len env i \<noteq> 0))"
  using assms
proof (induction "is" arbitrary: dev p)
  case (Cons i "is")
  show ?case
  proof (cases "pe_bar_len env i = 0")
    case True
    with Cons.prems have "map_from env is dev p = (ok, dev', p')" by simp
    note IH = Cons.IH [OF this]
    have "base_addr (dev_bar dev' i) = 0" using IH Cons.prems by auto
    then have "{k \<in> set (i # is). base_addr (dev_bar dev' k) \<noteq> 0} = {k \<in> set is. base_addr (dev_bar dev' k) \<noteq> 0}" by auto
    with IH Cons.prems True \<open>base_addr (dev_bar dev' i) = 0\<close> show ?thesis by simp
  next
    case False
    define bar where "bar = (dev_bar dev i)\<lparr>bar_len := pe_bar_len env i, base_addr := pe_bar_map env i,
       is_prefetchable := (if \<not> pe_bar_io env i \<and> pe_bar_prefetch env i then True else is_prefetchable (dev_bar dev i))\<rparr>"
    have bar: "base_addr bar = pe_bar_map env i" by (simp add: bar_def)
    have run: "map_from env (i # is) dev p =
        (if pe_bar_map env i = 0 then (False, dev\<lparr>dev_bar := (dev_bar dev)(i := bar)\<rparr>, p)
         else map_from env is (dev\<lparr>dev_bar := (dev_bar dev)(i := bar)\<rparr>) (hold (BarMapping i) p))"
      using False by (simp add: Let_def bar_def)
    let ?dev = "dev\<lparr>dev_bar := (dev_bar dev)(i := bar)\<rparr>"
    show ?thesis
    proof (cases "pe_bar_map env i = 0")
      case True
      with Cons.prems(1) run have res: "ok = False" "dev' = ?dev" "p' = p" by simp_all
      have none: "{k \<in> set (i # is). base_addr (dev_bar ?dev k) \<noteq> 0} = {}" using True Cons.prems(3) bar by auto
      show ?thesis unfolding res none by (simp add: fun_upd_def)
    next
      case nz: False
      have rest: "\<forall>k\<in>set is. base_addr (dev_bar ?dev k) = 0" using Cons.prems(2,3) by auto
      have "map_from env is ?dev (hold (BarMapping i) p) = (ok, dev', p')" using Cons.prems(1) run nz by simp
      note IH = Cons.IH [OF this _ rest]
      have new: "dev_bar dev' i = bar" using IH Cons.prems(2) by simp
      then have "{k \<in> set (i # is). base_addr (dev_bar dev' k) \<noteq> 0} = insert i {k \<in> set is. base_addr (dev_bar dev' k) \<noteq> 0}"
        using nz bar by auto
      with IH Cons.prems(2) False nz bar new show ?thesis by (simp add: hold_def)
    qed
  qed
qed simp

lemma map_bars_spec:
  assumes "pd_held p \<inter> range BarMapping = {}" "\<forall>i. base_addr (dev_bar dev i) = 0"
  obtains (ok) dev' where "map_bars_default env dev p = Some (Inr (), dev', p\<lparr>pd_held := pd_held p \<union> BarMapping ` mapped dev'\<rparr>)"
      "dev' = dev\<lparr>dev_bar := dev_bar dev'\<rparr>" "mapped dev' = {i. i < 6 \<and> pe_bar_len env i \<noteq> 0}"
  | (fail) dev' where "map_bars_default env dev p = Some (Inl ENOMEM, dev', p)"
proof -
  obtain c dev' p' where run: "map_from env [0..<6] (clear_bars dev) p = (c, dev', p')" by (cases rule: prod_cases3)
  have "\<forall>i\<in>set [0..<6]. base_addr (dev_bar (clear_bars dev) i) = 0" by (simp add: clear_bars_def)
  note m = map_from_spec [OF run _ this, simplified]
  have set: "{i. i < 6 \<and> base_addr (dev_bar dev' i) \<noteq> 0} = mapped dev'" by (simp add: mapped_def)
  have p': "p' = p\<lparr>pd_held := pd_held p \<union> BarMapping ` mapped dev'\<rparr>" using m by (simp add: set)
  have clear: "(clear_bars dev)\<lparr>dev_bar := b\<rparr> = dev\<lparr>dev_bar := b\<rparr>" for b by (simp add: clear_bars_def)
  have dev': "dev' = dev\<lparr>dev_bar := dev_bar dev'\<rparr>" using m clear by metis
  show thesis
  proof (cases c)
    case True
    then have "mapped dev' = {i. i < 6 \<and> pe_bar_len env i \<noteq> 0}" using m by (auto simp: mapped_def)
    then show thesis using True run p' dev' by (intro ok) (simp_all add: map_bars_default_def)
  next
    case False
    have "\<forall>i<6. i \<in> mapped dev' \<longleftrightarrow> BarMapping i \<in> pd_held p'" using assms(1) by (auto simp: p')
    from unmap_bars_spec [OF this] obtain dev2 where
      un: "unmap_bars dev' p' = Some (dev2, p'\<lparr>pd_held := pd_held p' - BarMapping ` {..<6}\<rparr>)" ..
    have "pd_held p' - BarMapping ` {..<6} = pd_held p" using assms(1) by (auto simp: p' mapped_def)
    then show thesis using False run un by (intro fail) (simp add: map_bars_default_def p')
  qed
qed

section \<open>Outcome of a probe\<close>

definition dev_objs :: "dev_bookkeep \<Rightarrow> dev_obj set" where
  "dev_objs dev = {Bookkeeper, NotifStatus, PipeStatus, Enabled, Regions, Uio, BusMaster, DmaTable 0, DmaTable 1} \<union>
     BarMapping ` mapped dev"

definition unattached :: pci_dev where
  "unattached = \<lparr>pd_held = {}, pd_drvdata = False\<rparr>"

lemmas failed_defs = failed_notif_q_status_alloc_def failed_pcie_enable_def failed_pipe_status_alloc_def failed_req_region_def
  failed_map_def failed_uio_register_def failed_dma_init_def failed_get_gbk_def intel_fpga_pcie_dma_remove_def fail_with_def

lemma failed_uio_register_spec:
  assumes "p = \<lparr>pd_held = {Bookkeeper, NotifStatus, PipeStatus, Enabled, Regions} \<union> BarMapping ` mapped dev, pd_drvdata = True\<rparr>"
  shows "failed_uio_register dev p = Some unattached"
proof -
  have "\<forall>i<6. i \<in> mapped dev \<longleftrightarrow> BarMapping i \<in> pd_held p" by (auto simp: assms)
  from unmap_bars_spec [OF this] obtain dev' where
    un: "unmap_bars dev p = Some (dev', p\<lparr>pd_held := pd_held p - BarMapping ` {..<6}\<rparr>)" ..
  have "pd_held p - BarMapping ` {..<6} = {Bookkeeper, NotifStatus, PipeStatus, Enabled, Regions}"
    by (auto simp: assms mapped_def)
  then show ?thesis unfolding failed_uio_register_def un by (simp add: assms failed_defs release_def unattached_def insert_Diff_if)
qed

lemma failed_dma_init_spec:
  assumes "p = \<lparr>pd_held = {Bookkeeper, NotifStatus, PipeStatus, Enabled, Regions, Uio} \<union> BarMapping ` mapped dev, pd_drvdata = True\<rparr>"
  shows "failed_dma_init dev p = Some unattached"
proof -
  have "pd_held p - {Uio} = {Bookkeeper, NotifStatus, PipeStatus, Enabled, Regions} \<union> BarMapping ` mapped dev" by (auto simp: assms)
  then show ?thesis using failed_uio_register_spec [OF refl, of dev] by (simp add: failed_dma_init_def release_def assms)
qed

lemma failed_get_gbk_spec:
  assumes "p = \<lparr>pd_held = dev_objs dev, pd_drvdata = True\<rparr>"
  shows "failed_get_gbk dev p = Some unattached"
proof -
  have "dev_objs dev - {BusMaster} - {DmaTable 1} - {DmaTable 0} =
      {Bookkeeper, NotifStatus, PipeStatus, Enabled, Regions, Uio} \<union> BarMapping ` mapped dev" by (auto simp: dev_objs_def)
  moreover have "BusMaster \<in> dev_objs dev" "DmaTable 1 \<in> dev_objs dev" "DmaTable 0 \<in> dev_objs dev" by (simp_all add: dev_objs_def)
  ultimately show ?thesis
    using failed_dma_init_spec [OF refl, of dev]
    by (simp add: failed_get_gbk_def intel_fpga_pcie_dma_remove_def release_def assms DMA_WR_IDX_def DMA_RD_IDX_def)
qed

lemma dma_probe_cases:
  "(\<exists>e. intel_fpga_pcie_dma_probe m64 m32 rd wr dev = (Inl e, 0, dev)) \<or>
   (\<exists>dev'. intel_fpga_pcie_dma_probe m64 m32 rd wr dev = (Inr (), 2, dev') \<and>
      dev' = dev\<lparr>dev_dma := dev_dma dev', dev_sem := Suc (dev_sem dev)\<rparr> \<and>
      last_ptr (dev_dma dev') 0 = 127 \<and> last_ptr (dev_dma dev') 1 = 127)"
proof (cases "(m64 \<or> m32) \<and> rd \<noteq> None \<and> wr \<noteq> None")
  case True
  then obtain dt0 bus0 dt1 bus1 where "rd = Some (dt0, bus0)" "wr = Some (dt1, bus1)" by auto
  then show ?thesis
    using True by (simp add: intel_fpga_pcie_dma_probe_def up_def dma_init_def DMA_RD_IDX_def DMA_WR_IDX_def Let_def)
next
  case False
  then show ?thesis by (auto simp: intel_fpga_pcie_dma_probe_def split: option.splits)
qed

text \<open>The part of the probe after the BAR regions have been requested.\<close>

definition probe_tail :: "probe_env \<Rightarrow> u16 \<Rightarrow> pci_dev \<Rightarrow> drv \<Rightarrow> (unit kres \<times> pci_dev \<times> drv) option" where
  "probe_tail env bdf p5 s =
     Option.bind (map_bars_default env (new_bookkeep bdf) p5) (\<lambda>(r, dev1, p6).
        case r of Inl e \<Rightarrow> fail_with e s (failed_map p6)
        | Inr _ \<Rightarrow>
          case pe_uio env of Some e \<Rightarrow> fail_with e s (failed_uio_register dev1 p6)
          | None \<Rightarrow>
          case intel_fpga_pcie_dma_probe (pe_mask64 env) (pe_mask32 env) (pe_rd_dt env) (pe_wr_dt env) dev1 of
            (Inl e, _, dev2) \<Rightarrow> fail_with e s (failed_dma_init dev2 (hold Uio p6))
          | (Inr _, _, dev2) \<Rightarrow> let p8 = hold BusMaster (hold (DmaTable DMA_WR_IDX) (hold (DmaTable DMA_RD_IDX) (hold Uio p6))) in
            if pe_lock_intr env then fail_with ERESTARTSYS s (failed_get_gbk dev2 p8)
            else if pe_insert_nomem env then fail_with ENOMEM s (failed_get_gbk dev2 p8)
            else if dev_tree s bdf \<noteq> None then fail_with EEXIST s (failed_get_gbk dev2 p8)
            else Some (Inr (), p8, s\<lparr>dev_tree := (dev_tree s)(bdf \<mapsto> dev2)\<rparr>))"

lemma new_dev_eq:
  assumes "dev1 = d\<lparr>dev_bar := dev_bar dev1\<rparr>" "dev2 = dev1\<lparr>dev_dma := dev_dma dev2, dev_sem := Suc (dev_sem dev1)\<rparr>" "dev_sem d = 1"
  shows "dev2 = d\<lparr>dev_bar := dev_bar dev2, dev_dma := dev_dma dev2, dev_sem := 2\<rparr>"
proof -
  from assms(1) obtain b where b: "dev1 = d\<lparr>dev_bar := b\<rparr>" by (rule that)
  from assms(2) obtain m where "dev2 = dev1\<lparr>dev_dma := m, dev_sem := Suc (dev_sem dev1)\<rparr>" by (rule that)
  then show ?thesis using assms(3) by (simp add: b)
qed

definition attached :: "probe_env \<Rightarrow> u16 \<Rightarrow> dev_bookkeep \<Rightarrow> bool" where
  "attached env bdf dev \<longleftrightarrow> mapped dev = {i. i < 6 \<and> pe_bar_len env i \<noteq> 0} \<and>
     last_ptr (dev_dma dev) 0 = 127 \<and> last_ptr (dev_dma dev) 1 = 127 \<and>
     dev = (new_bookkeep bdf)\<lparr>dev_bar := dev_bar dev, dev_dma := dev_dma dev, dev_sem := 2\<rparr>"

definition probed :: "probe_env \<Rightarrow> u16 \<Rightarrow> drv \<Rightarrow> (unit kres \<times> pci_dev \<times> drv) option \<Rightarrow> bool" where
  "probed env bdf s res \<longleftrightarrow> (\<exists>e. res = Some (Inl e, unattached, s)) \<or>
    (\<exists>dev. res = Some (Inr (), \<lparr>pd_held = dev_objs dev, pd_drvdata = True\<rparr>, s\<lparr>dev_tree := (dev_tree s)(bdf \<mapsto> dev)\<rparr>) \<and>
       dev_tree s bdf = None \<and> attached env bdf dev)"

lemma probe_after_map:
  assumes p: "p = \<lparr>pd_held = {Bookkeeper, NotifStatus, PipeStatus, Enabled, Regions} \<union> BarMapping ` mapped dev1, pd_drvdata = True\<rparr>"
    and dev1: "dev1 = (new_bookkeep bdf)\<lparr>dev_bar := dev_bar dev1\<rparr>" "mapped dev1 = {i. i < 6 \<and> pe_bar_len env i \<noteq> 0}"
    and map: "map_bars_default env (new_bookkeep bdf) p5 = Some (Inr (), dev1, p)" and uio: "pe_uio env = None"
  shows "probed env bdf s (probe_tail env bdf p5 s)"
proof -
  have p7: "hold Uio p = \<lparr>pd_held = {Bookkeeper, NotifStatus, PipeStatus, Enabled, Regions, Uio} \<union> BarMapping ` mapped dev1, pd_drvdata = True\<rparr>"
    by (auto simp: p hold_def)
  let ?dma = "intel_fpga_pcie_dma_probe (pe_mask64 env) (pe_mask32 env) (pe_rd_dt env) (pe_wr_dt env) dev1"
  consider (fail) e where "?dma = (Inl e, 0, dev1)" | (ok) dev2 where "?dma = (Inr (), 2, dev2)"
      "dev2 = dev1\<lparr>dev_dma := dev_dma dev2, dev_sem := Suc (dev_sem dev1)\<rparr>" "last_ptr (dev_dma dev2) 0 = 127" "last_ptr (dev_dma dev2) 1 = 127"
    using dma_probe_cases by metis
  then show ?thesis
  proof cases
    case fail
    then show ?thesis using map uio failed_dma_init_spec [OF p7] by (simp add: probe_tail_def fail_with_def probed_def)
  next
    case ok
    have same: "mapped dev2 = mapped dev1" using arg_cong [OF ok(2), of dev_bar] by (simp add: mapped_def)
    have "dev2 = (new_bookkeep bdf)\<lparr>dev_bar := dev_bar dev2, dev_dma := dev_dma dev2, dev_sem := 2\<rparr>"
      by (rule new_dev_eq [OF dev1(1) ok(2)]) (simp add: new_bookkeep_def dev_zero_def)
    then have att: "attached env bdf dev2" unfolding attached_def using ok(3,4) same dev1(2) by blast
    have p8: "hold BusMaster (hold (DmaTable DMA_WR_IDX) (hold (DmaTable DMA_RD_IDX) (hold Uio p))) = \<lparr>pd_held = dev_objs dev2, pd_drvdata = True\<rparr>"
      unfolding p7 by (auto simp: hold_def dev_objs_def same DMA_WR_IDX_def DMA_RD_IDX_def)
    show ?thesis
      using map uio ok(1) p8 att failed_get_gbk_spec [OF p8] by (simp add: probe_tail_def fail_with_def Let_def probed_def) blast
  qed
qed

lemma probe_tail_cases:
  assumes p: "p = \<lparr>pd_held = {Bookkeeper, NotifStatus, PipeStatus, Enabled, Regions}, pd_drvdata = True\<rparr>"
  shows "probed env bdf s (probe_tail env bdf p s)"
proof (rule map_bars_spec [of p "new_bookkeep bdf" env])
  show "pd_held p \<inter> range BarMapping = {}" "\<forall>i. base_addr (dev_bar (new_bookkeep bdf) i) = 0"
    by (auto simp: p new_bookkeep_def dev_zero_def)
next
  fix dev' assume "map_bars_default env (new_bookkeep bdf) p = Some (Inl ENOMEM, dev', p)"
  then show ?thesis by (simp add: probe_tail_def p failed_defs release_def unattached_def insert_Diff_if probed_def)
next
  fix dev1 assume map: "map_bars_default env (new_bookkeep bdf) p = Some (Inr (), dev1, p\<lparr>pd_held := pd_held p \<union> BarMapping ` mapped dev1\<rparr>)"
    and dev1: "dev1 = (new_bookkeep bdf)\<lparr>dev_bar := dev_bar dev1\<rparr>" "mapped dev1 = {i. i < 6 \<and> pe_bar_len env i \<noteq> 0}"
  show ?thesis
  proof (cases "pe_uio env")
    case (Some e)
    then show ?thesis using map failed_uio_register_spec [OF refl, of dev1] by (simp add: probe_tail_def p fail_with_def probed_def)
  next
    case None
    then show ?thesis using probe_after_map [OF _ dev1 map] by (simp add: p)
  qed
qed

lemma probe_early_failure:
  assumes "\<not> (pe_kzalloc env 0 \<and> pe_kzalloc env 1 \<and> pe_kzalloc env 2 \<and> pe_enable env = None \<and> pe_request env = None)"
  shows "\<exists>e. intel_fpga_pcie_probe env bdf unattached s = Some (Inl e, unattached\<lparr>pd_held :=
    (if pe_kzalloc env 0 \<and> pe_kzalloc env 1 \<and> pe_kzalloc env 2 \<and> pe_enable env \<noteq> None then {NotifStatus, PipeStatus} else {})\<rparr>, s)"
proof -
  from assms consider "\<not> pe_kzalloc env 0" | "pe_kzalloc env 0" "\<not> pe_kzalloc env 1"
    | "pe_kzalloc env 0" "pe_kzalloc env 1" "\<not> pe_kzalloc env 2"
    | e where "pe_kzalloc env 0" "pe_kzalloc env 1" "pe_kzalloc env 2" "pe_enable env = Some e"
    | e where "pe_kzalloc env 0" "pe_kzalloc env 1" "pe_kzalloc env 2" "pe_enable env = None" "pe_request env = Some e" by auto
  then show ?thesis
    by cases (simp_all add: intel_fpga_pcie_probe_def failed_defs release_def hold_def unattached_def Let_def insert_Diff_if
        insert_commute [of PipeStatus])
qed

lemma probe_start:
  assumes "pe_kzalloc env 0 \<and> pe_kzalloc env 1 \<and> pe_kzalloc env 2 \<and> pe_enable env = None \<and> pe_request env = None"
  shows "probed env bdf s (intel_fpga_pcie_probe env bdf unattached s)"
proof -
  let ?p5 = "\<lparr>pd_held = {Bookkeeper, NotifStatus, PipeStatus, Enabled, Regions}, pd_drvdata = True\<rparr>"
  have p5: "hold Regions (hold Enabled ((hold PipeStatus (hold NotifStatus (hold Bookkeeper unattached)))\<lparr>pd_drvdata := True\<rparr>)) = ?p5"
    by (auto simp: hold_def unattached_def)
  have "intel_fpga_pcie_probe env bdf unattached s = probe_tail env bdf ?p5 s"
    using assms unfolding intel_fpga_pcie_probe_def probe_tail_def Let_def p5 [symmetric] by simp
  then show ?thesis using probe_tail_cases [OF refl, of env bdf s] by simp
qed

lemma probe_succeeded:
  assumes "intel_fpga_pcie_probe env bdf unattached s = Some (Inr (), p, s1)"
  obtains dev b m where "dev_tree s1 bdf = Some dev" "pd_held p = dev_objs dev" "pd_drvdata p"
    "dev = (new_bookkeep bdf)\<lparr>dev_bar := b, dev_dma := m, dev_sem := 2\<rparr>"
proof -
  have "probed env bdf s (intel_fpga_pcie_probe env bdf unattached s)"
  proof (rule probe_start, rule ccontr)
    assume "\<not> (pe_kzalloc env 0 \<and> pe_kzalloc env 1 \<and> pe_kzalloc env 2 \<and> pe_enable env = None \<and> pe_request env = None)"
    from probe_early_failure [OF this, of bdf s] assms show False by auto
  qed
  then obtain dev where dev: "dev_tree s1 bdf = Some dev" "pd_held p = dev_objs dev" "pd_drvdata p" "attached env bdf dev"
    using assms by (auto simp: probed_def)
  have "dev = (new_bookkeep bdf)\<lparr>dev_bar := dev_bar dev, dev_dma := dev_dma dev, dev_sem := 2\<rparr>"
    using dev(4) unfolding attached_def by (elim conjE)
  then show thesis by (rule that [OF dev(1-3)])
qed

lemma remove_attached:
  assumes "dev_tree s bdf = Some dev" "mapped dev = mapped dev0"
    and p: "p = \<lparr>pd_held = dev_objs dev0 \<union> (if kmem_size (dev_kmem dev) \<noteq> 0 then {KMem} else {}), pd_drvdata = True\<rparr>"
  shows "intel_fpga_pcie_remove bdf p s = Some (unattached, s\<lparr>dev_tree := (dev_tree s)(bdf := None)\<rparr>)"
proof -
  let ?six = "{Bookkeeper, NotifStatus, PipeStatus, Enabled, Regions, Uio}"
  let ?p1 = "\<lparr>pd_held = dev_objs dev0, pd_drvdata = True\<rparr>" and ?p2 = "\<lparr>pd_held = ?six \<union> BarMapping ` mapped dev0, pd_drvdata = True\<rparr>"
  have "KMem \<notin> dev_objs dev0" by (auto simp: dev_objs_def)
  then have p1: "(if kmem_size (dev_kmem dev) \<noteq> 0 then release KMem p else Some p) = Some ?p1" by (simp add: p release_def)
  have "dev_objs dev0 - {BusMaster} - {DmaTable 1} - {DmaTable 0} = ?six \<union> BarMapping ` mapped dev0" by (auto simp: dev_objs_def)
  moreover have "BusMaster \<in> dev_objs dev0" "DmaTable 1 \<in> dev_objs dev0" "DmaTable 0 \<in> dev_objs dev0" by (simp_all add: dev_objs_def)
  ultimately have p2: "intel_fpga_pcie_dma_remove ?p1 = Some ?p2"
    by (simp add: intel_fpga_pcie_dma_remove_def release_def DMA_WR_IDX_def DMA_RD_IDX_def)
  have "\<forall>i<6. i \<in> mapped dev \<longleftrightarrow> BarMapping i \<in> pd_held ?p2" using assms(2) by auto
  from unmap_bars_spec [OF this] obtain dev' where "unmap_bars dev ?p2 = Some (dev', ?p2\<lparr>pd_held := pd_held ?p2 - BarMapping ` {..<6}\<rparr>)" ..
  moreover have "pd_held ?p2 - BarMapping ` {..<6} = ?six" by (auto simp: mapped_def)
  ultimately have p3: "unmap_bars dev ?p2 = Some (dev', \<lparr>pd_held = ?six, pd_drvdata = True\<rparr>)" by simp
  show ?thesis
    unfolding intel_fpga_pcie_remove_def using assms(1) p1 p2 p3
    by (simp add: p release_def unattached_def insert_Diff_if)
qed

section \<open>Loading and unloading the module\<close>

datatype mod_obj = ChrClass | ChrRegion | Cdev | DevNode | PciDriver | EventThread

definition give_back :: "mod_obj list \<Rightarrow> mod_obj set \<Rightarrow> mod_obj set option" where
  "give_back xs m = (if set xs \<subseteq> m then Some (m - set xs) else None)"

record init_env =
  ie_lock_intr :: bool
  ie_class :: "errno option"
  ie_region :: "errno option"
  ie_cdev_add :: "errno option"
  ie_device_create :: "errno option"
  ie_register :: "errno option"
  ie_task :: u64

text \<open>
  \<^verbatim>\<open>intel_fpga_pcie_chr_init\<close>. When \<^verbatim>\<open>device_create\<close> fails, \<^verbatim>\<open>retval\<close> is still the 0 of
  \<^verbatim>\<open>cdev_add\<close>.
\<close>

definition intel_fpga_pcie_chr_init :: "init_env \<Rightarrow> mod_obj set \<Rightarrow> (unit kres \<times> mod_obj set) option" where
  "intel_fpga_pcie_chr_init env m =
     (if ie_lock_intr env then Some (Inl ERESTARTSYS, m)
      else case ie_class env of Some e \<Rightarrow> Some (Inl e, m)
      | None \<Rightarrow> let m1 = insert ChrClass m in
      case ie_region env of Some e \<Rightarrow> map_option (Pair (Inl e)) (give_back [ChrClass] m1)
      | None \<Rightarrow> let m2 = insert ChrRegion m1 in
      case ie_cdev_add env of Some e \<Rightarrow> map_option (Pair (Inl e)) (give_back [ChrRegion, ChrClass] m2)
      | None \<Rightarrow> let m3 = insert Cdev m2 in
      case ie_device_create env of Some _ \<Rightarrow> map_option (Pair (Inr ())) (give_back [Cdev, ChrRegion, ChrClass] m3)
      | None \<Rightarrow> Some (Inr (), insert DevNode m3))"

definition intel_fpga_pcie_chr_exit :: "mod_obj set \<Rightarrow> mod_obj set option" where
  "intel_fpga_pcie_chr_exit = give_back [DevNode, Cdev, ChrRegion, ChrClass]"

text \<open>
  \<^verbatim>\<open>launch_event_kthread\<close>. The kernel reports an error as a pointer into the last page of the
  address space; the comparison \<^verbatim>\<open>task <= 0\<close> of pointers holds for the null pointer only, and an error
  pointer is then passed to \<^verbatim>\<open>wake_up_process\<close>.
\<close>

definition IS_ERR :: "u64 \<Rightarrow> bool" where
  "IS_ERR p \<longleftrightarrow> p \<ge> - 4095"

definition launch_event_kthread :: "init_env \<Rightarrow> mod_obj set \<Rightarrow> (unit kres \<times> mod_obj set) option" where
  "launch_event_kthread env m =
     (if ie_task env \<le> 0 then Some (Inl EPERM, m)
      else if IS_ERR (ie_task env) then None
      else Some (Inr (), insert EventThread m))"

definition intel_fpga_pcie_init :: "init_env \<Rightarrow> mod_obj set \<Rightarrow> (unit kres \<times> mod_obj set) option" where
  "intel_fpga_pcie_init env m =
     Option.bind (intel_fpga_pcie_chr_init env m) (\<lambda>(r, m1).
       case r of Inl e \<Rightarrow> Some (Inl e, m1)
       | Inr _ \<Rightarrow>
         case ie_register env of Some e \<Rightarrow> map_option (Pair (Inl e)) (intel_fpga_pcie_chr_exit m1)
         | None \<Rightarrow> Option.bind (launch_event_kthread env (insert PciDriver m1)) (\<lambda>(r', m2).
             case r' of Inl e \<Rightarrow> map_option (Pair (Inl e)) (intel_fpga_pcie_chr_exit m2)
             | Inr _ \<Rightarrow> Some (Inr (), m2)))"

definition intel_fpga_pcie_exit :: "mod_obj set \<Rightarrow> mod_obj set option" where
  "intel_fpga_pcie_exit m =
     Option.bind (give_back [EventThread] m) (\<lambda>m1. Option.bind (give_back [PciDriver] m1) intel_fpga_pcie_chr_exit)"

section \<open>Properties\<close>

lemma attach_keeps_ownership:
  assumes "drv_inv s" "dev_tree s bdf = None" "attached env bdf dev"
  shows "drv_inv (s\<lparr>dev_tree := (dev_tree s)(bdf \<mapsto> dev)\<rparr>)"
proof -
  obtain b m where dev: "dev = (new_bookkeep bdf)\<lparr>dev_bar := b, dev_dma := m, dev_sem := 2\<rparr>"
    using assms(3) unfolding attached_def by (elim conjE) (rule that)
  have empty: "bv_used (dev_pipe_status dev) = {}" "bv_used (dev_notif_q_status dev) = {}"
    by (simp_all add: dev new_bookkeep_def dev_zero_def bv_used_def bv_bit_def)
  have same: "owns_pipe (s\<lparr>dev_tree := t\<rparr>) = owns_pipe s" "owns_notif (s\<lparr>dev_tree := t\<rparr>) = owns_notif s" for t
    by (simp_all add: fun_eq_iff owns_pipe_def owns_notif_def)
  have "\<not> owns_pipe s fd bdf i" for fd i using assms(1,2) unfolding drv_inv_def by blast
  then show ?thesis using assms(1) empty unfolding drv_inv_def by (auto simp: same)
qed

text \<open>
  C18: Attaching a device either completes or is undone. For every combination of kernel failures, the
  probe of a device returns and gives back no object twice. When it fails the driver is as before and
  nothing stays allocated, with one exception: when the device cannot be enabled, the two status bit
  vectors are lost, because that error path enters the chain of labels below their release. When it
  succeeds the driver holds every object, each BAR with a length is mapped, the device is in the tree
  with nothing allocated on it, and the invariant of pipe ownership is kept.
\<close>

theorem probe_completes_or_undone:
  "\<exists>r p s'. intel_fpga_pcie_probe env bdf unattached s = Some (r, p, s') \<and>
    (case r of
       Inl e \<Rightarrow> s' = s \<and> \<not> pd_drvdata p \<and> pd_held p =
         (if pe_kzalloc env 0 \<and> pe_kzalloc env 1 \<and> pe_kzalloc env 2 \<and> pe_enable env \<noteq> None then {NotifStatus, PipeStatus} else {})
     | Inr _ \<Rightarrow> \<exists>dev. dev_tree s bdf = None \<and> s' = s\<lparr>dev_tree := (dev_tree s)(bdf \<mapsto> dev)\<rparr> \<and> pd_drvdata p \<and>
         pd_held p = dev_objs dev \<and> mapped dev = {i. i < 6 \<and> pe_bar_len env i \<noteq> 0} \<and> (drv_inv s \<longrightarrow> drv_inv s'))"
proof (cases "pe_kzalloc env 0 \<and> pe_kzalloc env 1 \<and> pe_kzalloc env 2 \<and> pe_enable env = None \<and> pe_request env = None")
  case False
  from probe_early_failure [OF this, of bdf s] show ?thesis by (auto simp: unattached_def)
next
  case True
  from probe_start [OF True, of bdf s] show ?thesis
    unfolding probed_def
  proof (elim disjE exE conjE)
    fix e assume "intel_fpga_pcie_probe env bdf unattached s = Some (Inl e, unattached, s)"
    then show ?thesis using True by (simp add: unattached_def)
  next
    fix dev assume run: "intel_fpga_pcie_probe env bdf unattached s =
        Some (Inr (), \<lparr>pd_held = dev_objs dev, pd_drvdata = True\<rparr>, s\<lparr>dev_tree := (dev_tree s)(bdf \<mapsto> dev)\<rparr>)"
      and dev: "dev_tree s bdf = None" "attached env bdf dev"
    have "mapped dev = {i. i < 6 \<and> pe_bar_len env i \<noteq> 0}" using dev(2) unfolding attached_def by (elim conjE)
    then show ?thesis using run dev(1) attach_keeps_ownership [OF _ dev] by auto
  qed
qed

definition probe_ok :: probe_env where
  "probe_ok = \<lparr>pe_kzalloc = (\<lambda>_. True), pe_enable = None, pe_request = None, pe_bar_len = (\<lambda>i. if i = 0 then 4096 else 0),
     pe_bar_io = (\<lambda>_. False), pe_bar_prefetch = (\<lambda>_. False), pe_bar_map = (\<lambda>_. 65536), pe_uio = None, pe_mask64 = True, pe_mask32 = True,
     pe_rd_dt = Some (dt_virt_addr (dev_dma dev_zero) 0, 0), pe_wr_dt = Some (dt_virt_addr (dev_dma dev_zero) 1, 4096),
     pe_lock_intr = False, pe_insert_nomem = False\<rparr>"

definition drv_empty :: drv where
  "drv_empty = \<lparr>dev_tree = Map.empty, files = Map.empty, live = 0\<rparr>"

lemma probe_ok_succeeds: "\<exists>p s'. intel_fpga_pcie_probe probe_ok bdf unattached drv_empty = Some (Inr (), p, s')"
  by (simp add: intel_fpga_pcie_probe_def probe_ok_def map_bars_default_def intel_fpga_pcie_dma_probe_def drv_empty_def Let_def
      upt_rec [of _ 6] clear_bars_def new_bookkeep_def)

lemma drv_inv_empty: "drv_inv drv_empty"
  by (simp add: drv_inv_def drv_empty_def owns_pipe_def owns_notif_def)

theorem probe_completes_or_undone_witness:
  "\<exists>p s' dev. intel_fpga_pcie_probe probe_ok 1 unattached drv_empty = Some (Inr (), p, s') \<and> drv_inv s' \<and>
     dev_tree s' 1 = Some dev \<and> mapped dev = {0} \<and> pd_held p = dev_objs dev"
proof -
  obtain p s' where run: "intel_fpga_pcie_probe probe_ok 1 unattached drv_empty = Some (Inr (), p, s')"
    using probe_ok_succeeds by blast
  have "{i. i < (6::nat) \<and> pe_bar_len probe_ok i \<noteq> 0} = {0}" by (auto simp: probe_ok_def)
  with probe_completes_or_undone [of probe_ok 1 drv_empty] run drv_inv_empty show ?thesis by fastforce
qed

text \<open>
  C19: Removing a device undoes its probe. After a successful probe, whatever the driver has done with the
  device meanwhile, kernel memory allocated for it included, as long as its BARs are still mapped, removing
  it returns, gives back every object exactly once and takes the device out of the tree.
\<close>

theorem remove_undoes_probe:
  assumes "intel_fpga_pcie_probe env bdf unattached s = Some (Inr (), p, s1)" "dev_tree s1 bdf = Some dev1"
    and "dev_tree s2 bdf = Some dev2" "dev_bar dev2 = dev_bar dev1"
    and "pd_held p2 = pd_held p \<union> (if kmem_size (dev_kmem dev2) \<noteq> 0 then {KMem} else {})" "pd_drvdata p2 = pd_drvdata p"
  shows "intel_fpga_pcie_remove bdf p2 s2 = Some (unattached, s2\<lparr>dev_tree := (dev_tree s2)(bdf := None)\<rparr>)"
proof -
  have p: "pd_held p = dev_objs dev1" "pd_drvdata p"
    by (rule probe_succeeded [OF assms(1)], use assms(2) in simp)+
  have "mapped dev2 = mapped dev1" using assms(4) by (simp add: mapped_def)
  moreover have "p2 = \<lparr>pd_held = dev_objs dev1 \<union> (if kmem_size (dev_kmem dev2) \<noteq> 0 then {KMem} else {}), pd_drvdata = True\<rparr>"
    using assms(5,6) p by (cases p2) simp
  ultimately show ?thesis by (rule remove_attached [OF assms(3)])
qed

theorem remove_undoes_probe_witness:
  "\<exists>p s1. intel_fpga_pcie_probe probe_ok 1 unattached drv_empty = Some (Inr (), p, s1) \<and>
     intel_fpga_pcie_remove 1 p s1 = Some (unattached, s1\<lparr>dev_tree := (dev_tree s1)(1 := None)\<rparr>)"
proof -
  obtain p s1 where run: "intel_fpga_pcie_probe probe_ok 1 unattached drv_empty = Some (Inr (), p, s1)"
    using probe_ok_succeeds by blast
  obtain dev b m where dev: "dev_tree s1 1 = Some dev" and "dev = (new_bookkeep 1)\<lparr>dev_bar := b, dev_dma := m, dev_sem := 2\<rparr>"
    by (rule probe_succeeded [OF run])
  then have "kmem_size (dev_kmem dev) = 0" by (simp add: new_bookkeep_def dev_zero_def)
  then show ?thesis using run remove_undoes_probe [OF run dev dev refl, of p] by auto
qed

text \<open>
  The device semaphore does not exclude anybody. The probe initialises it to 1 and the DMA set-up
  raises it without having lowered it, so after every successful probe two processes can be between
  \<^verbatim>\<open>down\<close> and \<^verbatim>\<open>up\<close> at the same time.
\<close>

theorem probe_breaks_exclusion:
  assumes "intel_fpga_pcie_probe env bdf unattached s = Some (Inr (), p, s1)" "dev_tree s1 bdf = Some dev"
  shows "\<exists>dev1 dev2. down_interruptible False dev = Some (Inr dev1) \<and> down_interruptible False dev1 = Some (Inr dev2) \<and>
    down_interruptible False dev2 = None"
proof -
  have "dev_sem dev = 2" by (rule probe_succeeded [OF assms(1)]) (use assms(2) in simp)
  then show ?thesis by (simp add: down_interruptible_def)
qed

theorem probe_breaks_exclusion_witness:
  "\<exists>p s1 dev dev1. intel_fpga_pcie_probe probe_ok 1 unattached drv_empty = Some (Inr (), p, s1) \<and> dev_tree s1 1 = Some dev \<and>
     down_interruptible False dev = Some (Inr dev1) \<and> down_interruptible False dev1 \<noteq> None"
proof -
  obtain p s1 where run: "intel_fpga_pcie_probe probe_ok 1 unattached drv_empty = Some (Inr (), p, s1)"
    using probe_ok_succeeds by blast
  obtain dev where dev: "dev_tree s1 1 = Some dev" by (rule probe_succeeded [OF run])
  from probe_breaks_exclusion [OF run dev] run dev show ?thesis by fastforce
qed

text \<open>
  Loading the module. Without failures everything is registered, and unloading gives all of it back.
  A failure of the class, the device region or the character device is undone. Three failures are not
  handled: when the device node cannot be created the module loads all the same, without a character
  device, and unloading it gives back objects it does not have; when the PCI driver was registered and the
  thread could not be started, the driver stays registered; and an error pointer from the creation of the
  thread is used as a thread.
\<close>

theorem module_init_outcome:
  "let ok = intel_fpga_pcie_init env {}; early = ie_lock_intr env \<or> ie_class env \<noteq> None \<or> ie_region env \<noteq> None \<or> ie_cdev_add env \<noteq> None;
       thread = ie_task env \<noteq> 0 \<and> \<not> IS_ERR (ie_task env) in
   if early then \<exists>e. ok = Some (Inl e, {})
   else if ie_device_create env = None then
     (if ie_register env \<noteq> None then \<exists>e. ok = Some (Inl e, {})
      else if thread then \<exists>m. ok = Some (Inr (), m) \<and> m = UNIV \<and> intel_fpga_pcie_exit m = Some {}
      else if IS_ERR (ie_task env) then ok = None
      else ok = Some (Inl EPERM, {PciDriver}))
   else if ie_register env = None \<and> thread
     then \<exists>m. ok = Some (Inr (), m) \<and> m = {PciDriver, EventThread} \<and> intel_fpga_pcie_exit m = None
     else ok = None"
proof -
  have univ: "insert EventThread {PciDriver, DevNode, Cdev, ChrRegion, ChrClass} = UNIV"
    using mod_obj.exhaust by blast
  have "insert x UNIV = UNIV" "(UNIV :: mod_obj set) - {EventThread} - {PciDriver} - {DevNode, Cdev, ChrRegion, ChrClass} = {}" for x :: mod_obj
    using univ by auto
  then show ?thesis
    by (auto simp: Let_def intel_fpga_pcie_init_def intel_fpga_pcie_chr_init_def launch_event_kthread_def intel_fpga_pcie_chr_exit_def
        intel_fpga_pcie_exit_def give_back_def univ IS_ERR_def split: option.splits)
qed


theorem module_init_outcome_witness:
  "intel_fpga_pcie_init \<lparr>ie_lock_intr = False, ie_class = None, ie_region = None, ie_cdev_add = None,
     ie_device_create = None, ie_register = None, ie_task = 4096\<rparr> {} = Some (Inr (), UNIV)
   \<and> intel_fpga_pcie_exit UNIV = Some {}"
  using module_init_outcome [of "\<lparr>ie_lock_intr = False, ie_class = None, ie_region = None, ie_cdev_add = None,
     ie_device_create = None, ie_register = None, ie_task = 4096\<rparr>"]
  by (simp add: Let_def IS_ERR_def)
end
