(* ===== verification/Ipc_Queue.thy ===== *)
theory Ipc_Queue
  imports Enso_Types
begin

text \<open>
  The queue between two threads or processes (\<^verbatim>\<open>include/enso/queue.h\<close>): a ring of cache-line
  sized elements in shared memory, each with a \<^verbatim>\<open>signal\<close> that is set by the producer and cleared
  by the consumer, and an index on either side. The interface \<open>fifo\<close> states what a bounded queue
  promises; the shared queue is an interpretation of it. A second model interleaves the single memory
  accesses of the two sides.

  A template parameter \<^verbatim>\<open>T\<close> is a type variable. The element is written by one 64-byte store, which
  the code relies on being seen as a whole.
\<close>

section \<open>Sizes\<close>

partial_function (option) next_power_two :: "u64 \<Rightarrow> u64 \<Rightarrow> u64 option" where
  "next_power_two cache_aligned power_two =
     (if power_two < cache_aligned then next_power_two cache_aligned (push_bit 1 power_two) else Some power_two)"

definition align_cache_power_two :: "u64 \<Rightarrow> u64 option" where
  "align_cache_power_two value =
     next_power_two ((value + ucast kCacheLineSize - 1) AND NOT (ucast (kCacheLineSize - 1))) 1"

section \<open>The shared ring\<close>

record 'a Element =
  signal :: u64
  elt_data :: 'a

record 'a queue =
  q_buf :: "'a Element arr"
  q_capacity :: u32
  q_index_mask :: u32
  q_tail :: u32
  q_head :: u32

definition push_full :: "'a queue \<Rightarrow> bool" where
  "push_full q \<longleftrightarrow> signal (q_buf q (unat (q_tail q))) \<noteq> 0"

definition push_store :: "'a \<Rightarrow> 'a queue \<Rightarrow> 'a queue" where
  "push_store x q = q\<lparr>q_buf := (q_buf q)(unat (q_tail q) := \<lparr>signal = 1, elt_data = x\<rparr>),
     q_tail := (q_tail q + 1) AND q_index_mask q\<rparr>"

definition Push :: "'a \<Rightarrow> 'a queue \<Rightarrow> int \<times> 'a queue" where
  "Push x q = (if push_full q then (-1, q) else (0, push_store x q))"

definition pop_empty :: "'a queue \<Rightarrow> bool" where
  "pop_empty q \<longleftrightarrow> signal (q_buf q (unat (q_head q))) = 0"

definition pop_data :: "'a queue \<Rightarrow> 'a" where
  "pop_data q = elt_data (q_buf q (unat (q_head q)))"

definition pop_clear :: "'a queue \<Rightarrow> 'a queue" where
  "pop_clear q = q\<lparr>q_buf := (q_buf q)(unat (q_head q) := (q_buf q (unat (q_head q)))\<lparr>signal := 0\<rparr>),
     q_head := (q_head q + 1) AND q_index_mask q\<rparr>"

definition Front :: "'a queue \<Rightarrow> 'a option" where
  "Front q = (if pop_empty q then None else Some (pop_data q))"

definition Pop :: "'a queue \<Rightarrow> 'a option \<times> 'a queue" where
  "Pop q = (if pop_empty q then (None, q) else (Some (pop_data q), pop_clear q))"

section \<open>Creating and joining\<close>

text \<open>
  \<open>Abort\<close>: \<^verbatim>\<open>std::stoul\<close> throws on an empty or too large number, inside a function declared not to
  throw, which ends the process.
\<close>

datatype 'a init_result = Ok 'a | Err | Abort

definition decimal :: "string \<Rightarrow> nat" where
  "decimal s = foldl (\<lambda>n c. 10 * n + (of_char c - 48)) 0 s"

definition is_decimal :: "string \<Rightarrow> bool" where
  "is_decimal s \<longleftrightarrow> list_all (\<lambda>c. of_char c \<in> {48..57::nat}) s"

text \<open>The scan over the directory entries (regular file or not, name): is there no such queue yet?\<close>

fun scan_entries :: "string \<Rightarrow> u64 \<Rightarrow> (bool \<times> string) list \<Rightarrow> bool \<Rightarrow> bool init_result" where
  "scan_entries file_name sz [] create = Ok create"
| "scan_entries file_name sz ((regular, name) # es) create =
     (if \<not> regular then scan_entries file_name sz es create
      else if take (length file_name) name = file_name
      then let size_str = drop (length file_name) name in
           if \<not> is_decimal size_str then Err
           else if size_str = [] \<or> decimal size_str \<ge> 2 ^ 64 then Abort
           else if decimal size_str \<noteq> unat sz then Err
           else scan_entries file_name sz es False
      else scan_entries file_name sz es create)"

record 'a queue_side =
  qs_size :: u64
  qs_capacity :: u32
  qs_index_mask :: u32
  qs_created :: bool
  qs_mem :: "'a Element arr"

text \<open>\<open>page\<close> is the shared memory of that name, if it could be obtained, \<open>zero\<close> an all-zero element.\<close>

definition Queue_Init :: "'a Element \<Rightarrow> u64 \<Rightarrow> bool \<Rightarrow> string \<Rightarrow> (bool \<times> string) list \<Rightarrow> 'a Element arr option \<Rightarrow>
    'a queue_side init_result" where
  "Queue_Init zero size0 join_if_exists file_name entries page =
     (let sz = (if size0 = 0 then ucast kBufPageSize else size0) in
      if sz AND (sz - 1) \<noteq> 0 then Err
      else if sz < 64 then Err
      else
        let capacity = ucast (sz div 64) :: u32 in
        (case scan_entries file_name sz entries True of
           Err \<Rightarrow> Err
         | Abort \<Rightarrow> Abort
         | Ok create \<Rightarrow>
             if \<not> join_if_exists \<and> \<not> create then Err
             else (case page of
                None \<Rightarrow> Err
              | Some mem \<Rightarrow> Ok \<lparr>qs_size = sz, qs_capacity = capacity, qs_index_mask = capacity - 1,
                  qs_created = create, qs_mem = (if create then (\<lambda>_. zero) else mem)\<rparr>)))"

text \<open>\<^verbatim>\<open>for (i = 0; i < capacity; ++i)\<close> with \<open>n\<close> iterations left.\<close>

fun producer_sync :: "'a Element arr \<Rightarrow> u32 \<Rightarrow> nat \<Rightarrow> u32 \<Rightarrow> u32 \<Rightarrow> u32" where
  "producer_sync buf msk 0 i tail = tail"
| "producer_sync buf msk (Suc n) i tail =
     (let tail' = (if signal (buf (unat i)) \<noteq> 0 then (i + 1) AND msk else tail) in
      if signal (buf (unat tail')) = 0 then tail' else producer_sync buf msk n (i + 1) tail')"

definition producer_join :: "'a queue_side \<Rightarrow> u32 init_result" where
  "producer_join s =
     (if qs_created s then Ok 0
      else let tail = producer_sync (qs_mem s) (qs_index_mask s) (unat (qs_capacity s)) 0 0 in
        if tail = 0 \<and> signal (qs_mem s 0) \<noteq> 0 then Err else Ok tail)"

text \<open>\<^verbatim>\<open>for (i = capacity; i > 0; --i)\<close>\<close>

fun consumer_sync :: "'a Element arr \<Rightarrow> u32 \<Rightarrow> nat \<Rightarrow> u32 \<Rightarrow> u32" where
  "consumer_sync buf msk 0 head = head"
| "consumer_sync buf msk (Suc n) head =
     (let head' = (if signal (buf n) \<noteq> 0 then of_nat n else head) in
      if signal (buf (unat ((head' - 1) AND msk))) = 0 then head' else consumer_sync buf msk n head')"

definition consumer_join :: "'a queue_side \<Rightarrow> u32 init_result" where
  "consumer_join s =
     (if qs_created s then Ok 0
      else let head = consumer_sync (qs_mem s) (qs_index_mask s) (unat (qs_capacity s)) 0 in
        if head = 0 \<and> signal (qs_mem s 0) \<noteq> 0 then Err else Ok head)"

definition init_bind :: "'a init_result \<Rightarrow> ('a \<Rightarrow> 'b init_result) \<Rightarrow> 'b init_result" where
  "init_bind r f = (case r of Ok x \<Rightarrow> f x | Err \<Rightarrow> Err | Abort \<Rightarrow> Abort)"

definition QueueProducer_Init where
  "QueueProducer_Init zero sz join file_name entries page =
     init_bind (Queue_Init zero sz join file_name entries page) (\<lambda>s.
     init_bind (producer_join s) (\<lambda>tail. Ok (s, tail)))"

definition QueueConsumer_Init where
  "QueueConsumer_Init zero sz join file_name entries page =
     init_bind (Queue_Init zero sz join file_name entries page) (\<lambda>s.
     init_bind (consumer_join s) (\<lambda>head. Ok (s, head)))"

section \<open>The interface of a bounded queue\<close>

datatype 'a queue_op = Enq 'a | Deq
datatype 'a queue_out = Pushed bool | Popped "'a option"

fun run_ops :: "('a \<Rightarrow> 's \<Rightarrow> int \<times> 's) \<Rightarrow> ('s \<Rightarrow> 'a option \<times> 's) \<Rightarrow> 'a queue_op list \<Rightarrow> 's \<Rightarrow> 'a queue_out list \<times> 's" where
  "run_ops enq deq [] s = ([], s)"
| "run_ops enq deq (Enq x # ops) s =
     (let (r, s1) = enq x s; (outs, s2) = run_ops enq deq ops s1 in (Pushed (r = 0) # outs, s2))"
| "run_ops enq deq (Deq # ops) s =
     (let (r, s1) = deq s; (outs, s2) = run_ops enq deq ops s1 in (Popped r # outs, s2))"

definition list_enq :: "nat \<Rightarrow> 'a \<Rightarrow> 'a list \<Rightarrow> int \<times> 'a list" where
  "list_enq cap x xs = (if length xs = cap then (-1, xs) else (0, xs @ [x]))"

definition list_deq :: "'a list \<Rightarrow> 'a option \<times> 'a list" where
  "list_deq xs = (case xs of [] \<Rightarrow> (None, []) | x # ys \<Rightarrow> (Some x, ys))"

locale fifo =
  fixes enq :: "'a \<Rightarrow> 's \<Rightarrow> int \<times> 's" and deq :: "'s \<Rightarrow> 'a option \<times> 's"
    and contents :: "'s \<Rightarrow> 'a list" and inv :: "'s \<Rightarrow> bool" and cap :: "'s \<Rightarrow> nat"
  assumes enq_full: "inv s \<Longrightarrow> length (contents s) = cap s \<Longrightarrow> enq x s = (-1, s)"
    and enq_ok: "inv s \<Longrightarrow> length (contents s) \<noteq> cap s \<Longrightarrow>
      \<exists>t. enq x s = (0, t) \<and> inv t \<and> cap t = cap s \<and> contents t = contents s @ [x]"
    and deq_empty: "inv s \<Longrightarrow> contents s = [] \<Longrightarrow> deq s = (None, s)"
    and deq_ok: "inv s \<Longrightarrow> contents s = x # xs \<Longrightarrow>
      \<exists>t. deq s = (Some x, t) \<and> inv t \<and> cap t = cap s \<and> contents t = xs"
begin

lemma simulates:
  assumes "inv s"
  shows "fst (run_ops enq deq ops s) = fst (run_ops (list_enq (cap s)) list_deq ops (contents s)) \<and>
    inv (snd (run_ops enq deq ops s)) \<and>
    contents (snd (run_ops enq deq ops s)) = snd (run_ops (list_enq (cap s)) list_deq ops (contents s))"
  using assms
proof (induction ops arbitrary: s)
  case (Cons op ops)
  note IH = Cons.IH and inv = Cons.prems
  show ?case
  proof (cases op)
    case (Enq x)
    show ?thesis
    proof (cases "length (contents s) = cap s")
      case True
      then show ?thesis using Enq IH [OF inv] enq_full [OF inv True, of x]
        by (simp add: list_enq_def case_prod_unfold Let_def)
    next
      case False
      from enq_ok [OF inv False, of x] obtain t where
        t: "enq x s = (0, t)" "inv t" "cap t = cap s" "contents t = contents s @ [x]" by blast
      show ?thesis using IH [OF t(2)] t False Enq
        by (simp add: list_enq_def case_prod_unfold Let_def)
    qed
  next
    case Deq
    show ?thesis
    proof (cases "contents s")
      case Nil
      then show ?thesis using Deq IH [OF inv] deq_empty [OF inv Nil]
        by (simp add: list_deq_def case_prod_unfold Let_def)
    next
      case (Cons x xs)
      from deq_ok [OF inv Cons] obtain t where
        t: "deq s = (Some x, t)" "inv t" "cap t = cap s" "contents t = xs" by blast
      show ?thesis using IH [OF t(2)] t Cons Deq
        by (simp add: list_deq_def case_prod_unfold Let_def)
    qed
  qed
qed simp

end

section \<open>The shared ring is a bounded queue\<close>

definition q_cap :: "'a queue \<Rightarrow> nat" where
  "q_cap q = unat (q_capacity q)"

definition q_wf :: "'a queue \<Rightarrow> bool" where
  "q_wf q \<longleftrightarrow> (\<exists>k < 32. q_cap q = 2 ^ k \<and> q_index_mask q = mask k) \<and>
     unat (q_tail q) < q_cap q \<and> unat (q_head q) < q_cap q"

definition q_rep :: "'a queue \<Rightarrow> nat \<Rightarrow> bool" where
  "q_rep q n \<longleftrightarrow> q_wf q \<and> n \<le> q_cap q \<and> unat (q_tail q) = (unat (q_head q) + n) mod q_cap q \<and>
     (\<forall>i < q_cap q. signal (q_buf q ((unat (q_head q) + i) mod q_cap q)) \<noteq> 0 \<longleftrightarrow> i < n)"

definition q_contents :: "'a queue \<Rightarrow> 'a list" where
  "q_contents q = map elt_data (takeWhile (\<lambda>e. signal e \<noteq> 0)
     (ring_slice (q_cap q) (q_buf q) (unat (q_head q)) (q_cap q)))"

definition q_inv :: "'a queue \<Rightarrow> bool" where
  "q_inv q \<longleftrightarrow> (\<exists>n. q_rep q n)"

lemma takeWhile_prefix:
  "n \<le> length xs \<Longrightarrow> (\<And>i. i < n \<Longrightarrow> P (xs ! i)) \<Longrightarrow> (n < length xs \<Longrightarrow> \<not> P (xs ! n)) \<Longrightarrow>
   takeWhile P xs = take n xs"
  by (rule takeWhile_eq_take_P_nth) auto

lemma q_contents_rep:
  assumes "q_rep q n"
  shows "q_contents q = map elt_data (ring_slice (q_cap q) (q_buf q) (unat (q_head q)) n)"
proof -
  let ?r = "ring_slice (q_cap q) (q_buf q) (unat (q_head q)) (q_cap q)"
  have "takeWhile (\<lambda>e. signal e \<noteq> 0) ?r = take n ?r"
    using assms by (intro takeWhile_prefix) (auto simp: q_rep_def)
  also have "\<dots> = ring_slice (q_cap q) (q_buf q) (unat (q_head q)) n"
    using assms ring_slice_take [of "q_cap q" "q_buf q" "unat (q_head q)" n "q_cap q"]
    by (simp add: q_rep_def min_absorb1)
  finally show ?thesis by (simp add: q_contents_def)
qed

lemma q_signal:
  "q_rep q n \<Longrightarrow> i < q_cap q \<Longrightarrow> signal (q_buf q ((unat (q_head q) + i) mod q_cap q)) \<noteq> 0 \<longleftrightarrow> i < n"
  by (simp add: q_rep_def)

lemma q_length: "q_rep q n \<Longrightarrow> length (q_contents q) = n"
  by (simp add: q_contents_rep)

lemma q_inc:
  assumes "q_wf q"
  shows "unat ((x + 1) AND q_index_mask q) = Suc (unat x) mod q_cap q"
proof -
  from assms obtain k where k: "k < 32" "q_cap q = 2 ^ k" "q_index_mask q = mask k" by (auto simp: q_wf_def)
  have "unat (x + 1) mod 2 ^ k = Suc (unat x) mod 2 ^ k"
    using k(1) le_imp_power_dvd [of k 32 "2::nat"] by (simp add: unat_word_ariths mod_mod_cancel)
  then show ?thesis using k unat_and_mask [OF k(3), of "x + 1"] by simp
qed

lemma q_wf_cap: "q_wf q \<Longrightarrow> 0 < q_cap q"
  by (auto simp: q_wf_def)

lemma push_full_rep: "q_rep q n \<Longrightarrow> push_full q \<longleftrightarrow> n = q_cap q"
proof -
  assume r: "q_rep q n"
  then have wf: "q_wf q" by (simp add: q_rep_def)
  show ?thesis
  proof (cases "n = q_cap q")
    case True
    then have "signal (q_buf q ((unat (q_head q) + 0) mod q_cap q)) \<noteq> 0"
      using q_signal [OF r, of 0] q_wf_cap [OF wf] by simp
    then show ?thesis using True r by (simp add: push_full_def q_rep_def)
  next
    case False
    then have "\<not> signal (q_buf q ((unat (q_head q) + n) mod q_cap q)) \<noteq> 0" using r by (auto simp: q_rep_def)
    then show ?thesis using False r by (simp add: push_full_def q_rep_def)
  qed
qed

lemma pop_empty_rep: "q_rep q n \<Longrightarrow> pop_empty q \<longleftrightarrow> n = 0"
proof -
  assume r: "q_rep q n"
  then have wf: "q_wf q" by (simp add: q_rep_def)
  have "signal (q_buf q ((unat (q_head q) + 0) mod q_cap q)) \<noteq> 0 \<longleftrightarrow> 0 < n"
    using r q_wf_cap [OF wf] unfolding q_rep_def by blast
  then show ?thesis using wf by (auto simp: pop_empty_def q_wf_def)
qed

lemma q_cap_ops [simp]: "q_cap (push_store x q) = q_cap q" "q_cap (pop_clear q) = q_cap q"
  "q_index_mask (push_store x q) = q_index_mask q" "q_index_mask (pop_clear q) = q_index_mask q"
  "q_head (push_store x q) = q_head q" "q_tail (pop_clear q) = q_tail q"
  by (simp_all add: q_cap_def push_store_def pop_clear_def)

lemma push_store_rep:
  assumes r: "q_rep q n" and n: "n < q_cap q"
  shows "q_rep (push_store x q) (Suc n)" "q_contents (push_store x q) = q_contents q @ [x]"
proof -
  let ?h = "unat (q_head q)" and ?N = "q_cap q"
  have wf: "q_wf q" and t: "unat (q_tail q) = (?h + n) mod ?N" using r by (auto simp: q_rep_def)
  have t': "unat (q_tail (push_store x q)) = (?h + Suc n) mod ?N"
    using q_inc [OF wf, of "q_tail q"] t by (simp add: push_store_def mod_Suc_eq)
  have b: "q_buf (push_store x q) = (q_buf q)((?h + n) mod ?N := \<lparr>signal = 1, elt_data = x\<rparr>)"
    by (simp add: push_store_def t)
  have "signal (q_buf (push_store x q) ((?h + i) mod ?N)) \<noteq> 0 \<longleftrightarrow> i < Suc n" if "i < ?N" for i
    using that r n ring_slot_inj [of i ?N n ?h] by (cases "i = n") (auto simp: b q_rep_def)
  moreover have "q_wf (push_store x q)" using wf t' q_wf_cap [OF wf] by (simp add: q_wf_def)
  ultimately show rep: "q_rep (push_store x q) (Suc n)" using n t' by (simp add: q_rep_def)
  show "q_contents (push_store x q) = q_contents q @ [x]"
    unfolding q_contents_rep [OF rep] q_contents_rep [OF r]
    using n by (simp add: ring_slice_snoc b ring_slice_upd_end)
qed

lemma pop_clear_rep:
  assumes r: "q_rep q (Suc n)"
  shows "q_rep (pop_clear q) n" "q_contents q = pop_data q # q_contents (pop_clear q)"
proof -
  let ?h = "unat (q_head q)" and ?N = "q_cap q"
  have wf: "q_wf q" and n: "n < ?N" "?h < ?N" using r by (auto simp: q_rep_def q_wf_def)
  have h': "unat (q_head (pop_clear q)) = Suc ?h mod ?N"
    using q_inc [OF wf, of "q_head q"] by (simp add: pop_clear_def)
  have b: "q_buf (pop_clear q) = (q_buf q)(?h mod ?N := (q_buf q ?h)\<lparr>signal := 0\<rparr>)"
    using n by (simp add: pop_clear_def)
  have "signal (q_buf (pop_clear q) ((Suc ?h mod ?N + i) mod ?N)) \<noteq> 0 \<longleftrightarrow> i < n" if "i < ?N" for i
  proof (cases "Suc i = ?N")
    case True
    then have "(Suc ?h mod ?N + i) mod ?N = ?h" using n(2) by (simp add: mod_add_left_eq) (metis add_Suc_right mod_add_self2 mod_less True)
    then show ?thesis using True n by (simp add: b)
  next
    case False
    then have i: "Suc i < ?N" using that by simp
    then have "(?h + Suc i) mod ?N \<noteq> ?h" using ring_slot_inj [of "Suc i" ?N 0 ?h] n(2) by auto
    moreover have "(Suc ?h mod ?N + i) mod ?N = (?h + Suc i) mod ?N" by (simp add: mod_add_left_eq)
    ultimately show ?thesis using q_signal [OF r i] n(2) by (simp add: b)
  qed
  moreover have "unat (q_tail q) = (Suc ?h mod ?N + n) mod ?N" using r by (simp add: q_rep_def mod_add_left_eq)
  moreover have "q_wf (pop_clear q)" using wf h' q_wf_cap [OF wf] by (simp add: q_wf_def)
  ultimately show rep: "q_rep (pop_clear q) n" using n h' by (simp add: q_rep_def)
  show "q_contents q = pop_data q # q_contents (pop_clear q)"
    unfolding q_contents_rep [OF rep] q_contents_rep [OF r]
    using n ring_slice_upd_begin [OF n(1), of "q_buf q" ?h "(q_buf q ?h)\<lparr>signal := 0\<rparr>"]
    by (simp add: ring_slice_Cons h' b pop_data_def)
qed

interpretation shm: fifo Push Pop q_contents q_inv q_cap
proof
  fix s :: "'a queue" and x
  assume "q_inv s" "length (q_contents s) = q_cap s"
  then show "Push x s = (-1, s)" using push_full_rep q_length by (auto simp: Push_def q_inv_def)
next
  fix s :: "'a queue" and x
  assume i: "q_inv s" and l: "length (q_contents s) \<noteq> q_cap s"
  then obtain n where n: "q_rep s n" by (auto simp: q_inv_def)
  then have "n < q_cap s" using l q_length [OF n] by (auto simp: q_rep_def)
  from push_store_rep [OF n this, of x] show "\<exists>t. Push x s = (0, t) \<and> q_inv t \<and> q_cap t = q_cap s \<and> q_contents t = q_contents s @ [x]"
    using push_full_rep [OF n] \<open>n < q_cap s\<close> by (auto simp: Push_def q_inv_def)
next
  fix s :: "'a queue"
  assume "q_inv s" "q_contents s = []"
  then show "Pop s = (None, s)" using pop_empty_rep q_length by (fastforce simp: Pop_def q_inv_def)
next
  fix s :: "'a queue" and x xs
  assume i: "q_inv s" and c: "q_contents s = x # xs"
  then obtain n where n: "q_rep s n" by (auto simp: q_inv_def)
  then obtain m where m: "n = Suc m" using q_length [OF n] c by (cases n) auto
  from pop_clear_rep [OF n [unfolded m]] show "\<exists>t. Pop s = (Some x, t) \<and> q_inv t \<and> q_cap t = q_cap s \<and> q_contents t = xs"
    using pop_empty_rep [OF n] m c by (auto simp: Pop_def q_inv_def)
qed

section \<open>Interleaving the accesses of the two sides\<close>

text \<open>
  The producer tests the signal of its slot, then stores the element; the consumer tests the signal
  of its slot, reads the element, then clears the signal. Each step below is one such access; \<open>pushed\<close>
  and \<open>popped\<close> record what was stored and what was returned.
\<close>

datatype 'a ppc = PIdle | PStore 'a
datatype 'a cpc = CIdle | CRead | CClear 'a

record 'a qsys =
  qsys_q :: "'a queue"
  qsys_p :: "'a ppc"
  qsys_c :: "'a cpc"
  pushed :: "'a list"
  popped :: "'a list"

inductive q_step :: "'a qsys \<Rightarrow> 'a qsys \<Rightarrow> bool" where
  p_full: "\<lbrakk>qsys_p s = PIdle; push_full (qsys_q s)\<rbrakk> \<Longrightarrow> q_step s s"
| p_test: "\<lbrakk>qsys_p s = PIdle; \<not> push_full (qsys_q s)\<rbrakk> \<Longrightarrow> q_step s (s\<lparr>qsys_p := PStore x\<rparr>)"
| p_store: "qsys_p s = PStore x \<Longrightarrow>
    q_step s (s\<lparr>qsys_q := push_store x (qsys_q s), qsys_p := PIdle, pushed := pushed s @ [x]\<rparr>)"
| c_empty: "\<lbrakk>qsys_c s = CIdle; pop_empty (qsys_q s)\<rbrakk> \<Longrightarrow> q_step s s"
| c_test: "\<lbrakk>qsys_c s = CIdle; \<not> pop_empty (qsys_q s)\<rbrakk> \<Longrightarrow> q_step s (s\<lparr>qsys_c := CRead\<rparr>)"
| c_read: "qsys_c s = CRead \<Longrightarrow> q_step s (s\<lparr>qsys_c := CClear (pop_data (qsys_q s))\<rparr>)"
| c_clear: "qsys_c s = CClear x \<Longrightarrow>
    q_step s (s\<lparr>qsys_q := pop_clear (qsys_q s), qsys_c := CIdle, popped := popped s @ [x]\<rparr>)"

definition q_start :: "'a qsys \<Rightarrow> bool" where
  "q_start s \<longleftrightarrow> q_rep (qsys_q s) 0 \<and> qsys_p s = PIdle \<and> qsys_c s = CIdle \<and> pushed s = [] \<and> popped s = []"

inductive q_reachable :: "'a qsys \<Rightarrow> bool" where
  "q_start s \<Longrightarrow> q_reachable s"
| "q_reachable s \<Longrightarrow> q_step s t \<Longrightarrow> q_reachable t"

definition q_sys_inv :: "'a qsys \<Rightarrow> bool" where
  "q_sys_inv s \<longleftrightarrow> (\<exists>n. q_rep (qsys_q s) n \<and> pushed s = popped s @ q_contents (qsys_q s) \<and>
     (case qsys_p s of PIdle \<Rightarrow> True | PStore x \<Rightarrow> n < q_cap (qsys_q s)) \<and>
     (case qsys_c s of CIdle \<Rightarrow> True | CRead \<Rightarrow> 0 < n | CClear x \<Rightarrow> 0 < n \<and> pop_data (qsys_q s) = x))"

lemma pop_data_push: "q_rep q (Suc n) \<Longrightarrow> Suc n < q_cap q \<Longrightarrow> pop_data (push_store x q) = pop_data q"
  using pop_clear_rep(2) [of q n] push_store_rep [of q "Suc n" x] pop_clear_rep(2) [of "push_store x q" "Suc n"]
  by simp

lemma q_sys_inv_step: "q_step s t \<Longrightarrow> q_sys_inv s \<Longrightarrow> q_sys_inv t"
proof (induction rule: q_step.induct)
  case (p_test s x)
  then obtain n where n: "q_rep (qsys_q s) n" "pushed s = popped s @ q_contents (qsys_q s)"
    "case qsys_c s of CIdle \<Rightarrow> True | CRead \<Rightarrow> 0 < n | CClear x \<Rightarrow> 0 < n \<and> pop_data (qsys_q s) = x"
    by (auto simp: q_sys_inv_def)
  moreover have "n < q_cap (qsys_q s)" using push_full_rep [OF n(1)] n(1) p_test by (auto simp: q_rep_def)
  ultimately show ?case by (auto simp: q_sys_inv_def intro!: exI [of _ n] split: cpc.splits)
next
  case (p_store s x)
  then obtain n where n: "q_rep (qsys_q s) n" "pushed s = popped s @ q_contents (qsys_q s)"
    "case qsys_c s of CIdle \<Rightarrow> True | CRead \<Rightarrow> 0 < n | CClear x \<Rightarrow> 0 < n \<and> pop_data (qsys_q s) = x"
    "n < q_cap (qsys_q s)"
    by (auto simp: q_sys_inv_def)
  note st = push_store_rep [OF n(1,4), of x]
  have "pop_data (push_store x (qsys_q s)) = pop_data (qsys_q s)" if "0 < n"
    using pop_data_push [of "qsys_q s" "n - 1"] n that by simp
  then show ?case
    using n st by (auto simp: q_sys_inv_def intro!: exI [of _ "Suc n"] split: cpc.splits)
next
  case (c_test s)
  then obtain n where n: "q_rep (qsys_q s) n" "pushed s = popped s @ q_contents (qsys_q s)"
    "case qsys_p s of PIdle \<Rightarrow> True | PStore x \<Rightarrow> n < q_cap (qsys_q s)"
    by (auto simp: q_sys_inv_def)
  moreover have "0 < n" using pop_empty_rep [OF n(1)] c_test by simp
  ultimately show ?case by (auto simp: q_sys_inv_def intro!: exI [of _ n] split: ppc.splits)
next
  case (c_read s)
  then show ?case by (fastforce simp: q_sys_inv_def split: ppc.splits)
next
  case (c_clear s x)
  then obtain n where n: "q_rep (qsys_q s) n" "pushed s = popped s @ q_contents (qsys_q s)"
    "case qsys_p s of PIdle \<Rightarrow> True | PStore x \<Rightarrow> n < q_cap (qsys_q s)" "0 < n" "pop_data (qsys_q s) = x"
    by (auto simp: q_sys_inv_def)
  then obtain m where m: "n = Suc m" by (cases n) auto
  note cl = pop_clear_rep [OF n(1) [unfolded m]]
  have "m < q_cap (qsys_q s)" using n(1) m by (simp add: q_rep_def)
  then show ?case using n m cl by (auto simp: q_sys_inv_def intro!: exI [of _ m] split: ppc.splits)
qed simp_all

lemma q_reachable_inv: "q_reachable s \<Longrightarrow> q_sys_inv s"
proof (induction rule: q_reachable.induct)
  case (1 s)
  then have "q_contents (qsys_q s) = []" using q_length [of "qsys_q s" 0] by (simp add: q_start_def)
  then show ?case using 1 by (auto simp: q_sys_inv_def q_start_def)
qed (rule q_sys_inv_step)

section \<open>Properties\<close>

text \<open>
  C12: On every sequence of pushes and pops the shared queue behaves like a list of bounded length:
  each push reports success exactly when there is room, each pop returns the oldest element, and
  nothing is lost, duplicated or reordered, however often the indices wrap around.
\<close>

theorem queue_refines_list:
  assumes "q_inv q"
  shows "fst (run_ops Push Pop ops q) = fst (run_ops (list_enq (q_cap q)) list_deq ops (q_contents q)) \<and>
    q_contents (snd (run_ops Push Pop ops q)) = snd (run_ops (list_enq (q_cap q)) list_deq ops (q_contents q))"
  using shm.simulates [OF assms] by blast

definition queue_empty :: "nat queue" where
  "queue_empty = \<lparr>q_buf = (\<lambda>_. \<lparr>signal = 0, elt_data = 0\<rparr>), q_capacity = 4, q_index_mask = 3, q_tail = 3, q_head = 3\<rparr>"

lemma queue_empty_rep: "q_rep queue_empty 0"
  by (auto simp: q_rep_def q_wf_def q_cap_def queue_empty_def mask_eq_exp_minus_1 intro!: exI [of _ 2])

theorem queue_refines_list_witness:
  "fst (run_ops Push Pop [Enq 5, Enq 6, Deq, Enq 7, Deq] queue_empty) =
     [Pushed True, Pushed True, Popped (Some 5), Pushed True, Popped (Some 6)]"
proof -
  have "q_inv queue_empty" using queue_empty_rep by (auto simp: q_inv_def)
  from queue_refines_list [OF this, of "[Enq 5, Enq 6, Deq, Enq 7, Deq]"] show ?thesis
    using q_length [OF queue_empty_rep]
    by (simp add: list_enq_def list_deq_def q_cap_def queue_empty_def)
qed

text \<open>
  C11: However the single memory accesses of the producer and the consumer interleave, what the
  consumer has returned followed by what is in the queue is what the producer has stored, in order:
  the queue needs no lock.
\<close>

theorem queue_interleaving_fifo:
  assumes "q_reachable s"
  shows "pushed s = popped s @ q_contents (qsys_q s) \<and> length (q_contents (qsys_q s)) \<le> q_cap (qsys_q s)"
  using q_reachable_inv [OF assms] q_length by (auto simp: q_sys_inv_def q_rep_def)

theorem queue_interleaving_fifo_witness:
  "\<exists>s :: nat qsys. q_reachable s \<and> popped s = [] \<and> pushed s = q_contents (qsys_q s) \<and> pushed s = [5]"
proof -
  let ?s = "\<lparr>qsys_q = queue_empty, qsys_p = PIdle, qsys_c = CIdle, pushed = [], popped = []\<rparr>"
  let ?t = "\<lparr>qsys_q = push_store 5 queue_empty, qsys_p = PIdle, qsys_c = CIdle, pushed = [5], popped = []\<rparr>"
  have "q_reachable ?s" using queue_empty_rep by (intro q_reachable.intros(1)) (simp add: q_start_def)
  moreover have "\<not> push_full queue_empty" by (simp add: push_full_def queue_empty_def)
  then have "q_step ?s (?s\<lparr>qsys_p := PStore 5\<rparr>)" by (intro p_test) simp_all
  moreover have "q_step (?s\<lparr>qsys_p := PStore 5\<rparr>) ?t" using p_store [of "?s\<lparr>qsys_p := PStore 5\<rparr>" 5] by simp
  ultimately have "q_reachable ?t" by (blast intro: q_reachable.intros(2))
  with queue_interleaving_fifo [OF this] show ?thesis by (intro exI [of _ ?t]) simp
qed

lemma producer_sync_count:
  assumes "\<And>j. j < 2 ^ k \<Longrightarrow> signal (buf j) \<noteq> 0 \<longleftrightarrow> j < n" "n < 2 ^ k" "k < 32" "m < n" "n \<le> m + r"
  shows "producer_sync buf (mask k) r (of_nat m) t = of_nat n"
  using assms(4,5)
proof (induction r arbitrary: m t)
  case (Suc r)
  have p: "(2::nat) ^ k < 2 ^ 32" using assms(3) by (intro power_strict_increasing) simp_all
  have m: "unat (of_nat m :: u32) = m" using Suc.prems(1) assms(2) p by (intro unat_of_nat_small) simp
  have "unat (of_nat m + 1 :: u32) = Suc m"
    using Suc.prems(1) assms(2) p m unat_plus_small [of "of_nat m :: u32" 1] by simp
  then have m1: "unat ((of_nat m + 1 :: u32) AND mask k) = Suc m"
    using Suc.prems(1) assms(2) unat_and_mask [OF refl, of "of_nat m + 1 :: u32" k] by simp
  then have e: "(of_nat m + 1 :: u32) AND mask k = of_nat (Suc m)"
    using Suc.prems(1) assms(2) p unat_of_nat_small [of "Suc m", where ?'a = 32] by (simp add: word_unat_eq_iff)
  show ?case
  proof (cases "Suc m = n")
    case True
    then show ?thesis using m m1 e assms(1) [of m] assms(1) [of "Suc m"] Suc.prems assms(2) by (simp add: Let_def)
  next
    case False
    then show ?thesis
      using m m1 e assms(1) [of m] assms(1) [of "Suc m"] Suc.prems assms(2) Suc.IH [of "Suc m" "of_nat (Suc m)"]
      by (simp add: Let_def add.commute)
  qed
qed simp

lemma unat_mask_u32:
  assumes "k < 32"
  shows "unat (mask k :: u32) = 2 ^ k - 1"
proof -
  have "(2::nat) ^ k \<le> 2 ^ 32" using assms by (intro power_increasing) simp_all
  then have "unat (of_nat (2 ^ k - 1) :: u32) = 2 ^ k - 1" by (intro unat_of_nat_small) simp
  moreover have "(of_nat (2 ^ k - 1) :: u32) = mask k"
    using of_nat_mask_eq [of k, where ?'a = "u32"] by (simp add: mask_eq_exp_minus_1)
  ultimately show ?thesis by simp
qed

text \<open>
  Joining an existing queue that holds elements from its first slot on, and is not full: the
  producer finds the right position, but the consumer always takes the queue for a full one and
  fails.
\<close>

theorem queue_join_nonempty:
  fixes s :: "'a queue_side"
  assumes "\<not> qs_created s" "unat (qs_capacity s) = 2 ^ k" "k < 32" "qs_index_mask s = mask k"
    "\<And>j. j < 2 ^ k \<Longrightarrow> signal (qs_mem s j) \<noteq> 0 \<longleftrightarrow> j < n" "0 < n" "n < 2 ^ k"
  shows "producer_join s = Ok (of_nat n) \<and> consumer_join s = Err"
proof -
  have "producer_sync (qs_mem s) (mask k) (2 ^ k) (of_nat 0) 0 = of_nat n"
    using assms(3,5-7) by (intro producer_sync_count) auto
  moreover have "(of_nat n :: u32) \<noteq> 0"
  proof -
    have "(2::nat) ^ k < 2 ^ 32" using assms(3) by (intro power_strict_increasing) simp_all
    then have "unat (of_nat n :: u32) = n" using assms(7) by (intro unat_of_nat_small) simp
    then show ?thesis using assms(6) by auto
  qed
  ultimately have p: "producer_join s = Ok (of_nat n)" using assms(1,2,4) by (simp add: producer_join_def)
  obtain c where c: "(2::nat) ^ k = Suc c" by (cases "(2::nat) ^ k") auto
  have "unat (mask k :: u32) = 2 ^ k - 1"
    using assms(3) by (rule unat_mask_u32)
  then have last: "unat ((0 - 1 :: u32) AND mask k) = c" using c by simp
  have "signal (qs_mem s c) = 0" using assms(5) [of c] assms(7) c by simp
  then have "consumer_sync (qs_mem s) (mask k) (Suc c) 0 = 0" using last by (simp add: Let_def)
  moreover have "signal (qs_mem s 0) \<noteq> 0" using assms(5) [of 0] assms(6) by simp
  ultimately have "consumer_join s = Err" using assms(1,2,4) c by (simp add: consumer_join_def)
  with p show ?thesis by simp
qed

theorem queue_join_nonempty_witness:
  "consumer_join \<lparr>qs_size = 256, qs_capacity = 4, qs_index_mask = 3, qs_created = False,
     qs_mem = (\<lambda>j. \<lparr>signal = if j < 2 then 1 else 0, elt_data = j\<rparr>)\<rparr> = Err"
  using queue_join_nonempty [of "\<lparr>qs_size = 256, qs_capacity = 4, qs_index_mask = 3, qs_created = False,
     qs_mem = (\<lambda>j. \<lparr>signal = if j < 2 then 1 else 0, elt_data = j\<rparr>)\<rparr>" 2 2]
  by (simp add: mask_eq_exp_minus_1)

end
