(* ===== verification/Dev_Backend.thy ===== *)
theory Dev_Backend
  imports Enso_Types
begin

text \<open>
  The interface between the library and a device backend: the methods of \<^verbatim>\<open>DevBackend\<close> that the
  library calls, as a record of functions over the state \<open>'b\<close> of the backend. The build selects one
  of two classes of this name: \<^verbatim>\<open>backends/intel_fpga/dev_backend.h\<close> over the kernel driver, and
  \<^verbatim>\<open>backends/software/dev_backend.h\<close> over shared-memory queues, which is \<open>soft_backend\<close> of
  \<open>Soft_Backend\<close>. \<open>None\<close> is a call that never returns.
\<close>

record 'b backend =
  be_GetNbFallbackQueues :: "'b \<Rightarrow> (int \<times> 'b) option"
  be_SetRrStatus :: "bool \<Rightarrow> 'b \<Rightarrow> (int \<times> 'b) option"
  be_GetRrStatus :: "'b \<Rightarrow> (int \<times> 'b) option"
  be_AllocateNotifBuf :: "'b \<Rightarrow> (int \<times> 'b) option"
  be_FreeNotifBuf :: "int \<Rightarrow> 'b \<Rightarrow> (int \<times> 'b) option"
  be_AllocatePipe :: "bool \<Rightarrow> 'b \<Rightarrow> (int \<times> 'b) option"
  be_FreePipe :: "int \<Rightarrow> 'b \<Rightarrow> (int \<times> 'b) option"
  be_ConvertVirtAddrToDevAddr :: "u64 \<Rightarrow> 'b \<Rightarrow> (u64 \<times> 'b) option"

text \<open>
  The wrappers of \<^verbatim>\<open>pcie.cpp\<close> that only forward to the backend stored in the notification buffer
  pair.
\<close>

definition pcie_get_nb_fallback_queues :: "'b backend \<Rightarrow> 'b \<Rightarrow> (int \<times> 'b) option" where
  "pcie_get_nb_fallback_queues be = be_GetNbFallbackQueues be"

definition set_round_robin_status :: "'b backend \<Rightarrow> bool \<Rightarrow> 'b \<Rightarrow> (int \<times> 'b) option" where
  "set_round_robin_status be round_robin = be_SetRrStatus be round_robin"

definition get_round_robin_status :: "'b backend \<Rightarrow> 'b \<Rightarrow> (int \<times> 'b) option" where
  "get_round_robin_status be = be_GetRrStatus be"

definition get_dev_addr_from_virt_addr :: "'b backend \<Rightarrow> u64 \<Rightarrow> 'b \<Rightarrow> (u64 \<times> 'b) option" where
  "get_dev_addr_from_virt_addr be virt_addr = be_ConvertVirtAddrToDevAddr be virt_addr"

end
