(* ===== verification/Enso_Config.thy ===== *)
theory Enso_Config
  imports Dev_Backend Tx_Completions
begin

text \<open>
  \<^verbatim>\<open>software/src/enso/config.cpp\<close>: the configuration messages of the data plane. Every message is a
  packed 64-byte structure that is cast to a TX notification and sent by \<open>send_config\<close>; \<open>pack\<close> gives
  the eight 64-bit words that the cast reads. Bytes the code does not initialise (the padding, and
  the fields a "disable" message leaves out) come from \<open>junk\<close>.
\<close>

section \<open>Messages\<close>

definition FLOW_TABLE_CONFIG_ID :: u64 where "FLOW_TABLE_CONFIG_ID = 1"
definition TIMESTAMP_CONFIG_ID :: u64 where "TIMESTAMP_CONFIG_ID = 2"
definition RATE_LIMIT_CONFIG_ID :: u64 where "RATE_LIMIT_CONFIG_ID = 3"
definition FALLBACK_QUEUES_CONFIG_ID :: u64 where "FALLBACK_QUEUES_CONFIG_ID = 4"

datatype config =
  FlowTableConfig (fc_dst_port: u16) (fc_src_port: u16) (fc_dst_ip: u32) (fc_src_ip: u32)
    (fc_protocol: u32) (fc_enso_pipe_id: u32)
| TimestampConfig (tc_enable: u64) (tc_offset: u64)
| RateLimitConfig (rc_denominator: u16) (rc_numerator: u16) (rc_enable: u32)
| FallbackQueueConfig (qc_nb_fallback_queues: u32) (qc_fallback_queue_mask: u32) (qc_enable_rr: u64)

text \<open>Little-endian layout: the first field of a word is in its low bits.\<close>

definition word32_32 :: "u32 \<Rightarrow> u32 \<Rightarrow> u64" where
  "word32_32 lo hi = ucast lo OR push_bit 32 (ucast hi)"

definition word16_16_32 :: "u16 \<Rightarrow> u16 \<Rightarrow> u32 \<Rightarrow> u64" where
  "word16_16_32 a b hi = ucast a OR push_bit 16 (ucast b) OR push_bit 32 (ucast hi)"

fun pack :: "(nat \<Rightarrow> u64) \<Rightarrow> config \<Rightarrow> TxNotification" where
  "pack junk (FlowTableConfig dp sp di si pr pid) =
     \<lparr>tx_signal = 2, tx_phys_addr = FLOW_TABLE_CONFIG_ID, tx_length = word16_16_32 dp sp di,
      tx_pad = [word32_32 si pr, word32_32 pid (ucast (junk 4)), junk 5, junk 6, junk 7]\<rparr>"
| "pack junk (TimestampConfig en off) =
     \<lparr>tx_signal = 2, tx_phys_addr = TIMESTAMP_CONFIG_ID, tx_length = en,
      tx_pad = [off, junk 4, junk 5, junk 6, junk 7]\<rparr>"
| "pack junk (RateLimitConfig den num en) =
     \<lparr>tx_signal = 2, tx_phys_addr = RATE_LIMIT_CONFIG_ID, tx_length = word16_16_32 den num en,
      tx_pad = [junk 3, junk 4, junk 5, junk 6, junk 7]\<rparr>"
| "pack junk (FallbackQueueConfig n m rr) =
     \<lparr>tx_signal = 2, tx_phys_addr = FALLBACK_QUEUES_CONFIG_ID, tx_length = word32_32 n m,
      tx_pad = [rr, junk 4, junk 5, junk 6, junk 7]\<rparr>"

section \<open>Operations\<close>

definition insert_flow_entry :: "(nat \<Rightarrow> u64) \<Rightarrow> nic \<Rightarrow> NotificationBufPair \<Rightarrow> u16 \<Rightarrow> u16 \<Rightarrow> u32 \<Rightarrow> u32 \<Rightarrow>
    u32 \<Rightarrow> u32 \<Rightarrow> (int \<times> NotificationBufPair) option" where
  "insert_flow_entry junk nic nb dst_port src_port dst_ip src_ip protocol enso_pipe_id =
     send_config nic nb (pack junk (FlowTableConfig dst_port src_port dst_ip src_ip protocol enso_pipe_id))"

definition enable_timestamp :: "(nat \<Rightarrow> u64) \<Rightarrow> nic \<Rightarrow> NotificationBufPair \<Rightarrow> u8 \<Rightarrow>
    (int \<times> NotificationBufPair) option" where
  "enable_timestamp junk nic nb offset =
     (if offset > 60 then Some (-1, nb)
      else send_config nic nb (pack junk (TimestampConfig (-1) (ucast offset))))"

definition disable_timestamp :: "(nat \<Rightarrow> u64) \<Rightarrow> nic \<Rightarrow> NotificationBufPair \<Rightarrow>
    (int \<times> NotificationBufPair) option" where
  "disable_timestamp junk nic nb = send_config nic nb (pack junk (TimestampConfig 0 (junk 3)))"

definition enable_rate_limit :: "(nat \<Rightarrow> u64) \<Rightarrow> nic \<Rightarrow> NotificationBufPair \<Rightarrow> u16 \<Rightarrow> u16 \<Rightarrow>
    (int \<times> NotificationBufPair) option" where
  "enable_rate_limit junk nic nb num den = send_config nic nb (pack junk (RateLimitConfig den num (-1)))"

definition disable_rate_limit :: "(nat \<Rightarrow> u64) \<Rightarrow> nic \<Rightarrow> NotificationBufPair \<Rightarrow>
    (int \<times> NotificationBufPair) option" where
  "disable_rate_limit junk nic nb =
     send_config nic nb (pack junk (RateLimitConfig (ucast (junk 0)) (ucast (junk 1)) 0))"

text \<open>The loop that rounds the number of fallback queues down to a power of two.\<close>

function bit_cnt :: "u32 \<Rightarrow> u32 \<Rightarrow> u32" where
  "bit_cnt n cnt = (if n = 0 then cnt else bit_cnt (drop_bit 1 n) (cnt + 1))"
  by pat_completeness auto
termination
proof (relation "measure (unat \<circ> fst)")
  fix n cnt :: u32 assume "n \<noteq> 0"
  then have "0 < unat n" by (simp add: unat_gt_0)
  then have "unat n div 2 < unat n" by simp
  then show "((drop_bit 1 n, cnt + 1), n, cnt) \<in> measure (unat \<circ> fst)"
    by (simp add: drop_bit_eq_div unat_div)
qed simp

declare bit_cnt.simps [simp del]

definition fallback_queue_mask :: "u32 \<Rightarrow> u32" where
  "fallback_queue_mask nb_fallback_queues =
     (let cnt = bit_cnt nb_fallback_queues 0 in
      if cnt \<noteq> 0 then push_bit (unat (cnt - 1)) 1 - 1 else 0)"

definition configure_fallback_queues :: "(nat \<Rightarrow> u64) \<Rightarrow> nic \<Rightarrow> NotificationBufPair \<Rightarrow> u32 \<Rightarrow> bool \<Rightarrow>
    (int \<times> NotificationBufPair) option" where
  "configure_fallback_queues junk nic nb nb_fallback_queues enable_rr =
     send_config nic nb (pack junk (FallbackQueueConfig nb_fallback_queues
       (fallback_queue_mask nb_fallback_queues) (if enable_rr then -1 else 0)))"

definition set_round_robin :: "'b backend \<Rightarrow> (nat \<Rightarrow> u64) \<Rightarrow> nic \<Rightarrow> NotificationBufPair \<Rightarrow> 'b \<Rightarrow> bool \<Rightarrow>
    (int \<times> NotificationBufPair \<times> 'b) option" where
  "set_round_robin be junk nic nb b enable_rr =
     Option.bind (pcie_get_nb_fallback_queues be b) (\<lambda>(n, b1).
       if n < 0 then Some (n, nb, b1)
       else Option.bind (set_round_robin_status be enable_rr b1) (\<lambda>(r, b2).
         if r \<noteq> 0 then Some (-1, nb, b2)
         else map_option (\<lambda>(r', nb'). (r', nb', b2))
           (configure_fallback_queues junk nic nb (of_int n) enable_rr)))"

definition enable_round_robin where "enable_round_robin be junk nic nb b = set_round_robin be junk nic nb b True"
definition disable_round_robin where "disable_round_robin be junk nic nb b = set_round_robin be junk nic nb b False"

definition update_fallback_queues_config :: "'b backend \<Rightarrow> (nat \<Rightarrow> u64) \<Rightarrow> nic \<Rightarrow> NotificationBufPair \<Rightarrow> 'b \<Rightarrow>
    (int \<times> NotificationBufPair \<times> 'b) option" where
  "update_fallback_queues_config be junk nic nb b =
     Option.bind (get_round_robin_status be b) (\<lambda>(rr, b1).
       if rr < 0 then Some (rr, nb, b1)
       else Option.bind (pcie_get_nb_fallback_queues be b1) (\<lambda>(n, b2).
         if n < 0 then Some (n, nb, b2)
         else map_option (\<lambda>(r', nb'). (r', nb', b2))
           (configure_fallback_queues junk nic nb (of_int n) (rr \<noteq> 0))))"

section \<open>What the NIC reads back\<close>

definition unpack :: "TxNotification \<Rightarrow> config option" where
  "unpack m =
     (if tx_phys_addr m = FLOW_TABLE_CONFIG_ID then
        Some (FlowTableConfig (ucast (tx_length m)) (ucast (drop_bit 16 (tx_length m)))
          (ucast (drop_bit 32 (tx_length m))) (ucast (tx_pad m ! 0)) (ucast (drop_bit 32 (tx_pad m ! 0)))
          (ucast (tx_pad m ! 1)))
      else if tx_phys_addr m = TIMESTAMP_CONFIG_ID then Some (TimestampConfig (tx_length m) (tx_pad m ! 0))
      else if tx_phys_addr m = RATE_LIMIT_CONFIG_ID then
        Some (RateLimitConfig (ucast (tx_length m)) (ucast (drop_bit 16 (tx_length m)))
          (ucast (drop_bit 32 (tx_length m))))
      else if tx_phys_addr m = FALLBACK_QUEUES_CONFIG_ID then
        Some (FallbackQueueConfig (ucast (tx_length m)) (ucast (drop_bit 32 (tx_length m))) (tx_pad m ! 0))
      else None)"

lemma word32_32_fields [simp]:
  "ucast (word32_32 lo hi) = lo" "ucast (drop_bit 32 (word32_32 lo hi)) = hi"
  by (auto simp: word32_32_def bit_eq_iff bit_simps dest: bit_imp_le_length)

lemma word16_16_32_fields [simp]:
  "ucast (word16_16_32 a b hi) = a" "ucast (drop_bit 16 (word16_16_32 a b hi)) = b"
  "ucast (drop_bit 32 (word16_16_32 a b hi)) = hi"
  by (auto simp: word16_16_32_def bit_eq_iff bit_simps dest: bit_imp_le_length)

lemmas config_id_defs = FLOW_TABLE_CONFIG_ID_def TIMESTAMP_CONFIG_ID_def RATE_LIMIT_CONFIG_ID_def
  FALLBACK_QUEUES_CONFIG_ID_def

lemma unpack_pack: "unpack (pack junk c) = Some c" "tx_signal (pack junk c) = 2" "length (tx_pad (pack junk c)) = 5"
  by (cases c; simp add: unpack_def config_id_defs)+

section \<open>The mask of fallback queues\<close>

lemma bit_cnt_power:
  assumes "2 ^ k \<le> unat n" "unat n < 2 ^ Suc k"
  shows "bit_cnt n cnt = cnt + of_nat (Suc k)"
  using assms
proof (induction k arbitrary: n cnt)
  case 0
  then have "unat n = 1" by simp
  then have "n = 1" by (simp add: word_unat_eq_iff)
  then show ?case by (simp add: bit_cnt.simps [of 1] bit_cnt.simps [of 0])
next
  case (Suc k)
  have ne: "n \<noteq> 0" using Suc.prems by auto
  have half: "unat (drop_bit (Suc 0) n) = unat n div 2" by (simp add: drop_bit_eq_div unat_div)
  have "bit_cnt (drop_bit 1 n) (cnt + 1) = cnt + 1 + of_nat (Suc k)"
    using Suc.prems by (intro Suc.IH) (simp_all add: half)
  then show ?case using ne by (subst bit_cnt.simps) simp
qed

lemma fallback_queue_mask_power:
  assumes "2 ^ k \<le> unat n" "unat n < 2 ^ Suc k"
  shows "fallback_queue_mask n = 2 ^ k - 1"
proof -
  have "(2::nat) ^ k < 2 ^ 32" using assms(1) unsigned_less [of n, where ?'a = nat] by simp
  then have k: "k < 32" by (rule power_less_imp_less_exp [rotated]) simp
  then have "unat (of_nat k :: u32) = k" by (intro unat_of_nat_small) simp
  moreover have "(of_nat (Suc k) :: u32) \<noteq> 0"
  proof
    assume "(of_nat (Suc k) :: u32) = 0"
    then have "unat (of_nat (Suc k) :: u32) = 0" by simp
    moreover have "unat (of_nat (Suc k) :: u32) = Suc k" using k by (intro unat_of_nat_small) simp
    ultimately show False by simp
  qed
  ultimately show ?thesis
    using bit_cnt_power [OF assms, of 0] by (simp add: fallback_queue_mask_def Let_def push_bit_of_1)
qed

section \<open>Properties\<close>


text \<open>
  C31: The mask of the fallback queues. For any number of fallback queues but zero the mask is one
  less than the largest power of two that does not exceed it, so a masked hash selects an existing
  queue; for zero queues it is zero.
\<close>

theorem fallback_mask_selects:
  "if n = 0 then fallback_queue_mask n = 0
   else \<exists>k. fallback_queue_mask n = 2 ^ k - 1 \<and> 2 ^ k \<le> unat n \<and> unat n < 2 ^ Suc k \<and>
     (\<forall>h. h AND fallback_queue_mask n < n)"
proof (cases "n = 0")
  case True
  then show ?thesis by (simp add: fallback_queue_mask_def bit_cnt.simps [of 0])
next
  case False
  then have pos: "0 < unat n" by (simp add: unat_gt_0)
  then obtain k where k: "2 ^ k \<le> unat n" "unat n < 2 ^ Suc k"
    using ex_power_ivl1 [of 2 "unat n"] by auto
  note m = fallback_queue_mask_power [OF k]
  have "h AND fallback_queue_mask n < n" for h
  proof -
    have "unat (h AND fallback_queue_mask n) = unat h mod 2 ^ k"
      unfolding m by (rule unat_and_mask) (simp add: mask_eq_exp_minus_1)
    also have "\<dots> < 2 ^ k" by simp
    finally show ?thesis using k(1) by (simp add: word_less_nat_alt)
  qed
  with False m k show ?thesis by auto
qed

end
