(* ===== verification/Soft_Backend.thy ===== *)
theory Soft_Backend
  imports Dev_Backend Ipc_Queue
begin

text \<open>
  The software backend, \<^verbatim>\<open>backends/software/dev_backend.h\<close>: every method of \<^verbatim>\<open>DevBackend\<close> is a
  message to the process that emulates the NIC, over one shared-memory queue, and a wait for its
  answer on another one. The other process is a parameter, \<open>peer\<close>, that acts once at every turn of a
  waiting loop. \<open>junk\<close> stands for message fields the code leaves uninitialised.
\<close>

section \<open>Messages (consts.h)\<close>

datatype NotifType = kWrite | kRead | kTranslAddr | kAllocatePipe | kAllocateNotifBuf |
  kGetNbFallbackQueues | kSetRrStatus | kGetRrStatus | kFreeNotifBuf | kFreePipe

text \<open>
  All message structures have a type and two 64-bit words and are cast to \<^verbatim>\<open>PipeNotification\<close>;
  \<open>data0\<close> and \<open>data1\<close> are the two words.
\<close>

record PipeNotification =
  pn_type :: NotifType
  data0 :: u64
  data1 :: u64

abbreviation message :: "NotifType \<Rightarrow> u64 \<Rightarrow> u64 \<Rightarrow> PipeNotification" where
  "message t a b \<equiv> \<lparr>pn_type = t, data0 = a, data1 = b\<rparr>"

record 'p soft =
  queue_to_backend :: "PipeNotification queue"
  queue_from_backend :: "PipeNotification queue"
  sb_peer :: 'p

section \<open>Methods\<close>

partial_function (option) push_wait :: "('p soft \<Rightarrow> 'p soft) \<Rightarrow> PipeNotification \<Rightarrow> 'p soft \<Rightarrow> 'p soft option" where
  "push_wait peer m s =
     (if fst (Push m (queue_to_backend s)) \<noteq> 0 then push_wait peer m (peer s)
      else Some (s\<lparr>queue_to_backend := snd (Push m (queue_to_backend s))\<rparr>))"

partial_function (option) pop_wait :: "('p soft \<Rightarrow> 'p soft) \<Rightarrow> 'p soft \<Rightarrow> (PipeNotification \<times> 'p soft) option" where
  "pop_wait peer s =
     (case fst (Pop (queue_from_backend s)) of
        None \<Rightarrow> pop_wait peer (peer s)
      | Some m \<Rightarrow> Some (m, s\<lparr>queue_from_backend := snd (Pop (queue_from_backend s))\<rparr>))"

definition transact :: "('p soft \<Rightarrow> 'p soft) \<Rightarrow> PipeNotification \<Rightarrow> 'p soft \<Rightarrow> (PipeNotification \<times> 'p soft) option" where
  "transact peer m s = Option.bind (push_wait peer m s) (pop_wait peer)"

text \<open>The conversion of a 64-bit field to the return type \<^verbatim>\<open>int\<close>.\<close>

definition to_int :: "u64 \<Rightarrow> int" where
  "to_int w = sint (ucast w :: u32)"

definition mmio_write32 :: "('p soft \<Rightarrow> 'p soft) \<Rightarrow> u64 \<Rightarrow> u32 \<Rightarrow> 'p soft \<Rightarrow> 'p soft option" where
  "mmio_write32 peer addr v s = push_wait peer (message kWrite addr (ucast v)) s"

definition mmio_read32 :: "('p soft \<Rightarrow> 'p soft) \<Rightarrow> u64 \<Rightarrow> 'p soft \<Rightarrow> (u32 \<times> 'p soft) option" where
  "mmio_read32 peer addr s =
     map_option (\<lambda>(r, s'). (ucast (data1 r), s')) (transact peer (message kRead addr 0) s)"

definition soft_ConvertVirtAddrToDevAddr ::
    "(u64 \<Rightarrow> u64) \<Rightarrow> ('p soft \<Rightarrow> 'p soft) \<Rightarrow> u64 \<Rightarrow> 'p soft \<Rightarrow> (u64 \<times> 'p soft) option" where
  "soft_ConvertVirtAddrToDevAddr virt_to_phys peer virt_addr s =
     map_option (\<lambda>(r, s'). (data1 r, s')) (transact peer (message kTranslAddr (virt_to_phys virt_addr) 0) s)"

definition soft_GetNbFallbackQueues ::
    "(nat \<Rightarrow> u64) \<Rightarrow> ('p soft \<Rightarrow> 'p soft) \<Rightarrow> 'p soft \<Rightarrow> (int \<times> 'p soft) option" where
  "soft_GetNbFallbackQueues junk peer s =
     map_option (\<lambda>(r, s'). (to_int (data0 r), s')) (transact peer (message kGetNbFallbackQueues (junk 0) (junk 1)) s)"

definition soft_SetRrStatus ::
    "(nat \<Rightarrow> u64) \<Rightarrow> ('p soft \<Rightarrow> 'p soft) \<Rightarrow> bool \<Rightarrow> 'p soft \<Rightarrow> (int \<times> 'p soft) option" where
  "soft_SetRrStatus junk peer round_robin s =
     map_option (\<lambda>(r, s'). (to_int (data1 r), s'))
       (transact peer (message kSetRrStatus (if round_robin then 1 else 0) (junk 1)) s)"

definition soft_GetRrStatus ::
    "(nat \<Rightarrow> u64) \<Rightarrow> ('p soft \<Rightarrow> 'p soft) \<Rightarrow> 'p soft \<Rightarrow> (int \<times> 'p soft) option" where
  "soft_GetRrStatus junk peer s =
     map_option (\<lambda>(r, s'). (to_int (data0 r), s')) (transact peer (message kGetRrStatus (junk 0) (junk 1)) s)"

definition soft_AllocateNotifBuf ::
    "(nat \<Rightarrow> u64) \<Rightarrow> ('p soft \<Rightarrow> 'p soft) \<Rightarrow> 'p soft \<Rightarrow> (int \<times> 'p soft) option" where
  "soft_AllocateNotifBuf junk peer s =
     map_option (\<lambda>(r, s'). (to_int (data0 r), s')) (transact peer (message kAllocateNotifBuf (junk 0) (junk 1)) s)"

text \<open>The identifier of the buffer to free is not part of the message.\<close>

definition soft_FreeNotifBuf ::
    "(nat \<Rightarrow> u64) \<Rightarrow> ('p soft \<Rightarrow> 'p soft) \<Rightarrow> int \<Rightarrow> 'p soft \<Rightarrow> (int \<times> 'p soft) option" where
  "soft_FreeNotifBuf junk peer notif_buf_id s =
     map_option (\<lambda>(r, s'). (to_int (data1 r), s')) (transact peer (message kFreeNotifBuf (junk 0) (junk 1)) s)"

definition soft_AllocatePipe ::
    "(nat \<Rightarrow> u64) \<Rightarrow> ('p soft \<Rightarrow> 'p soft) \<Rightarrow> bool \<Rightarrow> 'p soft \<Rightarrow> (int \<times> 'p soft) option" where
  "soft_AllocatePipe junk peer fallback s =
     map_option (\<lambda>(r, s'). (to_int (data1 r), s'))
       (transact peer (message kAllocatePipe (if fallback then 1 else 0) (junk 1)) s)"

definition soft_FreePipe ::
    "(nat \<Rightarrow> u64) \<Rightarrow> ('p soft \<Rightarrow> 'p soft) \<Rightarrow> int \<Rightarrow> 'p soft \<Rightarrow> (int \<times> 'p soft) option" where
  "soft_FreePipe junk peer pipe_id s =
     map_option (\<lambda>(r, s'). (to_int (data1 r), s')) (transact peer (message kFreePipe (of_int pipe_id) (junk 1)) s)"

definition soft_backend :: "(nat \<Rightarrow> u64) \<Rightarrow> (u64 \<Rightarrow> u64) \<Rightarrow> ('p soft \<Rightarrow> 'p soft) \<Rightarrow> 'p soft backend" where
  "soft_backend junk virt_to_phys peer =
     \<lparr>be_GetNbFallbackQueues = soft_GetNbFallbackQueues junk peer, be_SetRrStatus = soft_SetRrStatus junk peer,
      be_GetRrStatus = soft_GetRrStatus junk peer, be_AllocateNotifBuf = soft_AllocateNotifBuf junk peer,
      be_FreeNotifBuf = soft_FreeNotifBuf junk peer, be_AllocatePipe = soft_AllocatePipe junk peer,
      be_FreePipe = soft_FreePipe junk peer,
      be_ConvertVirtAddrToDevAddr = soft_ConvertVirtAddrToDevAddr virt_to_phys peer\<rparr>"

text \<open>\<^verbatim>\<open>Init\<close>: both queues are named after the CPU the caller runs on.\<close>

definition ipc_queue_name :: "string \<Rightarrow> string \<Rightarrow> string" where
  "ipc_queue_name prefix core = prefix @ core @ ''_''"

definition soft_Init :: "int \<Rightarrow> string \<Rightarrow> (string \<Rightarrow> (PipeNotification queue_side \<times> u32) init_result) \<Rightarrow>
    (string \<Rightarrow> (PipeNotification queue_side \<times> u32) init_result) \<Rightarrow>
    (int \<times> ((PipeNotification queue_side \<times> u32) \<times> (PipeNotification queue_side \<times> u32)) option) init_result" where
  "soft_Init core_id core_str producer consumer =
     (if core_id < 0 then Ok (-1, None)
      else case producer (ipc_queue_name ''enso_ipc_queue_from_app'' core_str) of
             Abort \<Rightarrow> Abort
           | Err \<Rightarrow> Ok (-1, None)
           | Ok p \<Rightarrow>
               (case consumer (ipc_queue_name ''enso_ipc_queue_to_app'' core_str) of
                  Abort \<Rightarrow> Abort
                | Err \<Rightarrow> Ok (-1, None)
                | Ok c \<Rightarrow> Ok (0, Some (p, c))))"

section \<open>A peer that serves requests in order\<close>

text \<open>
  \<open>serve h\<close> takes the oldest request, applies \<open>h\<close> to it and sends the answer, except to a register
  write, which has none.
\<close>

definition serve :: "(PipeNotification \<Rightarrow> 'p \<Rightarrow> PipeNotification \<times> 'p) \<Rightarrow> 'p soft \<Rightarrow> 'p soft" where
  "serve h s =
     (case Pop (queue_to_backend s) of
        (None, _) \<Rightarrow> s
      | (Some m, q) \<Rightarrow>
          let (r, p) = h m (sb_peer s) in
          s\<lparr>queue_to_backend := q, sb_peer := p,
            queue_from_backend := (if pn_type m = kWrite then queue_from_backend s
              else snd (Push r (queue_from_backend s)))\<rparr>)"

definition apply_writes :: "(PipeNotification \<Rightarrow> 'p \<Rightarrow> PipeNotification \<times> 'p) \<Rightarrow> PipeNotification list \<Rightarrow> 'p \<Rightarrow> 'p" where
  "apply_writes h ms p = fold (\<lambda>m p. snd (h m p)) ms p"

text \<open>Between two calls only register writes wait for the peer and no answer is left over.\<close>

definition soft_inv :: "'p soft \<Rightarrow> bool" where
  "soft_inv s \<longleftrightarrow> q_inv (queue_to_backend s) \<and> q_inv (queue_from_backend s) \<and>
     0 < q_cap (queue_to_backend s) \<and> 0 < q_cap (queue_from_backend s) \<and>
     q_contents (queue_from_backend s) = [] \<and> (\<forall>m \<in> set (q_contents (queue_to_backend s)). pn_type m = kWrite)"

definition soft_req :: "(PipeNotification \<Rightarrow> 'p \<Rightarrow> PipeNotification \<times> 'p) \<Rightarrow> PipeNotification list \<Rightarrow> 'p \<Rightarrow> 'p soft \<Rightarrow> bool" where
  "soft_req h req p s \<longleftrightarrow> q_inv (queue_to_backend s) \<and> q_inv (queue_from_backend s) \<and>
     0 < q_cap (queue_to_backend s) \<and> 0 < q_cap (queue_from_backend s) \<and> q_contents (queue_from_backend s) = [] \<and>
     (\<exists>ws. q_contents (queue_to_backend s) = ws @ req \<and> (\<forall>m \<in> set ws. pn_type m = kWrite) \<and>
        apply_writes h ws (sb_peer s) = p)"

lemma soft_inv_req: "soft_inv s \<longleftrightarrow> soft_req h [] (apply_writes h (q_contents (queue_to_backend s)) (sb_peer s)) s"
  by (auto simp: soft_inv_def soft_req_def)

lemma serve_write:
  assumes "soft_req h req p s" "q_contents (queue_to_backend s) = (w # ws) @ req"
    "\<forall>m \<in> set (w # ws). pn_type m = kWrite" "apply_writes h (w # ws) (sb_peer s) = p"
  shows "soft_req h req p (serve h s) \<and> q_contents (queue_to_backend (serve h s)) = ws @ req \<and>
    apply_writes h ws (sb_peer (serve h s)) = p \<and> q_cap (queue_to_backend (serve h s)) = q_cap (queue_to_backend s)"
proof -
  have i: "q_inv (queue_to_backend s)" using assms(1) by (simp add: soft_req_def)
  obtain q where q: "Pop (queue_to_backend s) = (Some w, q)" "q_inv q" "q_cap q = q_cap (queue_to_backend s)"
    "q_contents q = ws @ req"
    using shm.deq_ok [OF i, of w "ws @ req"] assms(2) by auto
  have "serve h s = s\<lparr>queue_to_backend := q, sb_peer := snd (h w (sb_peer s))\<rparr>"
    using q(1) assms(3) by (simp add: serve_def case_prod_unfold Let_def)
  then show ?thesis using q assms by (auto simp: soft_req_def apply_writes_def)
qed

text \<open>Pushing a message: when the queue is full one turn of the peer makes room.\<close>

lemma push_wait_room:
  assumes "soft_req h [] p s" "length (q_contents (queue_to_backend s)) \<noteq> q_cap (queue_to_backend s)"
  shows "\<exists>s'. push_wait peer m s = Some s' \<and> soft_req h [m] p s'"
proof -
  have i: "q_inv (queue_to_backend s)" using assms(1) by (simp add: soft_req_def)
  obtain q where q: "Push m (queue_to_backend s) = (0, q)" "q_inv q" "q_cap q = q_cap (queue_to_backend s)"
    "q_contents q = q_contents (queue_to_backend s) @ [m]"
    using shm.enq_ok [OF i assms(2), of m] by blast
  have "push_wait peer m s = Some (s\<lparr>queue_to_backend := q\<rparr>)"
    using q(1) by (subst push_wait.simps) simp
  moreover have "soft_req h [m] p (s\<lparr>queue_to_backend := q\<rparr>)" using assms(1) q by (auto simp: soft_req_def)
  ultimately show ?thesis by blast
qed

lemma push_wait_serve:
  assumes "soft_req h [] p s"
  shows "\<exists>s'. push_wait (serve h) m s = Some s' \<and> soft_req h [m] p s'"
proof (cases "length (q_contents (queue_to_backend s)) = q_cap (queue_to_backend s)")
  case False
  then show ?thesis using push_wait_room [OF assms] by blast
next
  case True
  have i: "q_inv (queue_to_backend s)" and pos: "0 < q_cap (queue_to_backend s)"
    using assms by (simp_all add: soft_req_def)
  from assms obtain ws where ws: "q_contents (queue_to_backend s) = ws" "\<forall>m \<in> set ws. pn_type m = kWrite"
    "apply_writes h ws (sb_peer s) = p" by (auto simp: soft_req_def)
  then obtain w ws' where w: "ws = w # ws'" using True pos by (cases ws) auto
  have srv: "soft_req h [] p (serve h s)" "q_contents (queue_to_backend (serve h s)) = ws'"
    "q_cap (queue_to_backend (serve h s)) = q_cap (queue_to_backend s)"
    using serve_write [OF assms, of w ws'] ws w by auto
  have "length (q_contents (queue_to_backend (serve h s))) \<noteq> q_cap (queue_to_backend (serve h s))"
    using srv(2,3) True ws(1) w by simp
  from push_wait_room [OF srv(1) this, of "serve h" m] obtain s' where
    "push_wait (serve h) m (serve h s) = Some s'" "soft_req h [m] p s'" by blast
  moreover have "fst (Push m (queue_to_backend s)) \<noteq> 0" using shm.enq_full [OF i True, of m] by simp
  ultimately show ?thesis by (subst push_wait.simps) auto
qed

lemma pop_wait_serve:
  assumes "soft_req h [m] p s" "pn_type m \<noteq> kWrite"
  shows "\<exists>s'. pop_wait (serve h) s = Some (fst (h m p), s') \<and> soft_req h [] (snd (h m p)) s' \<and>
    q_contents (queue_to_backend s') = []"
proof -
  from assms(1) obtain ws where "q_contents (queue_to_backend s) = ws @ [m]" "\<forall>m \<in> set ws. pn_type m = kWrite"
    "apply_writes h ws (sb_peer s) = p" by (auto simp: soft_req_def)
  then show ?thesis using assms(1)
  proof (induction ws arbitrary: s)
    case Nil
    have i: "q_inv (queue_to_backend s)" "q_inv (queue_from_backend s)" "q_contents (queue_from_backend s) = []"
      "0 < q_cap (queue_from_backend s)" "0 < q_cap (queue_to_backend s)" and p: "sb_peer s = p"
      using Nil by (simp_all add: soft_req_def apply_writes_def)
    obtain q where q: "Pop (queue_to_backend s) = (Some m, q)" "q_inv q" "q_cap q = q_cap (queue_to_backend s)"
      "q_contents q = []"
      using shm.deq_ok [OF i(1), of m "[]"] Nil(1) by auto
    have "length (q_contents (queue_from_backend s)) \<noteq> q_cap (queue_from_backend s)" using i(3,4) by simp
    from shm.enq_ok [OF i(2) this, of "fst (h m p)"] obtain f where
      f: "Push (fst (h m p)) (queue_from_backend s) = (0, f)" "q_inv f" "q_cap f = q_cap (queue_from_backend s)"
        "q_contents f = [fst (h m p)]" using i(3) by auto
    have srv: "serve h s = s\<lparr>queue_to_backend := q, sb_peer := snd (h m p), queue_from_backend := f\<rparr>"
      using q(1) f(1) p assms(2) by (simp add: serve_def case_prod_unfold Let_def)
    obtain f' where f': "Pop f = (Some (fst (h m p)), f')" "q_inv f'" "q_cap f' = q_cap f" "q_contents f' = []"
      using shm.deq_ok [OF f(2), of "fst (h m p)" "[]"] f(4) by auto
    have "fst (Pop (queue_from_backend s)) = None" using shm.deq_empty [OF i(2,3)] by simp
    moreover have "pop_wait (serve h) (serve h s) = Some (fst (h m p), (serve h s)\<lparr>queue_from_backend := f'\<rparr>)"
      using f'(1) by (subst pop_wait.simps) (simp add: srv)
    ultimately have "pop_wait (serve h) s = Some (fst (h m p), (serve h s)\<lparr>queue_from_backend := f'\<rparr>)"
      by (subst pop_wait.simps) simp
    moreover have "soft_req h [] (snd (h m p)) ((serve h s)\<lparr>queue_from_backend := f'\<rparr>)"
      using q f f' i by (simp add: soft_req_def srv apply_writes_def)
    ultimately show ?case using q(4) by (simp add: srv)
  next
    case (Cons w ws)
    note srv = serve_write [OF Cons.prems(4,1) Cons.prems(2,3)]
    have "\<exists>s'. pop_wait (serve h) (serve h s) = Some (fst (h m p), s') \<and> soft_req h [] (snd (h m p)) s' \<and>
        q_contents (queue_to_backend s') = []"
      using srv Cons.prems(2) by (intro Cons.IH) auto
    moreover have "fst (Pop (queue_from_backend s)) = None"
      using shm.deq_empty [of "queue_from_backend s"] Cons.prems(4) by (simp add: soft_req_def)
    ultimately show ?case by (subst pop_wait.simps) simp
  qed
qed

lemma transact_serve:
  assumes "soft_req h [] p s" "pn_type m \<noteq> kWrite"
  shows "\<exists>s'. transact (serve h) m s = Some (fst (h m p), s') \<and> soft_req h [] (snd (h m p)) s'"
proof -
  from push_wait_serve [OF assms(1), of m] obtain s1 where
    s1: "push_wait (serve h) m s = Some s1" "soft_req h [m] p s1" by blast
  from pop_wait_serve [OF s1(2) assms(2)] s1(1) show ?thesis by (auto simp: transact_def)
qed

section \<open>Properties\<close>


text \<open>
  Register round trip. When the peer keeps the written registers in a memory (\<open>regs\<close>), reading a
  register through the software backend returns the value of the last write to it, even though the
  write is only queued: the read waits in the same queue behind it.
\<close>

theorem soft_register_roundtrip:
  assumes "soft_inv s"
    and "\<And>a v p. regs (snd (h (message kWrite a v) p)) = (regs p)(a := v)"
    and "\<And>a p. data1 (fst (h (message kRead a 0) p)) = regs p a"
  shows "\<exists>s1 s2. mmio_write32 (serve h) addr v s = Some s1 \<and>
    mmio_read32 (serve h) addr s1 = Some (v, s2) \<and> soft_inv s2"
proof -
  let ?p = "apply_writes h (q_contents (queue_to_backend s)) (sb_peer s)"
  let ?w = "message kWrite addr (ucast v)" and ?r = "message kRead addr 0"
  have "soft_req h [] ?p s" using assms(1) soft_inv_req by blast
  from push_wait_serve [OF this, of ?w] obtain s1 where
    s1: "push_wait (serve h) ?w s = Some s1" "soft_req h [?w] ?p s1" by blast
  from s1(2) have "soft_req h [] (snd (h ?w ?p)) s1"
    by (auto simp: soft_req_def apply_writes_def)
  then have "\<exists>s2. transact (serve h) ?r s1 = Some (fst (h ?r (snd (h ?w ?p))), s2) \<and>
      soft_req h [] (snd (h ?r (snd (h ?w ?p)))) s2"
    by (rule transact_serve) simp
  then obtain s2 where s2: "transact (serve h) ?r s1 = Some (fst (h ?r (snd (h ?w ?p))), s2)"
    "soft_req h [] (snd (h ?r (snd (h ?w ?p)))) s2" by blast
  have "data1 (fst (h ?r (snd (h ?w ?p)))) = ucast v" by (simp add: assms(2,3))
  moreover have "ucast (ucast v :: u64) = v" by (rule bit_eqI) (auto simp: bit_simps dest: bit_imp_le_length)
  moreover have "soft_inv s2" using s2(2) by (auto simp: soft_req_def soft_inv_def)
  ultimately show ?thesis using s1 s2 by (simp add: mmio_write32_def mmio_read32_def)
qed

definition regs_peer :: "PipeNotification \<Rightarrow> (u64 \<Rightarrow> u64) \<Rightarrow> PipeNotification \<times> (u64 \<Rightarrow> u64)" where
  "regs_peer m r = (case pn_type m of kWrite \<Rightarrow> (m, r(data0 m := data1 m)) | _ \<Rightarrow> (m\<lparr>data1 := r (data0 m)\<rparr>, r))"

definition pn_queue_empty :: "PipeNotification queue" where
  "pn_queue_empty = \<lparr>q_buf = (\<lambda>_. \<lparr>signal = 0, elt_data = message kWrite 0 0\<rparr>), q_capacity = 4, q_index_mask = 3,
     q_tail = 0, q_head = 0\<rparr>"

definition soft_zero :: "(u64 \<Rightarrow> u64) soft" where
  "soft_zero = \<lparr>queue_to_backend = pn_queue_empty, queue_from_backend = pn_queue_empty, sb_peer = (\<lambda>_. 0)\<rparr>"

lemma soft_inv_zero: "soft_inv soft_zero"
proof -
  have r: "q_rep pn_queue_empty 0"
    by (auto simp: q_rep_def q_wf_def q_cap_def pn_queue_empty_def mask_eq_exp_minus_1 intro!: exI [of _ 2])
  then have "q_inv pn_queue_empty" "q_contents pn_queue_empty = []" using q_length [OF r] by (auto simp: q_inv_def)
  then show ?thesis by (simp add: soft_inv_def soft_zero_def q_cap_def) (simp add: pn_queue_empty_def)
qed


theorem soft_register_roundtrip_witness:
  "\<exists>s1 s2. mmio_write32 (serve regs_peer) 4096 5 soft_zero = Some s1 \<and>
    mmio_read32 (serve regs_peer) 4096 s1 = Some (5, s2) \<and> soft_inv s2"
  using soft_register_roundtrip [OF soft_inv_zero, of "\<lambda>p. p" regs_peer 4096 5]
  by (simp add: regs_peer_def)

end
