(* ===== verification/Huge_Pages.thy ===== *)
theory Huge_Pages
  imports Enso_Types
begin

text \<open>
  \<^verbatim>\<open>software/src/enso/ixy_helpers.cpp\<close>: huge pages shared with the NIC, mapped twice in a row so
  that a circular buffer can be read and written without wrapping, and the translation of virtual to
  physical addresses. The outcome of every system call is an argument (\<open>page_calls\<close>); the state \<open>os\<close>
  holds what the calls leave behind: files, open descriptors and mappings.
\<close>

record os =
  os_files :: "string list"
  os_fds :: nat
  os_maps :: "(u64 \<times> u64) list"
  os_bad_free :: bool

record page_calls =
  pc_open :: bool
  pc_truncate :: bool
  pc_map :: "u64 option"
  pc_mirror :: bool
  pc_lock :: bool

definition os_unlink :: "string \<Rightarrow> os \<Rightarrow> os" where
  "os_unlink path s = s\<lparr>os_files := removeAll path (os_files s)\<rparr>"

definition os_close :: "os \<Rightarrow> os" where
  "os_close s = s\<lparr>os_fds := os_fds s - 1\<rparr>"

text \<open>Unmapping \<open>len\<close> bytes from the start of a mapping leaves the rest of it mapped.\<close>

definition os_munmap :: "u64 \<Rightarrow> u64 \<Rightarrow> os \<Rightarrow> os" where
  "os_munmap a len s = s\<lparr>os_maps := concat (map (\<lambda>(b, l).
     if b = a then (if l \<le> len then [] else [(b + len, l - len)]) else [(b, l)]) (os_maps s))\<rparr>"

definition get_huge_page :: "page_calls \<Rightarrow> string \<Rightarrow> u64 \<Rightarrow> bool \<Rightarrow> os \<Rightarrow> u64 \<times> os" where
  "get_huge_page pc path size0 mirror s =
     (let size = (if size0 = 0 then ucast kBufPageSize else size0) in
      if mirror \<and> size mod ucast kBufPageSize \<noteq> 0 then (0, s)
      else if \<not> pc_open pc then (0, s)
      else
        let s1 = s\<lparr>os_files := List.insert path (os_files s), os_fds := Suc (os_fds s)\<rparr> in
        if \<not> pc_truncate pc then (0, os_unlink path (os_close s1))
        else case pc_map pc of
          None \<Rightarrow> (0, os_unlink path (os_close s1))
        | Some virt_addr \<Rightarrow>
            let s2 = s1\<lparr>os_maps := (virt_addr, size * 2) # os_maps s1\<rparr> in
            if mirror \<and> \<not> pc_mirror pc
            then (0, (os_unlink path (os_close s2))\<lparr>os_bad_free := True\<rparr>)
            else if \<not> pc_lock pc then (0, os_unlink path (os_close (os_munmap virt_addr size s2)))
            else (virt_addr, os_close s2))"

text \<open>
  \<open>pagemap i\<close> is entry \<open>i\<close> of \<^verbatim>\<open>/proc/self/pagemap\<close>, \<open>None\<close> when it cannot be read. Bits 0 to 54 of an
  entry are the page frame number.
\<close>

definition virt_to_phys :: "(u64 \<Rightarrow> u64 option) \<Rightarrow> u64 \<Rightarrow> u64 \<Rightarrow> u64" where
  "virt_to_phys pagemap page_size virt =
     (case pagemap (virt div page_size) of
        None \<Rightarrow> 0
      | Some phy \<Rightarrow>
          if phy = 0 then 0
          else (phy AND 0x7fffffffffffff) * page_size + virt mod page_size)"

lemma os_munmap_fresh:
  assumes "\<forall>x \<in> set ms. fst x \<noteq> a" "os_maps s = (a, l) # ms" "\<not> l \<le> n"
  shows "os_maps (os_munmap a n s) = (a + n, l - n) # ms"
proof -
  have "concat (map (\<lambda>(b, l). if b = a then (if l \<le> n then [] else [(b + n, l - n)]) else [(b, l)]) ms) = ms"
    using assms(1) by (induction ms) auto
  then show ?thesis using assms(2,3) by (simp add: os_munmap_def)
qed

lemma os_simps [simp]:
  "os_fds (os_unlink p s) = os_fds s" "os_maps (os_unlink p s) = os_maps s" "os_maps (os_close s) = os_maps s"
  "os_fds (os_close s) = os_fds s - 1" "os_fds (os_munmap a n s) = os_fds s" "os_files (os_close s) = os_files s"
  "os_files (os_munmap a n s) = os_files s" "set (os_files (os_unlink p s)) = set (os_files s) - {p}"
  by (simp_all add: os_unlink_def os_close_def os_munmap_def)

lemma double_gt: "0 < (n :: u64) \<Longrightarrow> n < 2 ^ 63 \<Longrightarrow> \<not> n * 2 \<le> n"
proof -
  assume n: "0 < n" "n < 2 ^ 63"
  have "unat (n * 2) = unat n * 2" using unat_times_small [of n 2] n(2) by (simp add: word_less_nat_alt)
  then show ?thesis using n(1) by (simp add: word_le_nat_alt word_less_nat_alt)
qed

lemma get_huge_page_eq:
  assumes "sz \<noteq> 0"
  shows "get_huge_page pc path sz mirror s =
    (if (mirror \<and> sz mod ucast kBufPageSize \<noteq> 0) \<or> \<not> pc_open pc then (0, s)
     else
       let s1 = s\<lparr>os_files := List.insert path (os_files s), os_fds := Suc (os_fds s)\<rparr> in
       if \<not> pc_truncate pc \<or> pc_map pc = None then (0, os_unlink path (os_close s1))
       else
         let a = the (pc_map pc); s2 = s1\<lparr>os_maps := (a, sz * 2) # os_maps s1\<rparr> in
         if mirror \<and> \<not> pc_mirror pc then (0, (os_unlink path (os_close s2))\<lparr>os_bad_free := True\<rparr>)
         else if \<not> pc_lock pc then (0, os_unlink path (os_close (os_munmap a sz s2)))
         else (a, os_close s2))"
  using assms by (simp add: get_huge_page_def Let_def split: option.split)

section \<open>Properties\<close>

text \<open>
  Outcome of asking for a huge page. Every path closes the file descriptor it opened; a failure
  after the file was opened removes the file; success leaves the file and a mapping of twice the size.
  The clean-up of memory is incomplete: when the mirror cannot be mapped the mapping is passed to
  \<^verbatim>\<open>free\<close>, which it did not come from, and stays, and when the page cannot be locked only the first
  half is unmapped.
\<close>

theorem get_huge_page_outcome:
  fixes sz :: u64
  assumes "get_huge_page pc path sz mirror s = (r, s')" "pc_map pc \<noteq> Some 0" "0 < sz" "sz < 2 ^ 63"
    "\<forall>x \<in> set (os_maps s). pc_map pc \<noteq> Some (fst x)"
  shows "os_fds s' = os_fds s \<and>
    (if r \<noteq> 0 then pc_map pc = Some r \<and> path \<in> set (os_files s') \<and> os_maps s' = (r, sz * 2) # os_maps s
     else if mirror \<and> sz mod ucast kBufPageSize \<noteq> 0 \<or> \<not> pc_open pc then s' = s
     else path \<notin> set (os_files s') \<and>
       os_maps s' = (case pc_map pc of
          None \<Rightarrow> os_maps s
        | Some a \<Rightarrow>
            if \<not> pc_truncate pc then os_maps s
            else if mirror \<and> \<not> pc_mirror pc then (a, sz * 2) # os_maps s
            else (a + sz, sz) # os_maps s) \<and>
       (pc_truncate pc \<and> pc_map pc \<noteq> None \<and> mirror \<and> \<not> pc_mirror pc \<longrightarrow> os_bad_free s'))"
proof -
  define bad where "bad \<longleftrightarrow> mirror \<and> sz mod ucast kBufPageSize \<noteq> 0"
  have nz: "sz \<noteq> 0" using assms(3) by simp
  note page = get_huge_page_eq [OF nz, of pc path mirror s, folded bad_def, unfolded assms(1)]
  show ?thesis
  proof (cases "bad \<or> \<not> pc_open pc \<or> \<not> pc_truncate pc \<or> pc_map pc = None")
    case True
    then show ?thesis using page unfolding bad_def [symmetric] by (auto split: if_splits option.splits)
  next
    case False
    then obtain a where a: "pc_map pc = Some a" by auto
    let ?s2 = "s\<lparr>os_files := List.insert path (os_files s), os_fds := Suc (os_fds s), os_maps := (a, sz * 2) # os_maps s\<rparr>"
    have "\<forall>x \<in> set (os_maps s). fst x \<noteq> a" using assms(5) a by auto
    then have "os_maps (os_munmap a sz ?s2) = (a + sz, sz) # os_maps s"
      using os_munmap_fresh [of "os_maps s" a ?s2 "sz * 2" sz] double_gt [OF assms(3,4)] by simp
    then show ?thesis
      using page assms(2) False a unfolding bad_def [symmetric] by (auto simp: Let_def split: if_splits)
  qed
qed

theorem get_huge_page_outcome_witness:
  "let pc = \<lparr>pc_open = True, pc_truncate = True, pc_map = Some 4194304, pc_mirror = True, pc_lock = False\<rparr>;
       s = \<lparr>os_files = [], os_fds = 3, os_maps = [], os_bad_free = False\<rparr> in
   os_fds (snd (get_huge_page pc ''p'' 2097152 True s)) = 3 \<and>
   os_maps (snd (get_huge_page pc ''p'' 2097152 True s)) = [(6291456, 2097152)]"
proof -
  let ?pc = "\<lparr>pc_open = True, pc_truncate = True, pc_map = Some 4194304, pc_mirror = True, pc_lock = False\<rparr>"
  let ?s = "\<lparr>os_files = [], os_fds = 3, os_maps = [], os_bad_free = False\<rparr>"
  have "fst (get_huge_page ?pc ''p'' 2097152 True ?s) = 0"
    by (simp add: get_huge_page_def kBufPageSize_def)
  with get_huge_page_outcome [of ?pc "''p''" 2097152 True ?s 0 "snd (get_huge_page ?pc ''p'' 2097152 True ?s)"]
  show ?thesis by (simp add: prod_eq_iff kBufPageSize_def)
qed

end
