(* ===== verification/Tx_Backlog.thy ===== *)
theory Tx_Backlog
  imports Tx_Completions "HOL-Library.Sublist"
begin

text \<open>
  How many completions can be waiting at once. \<open>tx_owed_nat\<close> counts, without wrap-around, the
  completions reported by the ring and still to come; a transmission of at most 2 MiB takes at most
  18 notifications, so a full ring always holds many transmissions (\<open>tx_runs\<close>), and therefore the
  completion counter of the notification buffer stays small (\<open>tx_paced\<close>). The device layer needs
  this to collect completions without overtaking the requests it has recorded.
\<close>

definition tx_open :: "NotificationBufPair \<Rightarrow> u32 \<Rightarrow> nat" where
  "tx_open nb t = length (filter Not (tx_wraps nb t))"

definition tx_owed_nat :: "NotificationBufPair \<Rightarrow> u32 \<Rightarrow> nat" where
  "tx_owed_nat nb t = unat (nb_unreported_completions nb) + tx_open nb t"

text \<open>No 18 notifications in a row belong to the same transmission.\<close>

definition tx_runs :: "bool list \<Rightarrow> bool" where
  "tx_runs ws \<longleftrightarrow> \<not> sublist (replicate 18 True) ws"

lemma tx_runs_drop: "tx_runs ws \<Longrightarrow> tx_runs (drop n ws)"
  unfolding tx_runs_def by (meson sublist_drop sublist_order.order.trans)

lemma tx_runs_snoc:
  assumes "tx_runs ws" "\<not> suffix (replicate (Suc i) True) ws" "w \<Longrightarrow> i < 17"
  shows "tx_runs (ws @ [w])"
proof -
  have "\<not> suffix (replicate 18 True) (ws @ [w])"
  proof
    assume a: "suffix (replicate 18 True) (ws @ [w])"
    have r: "replicate 18 True = replicate 17 True @ [True]"
      by (simp add: replicate_append_same flip: replicate_Suc)
    from a have w and s: "suffix (replicate 17 True) ws" unfolding r by auto
    then have "i < 17" using assms(3) by simp
    then have "replicate 17 True = replicate (17 - Suc i) True @ replicate (Suc i) True"
      by (simp only: replicate_add [symmetric])  simp
    then have "suffix (replicate (Suc i) True) (replicate 17 True)" by (metis suffixI)
    then show False using s assms(2) by (meson suffix_order.trans)
  qed
  with assms(1) show ?thesis by (simp add: tx_runs_def sublist_snoc)
qed

lemma suffix_snoc_True:
  "\<not> suffix (replicate (Suc i) True) ws \<Longrightarrow> \<not> suffix (replicate (Suc (Suc i)) True) (ws @ [True])"
  by (metis replicate_append_same replicate_Suc append_Cons snoc_suffix_snoc)

lemma suffix_snoc_False: "\<not> suffix (replicate (Suc i) True) (ws @ [False])"
  by (metis replicate_append_same replicate_Suc snoc_suffix_snoc)

lemma suffix_drop_run: "\<not> suffix xs ws \<Longrightarrow> \<not> suffix xs (drop n ws)"
  by (meson suffix_drop suffix_order.trans)

lemma tx_runs_length:
  assumes "tx_runs ws"
  shows "length ws \<le> 18 * length (filter Not ws) + 17"
  using assms
proof (induction "length ws" arbitrary: ws rule: less_induct)
  case less
  show ?case
  proof (cases "length ws \<le> 17")
    case False
    let ?a = "take 18 ws" and ?b = "drop 18 ws"
    have len: "length ?a = 18" using False by simp
    have "?a \<noteq> replicate 18 True"
      using less.prems unfolding tx_runs_def by (metis sublist_take)
    then have "False \<in> set ?a"
      using len by (metis (full_types) replicate_length_same)
    then have "0 < length (filter Not ?a)" by (auto simp: filter_empty_conv)
    moreover have "length ?b \<le> 18 * length (filter Not ?b) + 17"
      using less.prems False by (intro less.hyps tx_runs_drop) simp_all
    moreover have "length (filter Not ws) = length (filter Not ?a) + length (filter Not ?b)"
      by (metis append_take_drop_id filter_append length_append)
    moreover have "length ws = 18 + length ?b" using False by simp
    ultimately show ?thesis by linarith
  qed simp
qed

section \<open>One poll\<close>

lemma tx_wraps_full_cnt [simp]: "tx_wraps (nb\<lparr>tx_full_cnt := c\<rparr>) t = tx_wraps nb t"
  by (simp add: tx_wraps_def)

lemma tx_reclaimed_64: "tx_reclaimed nic nb \<le> 64"
  using tx_done_le [of kBatchSize "nic nb" "unat (nb_tx_head nb)"]
  unfolding tx_reclaimed_def kBatchSize_def by (metis min.bounded_iff)

lemma tx_open_update:
  assumes "tx_inv nb t" "tx_owed_nat nb t < 2 ^ 32"
  shows "tx_owed_nat (update_tx_head nic nb) t = tx_owed_nat nb t"
    and "tx_open nb t \<le> tx_open (update_tx_head nic nb) t + 64"
    and "tx_open (update_tx_head nic nb) t \<le> tx_open nb t"
proof -
  let ?n = "tx_reclaimed nic nb" and ?ws = "tx_wraps nb t"
  have split: "tx_open nb t = length (filter Not (take ?n ?ws)) + tx_open (update_tx_head nic nb) t"
    unfolding tx_open_def update_tx_head_wraps [OF assms(1)]
    by (metis append_take_drop_id filter_append length_append)
  have "length (filter Not (take ?n ?ws)) \<le> length (take ?n ?ws)" by (rule length_filter_le)
  also have "\<dots> \<le> 64" using tx_reclaimed_64 [of nic nb] by simp
  finally show "tx_open nb t \<le> tx_open (update_tx_head nic nb) t + 64" using split by simp
  show "tx_open (update_tx_head nic nb) t \<le> tx_open nb t" using split by simp
  have "tx_credit (update_tx_head nic nb) t = tx_credit nb t" by (rule tx_credit_update) (rule assms)
  then have "nb_unreported_completions (update_tx_head nic nb)
      = nb_unreported_completions nb + of_nat (tx_open nb t - tx_open (update_tx_head nic nb) t)"
    using split unfolding tx_credit_def tx_open_def [symmetric] by (simp add: algebra_simps)
  also have "unat \<dots> = unat (nb_unreported_completions nb) + (tx_open nb t - tx_open (update_tx_head nic nb) t)"
  proof -
    let ?k = "tx_open nb t - tx_open (update_tx_head nic nb) t"
    have k: "unat (of_nat ?k :: u32) = ?k"
      using assms(2) by (intro unat_of_nat_small) (simp add: tx_owed_nat_def)
    show ?thesis
      using assms(2) k by (subst unat_plus_small) (simp_all add: tx_owed_nat_def)
  qed
  finally show "tx_owed_nat (update_tx_head nic nb) t = tx_owed_nat nb t"
    using split by (simp add: tx_owed_nat_def)
qed

section \<open>The pace of completions\<close>

text \<open>
  \<open>i\<close> bounds the notifications already written for the transmission in progress, \<open>B\<close> is the number
  of completions owed.
\<close>

definition tx_paced :: "nat \<Rightarrow> nat \<Rightarrow> NotificationBufPair \<Rightarrow> u32 \<Rightarrow> bool" where
  "tx_paced i B nb t \<longleftrightarrow> tx_inv nb t \<and> tx_owed_nat nb t = B \<and> tx_runs (tx_wraps nb t) \<and>
     \<not> suffix (replicate (Suc i) True) (tx_wraps nb t) \<and>
     unat (nb_unreported_completions nb) \<le> 16000"

lemma tx_paced_update:
  assumes "tx_paced i B nb t" "B \<le> 16382" "tx_used nb t = notif_N - 1"
  shows "tx_paced i B (update_tx_head nic nb) t"
proof -
  have inv: "tx_inv nb t" and runs: "tx_runs (tx_wraps nb t)" and owed: "tx_owed_nat nb t = B"
    using assms(1) by (simp_all add: tx_paced_def)
  have "length (tx_wraps nb t) = notif_N - 1" using assms(3) by (simp add: tx_wraps_def)
  then have "notif_N - 1 \<le> 18 * tx_open nb t + 17"
    using tx_runs_length [OF runs] by (simp add: tx_open_def)
  moreover have "tx_owed_nat nb t < 2 ^ 32" using owed assms(2) by simp
  note upd = tx_open_update [OF inv this, of nic]
  ultimately have "unat (nb_unreported_completions (update_tx_head nic nb)) \<le> 16000"
    using owed assms(2) by (simp add: tx_owed_nat_def)
  then show ?thesis
    using assms(1) upd(1) owed
    by (simp add: tx_paced_def tx_inv_update update_tx_head_wraps tx_runs_drop suffix_drop_run)
qed

lemma tx_paced_full_cnt [simp]: "tx_paced i B (nb\<lparr>tx_full_cnt := c\<rparr>) t = tx_paced i B nb t"
  by (simp add: tx_paced_def tx_owed_nat_def tx_open_def)

lemma tx_paced_wait:
  assumes "wait_free_slot nic nb t = Some nb'" "tx_paced i B nb t" "B \<le> 16382"
  shows "tx_paced i B nb' t \<and> tx_free_slots nb' t \<noteq> 0"
proof (rule wait_free_slot_invariant [of nic nb t nb' "\<lambda>nb. tx_paced i B nb t", OF assms(1,2)])
  fix nb1 assume p: "tx_paced i B nb1 t" and full: "tx_free_slots nb1 t = 0"
  have "tx_used nb1 t = notif_N - 1"
    using p full tx_free_slots_0 [of nb1 t] by (simp add: tx_paced_def)
  then show "tx_paced i B (update_tx_head nic (nb1\<lparr>tx_full_cnt := tx_full_cnt nb1 + 1\<rparr>)) t"
    using p assms(3) by (intro tx_paced_update) simp_all
qed

lemma tx_paced_put:
  assumes "tx_paced i B nb t" "tx_free_slots nb t \<noteq> 0" "r < m \<Longrightarrow> i < 17"
  shows "tx_paced (if r < m then Suc i else 0) (if r < m then B else Suc B)
    (put_tx_request nb t a r m) ((t + 1) mod kNotificationBufSize)"
proof -
  have inv: "tx_inv nb t" using assms(1) by (simp add: tx_paced_def)
  note put = put_tx_request_step [OF inv assms(2), of a r m]
  have "tx_runs (tx_wraps nb t @ [r < m])"
    using assms by (intro tx_runs_snoc [of _ i]) (simp_all add: tx_paced_def)
  moreover have "\<not> suffix (replicate (Suc (if r < m then Suc i else 0)) True) (tx_wraps nb t @ [r < m])"
    using assms(1) suffix_snoc_True suffix_snoc_False by (cases "r < m") (auto simp: tx_paced_def)
  ultimately show ?thesis
    using assms(1) put(1) by (simp add: tx_paced_def put(4) tx_owed_nat_def tx_open_def)
qed

lemma tx_paced_send_loop:
  assumes "off < page_N" "page_N dvd unat base"
    and "send_loop nic nb t (base + of_nat off) base (base + ucast kBufPageSize) m = Some (nb', t')"
    and "tx_paced i B nb t" "B < 16382" "m \<noteq> 0" "i + length (tx_split off (unat m)) \<le> 18"
  shows "tx_paced 0 (Suc B) nb' t'"
  using assms(1,3-7)
proof (induction off "unat m" arbitrary: m nb t i rule: tx_split_induct)
  case (zero off)
  then show ?case by (simp add: unat_eq_0)
next
  case (step off)
  let ?l = "piece_len off (unat m)" and ?a = "base + of_nat off"
  from step.prems(1) obtain nb1 where wait: "wait_free_slot nic nb t = Some nb1"
    and rest: "send_loop nic (put_tx_request nb1 t ?a (of_nat ?l) m) ((t + 1) mod kNotificationBufSize)
      (base + of_nat ((off + ?l) mod page_N)) base (base + ucast kBufPageSize) (m - of_nat ?l) = Some (nb', t')"
    unfolding send_loop_unfold [OF step.hyps(1) assms(2) step.prems(4)]
    by (auto simp: bind_eq_Some_conv)
  have w: "tx_paced i B nb1 t" "tx_free_slots nb1 t \<noteq> 0"
    using tx_paced_wait [OF wait step.prems(2)] step.prems(3) by simp_all
  have left: "unat m - ?l = unat (m - of_nat ?l)" by (simp add: piece_len_word)
  have split: "length (tx_split off (unat m)) = Suc (length (tx_split ((off + ?l) mod page_N) (unat (m - of_nat ?l))))"
    unfolding tx_split_step [OF step.hyps(1,2)] left by simp
  show ?case
  proof (cases "m - of_nat ?l = 0")
    case True
    then have "(nb', t') = (put_tx_request nb1 t ?a (of_nat ?l) m, (t + 1) mod kNotificationBufSize)"
      using rest by (subst (asm) send_loop.simps) simp
    then show ?thesis
      using tx_paced_put [OF w, of "of_nat ?l" m ?a] True piece_len_word(3) [of off m] by simp
  next
    case False
    let ?m = "m - of_nat ?l"
    have "0 < unat ?m" using False by (simp add: unat_gt_0)
    then have more: "0 < length (tx_split ((off + ?l) mod page_N) (unat ?m))"
      by (simp add: tx_split_step)
    have lt: "of_nat ?l < m" using False piece_len_word(3) [of off m] by simp
    have "tx_paced (Suc i) B (put_tx_request nb1 t ?a (of_nat ?l) m) ((t + 1) mod kNotificationBufSize)"
      using tx_paced_put [OF w, of "of_nat ?l" m ?a] more split step.prems(5) lt by simp
    from step.hyps(3) [OF left rest this step.prems(3) False] split step.prems(5) left
    show ?thesis by simp
  qed
qed

lemma tx_paced_send:
  assumes "send_to_queue nic nb addr len = Some (r, nb')" "tx_paced 0 B nb (nb_tx_tail nb)"
    "B < 16382" "len \<noteq> 0" "unat len < page_N"
  shows "tx_paced 0 (Suc B) nb' (nb_tx_tail nb')"
proof -
  let ?base = "addr AND NOT (ucast kBufPageSize - 1)" and ?off = "unat addr mod page_N"
  note pg = page_base [of addr]
  from assms(1) obtain nb1 t1 where
    loop: "send_loop nic nb (nb_tx_tail nb) addr ?base (?base + ucast kBufPageSize) len = Some (nb1, t1)"
    and nb': "nb' = publish_tx_tail nb1 t1"
    by (auto simp: send_to_queue_def Let_def)
  have "unat len div 131072 \<le> (page_N - 1) div 131072" using assms(5) by (intro div_le_mono) simp
  moreover have "(?off + unat len) div page_N \<le> (2 * page_N - 1) div page_N"
    using assms(5) pg(3) by (intro div_le_mono) linarith
  ultimately have "length (tx_split ?off (unat len)) \<le> 18"
    using tx_split_length [OF pg(3), of "unat len"] by simp
  from tx_paced_send_loop [OF pg(3,1) _ assms(2-4), of nic nb1 t1, unfolded pg(2), OF loop] this
  have "tx_paced 0 (Suc B) nb1 t1" by simp
  then show ?thesis
    by (simp add: nb' tx_paced_def tx_inv_publish tx_owed_nat_def tx_open_def tx_wraps_def)
qed

section \<open>Collecting completions\<close>

lemma tx_paced_collect:
  assumes "get_unreported_completions nic nb = (c, nb')" "tx_paced 0 B nb (nb_tx_tail nb)" "B \<le> 16382"
  shows "tx_paced 0 (B - unat c) nb' (nb_tx_tail nb') \<and> unat c \<le> B \<and>
    unat c \<le> unat (nb_unreported_completions nb) + 64 \<and> nb_unreported_completions nb' = 0"
proof -
  let ?nb = "update_tx_head nic nb" and ?t = "nb_tx_tail nb"
  have inv: "tx_inv nb ?t" and small: "tx_owed_nat nb ?t < 2 ^ 32" and owed: "tx_owed_nat nb ?t = B"
    using assms(2,3) by (simp_all add: tx_paced_def)
  note upd = tx_open_update [OF inv small, of nic]
  have c: "c = nb_unreported_completions ?nb" and nb': "nb' = ?nb\<lparr>nb_unreported_completions := 0\<rparr>"
    using assms(1) by (simp_all add: get_unreported_completions_def Let_def)
  have tail: "nb_tx_tail nb' = ?t" using tx_inv_D(1,2) [OF inv] by (simp add: nb')
  have wraps: "tx_wraps nb' ?t = drop (tx_reclaimed nic nb) (tx_wraps nb ?t)"
    using update_tx_head_wraps [OF inv, of nic] by (simp add: nb' tx_wraps_def)
  have "tx_open nb' ?t = tx_open ?nb ?t" by (simp add: nb' tx_open_def tx_wraps_def)
  then have "tx_owed_nat nb' ?t = B - unat c"
    using upd(1) owed by (simp add: tx_owed_nat_def c nb')
  moreover have "unat c \<le> B \<and> unat c \<le> unat (nb_unreported_completions nb) + 64"
    using upd owed by (simp add: tx_owed_nat_def c)
  moreover have "tx_inv nb' ?t" using tx_inv_update [OF inv] by (simp add: nb')
  moreover have "tx_runs (tx_wraps nb' ?t) \<and> \<not> suffix (replicate (Suc 0) True) (tx_wraps nb' ?t)"
    unfolding wraps using assms(2) tx_runs_drop suffix_drop_run unfolding tx_paced_def by blast
  moreover have "nb_unreported_completions nb' = 0" by (simp add: nb')
  ultimately show ?thesis unfolding tx_paced_def tail by simp
qed

lemma tx_paced_init:
  assumes "tx_inv nb (nb_tx_tail nb)" "nb_tx_head nb = nb_tx_tail nb" "nb_unreported_completions nb = 0"
  shows "tx_paced 0 0 nb (nb_tx_tail nb)"
  using assms by (simp add: tx_paced_def tx_owed_nat_def tx_open_def tx_wraps_def tx_runs_def)

section \<open>Collecting with a fair NIC\<close>

definition collect :: "nic \<Rightarrow> NotificationBufPair \<Rightarrow> NotificationBufPair" where
  "collect nic nb = snd (get_unreported_completions nic nb)"

interpretation collect: tx_poller nic "collect nic" for nic
proof unfold_locales
  fix nb t assume inv: "tx_inv nb t"
  note hd = tx_inv_D [OF inv]
  have eq: "collect nic nb = (update_tx_head nic nb)\<lparr>nb_unreported_completions := 0\<rparr>"
    by (simp add: collect_def get_unreported_completions_def Let_def)
  show "tx_inv (collect nic nb) t" using inv by (simp add: eq tx_inv_update)
  show "nb_tx_tail (collect nic nb) = nb_tx_tail nb" "nb_polls (collect nic nb) = Suc (nb_polls nb)"
    using hd by (simp_all add: eq)
  show "\<exists>nb0. tx_inv nb0 t \<and> nb_tx_head nb0 = nb_tx_head nb \<and> nb_tx_tail nb0 = nb_tx_tail nb \<and>
      nb_polls nb0 = nb_polls nb \<and>
      unat (nb_tx_head (collect nic nb)) = (unat (nb_tx_head nb) + tx_reclaimed nic nb0) mod notif_N"
    using inv update_tx_head_spec(1) [OF hd(1,2), of nic] by (intro exI [of _ nb]) (simp add: eq)
qed

lemma tx_paced_drained: "tx_paced i B nb (nb_tx_tail nb) \<Longrightarrow> nb_tx_head nb = nb_tx_tail nb \<Longrightarrow> B \<le> 16000"
  by (auto simp: tx_paced_def tx_owed_nat_def tx_open_def tx_wraps_def)

lemma tx_paced_drained_collect:
  assumes "tx_paced 0 B nb (nb_tx_tail nb)" "B \<le> 16382" "nb_tx_head nb = nb_tx_tail nb"
  shows "unat (fst (get_unreported_completions nic nb)) = B"
proof -
  have inv: "tx_inv nb (nb_tx_tail nb)" using assms(1) by (simp add: tx_paced_def)
  have "B < 2 ^ 32" using assms(2) by simp
  with assms(1) have small: "tx_owed_nat nb (nb_tx_tail nb) < 2 ^ 32" by (simp add: tx_paced_def)
  have "tx_open nb (nb_tx_tail nb) = 0" using assms(3) by (simp add: tx_open_def tx_wraps_def)
  then have "tx_owed_nat (update_tx_head nic nb) (nb_tx_tail nb) = unat (nb_unreported_completions (update_tx_head nic nb))"
    using tx_open_update(3) [OF inv small, of nic] by (simp add: tx_owed_nat_def)
  then show ?thesis
    using tx_open_update(1) [OF inv small, of nic] assms(1)
    by (simp add: tx_paced_def get_unreported_completions_def Let_def)
qed

end
