(* ===== verification/Pcie_Init.thy ===== *)
theory Pcie_Init
  imports Enso_Config Huge_Pages Notif_Rx Tx_Backlog
begin

text \<open>
  Setting up and tearing down queues, \<^verbatim>\<open>notification_buf_init\<close>, \<^verbatim>\<open>enso_pipe_init\<close>,
  \<^verbatim>\<open>dma_init\<close> and their counterparts in \<^verbatim>\<open>software/src/pcie.cpp\<close>. The device registers of
  queue \<open>i\<close> are page \<open>i\<close> of BAR 2 (\<open>regs\<close>, with the notification buffers behind the pipes); \<open>mmio n r\<close>
  is what a read at time \<open>n\<close> returns of the registers \<open>r\<close>. System calls and allocations may fail, as
  given by \<open>host_env\<close>; fresh memory holds \<open>junk\<close>.
\<close>

section \<open>State\<close>

record NotifBuf =
  nb_pair :: NotificationBufPair
  nb_rx_buf_addr :: u64
  nb_huge_page_prefix :: string

record host_env =
  he_uio_mmap :: bool
  he_page :: "string \<Rightarrow> page_calls"
  he_malloc :: "nat \<Rightarrow> bool"
  he_junk32 :: "nat \<Rightarrow> u32"
  he_junk16 :: "nat \<Rightarrow> u16"
  he_junk64 :: "nat \<Rightarrow> u64"
  he_regs :: "nat \<Rightarrow> QueueRegs"
  he_mmio :: "nat \<Rightarrow> QueueRegs \<Rightarrow> QueueRegs"
  he_cpu :: int

record 'b host =
  h_dev :: "'b option"
  h_os :: os

fun nat_string :: "nat \<Rightarrow> string" where
  "nat_string n = (if n < 10 then [char_of (48 + n)] else nat_string (n div 10) @ [char_of (48 + n mod 10)])"

declare nat_string.simps [simp del]

definition notif_buf_path :: "string \<Rightarrow> nat \<Rightarrow> string" where
  "notif_buf_path pfx n = pfx @ ''_notif_buf:'' @ nat_string n"

definition rx_pipe_path :: "string \<Rightarrow> nat \<Rightarrow> string" where
  "rx_pipe_path pfx n = pfx @ ''_rx_pipe:'' @ nat_string n"

text \<open>\<^verbatim>\<open>while (mmio_read32(reg) != 0) continue;\<close> returns the time at which the register reads zero.\<close>

partial_function (option) mmio_wait ::
    "(nat \<Rightarrow> QueueRegs \<Rightarrow> QueueRegs) \<Rightarrow> (QueueRegs \<Rightarrow> u32) \<Rightarrow> QueueRegs \<Rightarrow> nat \<Rightarrow> nat option" where
  "mmio_wait mmio reg r n = (if reg (mmio n r) \<noteq> 0 then mmio_wait mmio reg r (Suc n) else Some n)"

section \<open>Notification buffers\<close>

text \<open>Both initialisations disable the queue and reset its RX indices before anything else.\<close>

definition notif_regs_reset ::
    "(nat \<Rightarrow> QueueRegs \<Rightarrow> QueueRegs) \<Rightarrow> QueueRegs \<Rightarrow> (QueueRegs \<times> nat) option" where
  "notif_regs_reset mmio r0 =
     (let r1 = r0\<lparr>reg_rx_mem_low := 0, reg_rx_mem_high := 0\<rparr>; r2 = r1\<lparr>reg_rx_tail := 0\<rparr>; r3 = r2\<lparr>reg_rx_head := 0\<rparr> in
      Option.bind (mmio_wait mmio reg_rx_mem_low r1 0) (\<lambda>t1.
      Option.bind (mmio_wait mmio reg_rx_mem_high r1 t1) (\<lambda>t2.
      Option.bind (mmio_wait mmio reg_rx_tail r2 t2) (\<lambda>t3.
      map_option (\<lambda>t4. (r3, t4)) (mmio_wait mmio reg_rx_head r3 t3)))))"

definition pipe_regs_reset ::
    "(nat \<Rightarrow> QueueRegs \<Rightarrow> QueueRegs) \<Rightarrow> QueueRegs \<Rightarrow> (QueueRegs \<times> nat) option" where
  "pipe_regs_reset mmio r0 =
     (let r1 = r0\<lparr>reg_rx_mem_low := 0, reg_rx_mem_high := 0\<rparr>; r2 = r1\<lparr>reg_rx_tail := 0\<rparr>; r3 = r2\<lparr>reg_rx_head := 0\<rparr> in
      Option.bind (mmio_wait mmio (\<lambda>r. reg_rx_mem_low r OR reg_rx_mem_high r) r1 0) (\<lambda>t1.
      Option.bind (mmio_wait mmio reg_rx_tail r2 t1) (\<lambda>t2.
      map_option (\<lambda>t3. (r3, t3)) (mmio_wait mmio reg_rx_head r3 t2))))"

text \<open>
  \<^verbatim>\<open>memset(pending_rx_pipe_tails, 0, kMaxNbFlows)\<close> clears that many bytes: a quarter of the array.
\<close>

definition fresh_tails :: "(nat \<Rightarrow> u32) \<Rightarrow> u32 arr" where
  "fresh_tails junk i = (if 4 * i < unat kMaxNbFlows then 0 else junk i)"

definition notif_buf_indices :: "host_env \<Rightarrow> QueueRegs \<Rightarrow> nat \<Rightarrow> NotificationBufPair \<Rightarrow> NotificationBufPair" where
  "notif_buf_indices env r n nb =
     (let seen = he_mmio env n r; tail = reg_tx_tail seen in
      nb\<lparr>nb_rx_buf := (\<lambda>_. rx_notif_zero), nb_tx_buf := (\<lambda>_. tx_notif_zero),
         nb_rx_head := reg_rx_head seen, nb_tx_tail := tail, nb_tx_head := tail,
         nb_regs := r\<lparr>reg_tx_head := tail\<rparr>\<rparr>)"

definition enable_notif_buf :: "u64 \<Rightarrow> NotificationBufPair \<Rightarrow> NotificationBufPair" where
  "enable_notif_buf phys_addr nb =
     (let tx_addr = phys_addr + ucast (kAlignedDscBufPairSize div 2) in
      nb\<lparr>nb_regs := (nb_regs nb)\<lparr>reg_rx_mem_low := ucast phys_addr, reg_rx_mem_high := ucast (drop_bit 32 phys_addr),
         reg_tx_mem_low := ucast tx_addr, reg_tx_mem_high := ucast (drop_bit 32 tx_addr)\<rparr>\<rparr>)"

definition notification_buf_init :: "'b backend \<Rightarrow> 'b option \<Rightarrow> host_env \<Rightarrow> string \<Rightarrow> NotifBuf \<Rightarrow> 'b host \<Rightarrow>
    (int \<times> NotifBuf \<times> 'b host) option" where
  "notification_buf_init be create env pfx nb h =
     (case create of
        None \<Rightarrow> Some (-1, nb, h)
      | Some b0 \<Rightarrow>
          Option.bind (be_AllocateNotifBuf be b0) (\<lambda>(nid, b1).
            let h1 = h\<lparr>h_dev := Some b1\<rparr>; nb1 = nb\<lparr>nb_pair := (nb_pair nb)\<lparr>nb_id := of_int nid\<rparr>\<rparr> in
            if nid < 0 then Some (-1, nb, h1)
            else if \<not> he_uio_mmap env then Some (-1, nb1, h1)
            else
              Option.bind (notif_regs_reset (he_mmio env) (he_regs env (nat nid + unat kMaxNbFlows))) (\<lambda>(r, t).
                let path = notif_buf_path pfx (unat (of_int nid :: u32));
                    (addr, os') = get_huge_page (he_page env path) path 0 False (h_os h1);
                    h2 = h1\<lparr>h_os := os'\<rparr>; nb2 = nb1\<lparr>nb_pair := (nb_pair nb1)\<lparr>nb_regs := r\<rparr>\<rparr> in
                if addr = 0 then Some (-1, nb2, h2)
                else
                  Option.bind (be_ConvertVirtAddrToDevAddr be addr b1) (\<lambda>(phys_addr, b2).
                    let h3 = h2\<lparr>h_dev := Some b2\<rparr>;
                        nb3 = nb2\<lparr>nb_pair := notif_buf_indices env r t (nb_pair nb2), nb_rx_buf_addr := addr\<rparr> in
                    if \<not> he_malloc env 0 then Some (-1, nb3, h3)
                    else
                      let nb4 = nb3\<lparr>nb_pair := (nb_pair nb3)\<lparr>pending_rx_pipe_tails := fresh_tails (he_junk32 env)\<rparr>\<rparr> in
                      if \<not> he_malloc env 1 then Some (-1, nb4, h3)
                      else
                        let nb5 = nb4\<lparr>nb_pair := (nb_pair nb4)\<lparr>wrap_tracker := (\<lambda>_. 0)\<rparr>\<rparr> in
                        if \<not> he_malloc env 2 then Some (-1, nb5, h3)
                        else
                          let nb6 = nb5\<lparr>nb_pair := (nb_pair nb5)\<lparr>next_rx_pipe_ids := he_junk16 env,
                                 next_rx_ids_head := 0, next_rx_ids_tail := 0, tx_full_cnt := 0,
                                 nb_unreported_completions := 0\<rparr>, nb_huge_page_prefix := pfx\<rparr> in
                          Some (0, nb6\<lparr>nb_pair := enable_notif_buf phys_addr (nb_pair nb6)\<rparr>, h3)))))"

section \<open>RX pipes\<close>

definition enso_pipe_init :: "'b backend \<Rightarrow> host_env \<Rightarrow> nic \<Rightarrow> bool \<Rightarrow> RxEnsoPipeInternal \<Rightarrow> NotifBuf \<Rightarrow> 'b host \<Rightarrow>
    (int \<times> RxEnsoPipeInternal \<times> NotifBuf \<times> 'b host) option" where
  "enso_pipe_init be env nic fallback ep nb h =
     Option.bind (h_dev h) (\<lambda>b.
     Option.bind (be_AllocatePipe be fallback b) (\<lambda>(pid, b1).
       let h1 = h\<lparr>h_dev := Some b1\<rparr> in
       if pid < 0 then Some (-1, ep, nb, h1)
       else
         Option.bind (pipe_regs_reset (he_mmio env) (he_regs env (nat pid))) (\<lambda>(r, _).
           let path = rx_pipe_path (nb_huge_page_prefix nb) (nat pid);
               (addr, os') = get_huge_page (he_page env path) path 0 True (h_os h1);
               h2 = h1\<lparr>h_os := os'\<rparr> in
           if addr = 0 then Some (-1, ep\<lparr>ep_regs := r, ep_buf := 0\<rparr>, nb, h2)
           else
             Option.bind (be_ConvertVirtAddrToDevAddr be addr b1) (\<lambda>(phys_addr, b2).
               let pipe_id = of_int pid :: u16;
                   nb1 = (nb_pair nb)\<lparr>pending_rx_pipe_tails := (pending_rx_pipe_tails (nb_pair nb))(unat pipe_id := 0)\<rparr>;
                   ep1 = \<lparr>ep_buf = addr, ep_buf_phys_addr = phys_addr,
                     ep_regs = r\<lparr>reg_rx_mem_low := ucast phys_addr + nb_id nb1, reg_rx_mem_high := ucast (drop_bit 32 phys_addr)\<rparr>,
                     ep_rx_head = 0, ep_rx_tail = 0, ep_phys_buf_offset = phys_addr - addr, ep_id = pipe_id\<rparr> in
               map_option (\<lambda>(_, nb2, b3). (pid, ep1, nb\<lparr>nb_pair := nb2\<rparr>, h2\<lparr>h_dev := Some b3\<rparr>))
                 (update_fallback_queues_config be (he_junk64 env) nic nb1 b2)))))"

definition dma_init :: "'b backend \<Rightarrow> 'b option \<Rightarrow> host_env \<Rightarrow> nic \<Rightarrow> string \<Rightarrow> bool \<Rightarrow> RxEnsoPipeInternal \<Rightarrow> NotifBuf \<Rightarrow>
    'b host \<Rightarrow> (int \<times> RxEnsoPipeInternal \<times> NotifBuf \<times> 'b host) option" where
  "dma_init be create env nic pfx fallback ep nb h =
     (if he_cpu env < 0 then Some (-1, ep, nb, h)
      else
        Option.bind (if ref_cnt (nb_pair nb) = 0 then notification_buf_init be create env pfx nb h else Some (0, nb, h))
          (\<lambda>(ret, nb1, h1).
             if ret \<noteq> 0 then Some (ret, ep, nb1, h1)
             else enso_pipe_init be env nic fallback ep
                    (nb1\<lparr>nb_pair := (nb_pair nb1)\<lparr>ref_cnt := ref_cnt (nb_pair nb1) + 1\<rparr>\<rparr>) h1))"

section \<open>Teardown\<close>

definition notification_buf_free :: "'b backend \<Rightarrow> NotifBuf \<Rightarrow> 'b host \<Rightarrow> (NotifBuf \<times> 'b host) option" where
  "notification_buf_free be nb h =
     Option.bind (h_dev h) (\<lambda>b.
     Option.bind (be_FreeNotifBuf be (sint (nb_id (nb_pair nb))) b) (\<lambda>(_, b1).
       Some (nb\<lparr>nb_pair := (nb_pair nb)\<lparr>nb_regs := (nb_regs (nb_pair nb))\<lparr>reg_rx_mem_low := 0, reg_rx_mem_high := 0,
               reg_tx_mem_low := 0, reg_tx_mem_high := 0\<rparr>\<rparr>\<rparr>,
             \<lparr>h_dev = None,
              h_os = os_unlink (notif_buf_path (nb_huge_page_prefix nb) (unat (nb_id (nb_pair nb))))
                (os_munmap (nb_rx_buf_addr nb) (ucast kAlignedDscBufPairSize) (h_os h))\<rparr>)))"

text \<open>
  \<open>pfx\<close> is the member \<^verbatim>\<open>huge_page_prefix\<close> of the pipe: the one of the notification buffer after a
  successful initialisation, and empty before.
\<close>

definition enso_pipe_free :: "'b backend \<Rightarrow> host_env \<Rightarrow> nic \<Rightarrow> u16 \<Rightarrow> string \<Rightarrow> RxEnsoPipeInternal \<Rightarrow> NotifBuf \<Rightarrow> 'b host \<Rightarrow>
    (RxEnsoPipeInternal \<times> NotifBuf \<times> 'b host) option" where
  "enso_pipe_free be env nic enso_pipe_id pfx ep nb h =
     (let ep1 = ep\<lparr>ep_regs := (ep_regs ep)\<lparr>reg_rx_mem_low := 0, reg_rx_mem_high := 0\<rparr>\<rparr>;
          os1 = (if ep_buf ep \<noteq> 0
                 then os_unlink (rx_pipe_path pfx (unat enso_pipe_id))
                        (os_munmap (ep_buf ep) (ucast kBufPageSize) (h_os h))
                 else h_os h) in
      Option.bind (h_dev h) (\<lambda>b.
      Option.bind (be_FreePipe be (int (unat enso_pipe_id)) b) (\<lambda>(_, b1).
      map_option (\<lambda>(_, nb2, b2). (ep1\<lparr>ep_buf := 0\<rparr>, nb\<lparr>nb_pair := nb2\<rparr>, \<lparr>h_dev = Some b2, h_os = os1\<rparr>))
        (update_fallback_queues_config be (he_junk64 env) nic (nb_pair nb) b1))))"

definition dma_finish :: "'b backend \<Rightarrow> host_env \<Rightarrow> nic \<Rightarrow> RxEnsoPipeInternal \<Rightarrow> NotifBuf \<Rightarrow> 'b host \<Rightarrow>
    (int \<times> RxEnsoPipeInternal \<times> NotifBuf \<times> 'b host) option" where
  "dma_finish be env nic ep nb h =
     (if ref_cnt (nb_pair nb) = 0 then Some (-1, ep, nb, h)
      else Option.bind (enso_pipe_free be env nic (ep_id ep) (nb_huge_page_prefix nb) ep nb h) (\<lambda>(ep1, nb1, h1).
        Option.bind (if ref_cnt (nb_pair nb1) = 1 then notification_buf_free be nb1 h1 else Some (nb1, h1)) (\<lambda>(nb2, h2).
          Some (0, ep1, nb2\<lparr>nb_pair := (nb_pair nb2)\<lparr>ref_cnt := ref_cnt (nb_pair nb2) - 1\<rparr>\<rparr>, h2))))"

definition get_enso_pipe_id_from_socket :: "RxEnsoPipeInternal \<Rightarrow> u32" where
  "get_enso_pipe_id_from_socket ep = ucast (ep_id ep)"

section \<open>When registers read back what was written\<close>

lemma mmio_wait_now: "reg r = 0 \<Longrightarrow> mmio_wait (\<lambda>_ r. r) reg r n = Some n"
  by (subst mmio_wait.simps) simp

lemma regs_reset_now:
  "notif_regs_reset (\<lambda>_ r. r) r0 = Some (r0\<lparr>reg_rx_mem_low := 0, reg_rx_mem_high := 0, reg_rx_tail := 0, reg_rx_head := 0\<rparr>, 0)"
  "pipe_regs_reset (\<lambda>_ r. r) r0 = Some (r0\<lparr>reg_rx_mem_low := 0, reg_rx_mem_high := 0, reg_rx_tail := 0, reg_rx_head := 0\<rparr>, 0)"
  by (simp_all add: notif_regs_reset_def pipe_regs_reset_def Let_def mmio_wait_now)

text \<open>The whole initialisation when nothing fails.\<close>

lemma notification_buf_init_success:
  assumes "notification_buf_init be create env pfx nb h = Some (0, nb', h')" "he_mmio env = (\<lambda>_ r. r)"
  obtains b0 b1 b2 nid addr phys_addr p0 where
    "create = Some b0" "be_AllocateNotifBuf be b0 = Some (nid, b1)" "0 \<le> nid" "addr \<noteq> 0"
    "be_ConvertVirtAddrToDevAddr be addr b1 = Some (phys_addr, b2)" "h_dev h' = Some b2"
    "nb_huge_page_prefix nb' = pfx" "nb_rx_buf_addr nb' = addr"
    "nb_pair nb' = enable_notif_buf phys_addr p0" "nb_id p0 = of_int nid" "nb_rx_buf p0 = (\<lambda>_. rx_notif_zero)"
    "nb_rx_head p0 = 0" "nb_tx_tail p0 = reg_tx_tail (he_regs env (nat nid + unat kMaxNbFlows))"
    "nb_tx_head p0 = nb_tx_tail p0" "reg_tx_tail (nb_regs p0) = nb_tx_tail p0" "reg_rx_head (nb_regs p0) = 0"
    "wrap_tracker p0 = (\<lambda>_. 0)" "next_rx_ids_head p0 = 0" "next_rx_ids_tail p0 = 0"
    "nb_unreported_completions p0 = 0" "pending_rx_pipe_tails p0 = fresh_tails (he_junk32 env)"
proof -
  from assms(1) obtain b0 where create: "create = Some b0" by (auto simp: notification_buf_init_def split: option.splits)
  from assms(1) obtain nid b1 where alloc: "be_AllocateNotifBuf be b0 = Some (nid, b1)"
    by (auto simp: notification_buf_init_def create bind_eq_Some_conv)
  let ?path = "notif_buf_path pfx (unat (of_int nid :: u32))"
  obtain addr os' where page: "get_huge_page (he_page env ?path) ?path 0 False (h_os h) = (addr, os')" by fastforce
  have nid: "0 \<le> nid" "he_uio_mmap env" "addr \<noteq> 0"
    using assms by (auto simp: notification_buf_init_def create alloc regs_reset_now page Let_def split: if_splits)
  from assms nid obtain phys_addr b2 where conv: "be_ConvertVirtAddrToDevAddr be addr b1 = Some (phys_addr, b2)"
    by (auto simp: notification_buf_init_def create alloc regs_reset_now page Let_def bind_eq_Some_conv)
  have ok: "he_malloc env 0" "he_malloc env 1" "he_malloc env 2"
    using assms nid
    by (auto simp: notification_buf_init_def create alloc regs_reset_now page conv Let_def split: if_splits)
  let ?r = "(he_regs env (nat nid + unat kMaxNbFlows))\<lparr>reg_rx_mem_low := 0, reg_rx_mem_high := 0,
    reg_rx_tail := 0, reg_rx_head := 0\<rparr>"
  let ?p = "(notif_buf_indices env ?r 0 ((nb_pair nb)\<lparr>nb_id := of_int nid, nb_regs := ?r\<rparr>))
    \<lparr>pending_rx_pipe_tails := fresh_tails (he_junk32 env), wrap_tracker := (\<lambda>_. 0), next_rx_pipe_ids := he_junk16 env,
     next_rx_ids_head := 0, next_rx_ids_tail := 0, tx_full_cnt := 0, nb_unreported_completions := 0\<rparr>"
  have eq: "nb_pair nb' = enable_notif_buf phys_addr ?p" "h_dev h' = Some b2" "nb_huge_page_prefix nb' = pfx"
    "nb_rx_buf_addr nb' = addr"
    using assms nid ok
    by (auto simp: notification_buf_init_def create alloc regs_reset_now page conv Let_def)
  show thesis
    by (rule that [OF create alloc nid(1,3) conv eq(2-4,1)]) (simp_all add: notif_buf_indices_def assms(2) Let_def)
qed

lemma enable_notif_buf_simps [simp]:
  "nb_tx_head (enable_notif_buf a nb) = nb_tx_head nb" "nb_tx_tail (enable_notif_buf a nb) = nb_tx_tail nb"
  "wrap_tracker (enable_notif_buf a nb) = wrap_tracker nb"
  "reg_tx_tail (nb_regs (enable_notif_buf a nb)) = reg_tx_tail (nb_regs nb)"
  "nb_unreported_completions (enable_notif_buf a nb) = nb_unreported_completions nb"
  "nb_rx_head (enable_notif_buf a nb) = nb_rx_head nb" "next_rx_ids_head (enable_notif_buf a nb) = next_rx_ids_head nb"
  "next_rx_ids_tail (enable_notif_buf a nb) = next_rx_ids_tail nb" "nb_rx_buf (enable_notif_buf a nb) = nb_rx_buf nb"
  "nb_id (enable_notif_buf a nb) = nb_id nb"
  by (simp_all add: enable_notif_buf_def Let_def)

lemma word_split_64: "word32_32 (ucast a) (ucast (drop_bit 32 a)) = a"
  by (rule bit_eqI) (auto simp: word32_32_def bit_simps dest: bit_imp_le_length)

section \<open>Properties\<close>

text \<open>
  C28: A notification buffer is ready for use. When the initialisation succeeds, with registers that
  read back what was written and a TX tail register inside the ring, both rings are well formed and
  empty, no notification and no completion is pending, the software indices agree with the registers,
  and the addresses in the registers, which enable the queue, are the device address of the page and
  that of its second half.
\<close>

theorem notification_buf_init_ready:
  assumes "notification_buf_init be create env pfx nb h = Some (0, nb', h')" "he_mmio env = (\<lambda>_ r. r)"
    and "\<And>i. unat (reg_tx_tail (he_regs env i)) < notif_N"
  shows "let p = nb_pair nb' in
    rx_wf p \<and> rx_ids p = [] \<and> (\<forall>i. rx_signal (nb_rx_buf p i) = 0) \<and>
    tx_paced 0 0 p (nb_tx_tail p) \<and> nb_tx_head p = nb_tx_tail p \<and> nb_rx_head p = reg_rx_head (nb_regs p) \<and>
    (\<exists>b nid b1 phys b2. create = Some b \<and> be_AllocateNotifBuf be b = Some (nid, b1) \<and> nb_id p = of_int nid \<and>
       be_ConvertVirtAddrToDevAddr be (nb_rx_buf_addr nb') b1 = Some (phys, b2) \<and>
       word32_32 (reg_rx_mem_low (nb_regs p)) (reg_rx_mem_high (nb_regs p)) = phys \<and>
       word32_32 (reg_tx_mem_low (nb_regs p)) (reg_tx_mem_high (nb_regs p)) = phys + 1048576)"
proof -
  from assms(1,2) obtain b0 b1 b2 nid addr phys_addr p0 where w:
    "create = Some b0" "be_AllocateNotifBuf be b0 = Some (nid, b1)" "0 \<le> nid" "addr \<noteq> 0"
    "be_ConvertVirtAddrToDevAddr be addr b1 = Some (phys_addr, b2)" "nb_rx_buf_addr nb' = addr"
    "nb_pair nb' = enable_notif_buf phys_addr p0" "nb_id p0 = of_int nid" "nb_rx_buf p0 = (\<lambda>_. rx_notif_zero)"
    "nb_rx_head p0 = 0" "nb_tx_tail p0 = reg_tx_tail (he_regs env (nat nid + unat kMaxNbFlows))"
    "nb_tx_head p0 = nb_tx_tail p0" "reg_tx_tail (nb_regs p0) = nb_tx_tail p0" "reg_rx_head (nb_regs p0) = 0"
    "wrap_tracker p0 = (\<lambda>_. 0)" "next_rx_ids_head p0 = 0" "next_rx_ids_tail p0 = 0"
    "nb_unreported_completions p0 = 0" "pending_rx_pipe_tails p0 = fresh_tails (he_junk32 env)"
    by (rule notification_buf_init_success) blast
  let ?p = "nb_pair nb'"
  note p = w(7-)
  have inv: "tx_inv ?p (nb_tx_tail ?p)" using assms(3) by (simp add: p tx_inv_def bv_bit_def)
  then have "tx_paced 0 0 ?p (nb_tx_tail ?p)" by (intro tx_paced_init) (simp_all add: p)
  moreover have "rx_wf ?p" "rx_ids ?p = []" by (simp_all add: p rx_wf_def rx_ids_def)
  moreover have "\<forall>i. rx_signal (nb_rx_buf ?p i) = 0" by (simp add: p rx_notif_zero_def)
  moreover have "nb_rx_head ?p = reg_rx_head (nb_regs ?p)" by (simp add: p) (simp add: p enable_notif_buf_def Let_def)
  moreover have "word32_32 (reg_rx_mem_low (nb_regs ?p)) (reg_rx_mem_high (nb_regs ?p)) = phys_addr"
    "word32_32 (reg_tx_mem_low (nb_regs ?p)) (reg_tx_mem_high (nb_regs ?p)) = phys_addr + 1048576"
    by (simp_all add: p(1) enable_notif_buf_def Let_def word_split_64 kAlignedDscBufPairSize_def
        kNotificationBufSize_def kBufPageSize_def)
  ultimately show ?thesis using w(1,2,5,6) by (simp add: Let_def p)
qed

text \<open>A backend that hands out identifiers in order, and a host on which nothing fails.\<close>

definition be_counter :: "nat backend" where
  "be_counter = \<lparr>be_GetNbFallbackQueues = (\<lambda>n. Some (0, n)), be_SetRrStatus = (\<lambda>_ n. Some (0, n)),
     be_GetRrStatus = (\<lambda>n. Some (0, n)), be_AllocateNotifBuf = (\<lambda>n. Some (int n, Suc n)),
     be_FreeNotifBuf = (\<lambda>_ n. Some (0, n)), be_AllocatePipe = (\<lambda>_ n. Some (int n, Suc n)),
     be_FreePipe = (\<lambda>_ n. Some (0, n)), be_ConvertVirtAddrToDevAddr = (\<lambda>a n. Some (a + 8589934592, n))\<rparr>"

definition host_ok :: host_env where
  "host_ok = \<lparr>he_uio_mmap = True,
     he_page = (\<lambda>_. \<lparr>pc_open = True, pc_truncate = True, pc_map = Some 4194304, pc_mirror = True, pc_lock = True\<rparr>),
     he_malloc = (\<lambda>_. True), he_junk32 = (\<lambda>_. 7), he_junk16 = (\<lambda>_. 7), he_junk64 = (\<lambda>_. 7),
     he_regs = (\<lambda>_. regs_zero), he_mmio = (\<lambda>_ r. r), he_cpu = 0\<rparr>"

definition os_empty :: os where
  "os_empty = \<lparr>os_files = [], os_fds = 3, os_maps = [], os_bad_free = False\<rparr>"

theorem notification_buf_init_ready_witness:
  "\<exists>nb' h'. notification_buf_init be_counter (Some 0) host_ok ''/mnt/huge/enso''
      \<lparr>nb_pair = nb_zero, nb_rx_buf_addr = 0, nb_huge_page_prefix = ''''\<rparr> \<lparr>h_dev = None, h_os = os_empty\<rparr> = Some (0, nb', h') \<and>
    word32_32 (reg_tx_mem_low (nb_regs (nb_pair nb'))) (reg_tx_mem_high (nb_regs (nb_pair nb'))) = 8594128896 + 1048576"
proof -
  let ?nb = "\<lparr>nb_pair = nb_zero, nb_rx_buf_addr = 0, nb_huge_page_prefix = ''''\<rparr>"
  let ?h = "\<lparr>h_dev = None, h_os = os_empty\<rparr>"
  have "\<exists>nb' h'. notification_buf_init be_counter (Some 0) host_ok ''/mnt/huge/enso'' ?nb ?h = Some (0, nb', h') \<and>
      nb_rx_buf_addr nb' = 4194304"
    by (simp add: notification_buf_init_def be_counter_def host_ok_def regs_reset_now get_huge_page_def Let_def)
  then obtain nb' h' where run: "notification_buf_init be_counter (Some 0) host_ok ''/mnt/huge/enso'' ?nb ?h = Some (0, nb', h')"
    and addr: "nb_rx_buf_addr nb' = 4194304" by blast
  have "he_mmio host_ok = (\<lambda>_ r. r)" "\<And>i. unat (reg_tx_tail (he_regs host_ok i)) < notif_N"
    by (simp_all add: host_ok_def regs_zero_def)
  from notification_buf_init_ready [OF run this] run show ?thesis
    unfolding addr by (auto simp: Let_def be_counter_def)
qed

end
