(* ===== verification/Enso_Pipes.thy ===== *)
theory Enso_Pipes
  imports Notif_Rx Tx_Backlog
begin

text \<open>
  The data path of the pipe API, \<^verbatim>\<open>software/include/enso/pipe.h\<close> and
  \<^verbatim>\<open>software/src/enso/pipe.cpp\<close>: TX pipes that hand out a circular buffer and reclaim it as
  transmissions complete, RX pipes over the notification buffer, RX/TX pipes that transmit in place
  what they received, and the device that records the pending transmissions of all pipes.

  Pipes are owned by the device: \<open>rx_pipes\<close>, \<open>tx_pipes\<close> and \<open>rx_tx_pipes\<close> are its vectors and a
  pipe is named by its index there, which is what a \<^verbatim>\<open>RxPipe*\<close> or \<^verbatim>\<open>TxPipe*\<close> stands for.
  The default build is modelled: assertions are compiled out (\<^verbatim>\<open>b_ndebug=true\<close>) and
  \<^verbatim>\<open>LATENCY_OPT\<close> is set. \<open>None\<close> is a loop that never ends or an access outside an array.
\<close>

section \<open>State\<close>

record TxPipe =
  tp_kId :: u16
  tp_buf :: u64
  tp_internal_buf :: bool
  app_begin :: u32
  app_end :: u32
  tp_buf_phys_addr :: u64

record RxPipe =
  rp_next_pipe :: bool
  rp_id :: u16
  internal_rx_pipe :: RxEnsoPipeInternal

record RxTxPipe =
  rt_rx_pipe :: nat
  rt_tx_pipe :: nat
  last_tx_pipe_capacity :: u32

record TxPendingRequest =
  pr_pipe_id :: u32
  pr_nb_bytes :: u32

record Device =
  dev_nb :: NotificationBufPair
  rx_pipes :: "RxPipe list"
  tx_pipes :: "TxPipe list"
  rx_tx_pipes :: "RxTxPipe list"
  rx_pipes_map :: "nat \<Rightarrow> nat option"
  rx_tx_pipes_map :: "nat \<Rightarrow> nat option"
  tx_pr_head :: u32
  tx_pr_tail :: u32
  tx_pending_requests :: "TxPendingRequest arr"

definition kQuantumSize :: u32 where [enso_simps]: "kQuantumSize = 64"
definition kMaxCapacity :: u32 where [enso_simps]: "kMaxCapacity = kEnsoPipeSize * 64 - kQuantumSize"
definition kBufMask :: u32 where [enso_simps]: "kBufMask = (kMaxCapacity + kQuantumSize) - 1"
definition kPendingTxRequestsBufMask :: u32 where
  [enso_simps]: "kPendingTxRequestsBufMask = kMaxPendingTxRequests"

section \<open>TX pipes\<close>

definition capacity :: "TxPipe \<Rightarrow> u32" where
  "capacity p = (app_end p - app_begin p - 1) AND kBufMask"

definition pending_transmission :: "TxPipe \<Rightarrow> u32" where
  "pending_transmission p = kMaxCapacity - ((app_end p - app_begin p) AND kBufMask)"

definition NotifyCompletion :: "u32 \<Rightarrow> TxPipe \<Rightarrow> TxPipe" where
  "NotifyCompletion nb_bytes p = p\<lparr>app_end := (app_end p + nb_bytes) AND kBufMask\<rparr>"

section \<open>RX pipes\<close>

definition upd_rx :: "nat \<Rightarrow> (RxEnsoPipeInternal \<Rightarrow> RxEnsoPipeInternal) \<Rightarrow> Device \<Rightarrow> Device" where
  "upd_rx r f d = d\<lparr>rx_pipes := (rx_pipes d)
     [r := (rx_pipes d ! r)\<lparr>internal_rx_pipe := f (internal_rx_pipe (rx_pipes d ! r))\<rparr>]\<rparr>"

definition confirm_bytes :: "u32 \<Rightarrow> RxEnsoPipeInternal \<Rightarrow> RxEnsoPipeInternal" where
  "confirm_bytes nb_bytes ep = ep\<lparr>ep_rx_tail := (ep_rx_tail ep + nb_bytes div 64) mod kEnsoPipeSize\<rparr>"

definition RxPipe_ConfirmBytes :: "nat \<Rightarrow> u32 \<Rightarrow> Device \<Rightarrow> Device" where
  "RxPipe_ConfirmBytes r nb_bytes d = upd_rx r (confirm_bytes nb_bytes) d"

definition RxPipe_capacity :: "RxPipe \<Rightarrow> u32" where
  "RxPipe_capacity p = ((ep_rx_head (internal_rx_pipe p) - ep_rx_tail (internal_rx_pipe p))
     mod kEnsoPipeSize) * 64"

definition RxPipe_Free :: "nat \<Rightarrow> u32 \<Rightarrow> Device \<Rightarrow> Device" where
  "RxPipe_Free r nb_bytes d = upd_rx r (\<lambda>ep. advance_pipe ep (ucast nb_bytes)) d"

definition RxPipe_Prefetch :: "nat \<Rightarrow> Device \<Rightarrow> Device" where
  "RxPipe_Prefetch r d = upd_rx r prefetch_pipe d"

definition RxPipe_Clear :: "nat \<Rightarrow> Device \<Rightarrow> Device" where
  "RxPipe_Clear r d = upd_rx r fully_advance_pipe d"

definition SetAsNextPipe :: "nat \<Rightarrow> Device \<Rightarrow> Device" where
  "SetAsNextPipe r d = d\<lparr>rx_pipes := (rx_pipes d)[r := (rx_pipes d ! r)\<lparr>rp_next_pipe := True\<rparr>]\<rparr>"

text \<open>\<^verbatim>\<open>Peek\<close> returns the number of bytes and the address it stores through \<^verbatim>\<open>buf\<close>.\<close>

definition RxPipe_Peek :: "nat \<Rightarrow> u32 \<Rightarrow> Device \<Rightarrow> (u32 \<times> u64 \<times> Device) option" where
  "RxPipe_Peek r max_nb_bytes d =
     (let p = rx_pipes d ! r in
      Option.bind (if \<not> rp_next_pipe p then map_option snd (get_new_tails (dev_nb d)) else Some (dev_nb d))
        (\<lambda>nb. case peek_next_batch_from_queue (internal_rx_pipe p) nb of
           (ret, buf, ep) \<Rightarrow> Some (min ret max_nb_bytes, buf, upd_rx r (\<lambda>_. ep) (d\<lparr>dev_nb := nb\<rparr>))))"

definition RxPipe_Recv :: "nat \<Rightarrow> u32 \<Rightarrow> Device \<Rightarrow> (u32 \<times> u64 \<times> Device) option" where
  "RxPipe_Recv r max_nb_bytes d =
     map_option (\<lambda>(ret, buf, d'). (ret, buf, RxPipe_ConfirmBytes r ret d')) (RxPipe_Peek r max_nb_bytes d)"

section \<open>Completions\<close>

definition RxTxPipe_ProcessCompletions :: "nat \<Rightarrow> Device \<Rightarrow> Device" where
  "RxTxPipe_ProcessCompletions j d =
     (let rt = rx_tx_pipes d ! j; new_capacity = capacity (tx_pipes d ! rt_tx_pipe rt) in
      if new_capacity > last_tx_pipe_capacity rt then
        (RxPipe_Free (rt_rx_pipe rt) (new_capacity - last_tx_pipe_capacity rt) d)
          \<lparr>rx_tx_pipes := (rx_tx_pipes d)[j := rt\<lparr>last_tx_pipe_capacity := new_capacity\<rparr>]\<rparr>
      else d)"

text \<open>The loop of \<^verbatim>\<open>Device::ProcessCompletions\<close> over the reported completions.\<close>

fun complete_requests :: "nat \<Rightarrow> Device \<Rightarrow> Device" where
  "complete_requests 0 d = d"
| "complete_requests (Suc n) d =
     (let tx_req = tx_pending_requests d (unat (tx_pr_head d)); i = unat (pr_pipe_id tx_req) in
      complete_requests n
        (d\<lparr>tx_pr_head := (tx_pr_head d + 1) AND kPendingTxRequestsBufMask,
           tx_pipes := (tx_pipes d)[i := NotifyCompletion (pr_nb_bytes tx_req) (tx_pipes d ! i)]\<rparr>))"

definition ProcessCompletions :: "nic \<Rightarrow> Device \<Rightarrow> Device" where
  "ProcessCompletions nic d =
     (case get_unreported_completions nic (dev_nb d) of (tx_completions, nb) \<Rightarrow>
        let d' = complete_requests (unat tx_completions) (d\<lparr>dev_nb := nb\<rparr>) in
        fold RxTxPipe_ProcessCompletions [0..<length (rx_tx_pipes d')] d')"

section \<open>Sending\<close>

definition nb_pending_requests :: "Device \<Rightarrow> u32" where
  "nb_pending_requests d = (tx_pr_tail d - tx_pr_head d) AND kPendingTxRequestsBufMask"

partial_function (option) wait_pending :: "nic \<Rightarrow> Device \<Rightarrow> Device option" where
  "wait_pending nic d =
     (if nb_pending_requests d \<ge> kMaxPendingTxRequests - 2
      then wait_pending nic (ProcessCompletions nic d) else Some d)"

definition push_request :: "u32 \<Rightarrow> u32 \<Rightarrow> Device \<Rightarrow> Device" where
  "push_request tx_enso_pipe_id nb_bytes d =
     d\<lparr>tx_pending_requests := (tx_pending_requests d)(unat (tx_pr_tail d) :=
         \<lparr>pr_pipe_id = tx_enso_pipe_id, pr_nb_bytes = nb_bytes\<rparr>),
       tx_pr_tail := (tx_pr_tail d + 1) AND kPendingTxRequestsBufMask\<rparr>"

definition Device_Send :: "nic \<Rightarrow> u32 \<Rightarrow> u64 \<Rightarrow> u32 \<Rightarrow> Device \<Rightarrow> Device option" where
  "Device_Send nic tx_enso_pipe_id phys_addr nb_bytes d =
     Option.bind (send_to_queue nic (dev_nb d) phys_addr nb_bytes) (\<lambda>(_, nb).
       map_option (push_request tx_enso_pipe_id nb_bytes) (wait_pending nic (d\<lparr>dev_nb := nb\<rparr>)))"

definition SendAndFree :: "nic \<Rightarrow> nat \<Rightarrow> u32 \<Rightarrow> Device \<Rightarrow> Device option" where
  "SendAndFree nic i nb_bytes d =
     (let p = tx_pipes d ! i; phys_addr = tp_buf_phys_addr p + ucast (app_begin p) in
      Device_Send nic (ucast (tp_kId p)) phys_addr nb_bytes
        (d\<lparr>tx_pipes := (tx_pipes d)[i := p\<lparr>app_begin := (app_begin p + nb_bytes) AND kBufMask\<rparr>]\<rparr>))"

definition TryExtendBuf :: "nic \<Rightarrow> nat \<Rightarrow> Device \<Rightarrow> u32 \<times> Device" where
  "TryExtendBuf nic i d = (let d' = ProcessCompletions nic d in (capacity (tx_pipes d' ! i), d'))"

partial_function (option) extend_loop :: "nic \<Rightarrow> nat \<Rightarrow> u32 \<Rightarrow> u32 \<Rightarrow> Device \<Rightarrow> (u32 \<times> Device) option" where
  "extend_loop nic i target_capacity cap d =
     (if cap < target_capacity
      then extend_loop nic i target_capacity (fst (TryExtendBuf nic i d)) (snd (TryExtendBuf nic i d))
      else Some (cap, d))"

definition ExtendBufToTarget :: "nic \<Rightarrow> nat \<Rightarrow> u32 \<Rightarrow> Device \<Rightarrow> (u32 \<times> Device) option" where
  "ExtendBufToTarget nic i target_capacity d =
     extend_loop nic i target_capacity (capacity (tx_pipes d ! i)) d"

definition AllocateBuf :: "nic \<Rightarrow> nat \<Rightarrow> u32 \<Rightarrow> Device \<Rightarrow> (u64 \<times> Device) option" where
  "AllocateBuf nic i target_capacity d =
     map_option (\<lambda>(_, d'). (tp_buf (tx_pipes d' ! i) + ucast (app_begin (tx_pipes d' ! i)), d'))
       (ExtendBufToTarget nic i target_capacity d)"

section \<open>RX/TX pipes\<close>

definition RxTxPipe_Recv :: "nic \<Rightarrow> nat \<Rightarrow> u32 \<Rightarrow> Device \<Rightarrow> (u32 \<times> u64 \<times> Device) option" where
  "RxTxPipe_Recv nic j max_nb_bytes d =
     (let d' = ProcessCompletions nic d in RxPipe_Recv (rt_rx_pipe (rx_tx_pipes d' ! j)) max_nb_bytes d')"

definition RxTxPipe_Peek :: "nic \<Rightarrow> nat \<Rightarrow> u32 \<Rightarrow> Device \<Rightarrow> (u32 \<times> u64 \<times> Device) option" where
  "RxTxPipe_Peek nic j max_nb_bytes d =
     (let d' = ProcessCompletions nic d in RxPipe_Peek (rt_rx_pipe (rx_tx_pipes d' ! j)) max_nb_bytes d')"

definition RxTxPipe_ConfirmBytes :: "nat \<Rightarrow> u32 \<Rightarrow> Device \<Rightarrow> Device" where
  "RxTxPipe_ConfirmBytes j nb_bytes d = RxPipe_ConfirmBytes (rt_rx_pipe (rx_tx_pipes d ! j)) nb_bytes d"

definition RxTxPipe_Prefetch :: "nat \<Rightarrow> Device \<Rightarrow> Device" where
  "RxTxPipe_Prefetch j d = RxPipe_Prefetch (rt_rx_pipe (rx_tx_pipes d ! j)) d"

definition RxTxPipe_SendAndFree :: "nic \<Rightarrow> nat \<Rightarrow> u32 \<Rightarrow> Device \<Rightarrow> Device option" where
  "RxTxPipe_SendAndFree nic j nb_bytes d =
     map_option (\<lambda>d'. d'\<lparr>rx_tx_pipes := (rx_tx_pipes d')[j := (rx_tx_pipes d' ! j)
         \<lparr>last_tx_pipe_capacity := last_tx_pipe_capacity (rx_tx_pipes d' ! j) - nb_bytes\<rparr>]\<rparr>)
       (SendAndFree nic (rt_tx_pipe (rx_tx_pipes d ! j)) nb_bytes d)"

section \<open>The next pipe to receive from\<close>

text \<open>
  Unlike a single call of \<^verbatim>\<open>get_next_enso_pipe_id\<close> these loops read a notification slot more than
  once, so the NIC (\<open>post\<close>) may add notifications before every call.
\<close>

type_synonym nic_rx = "NotificationBufPair \<Rightarrow> RxNotification arr"

definition next_id :: "nic_rx \<Rightarrow> Device \<Rightarrow> (int \<times> Device) option" where
  "next_id post d = map_option (\<lambda>(pid, nb). (pid, d\<lparr>dev_nb := nb\<rparr>))
     (get_next_enso_pipe_id ((dev_nb d)\<lparr>nb_rx_buf := post (dev_nb d)\<rparr>))"

partial_function (option) skip_idle :: "(Device \<Rightarrow> nat \<Rightarrow> nat option) \<Rightarrow> nic_rx \<Rightarrow> Device \<Rightarrow> int \<Rightarrow>
    (int \<times> Device) option" where
  "skip_idle rx_of post d pid =
     (if pid < 0 then Some (pid, d)
      else case rx_of d (nat pid) of
             None \<Rightarrow> None
           | Some r \<Rightarrow>
               if ep_rx_tail (internal_rx_pipe (rx_pipes d ! r)) \<noteq> pending_rx_pipe_tails (dev_nb d) (nat pid)
               then Some (pid, RxPipe_Prefetch r d)
               else Option.bind (next_id post d) (\<lambda>(pid', d'). skip_idle rx_of post d' pid'))"

definition NextRxPipeToRecv :: "nic_rx \<Rightarrow> Device \<Rightarrow> (nat option \<times> Device) option" where
  "NextRxPipeToRecv post d =
     Option.bind (next_id post d) (\<lambda>(id0, d0).
     Option.bind (skip_idle rx_pipes_map post d0 id0) (\<lambda>(pid, d').
       if pid < 0 then Some (None, d')
       else case rx_pipes_map d' (nat pid) of
              None \<Rightarrow> None
            | Some r \<Rightarrow> Some (Some r, SetAsNextPipe r d')))"

definition rx_of_rx_tx :: "Device \<Rightarrow> nat \<Rightarrow> nat option" where
  "rx_of_rx_tx d pid = map_option (\<lambda>j. rt_rx_pipe (rx_tx_pipes d ! j)) (rx_tx_pipes_map d pid)"

definition NextRxTxPipeToRecv :: "nic \<Rightarrow> nic_rx \<Rightarrow> Device \<Rightarrow> (nat option \<times> Device) option" where
  "NextRxTxPipeToRecv nic post d =
     Option.bind (next_id post (ProcessCompletions nic d)) (\<lambda>(id0, d0).
     Option.bind (skip_idle rx_of_rx_tx post d0 id0) (\<lambda>(pid, d').
       if pid < 0 then Some (None, d')
       else case rx_tx_pipes_map d' (nat pid) of
              None \<Rightarrow> None
            | Some j \<Rightarrow> Some (Some j, SetAsNextPipe (rt_rx_pipe (rx_tx_pipes d' ! j)) d')))"

end
