(* ===== verification/Enso_Alloc.thy ===== *)
theory Enso_Alloc
  imports Pcie_Init Enso_Pipes
begin

text \<open>
  Creating and destroying devices and pipes, the rest of \<^verbatim>\<open>software/src/enso/pipe.cpp\<close>: the state
  \<open>app\<close> is a device together with the host it runs on. A failed \<^verbatim>\<open>new\<close> is an allocation of
  \<open>he_malloc\<close> that fails; \<open>junk_ep\<close> and \<open>he_junk16\<close> are the contents of a freshly allocated,
  uninitialised \<^verbatim>\<open>RxPipe\<close>, which its destructor uses when the initialisation fails.
\<close>

record 'b app =
  ap_dev :: Device
  ap_rx_addr :: u64
  ap_prefix :: string
  ap_host :: "'b host"

definition ap_nb :: "'b app \<Rightarrow> NotifBuf" where
  "ap_nb a = \<lparr>nb_pair = dev_nb (ap_dev a), nb_rx_buf_addr = ap_rx_addr a, nb_huge_page_prefix = ap_prefix a\<rparr>"

definition ap_put :: "NotifBuf \<Rightarrow> 'b host \<Rightarrow> 'b app \<Rightarrow> 'b app" where
  "ap_put nb h a = a\<lparr>ap_dev := (ap_dev a)\<lparr>dev_nb := nb_pair nb\<rparr>, ap_host := h\<rparr>"

definition tx_pipe_path :: "string \<Rightarrow> nat \<Rightarrow> string" where
  "tx_pipe_path pfx n = pfx @ ''_tx_pipe:'' @ nat_string n"

section \<open>Pipes\<close>

text \<open>\<^verbatim>\<open>RxPipe::~RxPipe\<close>\<close>

definition RxPipe_destroy :: "'b backend \<Rightarrow> host_env \<Rightarrow> nic \<Rightarrow> u16 \<Rightarrow> string \<Rightarrow> RxEnsoPipeInternal \<Rightarrow> 'b app \<Rightarrow>
    'b app option" where
  "RxPipe_destroy be env nic pid pfx ep a =
     map_option (\<lambda>(_, nb, h). ap_put nb h a) (enso_pipe_free be env nic pid pfx ep (ap_nb a) (ap_host a))"

definition AllocateRxPipe :: "'b backend \<Rightarrow> host_env \<Rightarrow> nic \<Rightarrow> bool \<Rightarrow> RxEnsoPipeInternal \<Rightarrow> 'b app \<Rightarrow>
    (nat option \<times> 'b app) option" where
  "AllocateRxPipe be env nic fallback junk_ep a =
     (if \<not> he_malloc env 3 then Some (None, a)
      else Option.bind (enso_pipe_init be env nic fallback junk_ep (ap_nb a) (ap_host a)) (\<lambda>(ret, ep, nb, h).
        let a1 = ap_put nb h a in
        if ret < 0 then map_option (\<lambda>a2. (None, a2)) (RxPipe_destroy be env nic (he_junk16 env 0) '''' ep a1)
        else
          let d = ap_dev a1; r = length (rx_pipes d); pid = of_int ret :: u16 in
          Some (Some r, a1\<lparr>ap_dev := d\<lparr>
            rx_pipes := rx_pipes d @ [\<lparr>rp_next_pipe = False, rp_id = pid, internal_rx_pipe = ep\<rparr>],
            rx_pipes_map := (rx_pipes_map d)(unat pid \<mapsto> r)\<rparr>\<rparr>)))"

text \<open>\<^verbatim>\<open>TxPipe::~TxPipe\<close>\<close>

definition TxPipe_destroy :: "string \<Rightarrow> TxPipe \<Rightarrow> os \<Rightarrow> os" where
  "TxPipe_destroy pfx p s =
     (if tp_internal_buf p
      then os_unlink (tx_pipe_path pfx (unat (tp_kId p))) (os_munmap (tp_buf p) (ucast kMaxCapacity) s) else s)"

definition new_tx_pipe :: "nat \<Rightarrow> u64 \<Rightarrow> TxPipe" where
  "new_tx_pipe n buf = \<lparr>tp_kId = of_nat n, tp_buf = buf, tp_internal_buf = (buf = 0), app_begin = 0, app_end = 0,
     tp_buf_phys_addr = 0\<rparr>"

definition AllocateTxPipe :: "'b backend \<Rightarrow> host_env \<Rightarrow> u64 \<Rightarrow> 'b app \<Rightarrow> (nat option \<times> 'b app) option" where
  "AllocateTxPipe be env buf a =
     (let d = ap_dev a; i = length (tx_pipes d); p = new_tx_pipe i buf;
          path = tx_pipe_path (ap_prefix a) (unat (tp_kId p)) in
      if \<not> he_malloc env 4 then Some (None, a)
      else
        let (buf', os') = (if tp_internal_buf p then get_huge_page (he_page env path) path 0 True (h_os (ap_host a))
                           else (buf, h_os (ap_host a)));
            p1 = p\<lparr>tp_buf := buf'\<rparr>; h1 = (ap_host a)\<lparr>h_os := os'\<rparr> in
        if tp_internal_buf p \<and> buf' = 0 then Some (None, a\<lparr>ap_host := h1\<lparr>h_os := TxPipe_destroy (ap_prefix a) p1 os'\<rparr>\<rparr>)
        else Option.bind (h_dev h1) (\<lambda>b.
          Option.bind (get_dev_addr_from_virt_addr be buf' b) (\<lambda>(phys_addr, b1).
            Some (Some i, a\<lparr>ap_dev := d\<lparr>tx_pipes := tx_pipes d @ [p1\<lparr>tp_buf_phys_addr := phys_addr\<rparr>]\<rparr>,
                            ap_host := h1\<lparr>h_dev := Some b1\<rparr>\<rparr>))))"

definition AllocateRxTxPipe :: "'b backend \<Rightarrow> host_env \<Rightarrow> nic \<Rightarrow> bool \<Rightarrow> RxEnsoPipeInternal \<Rightarrow> 'b app \<Rightarrow>
    (nat option \<times> 'b app) option" where
  "AllocateRxTxPipe be env nic fallback junk_ep a =
     (if \<not> he_malloc env 5 then Some (None, a)
      else Option.bind (AllocateRxPipe be env nic fallback junk_ep a) (\<lambda>(rx, a1).
        case rx of
          None \<Rightarrow> Some (None, a1)
        | Some r \<Rightarrow>
            Option.bind (AllocateTxPipe be env (ep_buf (internal_rx_pipe (rx_pipes (ap_dev a1) ! r))) a1) (\<lambda>(tx, a2).
              case tx of
                None \<Rightarrow> Some (None, a2)
              | Some i \<Rightarrow>
                  let d = ap_dev a2; j = length (rx_tx_pipes d);
                      rt = \<lparr>rt_rx_pipe = r, rt_tx_pipe = i, last_tx_pipe_capacity = capacity (tx_pipes d ! i)\<rparr> in
                  Some (Some j, a2\<lparr>ap_dev := d\<lparr>rx_tx_pipes := rx_tx_pipes d @ [rt],
                    rx_tx_pipes_map := (rx_tx_pipes_map d)(unat (rp_id (rx_pipes d ! r)) \<mapsto> j)\<rparr>\<rparr>))))"

section \<open>Devices\<close>

text \<open>
  \<^verbatim>\<open>sscanf\<close> with \<^verbatim>\<open>%x\<close>: white space, an optional sign and prefix, then hexadecimal digits; a
  literal character of the format has to match.
\<close>

definition is_hex :: "char \<Rightarrow> bool" where
  "is_hex c \<longleftrightarrow> c \<in> set ''0123456789abcdefABCDEF''"

definition hex_val :: "char \<Rightarrow> nat" where
  "hex_val c = (let n = of_char c :: nat in if n \<le> 57 then n - 48 else if n \<le> 70 then n - 55 else n - 87)"

definition scan_hex :: "string \<Rightarrow> (u32 \<times> string) option" where
  "scan_hex s0 =
     (let s1 = dropWhile (\<lambda>c. c = CHR '' '' \<or> of_char c \<in> {9..13::nat}) s0;
          neg = (take 1 s1 = ''-'');
          s2 = (if take 1 s1 = ''-'' \<or> take 1 s1 = ''+'' then drop 1 s1 else s1);
          s3 = (if (take 2 s2 = ''0x'' \<or> take 2 s2 = ''0X'') \<and> list_all is_hex (take 1 (drop 2 s2)) \<and> drop 2 s2 \<noteq> []
                then drop 2 s2 else s2);
          ds = takeWhile is_hex s3; v = of_nat (foldl (\<lambda>n c. 16 * n + hex_val c) 0 ds) in
      if ds = [] then None else Some (if neg then - v else v, dropWhile is_hex s3))"

definition scan_lit :: "char \<Rightarrow> string \<Rightarrow> string option" where
  "scan_lit c s = (case s of x # xs \<Rightarrow> if x = c then Some xs else None | [] \<Rightarrow> None)"

definition scan_bdf :: "string \<Rightarrow> (u32 \<times> u32 \<times> u32) option" where
  "scan_bdf s =
     Option.bind (scan_hex s) (\<lambda>(bus, s1). Option.bind (scan_lit CHR '':'' s1) (\<lambda>s2.
     Option.bind (scan_hex s2) (\<lambda>(dev, s3). Option.bind (scan_lit CHR ''.'' s3) (\<lambda>s4.
     map_option (\<lambda>(func, _). (bus, dev, func)) (scan_hex s4)))))"

definition get_bdf_from_pcie_addr :: "string \<Rightarrow> u16" where
  "get_bdf_from_pcie_addr s =
     (let r = (case scan_bdf s of
                 Some x \<Rightarrow> Some x
               | None \<Rightarrow> Option.bind (scan_hex s) (\<lambda>(_, s1). Option.bind (scan_lit CHR '':'' s1) scan_bdf)) in
      case r of
        None \<Rightarrow> 0
      | Some (bus, dev, func) \<Rightarrow> ucast (push_bit 8 bus OR push_bit 3 dev OR (func AND 7)))"

text \<open>
  \<open>core_id\<close> is the uninitialised member \<^verbatim>\<open>core_id_\<close>; \<open>create\<close> is the outcome of creating the backend
  for the device.
\<close>

definition Device_Init :: "'b backend \<Rightarrow> (u16 \<Rightarrow> 'b option) \<Rightarrow> host_env \<Rightarrow> int \<Rightarrow> string \<Rightarrow> 'b app \<Rightarrow> (int \<times> 'b app) option" where
  "Device_Init be create env core_id pcie_addr a =
     (if core_id < 0 \<and> he_cpu env < 0 then Some (1, a)
      else
        let bdf = (if pcie_addr \<noteq> '''' then get_bdf_from_pcie_addr pcie_addr else 0) in
        if pcie_addr \<noteq> '''' \<and> bdf = 0 then Some (2, a)
        else map_option (\<lambda>(ret, nb, h).
               (if ret \<noteq> 0 then 3 else 0, (ap_put nb h a)\<lparr>ap_rx_addr := nb_rx_buf_addr nb\<rparr>))
             (notification_buf_init be (create bdf) env (ap_prefix a) (ap_nb a) (ap_host a)))"

definition new_device :: "NotificationBufPair \<Rightarrow> TxPendingRequest arr \<Rightarrow> Device" where
  "new_device junk_nb junk_reqs = \<lparr>dev_nb = junk_nb, rx_pipes = [], tx_pipes = [], rx_tx_pipes = [],
     rx_pipes_map = (\<lambda>_. None), rx_tx_pipes_map = (\<lambda>_. None), tx_pr_head = 0, tx_pr_tail = 0,
     tx_pending_requests = junk_reqs\<rparr>"

text \<open>\<^verbatim>\<open>Device::~Device\<close> frees the RX pipes, then the TX pipes, then the notification buffer.\<close>

fun destroy_rx_pipes :: "'b backend \<Rightarrow> host_env \<Rightarrow> nic \<Rightarrow> RxPipe list \<Rightarrow> 'b app \<Rightarrow> 'b app option" where
  "destroy_rx_pipes be env nic [] a = Some a"
| "destroy_rx_pipes be env nic (p # ps) a =
     Option.bind (RxPipe_destroy be env nic (rp_id p) (ap_prefix a) (internal_rx_pipe p) a) (destroy_rx_pipes be env nic ps)"

definition Device_destroy :: "'b backend \<Rightarrow> host_env \<Rightarrow> nic \<Rightarrow> 'b app \<Rightarrow> 'b host option" where
  "Device_destroy be env nic a =
     Option.bind (destroy_rx_pipes be env nic (rx_pipes (ap_dev a)) a) (\<lambda>a1.
       let h1 = (ap_host a1)\<lparr>h_os := fold (TxPipe_destroy (ap_prefix a1)) (tx_pipes (ap_dev a1)) (h_os (ap_host a1))\<rparr> in
       map_option snd (notification_buf_free be (ap_nb a1) h1))"

text \<open>
  When the initialisation fails the new device is destroyed, whatever it had reached by then. \<open>None\<close>
  stands for the use of a backend that was never created; the register writes of the destructor go
  through an uninitialised pointer when the registers were never mapped, which is not represented.
\<close>

definition Device_Create :: "'b backend \<Rightarrow> (u16 \<Rightarrow> 'b option) \<Rightarrow> host_env \<Rightarrow> nic \<Rightarrow> int \<Rightarrow> NotificationBufPair \<Rightarrow>
    TxPendingRequest arr \<Rightarrow> string \<Rightarrow> string \<Rightarrow> os \<Rightarrow> ('b app option \<times> os) option" where
  "Device_Create be create env nic core_id junk_nb junk_reqs pcie_addr huge_page_prefix s =
     (if \<not> he_malloc env 6 then Some (None, s)
      else Option.bind (Device_Init be create env core_id pcie_addr
        \<lparr>ap_dev = new_device junk_nb junk_reqs, ap_rx_addr = 0,
         ap_prefix = (if huge_page_prefix = '''' then ''/mnt/huge/enso'' else huge_page_prefix),
         ap_host = \<lparr>h_dev = None, h_os = s\<rparr>\<rparr>) (\<lambda>(ret, a).
          if ret \<noteq> 0 then map_option (\<lambda>h. (None, h_os h)) (Device_destroy be env nic a)
          else Some (Some a, h_os (ap_host a))))"

end
