(* ===== verification/Enso_Accounting.thy ===== *)
theory Enso_Accounting
  imports Enso_Pipes
begin

text \<open>
  Buffer accounting of the pipe API. The pending transmissions of the device are a queue
  (\<open>requests\<close>); \<open>dev_inv\<close> says that the space each TX pipe has given away is exactly the sum of its
  entries in that queue, and that the queue has one entry per completion owed by the notification
  buffer. \<open>rt_ok\<close> says how far the RX head of an RX/TX pipe may follow the completions of its TX
  pipe. Both are kept by every operation of the data path.
\<close>

section \<open>Ring arithmetic of the device\<close>

lemma and_req_mask: "(x :: u32) AND kPendingTxRequestsBufMask = x mod kNotificationBufSize"
  using unat_and_mask [of kPendingTxRequestsBufMask 14 x]
  by (simp add: word_unat_eq_iff unat_mod kNotificationBufSize_def kPendingTxRequestsBufMask_def
      kMaxPendingTxRequests_def mask_eq_exp_minus_1)

lemma and_buf_mask: "(x :: u32) AND kBufMask = x mod kBufPageSize"
  using unat_and_mask [of kBufMask 21 x]
  by (simp add: word_unat_eq_iff unat_mod kBufPageSize_def kBufMask_def kMaxCapacity_def
      kQuantumSize_def kEnsoPipeSize_def mask_eq_exp_minus_1)

interpretation page_ring: ring_index kBufPageSize page_N
  by unfold_locales (simp_all add: kBufPageSize_def)

definition requests :: "Device \<Rightarrow> TxPendingRequest list" where
  "requests d = ring_slice notif_N (tx_pending_requests d) (unat (tx_pr_head d))
     (ring_dist notif_N (unat (tx_pr_head d)) (unat (tx_pr_tail d)))"

definition pr_wf :: "Device \<Rightarrow> bool" where
  "pr_wf d \<longleftrightarrow> unat (tx_pr_head d) < notif_N \<and> unat (tx_pr_tail d) < notif_N"

lemma nb_pending_requests_eq: "pr_wf d \<Longrightarrow> unat (nb_pending_requests d) = length (requests d)"
  by (simp add: nb_pending_requests_def and_req_mask requests_def notif_ring.dist pr_wf_def)

lemma requests_push:
  assumes "pr_wf d" "length (requests d) < notif_N - 1"
  shows "requests (push_request i n d) = requests d @ [\<lparr>pr_pipe_id = i, pr_nb_bytes = n\<rparr>]"
    and "pr_wf (push_request i n d)"
proof -
  let ?h = "unat (tx_pr_head d)" and ?t = "unat (tx_pr_tail d)"
  have wf: "?h < notif_N" "?t < notif_N" using assms(1) by (simp_all add: pr_wf_def)
  have len: "Suc (ring_dist notif_N ?h ?t) < notif_N" using assms(2) by (simp add: requests_def)
  have t: "unat ((tx_pr_tail d + 1) AND kPendingTxRequestsBufMask) = Suc ?t mod notif_N"
    by (simp add: and_req_mask notif_ring.inc)
  show "pr_wf (push_request i n d)" using wf by (simp add: pr_wf_def push_request_def t)
  have "?t = (?h + ring_dist notif_N ?h ?t) mod notif_N" using wf by simp
  then show "requests (push_request i n d) = requests d @ [\<lparr>pr_pipe_id = i, pr_nb_bytes = n\<rparr>]"
    using ring_slice_upd_end [of "ring_dist notif_N ?h ?t" notif_N "tx_pending_requests d" ?h
        "\<lparr>pr_pipe_id = i, pr_nb_bytes = n\<rparr>"] ring_dist_inc_tail [OF wf len] len
    by (simp add: requests_def push_request_def t ring_slice_snoc)
qed

section \<open>The invariant of the TX pipes\<close>

definition pipe_bytes :: "nat \<Rightarrow> TxPendingRequest list \<Rightarrow> nat" where
  "pipe_bytes i q = (\<Sum>r \<leftarrow> q. if unat (pr_pipe_id r) = i then unat (pr_nb_bytes r) else 0)"

lemma pipe_bytes_simps [simp]:
  "pipe_bytes i [] = 0"
  "pipe_bytes i (r # q) = (if unat (pr_pipe_id r) = i then unat (pr_nb_bytes r) else 0) + pipe_bytes i q"
  "pipe_bytes i (q @ q') = pipe_bytes i q + pipe_bytes i q'"
  by (simp_all add: pipe_bytes_def)

definition pipe_ok :: "nat \<Rightarrow> TxPendingRequest list \<Rightarrow> TxPipe \<Rightarrow> bool" where
  "pipe_ok i q p \<longleftrightarrow> unat (tp_kId p) = i \<and> unat (app_begin p) < page_N \<and> unat (app_end p) < page_N \<and>
     ring_dist page_N (unat (app_end p)) (unat (app_begin p)) = pipe_bytes i q"

lemma capacity_eq: "pipe_ok i q p \<Longrightarrow> unat (capacity p) = page_N - 1 - pipe_bytes i q"
  by (simp add: capacity_def and_buf_mask page_ring.free pipe_ok_def)

lemma pipe_ok_notify:
  assumes "pipe_ok i (r # q) p"
  shows "pipe_ok i q (if unat (pr_pipe_id r) = i then NotifyCompletion (pr_nb_bytes r) p else p)"
proof (cases "unat (pr_pipe_id r) = i")
  case True
  then have d: "ring_dist page_N (unat (app_end p)) (unat (app_begin p)) = unat (pr_nb_bytes r) + pipe_bytes i q"
    and lt: "unat (app_begin p) < page_N" "unat (app_end p) < page_N"
    using assms by (simp_all add: pipe_ok_def)
  have "unat ((app_end p + pr_nb_bytes r) AND kBufMask) = (unat (app_end p) + unat (pr_nb_bytes r)) mod page_N"
    by (simp add: and_buf_mask page_ring.add)
  moreover have "ring_dist page_N ((unat (app_end p) + unat (pr_nb_bytes r)) mod page_N) (unat (app_begin p))
      = pipe_bytes i q"
    using ring_dist_advance [OF lt(2,1), of "unat (pr_nb_bytes r)"] d by simp
  ultimately show ?thesis using True assms by (simp add: pipe_ok_def NotifyCompletion_def)
qed (use assms in \<open>simp add: pipe_ok_def\<close>)

lemma pipe_ok_send:
  assumes "pipe_ok i q p" "n \<le> capacity p" "unat (pr_pipe_id r) = i" "pr_nb_bytes r = n"
  shows "pipe_ok i (q @ [r]) (p\<lparr>app_begin := (app_begin p + n) AND kBufMask\<rparr>)"
proof -
  let ?e = "unat (app_end p)" and ?b = "unat (app_begin p)"
  have ok: "?b < page_N" "?e < page_N" and d: "ring_dist page_N ?e ?b = pipe_bytes i q"
    using assms(1) by (simp_all add: pipe_ok_def)
  have "unat n \<le> page_N - 1 - pipe_bytes i q"
    using assms(2) capacity_eq [OF assms(1)] by (simp add: word_le_nat_alt)
  moreover have "pipe_bytes i q < page_N" unfolding d [symmetric] by (rule ring_dist_less) simp
  ultimately have sum: "pipe_bytes i q + unat n < page_N" by linarith
  have "?b = (?e + pipe_bytes i q) mod page_N" using ok unfolding d [symmetric] by simp
  then have "(?b + unat n) mod page_N = (?e + (pipe_bytes i q + unat n)) mod page_N"
    by (metis mod_add_left_eq add.assoc)
  then have "ring_dist page_N ?e ((?b + unat n) mod page_N) = pipe_bytes i q + unat n"
    using ring_dist_add [OF ok(2) sum] by simp
  then show ?thesis
    using assms by (simp add: pipe_ok_def and_buf_mask page_ring.add)
qed

text \<open>\<open>extra\<close> is the transmission that \<^verbatim>\<open>Device::Send\<close> has posted and not recorded yet.\<close>

definition dev_inv :: "TxPendingRequest list \<Rightarrow> Device \<Rightarrow> bool" where
  "dev_inv extra d \<longleftrightarrow> pr_wf d \<and> length (requests d) \<le> 16381 \<and> length extra \<le> 1 \<and>
     tx_paced 0 (length (requests d @ extra)) (dev_nb d) (nb_tx_tail (dev_nb d)) \<and>
     (\<forall>r \<in> set (requests d @ extra). unat (pr_pipe_id r) < length (tx_pipes d) \<and>
        64 dvd unat (pr_nb_bytes r)) \<and>
     (\<forall>i < length (tx_pipes d). pipe_ok i (requests d @ extra) (tx_pipes d ! i))"

lemma complete_requests_simps [simp]:
  "dev_nb (complete_requests n d) = dev_nb d" "rx_pipes (complete_requests n d) = rx_pipes d"
  "rx_tx_pipes (complete_requests n d) = rx_tx_pipes d" "tx_pr_tail (complete_requests n d) = tx_pr_tail d"
  by (induction n arbitrary: d) (simp_all add: Let_def)

lemma complete_requests_spec:
  assumes "pr_wf d" "n \<le> length (requests d)"
    and "\<forall>r \<in> set (requests d). unat (pr_pipe_id r) < length (tx_pipes d)"
    and "\<forall>i < length (tx_pipes d). pipe_ok i (requests d @ extra) (tx_pipes d ! i)"
  shows "let d' = complete_requests n d in pr_wf d' \<and> requests d' = drop n (requests d) \<and>
    length (tx_pipes d') = length (tx_pipes d) \<and>
    (\<forall>i < length (tx_pipes d). pipe_ok i (drop n (requests d) @ extra) (tx_pipes d' ! i) \<and>
       app_begin (tx_pipes d' ! i) = app_begin (tx_pipes d ! i))"
  using assms
proof (induction n arbitrary: d)
  case 0
  then show ?case by simp
next
  case (Suc n)
  let ?h = "unat (tx_pr_head d)" and ?t = "unat (tx_pr_tail d)"
  let ?r = "tx_pending_requests d ?h"
  let ?i = "unat (pr_pipe_id ?r)"
  let ?h' = "(tx_pr_head d + 1) AND kPendingTxRequestsBufMask"
  define d1 where "d1 = d\<lparr>tx_pr_head := ?h',
      tx_pipes := (tx_pipes d)[?i := NotifyCompletion (pr_nb_bytes ?r) (tx_pipes d ! ?i)]\<rparr>"
  have wf: "?h < notif_N" "?t < notif_N" using Suc.prems(1) by (simp_all add: pr_wf_def)
  have h': "unat ?h' = Suc ?h mod notif_N" by (simp add: and_req_mask notif_ring.inc)
  have "?h \<noteq> ?t" using Suc.prems(2) by (auto simp: requests_def)
  then have dist: "ring_dist notif_N ?h ?t = Suc (ring_dist notif_N (Suc ?h mod notif_N) ?t)"
    using ring_dist_inc_head [OF wf] by simp
  then have q: "requests d = ?r # requests d1"
    using wf by (simp add: requests_def ring_slice_Cons d1_def h')
  have i: "?i < length (tx_pipes d)" using Suc.prems(3) q by simp
  have ok1: "\<forall>i < length (tx_pipes d1). pipe_ok i (requests d1 @ extra) (tx_pipes d1 ! i) \<and>
      app_begin (tx_pipes d1 ! i) = app_begin (tx_pipes d ! i)"
  proof (intro allI impI)
    fix i assume "i < length (tx_pipes d1)"
    then have lt: "i < length (tx_pipes d)" by (simp add: d1_def)
    with Suc.prems(4) q have "pipe_ok i (?r # (requests d1 @ extra)) (tx_pipes d ! i)" by simp
    moreover have "tx_pipes d1 ! i =
        (if ?i = i then NotifyCompletion (pr_nb_bytes ?r) (tx_pipes d ! i) else tx_pipes d ! i)"
      using lt by (simp add: d1_def nth_list_update)
    ultimately show "pipe_ok i (requests d1 @ extra) (tx_pipes d1 ! i) \<and>
        app_begin (tx_pipes d1 ! i) = app_begin (tx_pipes d ! i)"
      using pipe_ok_notify [of i ?r "requests d1 @ extra" "tx_pipes d ! i"]
      by (simp add: NotifyCompletion_def)
  qed
  have rec: "complete_requests (Suc n) d = complete_requests n d1"
    by (simp add: Let_def d1_def)
  have IH: "let d' = complete_requests n d1 in pr_wf d' \<and> requests d' = drop n (requests d1) \<and>
    length (tx_pipes d') = length (tx_pipes d1) \<and>
    (\<forall>i < length (tx_pipes d1). pipe_ok i (drop n (requests d1) @ extra) (tx_pipes d' ! i) \<and>
       app_begin (tx_pipes d' ! i) = app_begin (tx_pipes d1 ! i))"
  proof (rule Suc.IH)
    show "pr_wf d1" using wf by (simp add: pr_wf_def d1_def h')
    show "n \<le> length (requests d1)" using Suc.prems(2) q by simp
    show "\<forall>r \<in> set (requests d1). unat (pr_pipe_id r) < length (tx_pipes d1)"
      using Suc.prems(3) q by (simp add: d1_def)
    show "\<forall>i < length (tx_pipes d1). pipe_ok i (requests d1 @ extra) (tx_pipes d1 ! i)" using ok1 by blast
  qed
  have len: "length (tx_pipes d1) = length (tx_pipes d)"
    and drp: "drop (Suc n) (requests d) = drop n (requests d1)" using q by (simp_all add: d1_def)
  note IH' = IH [unfolded Let_def len, folded drp]
  have "\<forall>i < length (tx_pipes d). app_begin (tx_pipes (complete_requests n d1) ! i) = app_begin (tx_pipes d ! i)"
    using IH' ok1 len by (metis (no_types, lifting))
  with IH' show ?case unfolding rec Let_def by blast
qed

section \<open>RX/TX pipes follow their completions\<close>

text \<open>
  \<open>s j\<close> is the size of a transmission of RX/TX pipe \<open>j\<close> in progress, 0 when there is none: the TX
  pipe has given the bytes away already while \<open>last_tx_pipe_capacity\<close> still counts them.
\<close>

definition rt_ok :: "(nat \<Rightarrow> nat) \<Rightarrow> Device \<Rightarrow> nat \<Rightarrow> bool" where
  "rt_ok s d j \<longleftrightarrow>
     (let rt = rx_tx_pipes d ! j; p = tx_pipes d ! rt_tx_pipe rt;
          h = unat (ep_rx_head (internal_rx_pipe (rx_pipes d ! rt_rx_pipe rt)));
          last = unat (last_tx_pipe_capacity rt) in
      rt_rx_pipe rt < length (rx_pipes d) \<and> rt_tx_pipe rt < length (tx_pipes d) \<and>
      (64 * h + s j) mod page_N = (last + unat (app_begin p) + 1) mod page_N \<and>
      s j \<le> last \<and> last \<le> unat (capacity p) + s j \<and> 64 dvd last + 1)"

definition rts_ok :: "(nat \<Rightarrow> nat) \<Rightarrow> Device \<Rightarrow> bool" where
  "rts_ok s d \<longleftrightarrow> distinct (map rt_rx_pipe (rx_tx_pipes d)) \<and> distinct (map rt_tx_pipe (rx_tx_pipes d)) \<and>
     (\<forall>j < length (rx_tx_pipes d). rt_ok s d j)"

lemma rt_process_frame:
  "RxTxPipe_ProcessCompletions j d = d\<lparr>rx_pipes := rx_pipes (RxTxPipe_ProcessCompletions j d),
     rx_tx_pipes := rx_tx_pipes (RxTxPipe_ProcessCompletions j d)\<rparr>"
  by (simp add: RxTxPipe_ProcessCompletions_def RxPipe_Free_def upd_rx_def Let_def)

lemma rt_process_simps [simp]:
  "dev_nb (RxTxPipe_ProcessCompletions j d) = dev_nb d"
  "tx_pipes (RxTxPipe_ProcessCompletions j d) = tx_pipes d"
  "tx_pr_head (RxTxPipe_ProcessCompletions j d) = tx_pr_head d"
  "tx_pr_tail (RxTxPipe_ProcessCompletions j d) = tx_pr_tail d"
  "tx_pending_requests (RxTxPipe_ProcessCompletions j d) = tx_pending_requests d"
  "length (rx_tx_pipes (RxTxPipe_ProcessCompletions j d)) = length (rx_tx_pipes d)"
  "length (rx_pipes (RxTxPipe_ProcessCompletions j d)) = length (rx_pipes d)"
  by (simp_all add: RxTxPipe_ProcessCompletions_def RxPipe_Free_def upd_rx_def Let_def)

lemma advance_pipe_exact:
  assumes "64 dvd unat (n :: u32)"
  shows "64 * unat (ep_rx_head (advance_pipe ep (ucast n))) mod page_N
    = (64 * unat (ep_rx_head ep) + unat n) mod page_N"
proof -
  obtain k where k: "unat n = 64 * k" using assms by (auto elim: dvdE)
  have "64 * ((h + k) mod pipe_N) = (64 * (h + k)) mod page_N" for h :: nat
    by (simp add: mult_mod_right)
  then show ?thesis by (simp add: advance_pipe_head k distrib_left)
qed

lemma rt_process_head:
  fixes h h' last new b s :: nat
  assumes "(64 * h + s) mod page_N = (last + b + 1) mod page_N"
    and "64 * h' mod page_N = (64 * h + (new - last)) mod page_N" "last \<le> new"
  shows "(64 * h' + s) mod page_N = (new + b + 1) mod page_N"
proof -
  have "(64 * h' + s) mod page_N = (64 * h + (new - last) + s) mod page_N"
    using assms(2) by (rule mod_add_cong) (rule refl)
  also have "\<dots> = (64 * h + s + (new - last)) mod page_N" by (simp add: add_ac)
  also have "\<dots> = (last + b + 1 + (new - last)) mod page_N"
    using assms(1) by (rule mod_add_cong) (rule refl)
  also have "last + b + 1 + (new - last) = new + b + 1" using assms(3) by simp
  finally show ?thesis .
qed

lemma rt_process:
  assumes ok: "rts_ok s d" and j: "j < length (rx_tx_pipes d)"
    and cap: "\<forall>p \<in> set (tx_pipes d). 64 dvd unat (capacity p) + 1"
  defines "d' \<equiv> RxTxPipe_ProcessCompletions j d"
  shows "rts_ok s d'"
    and "k < length (rx_tx_pipes d) \<Longrightarrow> k \<noteq> j \<Longrightarrow> rx_tx_pipes d' ! k = rx_tx_pipes d ! k"
    and "rx_tx_pipes d' ! j = (rx_tx_pipes d ! j)\<lparr>last_tx_pipe_capacity :=
      max (last_tx_pipe_capacity (rx_tx_pipes d ! j)) (capacity (tx_pipes d ! rt_tx_pipe (rx_tx_pipes d ! j)))\<rparr>"
proof -
  let ?rt = "rx_tx_pipes d ! j"
  let ?p = "tx_pipes d ! rt_tx_pipe ?rt" and ?rx = "rx_pipes d ! rt_rx_pipe ?rt"
  let ?last = "last_tx_pipe_capacity ?rt" and ?new = "capacity ?p"
  have okj: "rt_ok s d j" using ok j by (simp add: rts_ok_def)
  have idx: "rt_rx_pipe ?rt < length (rx_pipes d)" "rt_tx_pipe ?rt < length (tx_pipes d)"
    using okj by (simp_all add: rt_ok_def Let_def)
  show other: "rx_tx_pipes d' ! k = rx_tx_pipes d ! k" if "k < length (rx_tx_pipes d)" "k \<noteq> j" for k
    using that by (simp add: d'_def RxTxPipe_ProcessCompletions_def Let_def)
  show here: "rx_tx_pipes d' ! j = ?rt\<lparr>last_tx_pipe_capacity := max ?last ?new\<rparr>"
    using j by (simp add: d'_def RxTxPipe_ProcessCompletions_def Let_def max_def RxPipe_Free_def upd_rx_def)
  have rxs: "rx_pipes d' = (if ?new > ?last then (rx_pipes d)[rt_rx_pipe ?rt := ?rx
      \<lparr>internal_rx_pipe := advance_pipe (internal_rx_pipe ?rx) (ucast (?new - ?last))\<rparr>] else rx_pipes d)"
    by (simp add: d'_def RxTxPipe_ProcessCompletions_def Let_def RxPipe_Free_def upd_rx_def)
  have rts: "map rt_rx_pipe (rx_tx_pipes d') = map rt_rx_pipe (rx_tx_pipes d)"
    "map rt_tx_pipe (rx_tx_pipes d') = map rt_tx_pipe (rx_tx_pipes d)"
    unfolding d'_def RxTxPipe_ProcessCompletions_def Let_def
    by (simp_all add: map_update RxPipe_Free_def upd_rx_def)
      (simp_all add: list_update_same_conv j)
  have tx: "tx_pipes d' = tx_pipes d" and len: "length (rx_pipes d') = length (rx_pipes d)"
    "length (rx_tx_pipes d') = length (rx_tx_pipes d)"
    by (simp_all add: d'_def)
  have "rt_ok s d' k" if k: "k < length (rx_tx_pipes d)" for k
  proof (cases "k = j")
    case False
    have "rt_rx_pipe (rx_tx_pipes d ! k) \<noteq> rt_rx_pipe ?rt"
      using ok k j False by (auto simp: rts_ok_def distinct_conv_nth)
    then have "rx_pipes d' ! rt_rx_pipe (rx_tx_pipes d ! k) = rx_pipes d ! rt_rx_pipe (rx_tx_pipes d ! k)"
      by (simp add: rxs)
    then show ?thesis
      using ok k other [OF k False] by (simp add: rts_ok_def rt_ok_def Let_def tx len)
  next
    case True
    show ?thesis
    proof (cases "?new > ?last")
      case False
      then show ?thesis using okj here True by (simp add: rt_ok_def Let_def tx len rxs max_def)
    next
      case grow: True
      have le: "unat ?last \<le> unat ?new" using grow by (simp add: word_less_nat_alt)
      have sub: "unat (?new - ?last) = unat ?new - unat ?last"
        using grow by (intro unat_sub) simp
      have "64 dvd unat ?new + 1" using cap idx(2) by simp
      moreover have "64 dvd unat ?last + 1" using okj by (simp add: rt_ok_def Let_def)
      ultimately have "64 dvd unat (?new - ?last)"
        unfolding sub using dvd_diff_nat [of 64 "unat ?new + 1" "unat ?last + 1"] by simp
      note head = advance_pipe_exact [OF this, of "internal_rx_pipe ?rx", unfolded sub]
      have "(64 * unat (ep_rx_head (internal_rx_pipe ?rx)) + s j) mod page_N
          = (unat ?last + unat (app_begin ?p) + 1) mod page_N"
        using okj by (simp add: rt_ok_def Let_def)
      from rt_process_head [OF this head le] show ?thesis
        using okj le grow idx True here \<open>64 dvd unat ?new + 1\<close>
        by (simp add: rt_ok_def Let_def tx len rxs max_def)
    qed
  qed
  then show "rts_ok s d'" using ok rts by (simp add: rts_ok_def len)
qed

section \<open>Processing completions\<close>

lemma fold_rt_simps [simp]:
  "dev_nb (fold RxTxPipe_ProcessCompletions js d) = dev_nb d"
  "tx_pipes (fold RxTxPipe_ProcessCompletions js d) = tx_pipes d"
  "tx_pr_head (fold RxTxPipe_ProcessCompletions js d) = tx_pr_head d"
  "tx_pr_tail (fold RxTxPipe_ProcessCompletions js d) = tx_pr_tail d"
  "tx_pending_requests (fold RxTxPipe_ProcessCompletions js d) = tx_pending_requests d"
  "length (rx_tx_pipes (fold RxTxPipe_ProcessCompletions js d)) = length (rx_tx_pipes d)"
  "length (rx_pipes (fold RxTxPipe_ProcessCompletions js d)) = length (rx_pipes d)"
  by (induction js arbitrary: d) simp_all

lemma rt_fold:
  assumes "rts_ok s d" "\<forall>p \<in> set (tx_pipes d). 64 dvd unat (capacity p) + 1" "n \<le> length (rx_tx_pipes d)"
  defines "d' \<equiv> fold RxTxPipe_ProcessCompletions [0..<n] d"
  shows "rts_ok s d' \<and> (\<forall>k < length (rx_tx_pipes d).
    rt_rx_pipe (rx_tx_pipes d' ! k) = rt_rx_pipe (rx_tx_pipes d ! k) \<and>
    rt_tx_pipe (rx_tx_pipes d' ! k) = rt_tx_pipe (rx_tx_pipes d ! k) \<and>
    (k < n \<longrightarrow> capacity (tx_pipes d ! rt_tx_pipe (rx_tx_pipes d ! k)) \<le> last_tx_pipe_capacity (rx_tx_pipes d' ! k)))"
  using assms(3) unfolding d'_def
proof (induction n)
  case 0
  then show ?case using assms(1) by simp
next
  case (Suc n)
  let ?d = "fold RxTxPipe_ProcessCompletions [0..<n] d"
  have IH: "rts_ok s ?d" "\<And>k. k < length (rx_tx_pipes d) \<Longrightarrow>
    rt_rx_pipe (rx_tx_pipes ?d ! k) = rt_rx_pipe (rx_tx_pipes d ! k) \<and>
    rt_tx_pipe (rx_tx_pipes ?d ! k) = rt_tx_pipe (rx_tx_pipes d ! k) \<and>
    (k < n \<longrightarrow> capacity (tx_pipes d ! rt_tx_pipe (rx_tx_pipes d ! k)) \<le> last_tx_pipe_capacity (rx_tx_pipes ?d ! k))"
    using Suc by simp_all
  have n: "n < length (rx_tx_pipes ?d)" using Suc.prems by simp
  have cap: "\<forall>p \<in> set (tx_pipes ?d). 64 dvd unat (capacity p) + 1" using assms(2) by simp
  note step = rt_process [OF IH(1) n cap]
  show ?case
  proof (intro conjI allI impI)
    show "rts_ok s (fold RxTxPipe_ProcessCompletions [0..<Suc n] d)" using step(1) by simp
  next
    fix k assume k: "k < length (rx_tx_pipes d)"
    show "rt_rx_pipe (rx_tx_pipes (fold RxTxPipe_ProcessCompletions [0..<Suc n] d) ! k) = rt_rx_pipe (rx_tx_pipes d ! k)"
      "rt_tx_pipe (rx_tx_pipes (fold RxTxPipe_ProcessCompletions [0..<Suc n] d) ! k) = rt_tx_pipe (rx_tx_pipes d ! k)"
      using IH(2) [OF k] step(2) [of k] step(3) k by (cases "k = n"; simp)+
    assume "k < Suc n"
    then show "capacity (tx_pipes d ! rt_tx_pipe (rx_tx_pipes d ! k))
        \<le> last_tx_pipe_capacity (rx_tx_pipes (fold RxTxPipe_ProcessCompletions [0..<Suc n] d) ! k)"
      using IH(2) [OF k] step(2) [of k] step(3) k by (cases "k = n") simp_all
  qed
qed

lemma rts_ok_mono:
  assumes "rts_ok s d" "rx_tx_pipes d' = rx_tx_pipes d" "rx_pipes d' = rx_pipes d"
    "length (tx_pipes d') = length (tx_pipes d)"
    "\<And>i. i < length (tx_pipes d) \<Longrightarrow> app_begin (tx_pipes d' ! i) = app_begin (tx_pipes d ! i) \<and>
      capacity (tx_pipes d ! i) \<le> capacity (tx_pipes d' ! i)"
  shows "rts_ok s d'"
  unfolding rts_ok_def
proof (intro conjI allI impI)
  fix j assume "j < length (rx_tx_pipes d')"
  then have ok: "rt_ok s d j" using assms(1,2) by (simp add: rts_ok_def)
  then have "rt_tx_pipe (rx_tx_pipes d ! j) < length (tx_pipes d)" by (simp add: rt_ok_def Let_def)
  from assms(5) [OF this] ok show "rt_ok s d' j"
    using assms(2-4) by (simp add: rt_ok_def Let_def word_le_nat_alt)
qed (use assms in \<open>simp_all add: rts_ok_def\<close>)

lemma pipe_bytes_64: "\<forall>r \<in> set q. 64 dvd unat (pr_nb_bytes r) \<Longrightarrow> 64 dvd pipe_bytes i q"
  by (induction q) simp_all

lemma pipe_bytes_drop: "pipe_bytes i (drop n q) \<le> pipe_bytes i q"
  by (metis append_take_drop_id le_add2 pipe_bytes_simps(3))

lemma dev_inv_capacity:
  assumes "dev_inv extra d" "p \<in> set (tx_pipes d)"
  shows "64 dvd unat (capacity p) + 1"
proof -
  obtain i where i: "i < length (tx_pipes d)" "p = tx_pipes d ! i" using assms(2) by (metis in_set_conv_nth)
  let ?q = "requests d @ extra"
  have ok: "pipe_ok i ?q p" using assms(1) i by (simp add: dev_inv_def)
  have "pipe_bytes i ?q < page_N" using ok unfolding pipe_ok_def by (metis ring_dist_less zero_less_numeral)
  then have "unat (capacity p) + 1 = page_N - pipe_bytes i ?q" using capacity_eq [OF ok] by linarith
  moreover have "64 dvd pipe_bytes i ?q" using assms(1) by (intro pipe_bytes_64) (simp add: dev_inv_def)
  moreover have "64 dvd page_N" by simp
  ultimately show ?thesis by (simp only: dvd_diff_nat)
qed

definition nb_completions :: "nic \<Rightarrow> Device \<Rightarrow> nat" where
  "nb_completions nic d = unat (fst (get_unreported_completions nic (dev_nb d)))"

lemma process_completions:
  fixes nic :: nic
  assumes inv: "dev_inv extra d" and rts: "rts_ok s d" and full: "extra = [] \<or> length (requests d) = 16381"
  defines "d' \<equiv> ProcessCompletions nic d"
  shows "dev_inv extra d'" "rts_ok s d'"
    and "nb_completions nic d \<le> length (requests d)"
    and "requests d' = drop (nb_completions nic d) (requests d)"
    and "dev_nb d' = snd (get_unreported_completions nic (dev_nb d))"
    and "\<forall>i < length (tx_pipes d). app_begin (tx_pipes d' ! i) = app_begin (tx_pipes d ! i)"
    and "length (tx_pipes d') = length (tx_pipes d)" "length (rx_tx_pipes d') = length (rx_tx_pipes d)"
    and "\<forall>k < length (rx_tx_pipes d).
      rt_rx_pipe (rx_tx_pipes d' ! k) = rt_rx_pipe (rx_tx_pipes d ! k) \<and>
      rt_tx_pipe (rx_tx_pipes d' ! k) = rt_tx_pipe (rx_tx_pipes d ! k) \<and>
      capacity (tx_pipes d' ! rt_tx_pipe (rx_tx_pipes d ! k)) \<le> last_tx_pipe_capacity (rx_tx_pipes d' ! k)"
proof -
  obtain c nb where get: "get_unreported_completions nic (dev_nb d) = (c, nb)" by fastforce
  let ?n = "unat c" and ?q = "requests d" and ?nb = "dev_nb d"
  have n: "nb_completions nic d = ?n" by (simp add: nb_completions_def get)
  have paced: "tx_paced 0 (length ?q + length extra) ?nb (nb_tx_tail ?nb)" and len: "length ?q \<le> 16381"
    "length extra \<le> 1" "pr_wf d" using inv by (simp_all add: dev_inv_def)
  have "length ?q + length extra \<le> 16382" using len by linarith
  note col = tx_paced_collect [OF get paced this]
  have "unat (nb_unreported_completions ?nb) \<le> 16000" using paced by (simp add: tx_paced_def)
  then have nle: "?n \<le> length ?q" using full col by auto
  define d1 where "d1 = complete_requests ?n (d\<lparr>dev_nb := nb\<rparr>)"
  have same: "requests (d\<lparr>dev_nb := nb\<rparr>) = ?q" "pr_wf (d\<lparr>dev_nb := nb\<rparr>) = pr_wf d"
    by (simp_all add: requests_def pr_wf_def)
  have spec: "let d' = d1 in pr_wf d' \<and> requests d' = drop ?n ?q \<and>
    length (tx_pipes d') = length (tx_pipes d) \<and>
    (\<forall>i < length (tx_pipes d). pipe_ok i (drop ?n ?q @ extra) (tx_pipes d' ! i) \<and>
       app_begin (tx_pipes d' ! i) = app_begin (tx_pipes d ! i))"
    using complete_requests_spec [of "d\<lparr>dev_nb := nb\<rparr>" ?n extra] inv nle len
    unfolding d1_def same by (simp add: dev_inv_def)
  then have d1: "pr_wf d1" "requests d1 = drop ?n ?q" "length (tx_pipes d1) = length (tx_pipes d)"
    "\<And>i. i < length (tx_pipes d) \<Longrightarrow> pipe_ok i (drop ?n ?q @ extra) (tx_pipes d1 ! i)"
    "\<And>i. i < length (tx_pipes d) \<Longrightarrow> app_begin (tx_pipes d1 ! i) = app_begin (tx_pipes d ! i)"
    unfolding Let_def by blast+
  have frame: "dev_nb d1 = nb" "rx_tx_pipes d1 = rx_tx_pipes d" "rx_pipes d1 = rx_pipes d"
    by (simp_all add: d1_def)
  have inv1: "dev_inv extra d1"
    unfolding dev_inv_def
  proof (intro conjI)
    have "length ?q + length extra - ?n = length (drop ?n ?q @ extra)" using nle by simp
    then show "tx_paced 0 (length (requests d1 @ extra)) (dev_nb d1) (nb_tx_tail (dev_nb d1))"
      using col unfolding d1 frame by simp
    show "\<forall>r \<in> set (requests d1 @ extra). unat (pr_pipe_id r) < length (tx_pipes d1) \<and> 64 dvd unat (pr_nb_bytes r)"
      using inv in_set_dropD [of _ ?n ?q] by (auto simp: d1 dev_inv_def)
  qed (use d1 len in auto)
  have rts1: "rts_ok s d1"
  proof (rule rts_ok_mono [OF rts])
    fix i assume i: "i < length (tx_pipes d)"
    then have "pipe_ok i (?q @ extra) (tx_pipes d ! i)" using inv by (simp add: dev_inv_def)
    moreover have "pipe_bytes i (drop ?n ?q @ extra) \<le> pipe_bytes i (?q @ extra)"
      using pipe_bytes_drop [of i ?n ?q] by simp
    ultimately show "app_begin (tx_pipes d1 ! i) = app_begin (tx_pipes d ! i) \<and>
        capacity (tx_pipes d ! i) \<le> capacity (tx_pipes d1 ! i)"
      using d1(4,5) [OF i] by (simp add: word_le_nat_alt capacity_eq)
  qed (use frame d1 in simp_all)
  have cap: "\<forall>p \<in> set (tx_pipes d1). 64 dvd unat (capacity p) + 1" using dev_inv_capacity [OF inv1] by blast
  have d': "d' = fold RxTxPipe_ProcessCompletions [0..<length (rx_tx_pipes d1)] d1"
    by (simp add: d'_def ProcessCompletions_def get Let_def d1_def)
  note fin = rt_fold [OF rts1 cap order_refl, folded d']
  have eq: "requests d' = requests d1" "pr_wf d' = pr_wf d1" "tx_pipes d' = tx_pipes d1" "dev_nb d' = dev_nb d1"
    by (simp_all add: d' requests_def pr_wf_def)
  show "dev_inv extra d'" using inv1 unfolding dev_inv_def eq .
  show "rts_ok s d'" using fin by blast
  show "nb_completions nic d \<le> length ?q" using nle n by simp
  show "requests d' = drop (nb_completions nic d) ?q" by (simp add: eq n d1)
  show "dev_nb d' = snd (get_unreported_completions nic ?nb)" by (simp add: eq frame get)
  show "\<forall>i < length (tx_pipes d). app_begin (tx_pipes d' ! i) = app_begin (tx_pipes d ! i)"
    using d1(5) by (simp add: eq)
  show "length (tx_pipes d') = length (tx_pipes d)" by (simp add: eq d1)
  show "length (rx_tx_pipes d') = length (rx_tx_pipes d)" by (simp add: d' frame)
  show "\<forall>k < length (rx_tx_pipes d).
      rt_rx_pipe (rx_tx_pipes d' ! k) = rt_rx_pipe (rx_tx_pipes d ! k) \<and>
      rt_tx_pipe (rx_tx_pipes d' ! k) = rt_tx_pipe (rx_tx_pipes d ! k) \<and>
      capacity (tx_pipes d' ! rt_tx_pipe (rx_tx_pipes d ! k)) \<le> last_tx_pipe_capacity (rx_tx_pipes d' ! k)"
    using fin unfolding eq frame by blast
qed

section \<open>Sending\<close>

text \<open>What processing completions, any number of times, keeps.\<close>

definition dev_later :: "Device \<Rightarrow> Device \<Rightarrow> bool" where
  "dev_later d d' \<longleftrightarrow> length (tx_pipes d') = length (tx_pipes d) \<and>
     length (rx_tx_pipes d') = length (rx_tx_pipes d) \<and> (\<exists>k. requests d' = drop k (requests d)) \<and>
     (\<forall>i < length (tx_pipes d). app_begin (tx_pipes d' ! i) = app_begin (tx_pipes d ! i)) \<and>
     (\<forall>j < length (rx_tx_pipes d). rt_rx_pipe (rx_tx_pipes d' ! j) = rt_rx_pipe (rx_tx_pipes d ! j) \<and>
        rt_tx_pipe (rx_tx_pipes d' ! j) = rt_tx_pipe (rx_tx_pipes d ! j))"

lemma dev_later_refl: "dev_later d d"
  unfolding dev_later_def by (auto intro: exI [of _ 0])

lemma dev_later_trans: "dev_later d d' \<Longrightarrow> dev_later d' d'' \<Longrightarrow> dev_later d d''"
  unfolding dev_later_def by (auto simp: drop_drop)

lemma dev_later_process:
  assumes "dev_inv extra d" "rts_ok s d" "extra = [] \<or> length (requests d) = 16381"
  shows "dev_later d (ProcessCompletions nic d)"
  using process_completions [OF assms, of nic] unfolding dev_later_def by blast

lemma wait_pending_invariant:
  assumes "wait_pending nic d = Some d'" "P d"
    and "\<And>d. P d \<Longrightarrow> nb_pending_requests d \<ge> kMaxPendingTxRequests - 2 \<Longrightarrow> P (ProcessCompletions nic d)"
  shows "P d' \<and> nb_pending_requests d' < kMaxPendingTxRequests - 2"
proof -
  have "nic' = nic \<and> P d \<longrightarrow> P d' \<and> nb_pending_requests d' < kMaxPendingTxRequests - 2"
    if "wait_pending nic' d = Some d'" for nic' d d'
    using _ that
  proof (rule wait_pending.raw_induct)
    fix wait nic' d d'
    assume IH: "\<And>nic' d d'. wait nic' d = Some d' \<Longrightarrow>
        nic' = nic \<and> P d \<longrightarrow> P d' \<and> nb_pending_requests d' < kMaxPendingTxRequests - 2"
      and "(if nb_pending_requests d \<ge> kMaxPendingTxRequests - 2
            then wait nic' (ProcessCompletions nic' d) else Some d) = Some d'"
    then show "nic' = nic \<and> P d \<longrightarrow> P d' \<and> nb_pending_requests d' < kMaxPendingTxRequests - 2"
      using assms(3) by (metis option.inject linorder_not_less)
  qed
  with assms(1,2) show ?thesis by blast
qed

lemma pending_limit: "unat (kMaxPendingTxRequests - 2) = 16381"
  by (simp add: kMaxPendingTxRequests_def kNotificationBufSize_def)

lemma wait_pending_spec:
  assumes "wait_pending nic d = Some d'" "dev_inv [r] d" "rts_ok s d"
  shows "dev_inv [r] d' \<and> rts_ok s d' \<and> dev_later d d' \<and> length (requests d') < 16381"
proof -
  let ?P = "\<lambda>e. dev_inv [r] e \<and> rts_ok s e \<and> dev_later d e"
  have "?P (ProcessCompletions nic e)" if e: "?P e" and full: "nb_pending_requests e \<ge> kMaxPendingTxRequests - 2" for e
  proof -
    have "length (requests e) \<le> 16381" "pr_wf e" using e by (simp_all add: dev_inv_def)
    then have "length (requests e) = 16381"
      using full pending_limit by (simp add: word_le_nat_alt nb_pending_requests_eq)
    then have f: "[r] = [] \<or> length (requests e) = 16381" by simp
    show ?thesis
      using e process_completions(1,2) [OF _ _ f] dev_later_process [OF _ _ f] dev_later_trans by blast
  qed
  from wait_pending_invariant [OF assms(1), of ?P, OF _ this]
  have "?P d' \<and> nb_pending_requests d' < kMaxPendingTxRequests - 2"
    using assms(2,3) dev_later_refl by blast
  moreover have "pr_wf d'" using calculation by (simp add: dev_inv_def)
  ultimately show ?thesis using pending_limit by (simp add: word_less_nat_alt nb_pending_requests_eq)
qed

lemma dev_inv_push:
  assumes "dev_inv [\<lparr>pr_pipe_id = i, pr_nb_bytes = n\<rparr>] d" "length (requests d) < 16381"
  shows "dev_inv [] (push_request i n d)"
proof -
  have wf: "pr_wf d" using assms(1) by (simp add: dev_inv_def)
  have "length (requests d) < notif_N - 1" using assms(2) by simp
  note push = requests_push [OF wf this, of i n]
  have "dev_nb (push_request i n d) = dev_nb d" "tx_pipes (push_request i n d) = tx_pipes d"
    by (simp_all add: push_request_def)
  then show ?thesis using assms push by (simp add: dev_inv_def)
qed

lemma rts_ok_push: "rts_ok s (push_request i n d) = rts_ok s d"
  by (simp add: rts_ok_def rt_ok_def push_request_def)

lemma rts_ok_nb: "rts_ok s (d\<lparr>dev_nb := nb\<rparr>) = rts_ok s d"
  by (simp add: rts_ok_def rt_ok_def)

text \<open>The first assignment of \<^verbatim>\<open>SendAndFree\<close>, and what it does to both invariants.\<close>

definition take_bytes :: "nat \<Rightarrow> u32 \<Rightarrow> Device \<Rightarrow> Device" where
  "take_bytes i n d = d\<lparr>tx_pipes := (tx_pipes d)
     [i := (tx_pipes d ! i)\<lparr>app_begin := (app_begin (tx_pipes d ! i) + n) AND kBufMask\<rparr>]\<rparr>"

lemma take_bytes_simps [simp]:
  "requests (take_bytes i n d) = requests d" "dev_nb (take_bytes i n d) = dev_nb d"
  "rx_tx_pipes (take_bytes i n d) = rx_tx_pipes d" "rx_pipes (take_bytes i n d) = rx_pipes d"
  "length (tx_pipes (take_bytes i n d)) = length (tx_pipes d)" "pr_wf (take_bytes i n d) = pr_wf d"
  by (simp_all add: take_bytes_def requests_def pr_wf_def)

lemma dev_inv_take:
  assumes inv: "dev_inv [] d" and i: "i < length (tx_pipes d)" and n: "64 dvd unat n" "n \<le> capacity (tx_pipes d ! i)"
    "unat (pr_pipe_id r) = i" "pr_nb_bytes r = n"
    and nb: "tx_paced 0 (Suc (length (requests d))) nb (nb_tx_tail nb)"
  shows "dev_inv [r] ((take_bytes i n d)\<lparr>dev_nb := nb\<rparr>)"
proof -
  let ?d = "(take_bytes i n d)\<lparr>dev_nb := nb\<rparr>"
  have same: "requests ?d = requests d" "pr_wf ?d = pr_wf d"
    using take_bytes_simps(1,6) [of i n d] by (simp_all add: requests_def pr_wf_def)
  have "pipe_ok k (requests d @ [r]) (tx_pipes ?d ! k)" if k: "k < length (tx_pipes d)" for k
  proof -
    have ok: "pipe_ok k (requests d) (tx_pipes d ! k)" using inv k by (simp add: dev_inv_def)
    show ?thesis
    proof (cases "k = i")
      case True
      with pipe_ok_send [OF ok, of n r] n i show ?thesis by (simp add: take_bytes_def)
    next
      case False
      then show ?thesis using ok n(3) by (simp add: take_bytes_def pipe_ok_def)
    qed
  qed
  then show ?thesis using inv i n nb same by (auto simp: dev_inv_def)
qed

lemma rts_ok_take:
  assumes rts: "rts_ok (\<lambda>_. 0) d" and inv: "dev_inv [] d" and i: "i < length (tx_pipes d)"
    and n: "n \<le> capacity (tx_pipes d ! i)"
    and own: "\<And>j. j < length (rx_tx_pipes d) \<Longrightarrow> rt_tx_pipe (rx_tx_pipes d ! j) = i \<Longrightarrow>
      n \<le> last_tx_pipe_capacity (rx_tx_pipes d ! j)"
  defines "s \<equiv> \<lambda>j. if rt_tx_pipe (rx_tx_pipes d ! j) = i then unat n else 0"
  shows "rts_ok s (take_bytes i n d)"
  unfolding rts_ok_def
proof (intro conjI allI impI)
  fix j assume "j < length (rx_tx_pipes (take_bytes i n d))"
  then have j: "j < length (rx_tx_pipes d)" by simp
  then have ok: "rt_ok (\<lambda>_. 0) d j" using rts by (simp add: rts_ok_def)
  show "rt_ok s (take_bytes i n d) j"
  proof (cases "rt_tx_pipe (rx_tx_pipes d ! j) = i")
    case False
    then have "tx_pipes (take_bytes i n d) ! rt_tx_pipe (rx_tx_pipes d ! j) = tx_pipes d ! rt_tx_pipe (rx_tx_pipes d ! j)"
      by (simp add: take_bytes_def)
    then show ?thesis using ok False by (simp add: rt_ok_def Let_def s_def)
  next
    case True
    let ?p = "tx_pipes d ! i" and ?rt = "rx_tx_pipes d ! j"
    let ?p' = "?p\<lparr>app_begin := (app_begin ?p + n) AND kBufMask\<rparr>"
    have okp: "pipe_ok i (requests d) ?p" using inv i by (simp add: dev_inv_def)
    note okp' = pipe_ok_send [OF okp n, of "\<lparr>pr_pipe_id = of_nat i, pr_nb_bytes = n\<rparr>"]
    have "i < 2 ^ 16" using okp unsigned_less [of "tp_kId ?p", where ?'a = nat] by (simp add: pipe_ok_def)
    then have "unat (of_nat i :: u32) = i" by (intro unat_of_nat_small) simp
    with okp' have "unat (capacity ?p') = page_N - 1 - (pipe_bytes i (requests d) + unat n)"
      using capacity_eq [of i "requests d @ [\<lparr>pr_pipe_id = of_nat i, pr_nb_bytes = n\<rparr>]" ?p'] by simp
    moreover have "unat n \<le> unat (capacity ?p)" using n by (simp add: word_le_nat_alt)
    ultimately have cap: "unat (capacity ?p) = unat (capacity ?p') + unat n"
      using capacity_eq [OF okp] by linarith
    have beg: "unat (app_begin ?p') = (unat (app_begin ?p) + unat n) mod page_N"
      by (simp add: and_buf_mask page_ring.add)
    let ?h = "unat (ep_rx_head (internal_rx_pipe (rx_pipes d ! rt_rx_pipe ?rt)))"
    let ?last = "unat (last_tx_pipe_capacity ?rt)"
    have "64 * ?h mod page_N = (?last + unat (app_begin ?p) + 1) mod page_N"
      using ok True by (simp add: rt_ok_def Let_def)
    then have "(64 * ?h + unat n) mod page_N = (?last + unat (app_begin ?p) + 1 + unat n) mod page_N"
      by (rule mod_add_cong) (rule refl)
    also have "\<dots> = (?last + 1 + (unat (app_begin ?p) + unat n)) mod page_N" by (simp add: add_ac)
    also have "\<dots> = (?last + 1 + unat (app_begin ?p')) mod page_N" unfolding beg by (rule mod_add_right_eq [symmetric])
    finally have "(64 * ?h + unat n) mod page_N = (?last + unat (app_begin ?p') + 1) mod page_N"
      by (simp add: add_ac)
    moreover have "unat n \<le> ?last" using own [OF j True] by (simp add: word_le_nat_alt)
    moreover have "tx_pipes (take_bytes i n d) ! i = ?p'" using i by (simp add: take_bytes_def)
    ultimately show ?thesis using ok True cap i by (simp add: rt_ok_def Let_def s_def)
  qed
qed (use rts in \<open>simp_all add: rts_ok_def\<close>)

text \<open>
  A transmission of \<open>n\<close> bytes of TX pipe \<open>i\<close>: the requests recorded before it, less those that have
  completed meanwhile, and the new one behind them.
\<close>

lemma send_and_free_spec:
  assumes inv: "dev_inv [] d" and rts: "rts_ok (\<lambda>_. 0) d" and i: "i < length (tx_pipes d)"
    and n: "0 < n" "64 dvd unat n" "n \<le> capacity (tx_pipes d ! i)"
    and own: "\<And>j. j < length (rx_tx_pipes d) \<Longrightarrow> rt_tx_pipe (rx_tx_pipes d ! j) = i \<Longrightarrow>
      n \<le> last_tx_pipe_capacity (rx_tx_pipes d ! j)"
    and send: "SendAndFree nic i n d = Some d'"
  shows "dev_inv [] d'"
    and "rts_ok (\<lambda>j. if rt_tx_pipe (rx_tx_pipes d ! j) = i then unat n else 0) d'"
    and "\<exists>k. requests d' = drop k (requests d) @ [\<lparr>pr_pipe_id = of_nat i, pr_nb_bytes = n\<rparr>]"
    and "length (rx_tx_pipes d') = length (rx_tx_pipes d)" "length (tx_pipes d') = length (tx_pipes d)"
    and "\<forall>j < length (rx_tx_pipes d). rt_tx_pipe (rx_tx_pipes d' ! j) = rt_tx_pipe (rx_tx_pipes d ! j)"
    and "app_begin (tx_pipes d' ! i) = (app_begin (tx_pipes d ! i) + n) AND kBufMask"
    and "\<forall>j < length (rx_tx_pipes d). rt_rx_pipe (rx_tx_pipes d' ! j) = rt_rx_pipe (rx_tx_pipes d ! j)"
proof -
  let ?p = "tx_pipes d ! i"
  define r where "r = \<lparr>pr_pipe_id = ucast (tp_kId ?p), pr_nb_bytes = n\<rparr>"
  have ok: "pipe_ok i (requests d) ?p" using inv i by (simp add: dev_inv_def)
  then have kid: "unat (tp_kId ?p) = i" by (simp add: pipe_ok_def)
  then have r_id: "unat (pr_pipe_id r) = i" by (simp add: r_def)
  have "(of_nat i :: u32) = ucast (tp_kId ?p)" 
    using arg_cong [OF kid, of "of_nat :: nat \<Rightarrow> u32"] by simp
  then have r: "r = \<lparr>pr_pipe_id = of_nat i, pr_nb_bytes = n\<rparr>" by (simp add: r_def)
  from send obtain v nb d3 where
    queue: "send_to_queue nic (dev_nb d) (tp_buf_phys_addr ?p + ucast (app_begin ?p)) n = Some (v, nb)"
    and wait: "wait_pending nic ((take_bytes i n d)\<lparr>dev_nb := nb\<rparr>) = Some d3"
    and d': "d' = push_request (ucast (tp_kId ?p)) n d3"
    by (auto simp: SendAndFree_def Device_Send_def Let_def bind_eq_Some_conv take_bytes_def)
  have "unat n \<le> page_N - 1" using n(3) capacity_eq [OF ok] by (simp add: word_le_nat_alt)
  then have "tx_paced 0 (Suc (length (requests d))) nb (nb_tx_tail nb)"
    using queue inv n(1) by (intro tx_paced_send) (auto simp: dev_inv_def)
  from dev_inv_take [OF inv i n(2,3) r_id _ this]
  have inv2: "dev_inv [r] ((take_bytes i n d)\<lparr>dev_nb := nb\<rparr>)" by (simp add: r_def)
  have rts2: "rts_ok (\<lambda>j. if rt_tx_pipe (rx_tx_pipes d ! j) = i then unat n else 0) ((take_bytes i n d)\<lparr>dev_nb := nb\<rparr>)"
    using rts_ok_take [OF rts inv i n(3) own] by (simp add: rts_ok_nb)
  note w = wait_pending_spec [OF wait inv2 rts2]
  have push: "d' = push_request (of_nat i) n d3" using d' r by (simp add: r_def)
  show "dev_inv [] d'" unfolding push using w r by (intro dev_inv_push) simp_all
  show "rts_ok (\<lambda>j. if rt_tx_pipe (rx_tx_pipes d ! j) = i then unat n else 0) d'"
    using w by (simp add: push rts_ok_push)
  have "requests ((take_bytes i n d)\<lparr>dev_nb := nb\<rparr>) = requests d"
    by (simp add: requests_def take_bytes_def)
  moreover have "pr_wf d3" using w by (simp add: dev_inv_def)
  ultimately show "\<exists>k. requests d' = drop k (requests d) @ [\<lparr>pr_pipe_id = of_nat i, pr_nb_bytes = n\<rparr>]"
    using w requests_push(1) [of d3 "of_nat i" n] by (auto simp: push dev_later_def)
  have "rx_tx_pipes d' = rx_tx_pipes d3" "tx_pipes d' = tx_pipes d3" by (simp_all add: push push_request_def)
  then show "length (rx_tx_pipes d') = length (rx_tx_pipes d)" "length (tx_pipes d') = length (tx_pipes d)"
    "\<forall>j < length (rx_tx_pipes d). rt_tx_pipe (rx_tx_pipes d' ! j) = rt_tx_pipe (rx_tx_pipes d ! j)"
    "\<forall>j < length (rx_tx_pipes d). rt_rx_pipe (rx_tx_pipes d' ! j) = rt_rx_pipe (rx_tx_pipes d ! j)"
    using w by (simp_all add: dev_later_def)
  show "app_begin (tx_pipes d' ! i) = (app_begin (tx_pipes d ! i) + n) AND kBufMask"
    using w i by (simp add: push push_request_def dev_later_def take_bytes_def)
qed

section \<open>With a fair NIC everything returns\<close>

lemma process_iterate:
  assumes "dev_inv extra d" "rts_ok s d"
    and "extra = [] \<or> (\<forall>k. length (requests ((ProcessCompletions nic ^^ k) d)) = 16381)"
  shows "dev_inv extra ((ProcessCompletions nic ^^ k) d) \<and> rts_ok s ((ProcessCompletions nic ^^ k) d) \<and>
    dev_nb ((ProcessCompletions nic ^^ k) d) = (collect nic ^^ k) (dev_nb d) \<and>
    dev_later d ((ProcessCompletions nic ^^ k) d)"
proof (induction k)
  case 0
  then show ?case using assms(1,2) dev_later_refl by simp
next
  case (Suc k)
  let ?d = "(ProcessCompletions nic ^^ k) d"
  have full: "extra = [] \<or> length (requests ?d) = 16381" using assms(3) by blast
  have d: "dev_inv extra ?d" "rts_ok s ?d" using Suc by blast+
  note step = process_completions [OF d full, of nic] dev_later_process [OF d full, of nic]
  then show ?case using Suc dev_later_trans by (auto simp: collect_def)
qed

lemma dev_nb_inv: "dev_inv extra d \<Longrightarrow> tx_inv (dev_nb d) (nb_tx_tail (dev_nb d))"
  by (simp add: dev_inv_def tx_paced_def)

lemma wait_pending_ticks:
  assumes "length (requests ((ProcessCompletions nic ^^ k) d)) < 16381" "pr_wf ((ProcessCompletions nic ^^ k) d)"
  shows "\<exists>d'. wait_pending nic d = Some d'"
  using assms
proof (induction k arbitrary: d)
  case 0
  then show ?case
    using pending_limit
    by (subst wait_pending.simps) (simp add: word_le_nat_alt nb_pending_requests_eq)
next
  case (Suc k)
  then have "\<exists>d'. wait_pending nic (ProcessCompletions nic d) = Some d'"
    by (intro Suc.IH) (simp_all add: funpow_swap1)
  then show ?case by (subst wait_pending.simps) simp
qed

lemma wait_pending_ends:
  assumes "nic_fair nic" "dev_inv [r] d" "rts_ok s d"
  shows "\<exists>d'. wait_pending nic d = Some d'"
proof (cases "\<forall>k. length (requests ((ProcessCompletions nic ^^ k) d)) = 16381")
  case True
  then have "[r] = [] \<or> (\<forall>k. length (requests ((ProcessCompletions nic ^^ k) d)) = 16381)" by simp
  note it = process_iterate [OF assms(2,3) this]
  obtain k where k: "nb_tx_head ((collect nic ^^ k) (dev_nb d)) = nb_tx_tail (dev_nb d)"
    using collect.drains [OF assms(1) dev_nb_inv [OF assms(2)]] by blast
  let ?d = "(ProcessCompletions nic ^^ k) d"
  have nb: "dev_nb ?d = (collect nic ^^ k) (dev_nb d)" using it by blast
  have "nb_tx_head (dev_nb ?d) = nb_tx_tail (dev_nb ?d)"
    unfolding nb using k collect.tail_ticks [OF dev_nb_inv [OF assms(2)]] by simp
  moreover have "tx_paced 0 16382 (dev_nb ?d) (nb_tx_tail (dev_nb ?d))"
    using it [THEN conjunct1, of k] True [rule_format, of k] by (simp add: dev_inv_def)
  ultimately show ?thesis using tx_paced_drained by fastforce
next
  case False
  define k where "k = (LEAST k. length (requests ((ProcessCompletions nic ^^ k) d)) \<noteq> 16381)"
  from False have k: "length (requests ((ProcessCompletions nic ^^ k) d)) \<noteq> 16381"
    unfolding k_def by (metis (mono_tags, lifting) LeastI_ex)
  have before: "length (requests ((ProcessCompletions nic ^^ j) d)) = 16381" if "j < k" for j
    using that not_less_Least unfolding k_def by blast
  have "dev_inv [r] ((ProcessCompletions nic ^^ j) d) \<and> rts_ok s ((ProcessCompletions nic ^^ j) d)" if "j \<le> k" for j
    using that
  proof (induction j)
    case (Suc j)
    then show ?case using process_completions(1,2) [of "[r]" "(ProcessCompletions nic ^^ j) d" s] before [of j] by auto
  qed (use assms in simp)
  then have inv: "dev_inv [r] ((ProcessCompletions nic ^^ k) d)" by blast
  then have "length (requests ((ProcessCompletions nic ^^ k) d)) < 16381" using k by (simp add: dev_inv_def)
  with inv show ?thesis by (intro wait_pending_ticks) (auto simp: dev_inv_def)
qed

lemma send_and_free_ends:
  assumes fair: "nic_fair nic" and inv: "dev_inv [] d" and rts: "rts_ok (\<lambda>_. 0) d" and i: "i < length (tx_pipes d)"
    and n: "0 < n" "64 dvd unat n" "n \<le> capacity (tx_pipes d ! i)"
    and own: "\<And>j. j < length (rx_tx_pipes d) \<Longrightarrow> rt_tx_pipe (rx_tx_pipes d ! j) = i \<Longrightarrow>
      n \<le> last_tx_pipe_capacity (rx_tx_pipes d ! j)"
  shows "\<exists>d'. SendAndFree nic i n d = Some d'"
proof -
  let ?p = "tx_pipes d ! i" and ?addr = "tp_buf_phys_addr (tx_pipes d ! i) + ucast (app_begin (tx_pipes d ! i))"
  have ok: "pipe_ok i (requests d) ?p" using inv i by (simp add: dev_inv_def)
  then have len: "unat n \<le> page_N - 1" using n(3) capacity_eq [OF ok] by (simp add: word_le_nat_alt)
  then have "unat n \<le> 2 ^ 30" by simp
  from send_to_queue_ends [OF fair dev_nb_inv [OF inv] this, of ?addr] obtain nb
    where queue: "send_to_queue nic (dev_nb d) ?addr n = Some (n, nb)" by blast
  have "tx_paced 0 (Suc (length (requests d))) nb (nb_tx_tail nb)"
    using queue inv n(1) len by (intro tx_paced_send) (auto simp: dev_inv_def)
  from dev_inv_take [where r = "\<lparr>pr_pipe_id = ucast (tp_kId ?p), pr_nb_bytes = n\<rparr>", OF inv i n(2,3) _ _ this] ok
  have inv2: "dev_inv [\<lparr>pr_pipe_id = ucast (tp_kId ?p), pr_nb_bytes = n\<rparr>] ((take_bytes i n d)\<lparr>dev_nb := nb\<rparr>)"
    by (simp add: pipe_ok_def)
  have "rts_ok (\<lambda>j. if rt_tx_pipe (rx_tx_pipes d ! j) = i then unat n else 0) ((take_bytes i n d)\<lparr>dev_nb := nb\<rparr>)"
    using rts_ok_take [OF rts inv i n(3) own] by (simp add: rts_ok_nb)
  from wait_pending_ends [OF fair inv2 this] obtain d3
    where "wait_pending nic ((take_bytes i n d)\<lparr>dev_nb := nb\<rparr>) = Some d3" ..
  with queue show ?thesis by (simp add: SendAndFree_def Device_Send_def Let_def take_bytes_def)
qed

section \<open>Extending the buffer\<close>

lemma extend_loop_invariant:
  assumes "extend_loop nic i t cap d = Some (cap', d')" "P d" "cap = capacity (tx_pipes d ! i)"
    and "\<And>d. P d \<Longrightarrow> P (ProcessCompletions nic d)"
  shows "P d' \<and> cap' = capacity (tx_pipes d' ! i) \<and> t \<le> cap'"
proof -
  have "nic' = nic \<and> i' = i \<and> t' = t \<and> P d \<and> cap = capacity (tx_pipes d ! i) \<longrightarrow>
      P (snd x) \<and> fst x = capacity (tx_pipes (snd x) ! i) \<and> t \<le> fst x"
    if "extend_loop nic' i' t' cap d = Some x" for nic' i' t' cap d x
    using _ that
  proof (rule extend_loop.raw_induct)
    fix ext nic' i' t' cap d x
    assume IH: "\<And>nic' i' t' cap d x. ext nic' i' t' cap d = Some x \<Longrightarrow>
        nic' = nic \<and> i' = i \<and> t' = t \<and> P d \<and> cap = capacity (tx_pipes d ! i) \<longrightarrow>
        P (snd x) \<and> fst x = capacity (tx_pipes (snd x) ! i) \<and> t \<le> fst x"
      and step: "(if cap < t' then ext nic' i' t' (fst (TryExtendBuf nic' i' d)) (snd (TryExtendBuf nic' i' d))
            else Some (cap, d)) = Some x"
    show "nic' = nic \<and> i' = i \<and> t' = t \<and> P d \<and> cap = capacity (tx_pipes d ! i) \<longrightarrow>
        P (snd x) \<and> fst x = capacity (tx_pipes (snd x) ! i) \<and> t \<le> fst x"
      using step IH [of nic' i' t' "fst (TryExtendBuf nic' i' d)" "snd (TryExtendBuf nic' i' d)" x] assms(4)
      by (auto simp: TryExtendBuf_def Let_def split: if_splits)
  qed
  from this [OF assms(1)] assms(2,3) show ?thesis unfolding fst_conv snd_conv by blast
qed

lemma extend_loop_ticks:
  assumes "t \<le> capacity (tx_pipes ((ProcessCompletions nic ^^ k) d) ! i)"
  shows "\<exists>x. extend_loop nic i t (capacity (tx_pipes d ! i)) d = Some x"
  using assms
proof (induction k arbitrary: d)
  case 0
  then have "\<not> capacity (tx_pipes d ! i) < t" by (simp add: not_less)
  then show ?case by (subst extend_loop.simps) simp
next
  case (Suc k)
  then have "\<exists>x. extend_loop nic i t (capacity (tx_pipes (ProcessCompletions nic d) ! i)) (ProcessCompletions nic d) = Some x"
    by (intro Suc.IH) (simp add: funpow_swap1)
  then show ?case by (subst extend_loop.simps) (simp add: TryExtendBuf_def Let_def)
qed

lemma process_drains:
  assumes "nic_fair nic" "dev_inv [] d" "rts_ok s d"
  shows "\<exists>k. requests ((ProcessCompletions nic ^^ k) d) = []"
proof -
  note it = process_iterate [OF assms(2,3) disjI1 [OF refl], where nic = nic]
  obtain k where k: "nb_tx_head ((collect nic ^^ k) (dev_nb d)) = nb_tx_tail (dev_nb d)"
    using collect.drains [OF assms(1) dev_nb_inv [OF assms(2)]] by blast
  let ?d = "(ProcessCompletions nic ^^ k) d"
  have d: "dev_inv [] ?d" "rts_ok s ?d" and nb: "dev_nb ?d = (collect nic ^^ k) (dev_nb d)" using it by blast+
  have "nb_tx_head (dev_nb ?d) = nb_tx_tail (dev_nb ?d)"
    unfolding nb using k collect.tail_ticks [OF dev_nb_inv [OF assms(2)]] by simp
  moreover have "tx_paced 0 (length (requests ?d)) (dev_nb ?d) (nb_tx_tail (dev_nb ?d))" "length (requests ?d) \<le> 16382"
    using d(1) by (simp_all add: dev_inv_def)
  ultimately have "nb_completions nic ?d = length (requests ?d)"
    unfolding nb_completions_def by (intro tx_paced_drained_collect)
  then have "requests (ProcessCompletions nic ?d) = []"
    using process_completions(4) [OF d, of nic] by simp
  then show ?thesis by (intro exI [of _ "Suc k"]) simp
qed

lemma extend_spec:
  assumes inv: "dev_inv [] d" and rts: "rts_ok s d" and i: "i < length (tx_pipes d)"
  shows "ExtendBufToTarget nic i t d = Some (cap, d') \<Longrightarrow>
      dev_inv [] d' \<and> rts_ok s d' \<and> dev_later d d' \<and> cap = capacity (tx_pipes d' ! i) \<and> t \<le> cap \<and> unat t < page_N"
    and "nic_fair nic \<Longrightarrow> unat t < page_N \<Longrightarrow> \<exists>cap d'. ExtendBufToTarget nic i t d = Some (cap, d')"
proof -
  let ?P = "\<lambda>e. dev_inv [] e \<and> rts_ok s e \<and> dev_later d e"
  have step: "?P (ProcessCompletions nic e)" if "?P e" for e
    using that process_completions(1,2) [of "[]" e s nic] dev_later_process [of "[]" e s nic] dev_later_trans
    by blast
  assume "ExtendBufToTarget nic i t d = Some (cap, d')"
  from extend_loop_invariant [OF this [unfolded ExtendBufToTarget_def], of ?P, OF _ refl step]
  have res: "?P d' \<and> cap = capacity (tx_pipes d' ! i) \<and> t \<le> cap"
    using inv rts dev_later_refl by blast
  then have "pipe_ok i (requests d' @ []) (tx_pipes d' ! i)" using i by (simp add: dev_inv_def dev_later_def)
  note cap = capacity_eq [OF this]
  have "unat t \<le> unat (capacity (tx_pipes d' ! i))" using res unfolding word_le_nat_alt by blast
  then have "unat t < page_N" unfolding cap by linarith
  with res show "dev_inv [] d' \<and> rts_ok s d' \<and> dev_later d d' \<and> cap = capacity (tx_pipes d' ! i) \<and> t \<le> cap \<and> unat t < page_N"
    by blast
next
  assume fair: "nic_fair nic" and t: "unat t < page_N"
  from process_drains [OF fair inv rts] obtain k where k: "requests ((ProcessCompletions nic ^^ k) d) = []" ..
  let ?d = "(ProcessCompletions nic ^^ k) d"
  have "dev_inv [] ?d" "length (tx_pipes ?d) = length (tx_pipes d)"
    using process_iterate [OF inv rts disjI1 [OF refl], where k = k and nic = nic] by (auto simp: dev_later_def)
  then have "pipe_ok i [] (tx_pipes ?d ! i)" using i k by (simp add: dev_inv_def)
  then have "unat (capacity (tx_pipes ?d ! i)) = page_N - 1" using capacity_eq by fastforce
  then have "t \<le> capacity (tx_pipes ?d ! i)" using t by (simp add: word_le_nat_alt)
  from extend_loop_ticks [OF this] show "\<exists>cap d'. ExtendBufToTarget nic i t d = Some (cap, d')"
    by (simp add: ExtendBufToTarget_def)
qed

end
