(* ===== verification/Enso_Device.thy ===== *)
theory Enso_Device
  imports Enso_Alloc Enso_Accounting
begin

text \<open>
  The invariant \<open>dev_ok\<close> of a device between two calls of the pipe API, and the operations of the data
  path that keep it: those that leave the TX side alone, and the transmissions of RX/TX pipes.
\<close>

section \<open>Operations that leave the TX side alone\<close>

definition tx_same :: "NotificationBufPair \<Rightarrow> NotificationBufPair \<Rightarrow> bool" where
  "tx_same nb nb' \<longleftrightarrow> nb_tx_head nb' = nb_tx_head nb \<and> nb_tx_tail nb' = nb_tx_tail nb \<and>
     wrap_tracker nb' = wrap_tracker nb \<and> reg_tx_tail (nb_regs nb') = reg_tx_tail (nb_regs nb) \<and>
     nb_unreported_completions nb' = nb_unreported_completions nb"

lemma tx_same_paced: "tx_same nb nb' \<Longrightarrow> tx_paced i B nb (nb_tx_tail nb) \<Longrightarrow> tx_paced i B nb' (nb_tx_tail nb')"
  by (simp add: tx_same_def tx_paced_def tx_inv_def tx_owed_nat_def tx_open_def tx_wraps_def)

lemma tx_same_trans: "tx_same a b \<Longrightarrow> tx_same b c \<Longrightarrow> tx_same a c"
  by (simp add: tx_same_def)

lemma get_new_tails_loop_same:
  "get_new_tails_loop k nb h t c = Some (nb', h', t', c') \<Longrightarrow> tx_same nb nb' \<and> nb_regs nb' = nb_regs nb"
proof (induction k arbitrary: nb h t c)
  case 0
  then show ?case by (simp add: tx_same_def)
next
  case (Suc k)
  show ?case
  proof (cases "rx_signal (nb_rx_buf nb (unat h)) = 0")
    case True
    then show ?thesis using Suc.prems by (simp add: Let_def tx_same_def)
  next
    case False
    with Suc.prems show ?thesis
      by (auto simp: Let_def split: if_splits dest!: Suc.IH) (simp add: tx_same_def)
  qed
qed

lemma get_new_tails_same: "get_new_tails nb = Some (c, nb') \<Longrightarrow> tx_same nb nb'"
  using get_new_tails_loop_same [of kBatchSize nb "nb_rx_head nb" "next_rx_ids_tail nb" 0]
  by (auto simp: get_new_tails_def Let_def tx_same_def split: option.splits)

lemma get_next_enso_pipe_id_same: "get_next_enso_pipe_id nb = Some (pid, nb') \<Longrightarrow> tx_same nb nb'"
  using get_new_tails_same [of nb]
  by (auto simp: get_next_enso_pipe_id_def Let_def tx_same_def split: option.splits if_splits)

text \<open>The RX heads do not move either.\<close>

definition rx_only :: "Device \<Rightarrow> Device \<Rightarrow> bool" where
  "rx_only d d' \<longleftrightarrow> tx_same (dev_nb d) (dev_nb d') \<and> tx_pipes d' = tx_pipes d \<and> rx_tx_pipes d' = rx_tx_pipes d \<and>
     tx_pr_head d' = tx_pr_head d \<and> tx_pr_tail d' = tx_pr_tail d \<and> tx_pending_requests d' = tx_pending_requests d \<and>
     length (rx_pipes d') = length (rx_pipes d) \<and>
     (\<forall>r < length (rx_pipes d). ep_rx_head (internal_rx_pipe (rx_pipes d' ! r)) = ep_rx_head (internal_rx_pipe (rx_pipes d ! r)))"

lemma rx_only_trans: "rx_only a b \<Longrightarrow> rx_only b c \<Longrightarrow> rx_only a c"
  unfolding rx_only_def by (auto intro: tx_same_trans)

lemma rx_only_refl: "rx_only d d"
  by (simp add: rx_only_def tx_same_def)

definition dev_ok :: "Device \<Rightarrow> bool" where
  "dev_ok d \<longleftrightarrow> dev_inv [] d \<and> rts_ok (\<lambda>_. 0) d"

lemma rx_only_ok:
  assumes "rx_only d d'" "dev_ok d"
  shows "dev_ok d'"
proof -
  have same: "requests d' = requests d" "pr_wf d' = pr_wf d" "tx_pipes d' = tx_pipes d"
    "rx_tx_pipes d' = rx_tx_pipes d" "length (rx_pipes d') = length (rx_pipes d)"
    using assms(1) by (simp_all add: rx_only_def requests_def pr_wf_def)
  have "tx_paced 0 (length (requests d)) (dev_nb d') (nb_tx_tail (dev_nb d'))"
    using assms unfolding rx_only_def dev_ok_def dev_inv_def by (simp add: tx_same_paced [of "dev_nb d"])
  then have "dev_inv [] d'" using assms(2) same by (simp add: dev_ok_def dev_inv_def)
  moreover have "rt_ok (\<lambda>_. 0) d' j" if "rt_ok (\<lambda>_. 0) d j" for j
  proof -
    have "rt_rx_pipe (rx_tx_pipes d ! j) < length (rx_pipes d)" using that unfolding rt_ok_def Let_def by blast
    then have "ep_rx_head (internal_rx_pipe (rx_pipes d' ! rt_rx_pipe (rx_tx_pipes d ! j)))
        = ep_rx_head (internal_rx_pipe (rx_pipes d ! rt_rx_pipe (rx_tx_pipes d ! j)))"
      using assms(1) by (simp add: rx_only_def)
    then show ?thesis using that unfolding rt_ok_def Let_def same by (simp only:)
  qed
  then have "rts_ok (\<lambda>_. 0) d'" using assms(2) same by (simp add: dev_ok_def rts_ok_def)
  ultimately show ?thesis by (simp add: dev_ok_def)
qed

lemma update_keeps: "g y = g (xs ! r) \<Longrightarrow> k < length xs \<Longrightarrow> g (xs[r := y] ! k) = g (xs ! k)"
  by (cases "k = r") simp_all

lemma upd_rx_only:
  assumes "\<And>ep. ep_rx_head (f ep) = ep_rx_head ep"
  shows "rx_only d (upd_rx r f d)"
  using assms
  by (simp add: rx_only_def upd_rx_def tx_same_def update_keeps [where g = "\<lambda>p. ep_rx_head (internal_rx_pipe p)"])

lemma consume_queue_head: "consume_queue ep nb peek = (n, buf, ep') \<Longrightarrow> ep_rx_head ep' = ep_rx_head ep"
  by (auto simp: consume_queue_def Let_def split: if_splits)

lemma peek_only:
  assumes "RxPipe_Peek r m d = Some (n, buf, d')"
  shows "rx_only d d'"
proof -
  let ?p = "rx_pipes d ! r"
  from assms obtain nb where
    nb: "(if \<not> rp_next_pipe ?p then map_option snd (get_new_tails (dev_nb d)) else Some (dev_nb d)) = Some nb"
    and res: "(case peek_next_batch_from_queue (internal_rx_pipe ?p) nb of
       (ret, buf, ep) \<Rightarrow> Some (min ret m, buf, upd_rx r (\<lambda>_. ep) (d\<lparr>dev_nb := nb\<rparr>))) = Some (n, buf, d')"
    unfolding RxPipe_Peek_def Let_def bind_eq_Some_conv by blast
  obtain k b ep where ep: "peek_next_batch_from_queue (internal_rx_pipe ?p) nb = (k, b, ep)" by (cases rule: prod_cases3)
  have d': "d' = upd_rx r (\<lambda>_. ep) (d\<lparr>dev_nb := nb\<rparr>)" using res ep by simp
  have same: "tx_same (dev_nb d) nb"
    using nb get_new_tails_same by (auto simp: tx_same_def split: if_splits)
  have "ep_rx_head ep = ep_rx_head (internal_rx_pipe ?p)"
    using consume_queue_head ep by (simp add: peek_next_batch_from_queue_def)
  then show ?thesis
    using same by (simp add: d' rx_only_def upd_rx_def update_keeps [where g = "\<lambda>p. ep_rx_head (internal_rx_pipe p)"])
qed

lemma confirm_only: "rx_only d (RxPipe_ConfirmBytes r n d)"
  unfolding RxPipe_ConfirmBytes_def by (rule upd_rx_only) (simp add: confirm_bytes_def)

lemma recv_only: "RxPipe_Recv r m d = Some (n, buf, d') \<Longrightarrow> rx_only d d'"
  using peek_only rx_only_trans [OF _ confirm_only] by (fastforce simp: RxPipe_Recv_def)

lemma prefetch_only: "rx_only d (RxPipe_Prefetch r d)"
  unfolding RxPipe_Prefetch_def by (rule upd_rx_only) (simp add: prefetch_pipe_def)

lemma set_next_only: "rx_only d (SetAsNextPipe r d)"
  by (simp add: rx_only_def SetAsNextPipe_def tx_same_def update_keeps [where g = "\<lambda>p. ep_rx_head (internal_rx_pipe p)"])

lemma next_id_only: "next_id post d = Some (pid, d') \<Longrightarrow> rx_only d d'"
  using get_next_enso_pipe_id_same [of "(dev_nb d)\<lparr>nb_rx_buf := post (dev_nb d)\<rparr>" pid]
  by (auto simp: next_id_def rx_only_def tx_same_def)

lemma skip_idle_only:
  assumes "skip_idle rx_of post d pid = Some (pid', d')"
  shows "rx_only d d'"
proof -
  have "rx_only d (snd x)" if "skip_idle rx_of' post' d pid = Some x" for rx_of' post' d pid x
    using _ that
  proof (rule skip_idle.raw_induct)
    fix skip rx_of post d pid x
    assume IH: "\<And>rx_of post d pid x. skip rx_of post d pid = Some x \<Longrightarrow> rx_only d (snd x)"
      and step: "(if pid < 0 then Some (pid, d)
        else case rx_of d (nat pid) of None \<Rightarrow> None
             | Some r \<Rightarrow> if ep_rx_tail (internal_rx_pipe (rx_pipes d ! r)) \<noteq> pending_rx_pipe_tails (dev_nb d) (nat pid)
                 then Some (pid, RxPipe_Prefetch r d)
                 else Option.bind (next_id post d) (\<lambda>(pid', d'). skip rx_of post d' pid')) = Some x"
    from step consider "x = (pid, d)" | r where "x = (pid, RxPipe_Prefetch r d)"
      | pid' d' where "next_id post d = Some (pid', d')" "skip rx_of post d' pid' = Some x"
      by (auto simp: bind_eq_Some_conv split: if_splits option.splits)
    then show "rx_only d (snd x)"
    proof cases
      case 3
      from rx_only_trans [OF next_id_only [OF 3(1)] IH [OF 3(2)]] show ?thesis .
    qed (simp_all add: rx_only_refl prefetch_only)
  qed
  from this [OF assms] show ?thesis by simp
qed

lemma next_rx_pipe_only: "NextRxPipeToRecv post d = Some (p, d') \<Longrightarrow> rx_only d d'"
  by (auto simp: NextRxPipeToRecv_def bind_eq_Some_conv split: if_splits option.splits
      dest!: next_id_only skip_idle_only intro: rx_only_trans set_next_only)

lemma next_rx_tx_pipe_only:
  "NextRxTxPipeToRecv nic post d = Some (p, d') \<Longrightarrow> rx_only (ProcessCompletions nic d) d'"
  by (auto simp: NextRxTxPipeToRecv_def bind_eq_Some_conv split: if_splits option.splits
      dest!: next_id_only skip_idle_only intro: rx_only_trans set_next_only)

section \<open>RX/TX transmissions\<close>

lemma rx_tx_send_spec:
  assumes ok: "dev_ok d" and j: "j < length (rx_tx_pipes d)"
    and n: "0 < n" "64 dvd unat n" "n \<le> last_tx_pipe_capacity (rx_tx_pipes d ! j)"
    and send: "RxTxPipe_SendAndFree nic j n d = Some d'"
  shows "dev_ok d'"
proof -
  let ?rt = "rx_tx_pipes d ! j"
  let ?i = "rt_tx_pipe ?rt"
  have inv: "dev_inv [] d" and rts: "rts_ok (\<lambda>_. 0) d" using ok by (simp_all add: dev_ok_def)
  have okj: "rt_ok (\<lambda>_. 0) d j" using rts j by (simp add: rts_ok_def)
  then have i: "?i < length (tx_pipes d)" and cap: "n \<le> capacity (tx_pipes d ! ?i)"
    using n(3) by (auto simp: rt_ok_def Let_def word_le_nat_alt)
  have only: "k = j" if "k < length (rx_tx_pipes d)" "rt_tx_pipe (rx_tx_pipes d ! k) = ?i" for k
    using that rts j by (auto simp: rts_ok_def distinct_conv_nth)
  have own: "n \<le> last_tx_pipe_capacity (rx_tx_pipes d ! k)"
    if "k < length (rx_tx_pipes d)" "rt_tx_pipe (rx_tx_pipes d ! k) = ?i" for k
    using only [OF that] n(3) by simp
  from send obtain d1 where d1: "SendAndFree nic ?i n d = Some d1"
    and d': "d' = d1\<lparr>rx_tx_pipes := (rx_tx_pipes d1)[j := (rx_tx_pipes d1 ! j)
         \<lparr>last_tx_pipe_capacity := last_tx_pipe_capacity (rx_tx_pipes d1 ! j) - n\<rparr>]\<rparr>"
    by (auto simp: RxTxPipe_SendAndFree_def)
  note s = send_and_free_spec [OF inv rts i n(1,2) cap own d1]
  have j1: "j < length (rx_tx_pipes d1)" using j s(4) by simp
  have "rt_ok (\<lambda>_. 0) d' k" if "k < length (rx_tx_pipes d)" for k
  proof (cases "k = j")
    case False
    then have "rt_tx_pipe (rx_tx_pipes d ! k) \<noteq> ?i" using only that by blast
    moreover have "rt_ok (\<lambda>j. if rt_tx_pipe (rx_tx_pipes d ! j) = ?i then unat n else 0) d1 k"
      using s(2,4) that by (simp add: rts_ok_def)
    ultimately show ?thesis using False by (simp add: rt_ok_def Let_def d')
  next
    case True
    let ?h = "unat (ep_rx_head (internal_rx_pipe (rx_pipes d1 ! rt_rx_pipe (rx_tx_pipes d1 ! j))))"
    let ?l = "last_tx_pipe_capacity (rx_tx_pipes d1 ! j)" and ?p = "tx_pipes d1 ! rt_tx_pipe (rx_tx_pipes d1 ! j)"
    have own_tx: "rt_tx_pipe (rx_tx_pipes d1 ! j) = ?i" using s(6) j by blast
    have okd1: "rt_ok (\<lambda>j. if rt_tx_pipe (rx_tx_pipes d ! j) = ?i then unat n else 0) d1 j"
      using s(2) j1 by (simp add: rts_ok_def)
    have k: "(64 * ?h + unat n) mod page_N = (unat ?l + unat (app_begin ?p) + 1) mod page_N"
      "unat n \<le> unat ?l" "unat ?l \<le> unat (capacity ?p) + unat n" "64 dvd unat ?l + 1"
      "rt_rx_pipe (rx_tx_pipes d1 ! j) < length (rx_pipes d1)" "rt_tx_pipe (rx_tx_pipes d1 ! j) < length (tx_pipes d1)"
      using okd1 by (simp_all only: rt_ok_def Let_def own_tx simp_thms if_True)
    have sub: "unat (?l - n) = unat ?l - unat n" using k(2) by (intro unat_sub) (simp add: word_le_nat_alt)
    have "(64 * ?h + unat n) mod page_N = ((unat ?l - unat n) + unat (app_begin ?p) + 1 + unat n) mod page_N"
      using k(1,2) by (simp add: add.commute)
    then have "64 * ?h mod page_N = ((unat ?l - unat n) + unat (app_begin ?p) + 1) mod page_N"
      by (rule mod_add_cancel)
    moreover have "64 dvd (unat ?l - unat n) + 1"
      using k(2) dvd_diff_nat [OF k(4) n(2)] by (simp add: Suc_diff_le)
    ultimately show ?thesis using k(2,3,5,6) True j1 sub by (simp add: rt_ok_def Let_def d')
  qed
  moreover have "map rt_rx_pipe (rx_tx_pipes d') = map rt_rx_pipe (rx_tx_pipes d1)"
    "map rt_tx_pipe (rx_tx_pipes d') = map rt_tx_pipe (rx_tx_pipes d1)"
    using j1 by (simp_all add: d' map_update list_update_same_conv)
  ultimately have "rts_ok (\<lambda>_. 0) d'" using s(2,4) by (simp add: rts_ok_def d')
  moreover have "dev_inv [] d'" using s(1) by (simp add: dev_inv_def d' requests_def pr_wf_def)
  ultimately show ?thesis by (simp add: dev_ok_def)
qed

end
