(* ===== verification/Enso_Runs.thy ===== *)
theory Enso_Runs
  imports Enso_Device
begin

text \<open>
  Executions of an application on one device: it creates pipes, receives, sends, extends its buffers
  and processes completions in any order. The properties at the end hold in every reachable state.
\<close>

section \<open>Creating pipes\<close>

definition nb_idle :: "NotificationBufPair \<Rightarrow> bool" where
  "nb_idle nb \<longleftrightarrow> tx_paced 0 0 nb (nb_tx_tail nb)"

lemma nb_idle_empty:
  assumes "nb_idle nb"
  shows "tx_inv nb (nb_tx_tail nb)" "nb_tx_head nb = nb_tx_tail nb" "nb_unreported_completions nb = 0"
proof -
  let ?ws = "tx_wraps nb (nb_tx_tail nb)"
  show inv: "tx_inv nb (nb_tx_tail nb)" using assms by (simp add: nb_idle_def tx_paced_def)
  have owed: "unat (nb_unreported_completions nb) = 0" "filter Not ?ws = []" and "\<not> suffix [True] ?ws"
    using assms by (simp_all add: nb_idle_def tx_paced_def tx_owed_nat_def tx_open_def)
  then have "?ws = []"
    by (cases ?ws rule: rev_cases) (auto simp: suffix_def split: if_splits)
  then have "tx_used nb (nb_tx_tail nb) = 0"
    unfolding tx_wraps_def by (metis length_ring_slice list.size(3))
  then show "nb_tx_head nb = nb_tx_tail nb" using tx_inv_D(1,2) [OF inv] by (simp add: word_unat_eq_iff)
  show "nb_unreported_completions nb = 0" using owed(1) by (simp add: word_unat_eq_iff)
qed

lemma nb_idle_I:
  "tx_inv nb (nb_tx_tail nb) \<Longrightarrow> nb_tx_head nb = nb_tx_tail nb \<Longrightarrow> nb_unreported_completions nb = 0 \<Longrightarrow> nb_idle nb"
  unfolding nb_idle_def by (rule tx_paced_init)

lemma nb_idle_same: "tx_same nb nb' \<Longrightarrow> nb_idle nb \<Longrightarrow> nb_idle nb'"
  unfolding nb_idle_def by (rule tx_same_paced)

lemma update_fallback_idle:
  assumes "nic_fair nic" "nb_idle nb" "update_fallback_queues_config be junk nic nb b = Some (r, nb', b')"
  shows "nb_idle nb'"
proof -
  note e = nb_idle_empty [OF assms(2)]
  have "nb_idle nb2" if "configure_fallback_queues junk nic nb n rr = Some (k, nb2)" for n rr k nb2
    using that send_config_empty [OF assms(1) e(1,2), of "pack junk (FallbackQueueConfig n (fallback_queue_mask n) (if rr then -1 else 0))"]
      e(3) nb_idle_I [of nb2]
    by (auto simp: configure_fallback_queues_def unpack_pack)
  then show ?thesis
    using assms(2,3) by (auto simp: update_fallback_queues_config_def bind_eq_Some_conv split: if_splits)
qed

lemma update_fallback_returns:
  assumes "nic_fair nic" "nb_idle nb" "be_GetRrStatus be b = Some (r1, b1)" "be_GetNbFallbackQueues be b1 = Some (r2, b2)"
  shows "\<exists>r nb' b'. update_fallback_queues_config be junk nic nb b = Some (r, nb', b') \<and> b' \<in> {b1, b2}"
proof -
  note e = nb_idle_empty [OF assms(2)]
  have "\<exists>k nb'. configure_fallback_queues junk nic nb n rr = Some (k, nb')" for n rr
    using send_config_empty [OF assms(1) e(1,2), of "pack junk (FallbackQueueConfig n (fallback_queue_mask n) (if rr then -1 else 0))"]
    by (auto simp: configure_fallback_queues_def unpack_pack)
  then show ?thesis
    using assms(3,4) by (fastforce simp: update_fallback_queues_config_def get_round_robin_status_def
        pcie_get_nb_fallback_queues_def)
qed

lemma pipe_init_idle:
  assumes "nic_fair nic" "nb_idle (nb_pair nb)" "enso_pipe_init be env nic fb ep nb h = Some (ret, ep', nb', h')"
  shows "nb_idle (nb_pair nb')" "0 \<le> ret \<Longrightarrow> ep_rx_head ep' = 0"
proof -
  have idle: "nb_idle (nb_pair nb\<lparr>pending_rx_pipe_tails := f\<rparr>)" for f
    by (rule nb_idle_same [OF _ assms(2)]) (simp add: tx_same_def)
  show "nb_idle (nb_pair nb')"
    using assms(2,3)
    by (auto simp: enso_pipe_init_def bind_eq_Some_conv Let_def case_prod_unfold split: if_splits
        intro: update_fallback_idle [OF assms(1) idle])
  show "ep_rx_head ep' = 0" if "0 \<le> ret"
    using that assms(3) by (auto simp: enso_pipe_init_def bind_eq_Some_conv Let_def case_prod_unfold split: if_splits)
qed

lemma pipe_free_idle:
  assumes "nic_fair nic" "nb_idle (nb_pair nb)" "enso_pipe_free be env nic pid pfx ep nb h = Some (ep', nb', h')"
  shows "nb_idle (nb_pair nb')"
  using assms(3)
  by (auto simp: enso_pipe_free_def bind_eq_Some_conv Let_def intro: update_fallback_idle [OF assms(1,2)])

lemma dev_ok_idle: "dev_ok d \<Longrightarrow> requests d = [] \<Longrightarrow> nb_idle (dev_nb d)"
  by (simp add: dev_ok_def dev_inv_def nb_idle_def)

lemma dev_ok_nb: "dev_ok d \<Longrightarrow> requests d = [] \<Longrightarrow> nb_idle nb \<Longrightarrow> dev_ok (d\<lparr>dev_nb := nb\<rparr>)"
  by (simp add: dev_ok_def dev_inv_def nb_idle_def rts_ok_nb requests_def pr_wf_def)

lemma dev_ok_add_rx: "dev_ok d \<Longrightarrow> dev_ok (d\<lparr>rx_pipes := rx_pipes d @ [p], rx_pipes_map := m\<rparr>)"
  by (simp add: dev_ok_def dev_inv_def rts_ok_def rt_ok_def requests_def pr_wf_def Let_def nth_append less_SucI)

lemma pipe_bytes_unused: "\<forall>r \<in> set q. unat (pr_pipe_id r) < i \<Longrightarrow> pipe_bytes i q = 0"
  by (induction q) auto

definition fresh_tx :: "nat \<Rightarrow> TxPipe \<Rightarrow> bool" where
  "fresh_tx i p \<longleftrightarrow> tp_kId p = of_nat i \<and> app_begin p = 0 \<and> app_end p = 0"

lemma dev_ok_add_tx:
  assumes "dev_ok d" "fresh_tx (length (tx_pipes d)) p" "length (tx_pipes d) < 2 ^ 16"
  shows "dev_ok (d\<lparr>tx_pipes := tx_pipes d @ [p]\<rparr>)"
proof -
  let ?d = "d\<lparr>tx_pipes := tx_pipes d @ [p]\<rparr>" and ?i = "length (tx_pipes d)"
  have inv: "dev_inv [] d" and rts: "rts_ok (\<lambda>_. 0) d" using assms(1) by (simp_all add: dev_ok_def)
  have same: "requests ?d = requests d" "pr_wf ?d = pr_wf d" by (simp_all add: requests_def pr_wf_def)
  have "pipe_bytes ?i (requests d) = 0" using inv by (intro pipe_bytes_unused) (simp add: dev_inv_def)
  then have "pipe_ok ?i (requests d) p"
    using assms(2,3) by (simp add: pipe_ok_def fresh_tx_def unat_of_nat_small)
  then have "dev_inv [] ?d" using inv by (auto simp: dev_inv_def same nth_append less_Suc_eq)
  moreover have "rts_ok (\<lambda>_. 0) ?d"
    using rts by (simp add: rts_ok_def rt_ok_def Let_def nth_append less_SucI)
  ultimately show ?thesis by (simp add: dev_ok_def)
qed

lemma fresh_capacity: "fresh_tx i p \<Longrightarrow> capacity p = kBufMask"
  by (simp add: fresh_tx_def capacity_def)

lemma dev_ok_add_rt:
  assumes ok: "dev_ok d" and i: "i < length (tx_pipes d)" "fresh_tx i (tx_pipes d ! i)"
    and r: "r < length (rx_pipes d)" "ep_rx_head (internal_rx_pipe (rx_pipes d ! r)) = 0"
    and own: "i \<notin> rt_tx_pipe ` set (rx_tx_pipes d)" "r \<notin> rt_rx_pipe ` set (rx_tx_pipes d)"
  shows "dev_ok (d\<lparr>rx_tx_pipes := rx_tx_pipes d @
    [\<lparr>rt_rx_pipe = r, rt_tx_pipe = i, last_tx_pipe_capacity = capacity (tx_pipes d ! i)\<rparr>], rx_tx_pipes_map := m\<rparr>)"
    (is "dev_ok ?d")
proof -
  have mask: "unat kBufMask = page_N - 1"
    by (simp add: kBufMask_def kMaxCapacity_def kEnsoPipeSize_def kQuantumSize_def)
  have "dev_inv [] ?d" using ok by (simp add: dev_ok_def dev_inv_def requests_def pr_wf_def)
  moreover have "rt_ok (\<lambda>_. 0) ?d j" if "j < length (rx_tx_pipes d)" for j
    using that ok by (simp add: dev_ok_def rts_ok_def rt_ok_def Let_def nth_append)
  moreover have "rt_ok (\<lambda>_. 0) ?d (length (rx_tx_pipes d))"
    using i r by (simp add: rt_ok_def Let_def fresh_capacity mask) (simp add: fresh_tx_def)
  ultimately show ?thesis using ok own by (auto simp: dev_ok_def rts_ok_def less_Suc_eq)
qed

lemma ap_put_dev [simp]: "ap_dev (ap_put nb h a) = (ap_dev a)\<lparr>dev_nb := nb_pair nb\<rparr>"
  by (simp add: ap_put_def)

lemma ap_nb_pair [simp]: "nb_pair (ap_nb a) = dev_nb (ap_dev a)"
  by (simp add: ap_nb_def)

lemma requests_frame [simp]:
  "requests (d\<lparr>dev_nb := nb\<rparr>) = requests d" "requests (d\<lparr>rx_pipes := xs\<rparr>) = requests d"
  "requests (d\<lparr>rx_pipes_map := m\<rparr>) = requests d" "requests (d\<lparr>tx_pipes := ts\<rparr>) = requests d"
  by (simp_all add: requests_def)

lemma rx_destroy_ok:
  assumes "nic_fair nic" "dev_ok (ap_dev a)" "requests (ap_dev a) = []" "RxPipe_destroy be env nic pid pfx ep a = Some a'"
  shows "dev_ok (ap_dev a')" "\<exists>nb. ap_dev a' = (ap_dev a)\<lparr>dev_nb := nb\<rparr>"
proof -
  from assms(4) obtain ep' nb h where free: "enso_pipe_free be env nic pid pfx ep (ap_nb a) (ap_host a) = Some (ep', nb, h)"
    and a': "a' = ap_put nb h a"
    by (auto simp: RxPipe_destroy_def)
  have "nb_idle (nb_pair nb)" by (rule pipe_free_idle [OF assms(1) _ free]) (simp add: dev_ok_idle assms(2,3))
  then show "dev_ok (ap_dev a')" using assms(2,3) by (simp add: a' dev_ok_nb)
  show "\<exists>nb. ap_dev a' = (ap_dev a)\<lparr>dev_nb := nb\<rparr>" by (auto simp: a')
qed

text \<open>What a successful and a failed allocation of an RX pipe leave.\<close>

lemma alloc_rx_ok:
  assumes fair: "nic_fair nic" and ok: "dev_ok (ap_dev a)" "requests (ap_dev a) = []"
    and run: "AllocateRxPipe be env nic fb junk_ep a = Some (res, a')"
  shows "dev_ok (ap_dev a')" "requests (ap_dev a') = []" "tx_pipes (ap_dev a') = tx_pipes (ap_dev a)"
    "rx_tx_pipes (ap_dev a') = rx_tx_pipes (ap_dev a)"
    and "res = Some r \<Longrightarrow> r = length (rx_pipes (ap_dev a)) \<and> length (rx_pipes (ap_dev a')) = Suc r \<and>
      ep_rx_head (internal_rx_pipe (rx_pipes (ap_dev a') ! r)) = 0"
proof -
  consider "\<not> he_malloc env 3" | ret ep nb h where "he_malloc env 3"
    "enso_pipe_init be env nic fb junk_ep (ap_nb a) (ap_host a) = Some (ret, ep, nb, h)"
    using run by (fastforce simp: AllocateRxPipe_def bind_eq_Some_conv split: if_splits)
  then have "dev_ok (ap_dev a') \<and> requests (ap_dev a') = [] \<and> tx_pipes (ap_dev a') = tx_pipes (ap_dev a) \<and>
    rx_tx_pipes (ap_dev a') = rx_tx_pipes (ap_dev a) \<and>
    (\<forall>r. res = Some r \<longrightarrow> r = length (rx_pipes (ap_dev a)) \<and> length (rx_pipes (ap_dev a')) = Suc r \<and>
      ep_rx_head (internal_rx_pipe (rx_pipes (ap_dev a') ! r)) = 0)"
  proof cases
    case 1
    then show ?thesis using run ok by (simp add: AllocateRxPipe_def)
  next
    case 2
    let ?a = "ap_put nb h a"
    have idle: "nb_idle (nb_pair nb)" and head: "0 \<le> ret \<Longrightarrow> ep_rx_head ep = 0"
      using pipe_init_idle [OF fair _ 2(2)] ok dev_ok_idle by simp_all
    have ok1: "dev_ok (ap_dev ?a)" and req1: "requests (ap_dev ?a) = []"
      using ok dev_ok_nb [OF _ _ idle] by simp_all
    show ?thesis
    proof (cases "ret < 0")
      case True
      then obtain a2 where a2: "RxPipe_destroy be env nic (he_junk16 env 0) '''' ep ?a = Some a2" "a' = a2" "res = None"
        using run 2 by (auto simp: AllocateRxPipe_def Let_def)
      from rx_destroy_ok [OF fair ok1 req1 a2(1)] show ?thesis using a2 ok(2) by auto
    next
      case False
      let ?r = "length (rx_pipes (ap_dev a))" and ?d = "(ap_dev a)\<lparr>dev_nb := nb_pair nb\<rparr>"
      let ?p = "\<lparr>rp_next_pipe = False, rp_id = of_int ret, internal_rx_pipe = ep\<rparr>"
      have a': "res = Some ?r" "ap_dev a' = ?d\<lparr>rx_pipes := rx_pipes ?d @ [?p],
          rx_pipes_map := (rx_pipes_map ?d)(unat (of_int ret :: u16) \<mapsto> ?r)\<rparr>"
        using run 2 False by (auto simp: AllocateRxPipe_def Let_def)
      have "dev_ok (ap_dev a')" unfolding a' using ok1 by (intro dev_ok_add_rx) simp
      then show ?thesis using a' ok(2) head False by simp
    qed
  qed
  then show "dev_ok (ap_dev a')" "requests (ap_dev a') = []" "tx_pipes (ap_dev a') = tx_pipes (ap_dev a)"
    "rx_tx_pipes (ap_dev a') = rx_tx_pipes (ap_dev a)"
    "res = Some r \<Longrightarrow> r = length (rx_pipes (ap_dev a)) \<and> length (rx_pipes (ap_dev a')) = Suc r \<and>
      ep_rx_head (internal_rx_pipe (rx_pipes (ap_dev a') ! r)) = 0"
    by blast+
qed

lemma alloc_tx_ok:
  assumes ok: "dev_ok (ap_dev a)" "length (tx_pipes (ap_dev a)) < 2 ^ 16"
    and run: "AllocateTxPipe be env buf a = Some (res, a')"
  shows "dev_ok (ap_dev a')" "requests (ap_dev a') = requests (ap_dev a)" "rx_pipes (ap_dev a') = rx_pipes (ap_dev a)"
    "rx_tx_pipes (ap_dev a') = rx_tx_pipes (ap_dev a)"
    and "res = Some i \<Longrightarrow> i = length (tx_pipes (ap_dev a)) \<and> length (tx_pipes (ap_dev a')) = Suc i \<and>
      fresh_tx i (tx_pipes (ap_dev a') ! i)"
proof -
  let ?i = "length (tx_pipes (ap_dev a))"
  consider "res = None" "ap_dev a' = ap_dev a"
    | p where "res = Some ?i" "fresh_tx ?i p" "ap_dev a' = (ap_dev a)\<lparr>tx_pipes := tx_pipes (ap_dev a) @ [p]\<rparr>"
  proof -
    let ?p = "new_tx_pipe ?i buf"
    let ?path = "tx_pipe_path (ap_prefix a) (unat (tp_kId ?p))"
    obtain buf' os' where page: "(if tp_internal_buf ?p then get_huge_page (he_page env ?path) ?path 0 True (h_os (ap_host a))
        else (buf, h_os (ap_host a))) = (buf', os')" by fastforce
    note run' = run [unfolded AllocateTxPipe_def Let_def page prod.case]
    have fresh: "fresh_tx ?i (?p\<lparr>tp_buf := buf', tp_buf_phys_addr := q\<rparr>)" for q
      by (simp add: fresh_tx_def new_tx_pipe_def)
    show thesis
    proof (cases "he_malloc env 4 \<and> \<not> (tp_internal_buf ?p \<and> buf' = 0)")
      case True
      then have c: "(\<not> he_malloc env 4) = False" "(tp_internal_buf ?p \<and> buf' = 0) = False" by blast+
      then obtain q where "res = Some ?i" "ap_dev a' = (ap_dev a)\<lparr>tx_pipes := tx_pipes (ap_dev a) @
          [?p\<lparr>tp_buf := buf', tp_buf_phys_addr := q\<rparr>]\<rparr>"
        using run' [unfolded c if_False] by (auto simp: bind_eq_Some_conv)
      with fresh show thesis by (intro that(2))
    next
      case False
      then show thesis using run' by (intro that(1)) (auto split: if_splits)
    qed
  qed
  then have "dev_ok (ap_dev a') \<and> requests (ap_dev a') = requests (ap_dev a) \<and> rx_pipes (ap_dev a') = rx_pipes (ap_dev a) \<and>
    rx_tx_pipes (ap_dev a') = rx_tx_pipes (ap_dev a) \<and>
    (\<forall>i. res = Some i \<longrightarrow> i = ?i \<and> length (tx_pipes (ap_dev a')) = Suc i \<and> fresh_tx i (tx_pipes (ap_dev a') ! i))"
    using ok by cases (simp_all add: dev_ok_add_tx)
  then show "dev_ok (ap_dev a')" "requests (ap_dev a') = requests (ap_dev a)" "rx_pipes (ap_dev a') = rx_pipes (ap_dev a)"
    "rx_tx_pipes (ap_dev a') = rx_tx_pipes (ap_dev a)"
    "res = Some i \<Longrightarrow> i = ?i \<and> length (tx_pipes (ap_dev a')) = Suc i \<and> fresh_tx i (tx_pipes (ap_dev a') ! i)"
    by blast+
qed

lemma dev_ok_rt_range:
  assumes "dev_ok d" "rt \<in> set (rx_tx_pipes d)"
  shows "rt_rx_pipe rt < length (rx_pipes d)" "rt_tx_pipe rt < length (tx_pipes d)"
proof -
  obtain j where "j < length (rx_tx_pipes d)" "rt = rx_tx_pipes d ! j" using assms(2) by (metis in_set_conv_nth)
  then show "rt_rx_pipe rt < length (rx_pipes d)" "rt_tx_pipe rt < length (tx_pipes d)"
    using assms(1) by (auto simp: dev_ok_def rts_ok_def rt_ok_def Let_def)
qed

lemma alloc_rx_tx_ok:
  assumes fair: "nic_fair nic" and ok: "dev_ok (ap_dev a)" "requests (ap_dev a) = []" "length (tx_pipes (ap_dev a)) < 2 ^ 16"
    and run: "AllocateRxTxPipe be env nic fb junk_ep a = Some (res, a')"
  shows "dev_ok (ap_dev a')"
proof (cases "he_malloc env 5")
  case False
  then show ?thesis using run ok by (simp add: AllocateRxTxPipe_def)
next
  case True
  then obtain rx a1 where rx: "AllocateRxPipe be env nic fb junk_ep a = Some (rx, a1)"
    using run by (auto simp: AllocateRxTxPipe_def bind_eq_Some_conv)
  note s1 = alloc_rx_ok [OF fair ok(1,2) rx]
  show ?thesis
  proof (cases rx)
    case None
    then show ?thesis using run rx s1 True by (simp add: AllocateRxTxPipe_def)
  next
    case (Some r)
    let ?buf = "ep_buf (internal_rx_pipe (rx_pipes (ap_dev a1) ! r))"
    obtain tx a2 where tx: "AllocateTxPipe be env ?buf a1 = Some (tx, a2)"
      using run rx Some True by (auto simp: AllocateRxTxPipe_def bind_eq_Some_conv)
    have len: "length (tx_pipes (ap_dev a1)) < 2 ^ 16" using ok(3) s1(3) by simp
    note s2 = alloc_tx_ok [OF s1(1) len tx]
    show ?thesis
    proof (cases tx)
      case None
      then show ?thesis using run rx Some tx s2 True by (simp add: AllocateRxTxPipe_def)
    next
      case (Some i)
      note r = s1(5) [OF \<open>rx = Some r\<close>] and i = s2(5) [OF Some]
      let ?d = "ap_dev a2"
      have a': "ap_dev a' = ?d\<lparr>rx_tx_pipes := rx_tx_pipes ?d @ [\<lparr>rt_rx_pipe = r, rt_tx_pipe = i,
            last_tx_pipe_capacity = capacity (tx_pipes ?d ! i)\<rparr>],
          rx_tx_pipes_map := (rx_tx_pipes_map ?d)(unat (rp_id (rx_pipes ?d ! r)) \<mapsto> length (rx_tx_pipes ?d))\<rparr>"
        using run rx \<open>rx = Some r\<close> tx Some True by (auto simp: AllocateRxTxPipe_def Let_def)
      have own: "i \<notin> rt_tx_pipe ` set (rx_tx_pipes ?d)" "r \<notin> rt_rx_pipe ` set (rx_tx_pipes ?d)"
        using i r dev_ok_rt_range [OF ok(1)] s1(3,4) s2(4) by fastforce+
      show ?thesis unfolding a' by (rule dev_ok_add_rt [OF s2(1)]) (use s2(3) i r own in auto)
    qed
  qed
qed

section \<open>Executions\<close>

text \<open>
  One call of the data path. A transmission is a positive multiple of 64 bytes that fits: into the
  capacity of its TX pipe or, on an RX/TX pipe, into what that pipe has left after its own
  transmissions. \<^verbatim>\<open>Free\<close> and \<^verbatim>\<open>Clear\<close> are for RX pipes of the application's own; RX/TX pipes
  free their bytes themselves. \<open>ds_arrive\<close> is the NIC posting notifications.
\<close>

inductive dev_step :: "nic \<Rightarrow> Device \<Rightarrow> Device \<Rightarrow> bool" for nic :: nic where
  ds_send: "SendAndFree nic i n d = Some d' \<Longrightarrow> i < length (tx_pipes d) \<Longrightarrow> i \<notin> rt_tx_pipe ` set (rx_tx_pipes d) \<Longrightarrow>
    0 < n \<Longrightarrow> 64 dvd unat n \<Longrightarrow> n \<le> capacity (tx_pipes d ! i) \<Longrightarrow> dev_step nic d d'"
| ds_rt_send: "RxTxPipe_SendAndFree nic j n d = Some d' \<Longrightarrow> j < length (rx_tx_pipes d) \<Longrightarrow>
    0 < n \<Longrightarrow> 64 dvd unat n \<Longrightarrow> n \<le> last_tx_pipe_capacity (rx_tx_pipes d ! j) \<Longrightarrow> dev_step nic d d'"
| ds_process: "dev_step nic d (ProcessCompletions nic d)"
| ds_try_extend: "TryExtendBuf nic i d = (c, d') \<Longrightarrow> dev_step nic d d'"
| ds_extend: "ExtendBufToTarget nic i t d = Some (c, d') \<Longrightarrow> i < length (tx_pipes d) \<Longrightarrow> dev_step nic d d'"
| ds_allocate_buf: "AllocateBuf nic i t d = Some (b, d') \<Longrightarrow> i < length (tx_pipes d) \<Longrightarrow> dev_step nic d d'"
| ds_recv: "RxPipe_Recv r m d = Some (n, b, d') \<Longrightarrow> dev_step nic d d'"
| ds_peek: "RxPipe_Peek r m d = Some (n, b, d') \<Longrightarrow> dev_step nic d d'"
| ds_confirm: "dev_step nic d (RxPipe_ConfirmBytes r n d)"
| ds_prefetch: "dev_step nic d (RxPipe_Prefetch r d)"
| ds_free: "r \<notin> rt_rx_pipe ` set (rx_tx_pipes d) \<Longrightarrow> dev_step nic d (RxPipe_Free r n d)"
| ds_clear: "r \<notin> rt_rx_pipe ` set (rx_tx_pipes d) \<Longrightarrow> dev_step nic d (RxPipe_Clear r d)"
| ds_rt_recv: "RxTxPipe_Recv nic j m d = Some (n, b, d') \<Longrightarrow> dev_step nic d d'"
| ds_rt_peek: "RxTxPipe_Peek nic j m d = Some (n, b, d') \<Longrightarrow> dev_step nic d d'"
| ds_rt_confirm: "dev_step nic d (RxTxPipe_ConfirmBytes j n d)"
| ds_rt_prefetch: "dev_step nic d (RxTxPipe_Prefetch j d)"
| ds_next_rx: "NextRxPipeToRecv post d = Some (p, d') \<Longrightarrow> dev_step nic d d'"
| ds_next_rx_tx: "NextRxTxPipeToRecv nic post d = Some (p, d') \<Longrightarrow> dev_step nic d d'"
| ds_arrive: "dev_step nic d (d\<lparr>dev_nb := (dev_nb d)\<lparr>nb_rx_buf := f\<rparr>\<rparr>)"

text \<open>
  Pipes are created while no transmission is pending: creating one sends a configuration message,
  which would lose the completions it overtakes. \<^verbatim>\<open>kId\<close> is 16 bits wide.
\<close>

inductive app_step :: "'b backend \<Rightarrow> nic \<Rightarrow> 'b app \<Rightarrow> 'b app \<Rightarrow> bool" for be :: "'b backend" and nic :: nic where
  as_dev: "dev_step nic (ap_dev a) d' \<Longrightarrow> app_step be nic a (a\<lparr>ap_dev := d'\<rparr>)"
| as_rx: "AllocateRxPipe be env nic fb junk_ep a = Some (res, a') \<Longrightarrow> requests (ap_dev a) = [] \<Longrightarrow> app_step be nic a a'"
| as_tx: "AllocateTxPipe be env buf a = Some (res, a') \<Longrightarrow> length (tx_pipes (ap_dev a)) < 2 ^ 16 \<Longrightarrow> app_step be nic a a'"
| as_rx_tx: "AllocateRxTxPipe be env nic fb junk_ep a = Some (res, a') \<Longrightarrow> requests (ap_dev a) = [] \<Longrightarrow>
    length (tx_pipes (ap_dev a)) < 2 ^ 16 \<Longrightarrow> app_step be nic a a'"

inductive app_reachable :: "'b backend \<Rightarrow> nic \<Rightarrow> 'b app \<Rightarrow> bool" for be :: "'b backend" and nic :: nic where
  ar_create: "Device_Create be create env nic core_id junk_nb junk_reqs addr pfx s = Some (Some a, s') \<Longrightarrow>
    he_mmio env = (\<lambda>_ r. r) \<Longrightarrow> (\<And>i. unat (reg_tx_tail (he_regs env i)) < notif_N) \<Longrightarrow> app_reachable be nic a"
| ar_step: "app_reachable be nic a \<Longrightarrow> app_step be nic a a' \<Longrightarrow> app_reachable be nic a'"

lemma upd_rx_free_ok:
  assumes "dev_ok d" "r \<notin> rt_rx_pipe ` set (rx_tx_pipes d)"
  shows "dev_ok (upd_rx r f d)"
proof -
  have "rt_ok (\<lambda>_. 0) (upd_rx r f d) j" if j: "j < length (rx_tx_pipes d)" for j
  proof -
    have "rt_rx_pipe (rx_tx_pipes d ! j) \<noteq> r" using j assms(2) by auto
    then have "rx_pipes (upd_rx r f d) ! rt_rx_pipe (rx_tx_pipes d ! j) = rx_pipes d ! rt_rx_pipe (rx_tx_pipes d ! j)"
      by (simp add: upd_rx_def)
    moreover have "rt_ok (\<lambda>_. 0) d j" using assms(1) j by (simp add: dev_ok_def rts_ok_def)
    ultimately show ?thesis by (simp add: rt_ok_def Let_def) (simp add: upd_rx_def)
  qed
  then have "rts_ok (\<lambda>_. 0) (upd_rx r f d)"
    using assms(1) by (simp add: dev_ok_def rts_ok_def) (simp add: upd_rx_def)
  moreover have "dev_inv [] (upd_rx r f d)"
    using assms(1) by (simp add: dev_ok_def dev_inv_def upd_rx_def pr_wf_def)
  ultimately show ?thesis by (simp add: dev_ok_def)
qed

lemma process_ok: "dev_ok d \<Longrightarrow> dev_ok (ProcessCompletions nic d)"
  unfolding dev_ok_def using process_completions(1,2) [of "[]" d "\<lambda>_. 0" nic] by blast

lemma extend_ok:
  "dev_ok d \<Longrightarrow> i < length (tx_pipes d) \<Longrightarrow> ExtendBufToTarget nic i t d = Some (c, d') \<Longrightarrow> dev_ok d'"
  unfolding dev_ok_def using extend_spec(1) [of d "\<lambda>_. 0" i nic t c d'] by blast

lemma send_ok:
  assumes "dev_ok d" "i < length (tx_pipes d)" "i \<notin> rt_tx_pipe ` set (rx_tx_pipes d)" "0 < n" "64 dvd unat n"
    "n \<le> capacity (tx_pipes d ! i)" "SendAndFree nic i n d = Some d'"
  shows "dev_ok d'"
proof -
  have own: "rt_tx_pipe (rx_tx_pipes d ! j) \<noteq> i" if "j < length (rx_tx_pipes d)" for j using that assms(3) by auto
  have ok: "dev_inv [] d" "rts_ok (\<lambda>_. 0) d" using assms(1) by (simp_all add: dev_ok_def)
  note s = send_and_free_spec [OF ok assms(2,4-6) _ assms(7)]
  have "rts_ok (\<lambda>j. if rt_tx_pipe (rx_tx_pipes d ! j) = i then unat n else 0) d'" "length (rx_tx_pipes d') = length (rx_tx_pipes d)"
    using s(2,4) own by blast+
  then have "rts_ok (\<lambda>_. 0) d'" using own by (simp add: rts_ok_def rt_ok_def Let_def)
  moreover have "dev_inv [] d'" using s(1) own by blast
  ultimately show ?thesis by (simp add: dev_ok_def)
qed

lemma dev_step_ok: "dev_step nic d d' \<Longrightarrow> dev_ok d \<Longrightarrow> dev_ok d'"
proof (induction rule: dev_step.induct)
  case (ds_allocate_buf i t d b d')
  then show ?case by (auto simp: AllocateBuf_def intro: extend_ok)
next
  case (ds_arrive d f)
  have "rx_only d (d\<lparr>dev_nb := (dev_nb d)\<lparr>nb_rx_buf := f\<rparr>\<rparr>)" by (simp add: rx_only_def tx_same_def)
  then show ?case using ds_arrive rx_only_ok by blast
qed (auto simp: TryExtendBuf_def RxPipe_Free_def RxPipe_Clear_def RxTxPipe_Recv_def RxTxPipe_Peek_def
    RxTxPipe_ConfirmBytes_def RxTxPipe_Prefetch_def Let_def
    intro: send_ok rx_tx_send_spec process_ok extend_ok upd_rx_free_ok
      rx_only_ok [OF recv_only] rx_only_ok [OF peek_only] rx_only_ok [OF confirm_only] rx_only_ok [OF prefetch_only]
      rx_only_ok [OF next_rx_pipe_only] rx_only_ok [OF next_rx_tx_pipe_only])

lemma create_ok:
  assumes "Device_Create be create env nic core_id junk_nb junk_reqs addr pfx s = Some (Some a, s')" "he_mmio env = (\<lambda>_ r. r)"
    "\<And>i. unat (reg_tx_tail (he_regs env i)) < notif_N"
  shows "dev_ok (ap_dev a)"
proof -
  let ?d = "new_device junk_nb junk_reqs"
  from assms(1) obtain bdf pfx' nb0 nb h'
    where init: "notification_buf_init be (create bdf) env pfx' nb0 \<lparr>h_dev = None, h_os = s\<rparr> = Some (0, nb, h')"
      and a: "ap_dev a = ?d\<lparr>dev_nb := nb_pair nb\<rparr>"
    by (auto simp: Device_Create_def Device_Init_def Let_def bind_eq_Some_conv split: if_splits)
  from init assms(2) obtain addr p0 nid where "nb_pair nb = enable_notif_buf addr p0"
    "nb_tx_tail p0 = reg_tx_tail (he_regs env nid)" "nb_tx_head p0 = nb_tx_tail p0"
    "reg_tx_tail (nb_regs p0) = nb_tx_tail p0" "wrap_tracker p0 = (\<lambda>_. 0)" "nb_unreported_completions p0 = 0"
    by (rule notification_buf_init_success) blast
  then have "nb_idle (nb_pair nb)" using assms(3) by (intro nb_idle_I) (simp_all add: tx_inv_def bv_bit_def)
  then show ?thesis
    by (simp add: a dev_ok_def dev_inv_def rts_ok_def nb_idle_def new_device_def pr_wf_def requests_def)
qed

lemma reachable_ok:
  assumes "app_reachable be nic a" "nic_fair nic"
  shows "dev_ok (ap_dev a)"
  using assms(1)
proof induction
  case (ar_step a a')
  from ar_step(2,3) show ?case
    by cases (auto intro: dev_step_ok alloc_rx_ok(1) [OF assms(2)] alloc_tx_ok(1) alloc_rx_tx_ok [OF assms(2)])
qed (rule create_ok)

text \<open>
  The RX head of an RX/TX pipe trails its transmitted position by what the application has
  neither transmitted nor got back: at least by the pending bytes, and exactly by them when the
  capacity of the TX pipe has been accounted for.
\<close>

lemma rt_last:
  assumes "dev_inv [] d" "rt_ok (\<lambda>_. 0) d j"
  defines "rt \<equiv> rx_tx_pipes d ! j"
  defines "H \<equiv> 64 * unat (ep_rx_head (internal_rx_pipe (rx_pipes d ! rt_rx_pipe rt))) mod page_N"
  shows "ring_dist page_N H (unat (app_begin (tx_pipes d ! rt_tx_pipe rt))) = page_N - 1 - unat (last_tx_pipe_capacity rt)"
    and "unat (last_tx_pipe_capacity rt) \<le> page_N - 1"
proof -
  let ?p = "tx_pipes d ! rt_tx_pipe rt" and ?last = "unat (last_tx_pipe_capacity rt)"
  let ?b = "unat (app_begin ?p)" and ?n = "pipe_bytes (rt_tx_pipe rt) (requests d)"
  have r: "rt_tx_pipe rt < length (tx_pipes d)" "H = (?last + ?b + 1) mod page_N" "?last \<le> unat (capacity ?p)"
    using assms(2) by (simp_all add: rt_ok_def Let_def rt_def H_def)
  have ok: "pipe_ok (rt_tx_pipe rt) (requests d) ?p" using assms(1) r(1) by (simp add: dev_inv_def)
  have H: "H < page_N" by (simp add: H_def)
  show le: "?last \<le> page_N - 1" using r(3) unfolding capacity_eq [OF ok] by linarith
  have "(H + (page_N - 1 - ?last)) mod page_N = (?last + ?b + 1 + (page_N - 1 - ?last)) mod page_N"
    unfolding r(2) by (rule mod_add_left_eq)
  also have "?last + ?b + 1 + (page_N - 1 - ?last) = ?b + page_N" using le by simp
  finally have "(H + (page_N - 1 - ?last)) mod page_N = ?b" using ok by (simp add: pipe_ok_def)
  then show "ring_dist page_N H ?b = page_N - 1 - ?last"
    using ring_dist_add [OF H, of "page_N - 1 - ?last"] by simp
qed

lemma rt_head:
  assumes "dev_inv [] d" "rt_ok (\<lambda>_. 0) d j"
  defines "rt \<equiv> rx_tx_pipes d ! j"
  defines "H \<equiv> 64 * unat (ep_rx_head (internal_rx_pipe (rx_pipes d ! rt_rx_pipe rt))) mod page_N"
    and "p \<equiv> tx_pipes d ! rt_tx_pipe rt"
  shows "pipe_bytes (rt_tx_pipe rt) (requests d) \<le> ring_dist page_N H (unat (app_begin p))"
    and "capacity p \<le> last_tx_pipe_capacity rt \<Longrightarrow> H = unat (app_end p)"
proof -
  let ?i = "rt_tx_pipe rt" and ?last = "unat (last_tx_pipe_capacity rt)"
  let ?b = "unat (app_begin p)" and ?e = "unat (app_end p)" and ?n = "pipe_bytes (rt_tx_pipe rt) (requests d)"
  have r: "?i < length (tx_pipes d)" "H = (?last + ?b + 1) mod page_N" "?last \<le> unat (capacity p)"
    using assms(2) by (simp_all add: rt_ok_def Let_def rt_def H_def p_def)
  have ok: "pipe_ok ?i (requests d) p" using assms(1) r(1) by (simp add: dev_inv_def p_def)
  then have lt: "?b < page_N" "?e < page_N" and d: "ring_dist page_N ?e ?b = ?n" by (simp_all add: pipe_ok_def)
  have n: "?n < page_N" unfolding d [symmetric] by (rule ring_dist_less) simp
  have cap: "unat (capacity p) = page_N - 1 - ?n" by (rule capacity_eq [OF ok])
  have "ring_dist page_N H ?b = page_N - 1 - ?last"
    using rt_last(1) [OF assms(1,2)] by (simp add: rt_def H_def p_def)
  then show "?n \<le> ring_dist page_N H ?b" using r(3) n unfolding cap by linarith
  assume "capacity p \<le> last_tx_pipe_capacity rt"
  then have last: "?last + 1 = page_N - ?n" using r(3) n unfolding cap word_le_nat_alt by linarith
  have b: "?b = (?e + ?n) mod page_N" using lt unfolding d [symmetric] by simp
  have "H = (?last + 1 + ?b) mod page_N" unfolding r(2) by (simp add: add_ac)
  also have "\<dots> = (?last + 1 + (?e + ?n)) mod page_N" unfolding b by (rule mod_add_right_eq)
  also have "?last + 1 + (?e + ?n) = ?e + page_N" unfolding last using n by simp
  finally show "H = ?e" using lt(2) by simp
qed

section \<open>An application with one RX/TX pipe\<close>

definition app_zero :: "nat app" where
  "app_zero = \<lparr>ap_dev = new_device nb_zero (\<lambda>_. \<lparr>pr_pipe_id = 0, pr_nb_bytes = 0\<rparr>), ap_rx_addr = 0, ap_prefix = ''/mnt/huge/enso'',
     ap_host = \<lparr>h_dev = None, h_os = os_empty\<rparr>\<rparr>"

lemma host_ok_regs: "he_mmio host_ok = (\<lambda>_ r. r)" "unat (reg_tx_tail (he_regs host_ok i)) < notif_N"
  by (simp_all add: host_ok_def regs_zero_def)

lemma example_created:
  obtains a b where "app_reachable be_counter nic_eager a" "requests (ap_dev a) = []" "tx_pipes (ap_dev a) = []"
    "rx_tx_pipes (ap_dev a) = []" "h_dev (ap_host a) = Some b"
proof -
  have "\<exists>nb' h'. notification_buf_init be_counter (Some 0) host_ok ''/mnt/huge/enso'' (ap_nb app_zero) (ap_host app_zero) =
      Some (0, nb', h') \<and> h_dev h' \<noteq> None"
    by (simp add: notification_buf_init_def be_counter_def host_ok_def regs_reset_now get_huge_page_def app_zero_def Let_def)
  then obtain nb' h' where init: "notification_buf_init be_counter (Some 0) host_ok ''/mnt/huge/enso'' (ap_nb app_zero)
      (ap_host app_zero) = Some (0, nb', h')" and dev: "h_dev h' \<noteq> None" by blast
  let ?a = "(ap_put nb' h' app_zero)\<lparr>ap_rx_addr := nb_rx_buf_addr nb'\<rparr>"
  have "Device_Init be_counter (\<lambda>_. Some 0) host_ok 0 '''' app_zero = Some (0, ?a)"
    using init by (simp add: Device_Init_def Let_def) (simp add: app_zero_def)
  then have "Device_Create be_counter (\<lambda>_. Some 0) host_ok nic_eager 0 nb_zero (\<lambda>_. \<lparr>pr_pipe_id = 0, pr_nb_bytes = 0\<rparr>)
      '''' '''' os_empty = Some (Some ?a, h_os (ap_host ?a))"
    by (simp add: Device_Create_def app_zero_def) (simp add: host_ok_def)
  from ar_create [OF this host_ok_regs] have "app_reachable be_counter nic_eager ?a" .
  moreover obtain b where "h_dev (ap_host ?a) = Some b" using dev by (auto simp: ap_put_def)
  moreover have "requests (ap_dev ?a) = []" "tx_pipes (ap_dev ?a) = []" "rx_tx_pipes (ap_dev ?a) = []"
    by (simp_all add: app_zero_def new_device_def requests_def)
  ultimately show thesis using that by blast
qed

lemma example_update:
  assumes "nb_idle nb"
  shows "\<exists>nb' b'. update_fallback_queues_config be_counter junk nic_eager nb b = Some (0, nb', b')"
  using send_config_empty [OF nic_fair_eager nb_idle_empty(1,2) [OF assms],
      of "pack junk (FallbackQueueConfig 0 (fallback_queue_mask 0) 0)"]
  by (auto simp: update_fallback_queues_config_def be_counter_def get_round_robin_status_def pcie_get_nb_fallback_queues_def
      configure_fallback_queues_def unpack_pack)

lemma example_alloc_rx:
  assumes "dev_ok (ap_dev a)" "requests (ap_dev a) = []" "h_dev (ap_host a) = Some b"
  obtains r a' b' where "AllocateRxPipe be_counter host_ok nic_eager fb junk_ep a = Some (Some r, a')"
    "h_dev (ap_host a') = Some b'"
proof -
  have "nb_idle ((dev_nb (ap_dev a))\<lparr>pending_rx_pipe_tails := f\<rparr>)" for f
    by (rule nb_idle_same [OF _ dev_ok_idle [OF assms(1,2)]]) (simp add: tx_same_def)
  from example_update [OF this] obtain nb' b' where
    "update_fallback_queues_config be_counter (he_junk64 host_ok) nic_eager
      ((dev_nb (ap_dev a))\<lparr>pending_rx_pipe_tails := (pending_rx_pipe_tails (dev_nb (ap_dev a)))(unat (of_int (int b) :: u16) := 0)\<rparr>)
      (Suc b) = Some (0, nb', b')" by blast
  then have "\<exists>ep nb h. enso_pipe_init be_counter host_ok nic_eager fb junk_ep (ap_nb a) (ap_host a) = Some (int b, ep, nb, h) \<and>
      h_dev h = Some b'"
    using assms(3) by (simp add: enso_pipe_init_def be_counter_def host_ok_def regs_reset_now get_huge_page_def Let_def)
  then obtain ep nb h where "enso_pipe_init be_counter host_ok nic_eager fb junk_ep (ap_nb a) (ap_host a) = Some (int b, ep, nb, h)"
    and dev: "h_dev h = Some b'" by blast
  then have "AllocateRxPipe be_counter host_ok nic_eager fb junk_ep a = Some (Some (length (rx_pipes (ap_dev a))),
      let d = (ap_dev a)\<lparr>dev_nb := nb_pair nb\<rparr> in (ap_put nb h a)\<lparr>ap_dev := d\<lparr>
        rx_pipes := rx_pipes d @ [\<lparr>rp_next_pipe = False, rp_id = of_int (int b), internal_rx_pipe = ep\<rparr>],
        rx_pipes_map := (rx_pipes_map d)(unat (of_int (int b) :: u16) \<mapsto> length (rx_pipes d))\<rparr>\<rparr>)"
    by (simp add: AllocateRxPipe_def Let_def) (simp add: host_ok_def)
  then show thesis by (rule that) (simp add: ap_put_def dev Let_def)
qed

lemma example_alloc_tx:
  assumes "h_dev (ap_host a) = Some b"
  obtains i a' where "AllocateTxPipe be_counter host_ok buf a = Some (Some i, a')"
proof -
  have "\<exists>a'. AllocateTxPipe be_counter host_ok buf a = Some (Some (length (tx_pipes (ap_dev a))), a')"
    using assms by (auto simp: AllocateTxPipe_def Let_def host_ok_def get_huge_page_def be_counter_def
        get_dev_addr_from_virt_addr_def new_tx_pipe_def)
  then show thesis using that by blast
qed

lemma example_tx:
  obtains a where "app_reachable be_counter nic_eager a" "0 < length (tx_pipes (ap_dev a))" "rx_tx_pipes (ap_dev a) = []"
proof -
  obtain a0 b0 where a0: "app_reachable be_counter nic_eager a0" "tx_pipes (ap_dev a0) = []"
    "rx_tx_pipes (ap_dev a0) = []" "h_dev (ap_host a0) = Some b0" by (rule example_created)
  obtain i a where tx: "AllocateTxPipe be_counter host_ok 0 a0 = Some (Some i, a)" by (rule example_alloc_tx [OF a0(4)])
  have len: "length (tx_pipes (ap_dev a0)) < 2 ^ 16" by (simp add: a0(2))
  note s = alloc_tx_ok [OF reachable_ok [OF a0(1) nic_fair_eager] len tx]
  have "app_reachable be_counter nic_eager a" using a0(1) as_tx [OF tx len] by (rule ar_step)
  moreover have "0 < length (tx_pipes (ap_dev a))" using s(5) [OF refl] by simp
  moreover have "rx_tx_pipes (ap_dev a) = []" using s(4) a0(3) by simp
  ultimately show thesis using that by blast
qed

lemma example_rx_tx:
  obtains a where "app_reachable be_counter nic_eager a" "length (rx_tx_pipes (ap_dev a)) = 1" "length (tx_pipes (ap_dev a)) = 1"
proof -
  obtain a0 b0 where a0: "app_reachable be_counter nic_eager a0" "requests (ap_dev a0) = []" "tx_pipes (ap_dev a0) = []"
    "rx_tx_pipes (ap_dev a0) = []" "h_dev (ap_host a0) = Some b0" by (rule example_created)
  note ok0 = reachable_ok [OF a0(1) nic_fair_eager]
  let ?ep = "\<lparr>ep_buf = 0, ep_buf_phys_addr = 0, ep_regs = regs_zero, ep_rx_head = 0, ep_rx_tail = 0,
    ep_phys_buf_offset = 0, ep_id = 0\<rparr>"
  obtain r a1 b1 where rx: "AllocateRxPipe be_counter host_ok nic_eager False ?ep a0 = Some (Some r, a1)"
    and b1: "h_dev (ap_host a1) = Some b1" by (rule example_alloc_rx [OF ok0 a0(2,5)])
  note s1 = alloc_rx_ok [OF nic_fair_eager ok0 a0(2) rx]
  let ?buf = "ep_buf (internal_rx_pipe (rx_pipes (ap_dev a1) ! r))"
  obtain i a2 where tx: "AllocateTxPipe be_counter host_ok ?buf a1 = Some (Some i, a2)" by (rule example_alloc_tx [OF b1])
  have "length (tx_pipes (ap_dev a1)) < 2 ^ 16" using s1(3) a0(3) by simp
  note s2 = alloc_tx_ok [OF s1(1) this tx]
  have malloc: "he_malloc host_ok 5" by (simp add: host_ok_def)
  obtain j a3 where run: "AllocateRxTxPipe be_counter host_ok nic_eager False ?ep a0 = Some (Some j, a3)"
    and a3: "rx_tx_pipes (ap_dev a3) = rx_tx_pipes (ap_dev a2) @ [\<lparr>rt_rx_pipe = r, rt_tx_pipe = i,
        last_tx_pipe_capacity = capacity (tx_pipes (ap_dev a2) ! i)\<rparr>]" "tx_pipes (ap_dev a3) = tx_pipes (ap_dev a2)"
    using rx tx malloc by (simp add: AllocateRxTxPipe_def Let_def)
  have "app_step be_counter nic_eager a0 a3" by (rule as_rx_tx [OF run a0(2)]) (simp add: a0(3))
  with a0(1) have "app_reachable be_counter nic_eager a3" by (rule ar_step)
  moreover have "length (rx_tx_pipes (ap_dev a3)) = 1" using s1(4) s2(4) a0(4) by (simp add: a3)
  moreover have "length (tx_pipes (ap_dev a3)) = 1" using s1(3) s2(5) [OF refl] a0(3) by (simp add: a3)
  ultimately show thesis using that by blast
qed

section \<open>Properties\<close>







text \<open>
  A failed allocation of an RX pipe frees somebody's pipe. When the backend has no pipe to give,
  \<^verbatim>\<open>AllocateRxPipe\<close> deletes the new object; its destructor unmaps the uninitialised buffer address
  and frees the uninitialised pipe identifier, whatever they hold.
\<close>

theorem failed_rx_pipe_frees_junk:
  assumes "he_malloc env 3" "h_dev (ap_host a) = Some b" "be_AllocatePipe be fb b = Some (pid, b1)" "pid < 0"
    and "AllocateRxPipe be env nic fb junk_ep a = Some (res, a')"
  shows "res = None \<and>
    (\<exists>k b2. be_FreePipe be (int (unat (he_junk16 env 0))) b1 = Some (k, b2) \<and>
      (\<exists>r nb b3. update_fallback_queues_config be (he_junk64 env) nic (dev_nb (ap_dev a)) b2 = Some (r, nb, b3) \<and>
        h_dev (ap_host a') = Some b3)) \<and>
    (ep_buf junk_ep \<noteq> 0 \<longrightarrow> h_os (ap_host a') = os_unlink (rx_pipe_path '''' (unat (he_junk16 env 0)))
       (os_munmap (ep_buf junk_ep) (ucast kBufPageSize) (h_os (ap_host a))))"
proof -
  have "enso_pipe_init be env nic fb junk_ep (ap_nb a) (ap_host a) =
      Some (-1, junk_ep, ap_nb a, (ap_host a)\<lparr>h_dev := Some b1\<rparr>)"
    using assms(2-4) by (simp add: enso_pipe_init_def)
  then obtain a2 where "RxPipe_destroy be env nic (he_junk16 env 0) '''' junk_ep
      (ap_put (ap_nb a) ((ap_host a)\<lparr>h_dev := Some b1\<rparr>) a) = Some a2" "a' = a2" "res = None"
    using assms(1,5) by (auto simp: AllocateRxPipe_def Let_def)
  then show ?thesis
    by (auto simp: RxPipe_destroy_def enso_pipe_free_def bind_eq_Some_conv Let_def ap_put_def ap_nb_def)
qed

theorem failed_rx_pipe_frees_junk_witness:
  "let be = be_counter\<lparr>be_AllocatePipe := \<lambda>_ n. Some (-1, n), be_FreePipe := \<lambda>pid n. Some (0, nat pid),
       be_GetRrStatus := \<lambda>n. Some (-1, n)\<rparr>;
     ep = \<lparr>ep_buf = 0, ep_buf_phys_addr = 0, ep_regs = regs_zero, ep_rx_head = 0, ep_rx_tail = 0,
       ep_phys_buf_offset = 0, ep_id = 0\<rparr>;
     a = app_zero\<lparr>ap_host := \<lparr>h_dev = Some 0, h_os = os_empty\<rparr>\<rparr> in
   \<exists>a'. AllocateRxPipe be host_ok nic_eager False ep a = Some (None, a') \<and> be_FreePipe be 7 0 = Some (0, 7) \<and>
     h_dev (ap_host a') = Some 7"
proof -
  let ?be = "be_counter\<lparr>be_AllocatePipe := \<lambda>_ n. Some (-1, n), be_FreePipe := \<lambda>pid n. Some (0, nat pid),
       be_GetRrStatus := \<lambda>n. Some (-1, n)\<rparr>"
  let ?ep = "\<lparr>ep_buf = 0, ep_buf_phys_addr = 0, ep_regs = regs_zero, ep_rx_head = 0, ep_rx_tail = 0,
       ep_phys_buf_offset = 0, ep_id = 0\<rparr>"
  let ?a = "app_zero\<lparr>ap_host := \<lparr>h_dev = Some 0, h_os = os_empty\<rparr>\<rparr>"
  have h: "he_malloc host_ok 3" "h_dev (ap_host ?a) = Some 0" "be_AllocatePipe ?be False 0 = Some (-1, 0)" "(-1 :: int) < 0"
    by (simp_all add: host_ok_def)
  have "\<exists>res a'. AllocateRxPipe ?be host_ok nic_eager False ?ep ?a = Some (res, a')"
    by (simp add: AllocateRxPipe_def enso_pipe_init_def RxPipe_destroy_def enso_pipe_free_def Let_def
        update_fallback_queues_config_def get_round_robin_status_def host_ok_def ap_nb_def ap_put_def)
  then obtain res a' where run: "AllocateRxPipe ?be host_ok nic_eager False ?ep ?a = Some (res, a')" by blast
  from failed_rx_pipe_frees_junk [OF h run] have "res = None" "h_dev (ap_host a') = Some 7"
    by (auto simp: host_ok_def update_fallback_queues_config_def get_round_robin_status_def)
  with run show ?thesis unfolding Let_def by auto
qed

end
