(* ===== verification/Fpga_Backend.thy ===== *)
theory Fpga_Backend
  imports Dev_Backend Drv_Ownership Drv_Access
begin

text \<open>
  The FPGA backend: the user-space wrapper of the kernel driver,
  \<^verbatim>\<open>backends/intel_fpga/linux/intel_fpga_pcie_api_linux.cpp\<close>, and the class
  \<^verbatim>\<open>DevBackend\<close> of \<^verbatim>\<open>backends/intel_fpga/dev_backend.h\<close> over it. The state of a
  \<^verbatim>\<open>IntelFpgaPcieDev\<close> object is its members together with the state of the kernel driver it talks
  to and the memory of the device. \<open>fp_env\<close> says what the kernel does during the call at time
  \<open>fp_time\<close>. \<open>None\<close> is a call that never returns, or that crashes the kernel.
\<close>

section \<open>State and system calls\<close>

record fpga =
  m_dev_handle :: nat
  m_bdf :: u32
  m_bar :: u32
  m_kmem_size :: u32
  fp_drv :: drv
  fp_mem :: "u64 \<Rightarrow> u8"
  fp_pos :: u64
  fp_env :: "nat \<Rightarrow> kenv"
  fp_time :: nat

definition fp_done :: "drv \<Rightarrow> fpga \<Rightarrow> fpga" where
  "fp_done drv s = s\<lparr>fp_drv := drv, fp_time := Suc (fp_time s)\<rparr>"

text \<open>
  \<^verbatim>\<open>ioctl\<close> returns -1 for every error of the driver, and on a closed descriptor.
\<close>

definition ret_of :: "ioctl_out \<Rightarrow> int" where
  "ret_of out = (case out of OStatus st _ \<Rightarrow> if st < 0 then -1 else st | _ \<Rightarrow> 0)"

definition ioctl :: "ioctl_req \<Rightarrow> fpga \<Rightarrow> (int \<times> ioctl_out \<times> fpga) option" where
  "ioctl req s =
     (if files (fp_drv s) (m_dev_handle s) = None then Some (-1, OUnit, s)
      else case intel_fpga_pcie_unlocked_ioctl (fp_env s (fp_time s)) req (m_dev_handle s) (fp_drv s) of
             Ret (Inl e, drv) \<Rightarrow> Some (-1, OUnit, fp_done drv s)
           | Ret (Inr out, drv) \<Rightarrow> Some (ret_of out, out, fp_done drv s)
           | _ \<Rightarrow> None)"

definition sys_close :: "fpga \<Rightarrow> fpga option" where
  "sys_close s =
     (if files (fp_drv s) (m_dev_handle s) = None then Some s
      else case drv_close (e_intr (fp_env s (fp_time s))) (m_dev_handle s) (fp_drv s) of
             Ret (_, drv) \<Rightarrow> Some (fp_done drv s)
           | _ \<Rightarrow> None)"

text \<open>
  \<^verbatim>\<open>read\<close>, \<^verbatim>\<open>write\<close> and their variants with an offset: the result, the bytes stored in the caller's
  buffer and the new file position. \<open>cmd\<close> is what the driver finds at the caller's address when it takes
  it for a command.
\<close>

definition sys_io :: "io_cfg \<Rightarrow> bool \<Rightarrow> intel_fpga_pcie_cmd option \<Rightarrow> u8 list \<Rightarrow> u64 \<Rightarrow> u64 \<Rightarrow> fpga \<Rightarrow>
    (int \<times> u8 list \<times> u64 \<times> fpga) option" where
  "sys_io cfg rd cmd src count offp s =
     (case files (fp_drv s) (m_dev_handle s) of
        None \<Rightarrow> Some (-1, [], offp, s)
      | Some chr \<Rightarrow>
          Option.bind (dev_tree (fp_drv s) (chr_dev chr)) (\<lambda>dev.
            case chr_access cfg cmd (\<lambda>_ n. Some (take n src)) False chr dev 0 count rd (fp_mem s) offp of
              Ret (Inl e, mem, offp') \<Rightarrow> Some (-1, [], offp', s\<lparr>fp_mem := mem\<rparr>)
            | Ret (Inr (n, out), mem, offp') \<Rightarrow>
                Some (int (unat n), (case out of None \<Rightarrow> [] | Some (_, bs) \<Rightarrow> bs), offp', s\<lparr>fp_mem := mem\<rparr>)
            | _ \<Rightarrow> None))"

section \<open>Access functions\<close>

text \<open>The templates for an object of \<open>n\<close> bytes; the result is 1 when all bytes were moved.\<close>

definition linux_read :: "io_cfg \<Rightarrow> intel_fpga_pcie_cmd option \<Rightarrow> nat \<Rightarrow> u64 \<Rightarrow> fpga \<Rightarrow> (bool \<times> u8 list \<times> fpga) option" where
  "linux_read cfg cmd n addr s =
     map_option (\<lambda>(r, bs, _, s'). (r = int n, bs, s')) (sys_io cfg True cmd [] (of_nat n) addr s)"

definition linux_write :: "io_cfg \<Rightarrow> intel_fpga_pcie_cmd option \<Rightarrow> u8 list \<Rightarrow> u64 \<Rightarrow> fpga \<Rightarrow> (bool \<times> fpga) option" where
  "linux_write cfg cmd src addr s =
     map_option (\<lambda>(r, _, _, s'). (r = int (length src), s')) (sys_io cfg False cmd src (of_nat (length src)) addr s)"

definition linux_bar_read :: "io_cfg \<Rightarrow> nat \<Rightarrow> u32 \<Rightarrow> u64 \<Rightarrow> fpga \<Rightarrow> (bool \<times> u8 list \<times> fpga) option" where
  "linux_bar_read cfg n bar addr s =
     map_option (\<lambda>(r, bs, pos, s'). (r = int n, bs, s'\<lparr>fp_pos := pos\<rparr>))
       (sys_io cfg True (Some \<lparr>bar_num = bar, bar_offset = addr, user_addr = 0\<rparr>) [] (of_nat n) (fp_pos s) s)"

definition linux_bar_write :: "io_cfg \<Rightarrow> u8 list \<Rightarrow> u32 \<Rightarrow> u64 \<Rightarrow> fpga \<Rightarrow> (bool \<times> fpga) option" where
  "linux_bar_write cfg src bar addr s =
     map_option (\<lambda>(r, _, pos, s'). (r = int (length src), s'\<lparr>fp_pos := pos\<rparr>))
       (sys_io cfg False (Some \<lparr>bar_num = bar, bar_offset = addr, user_addr = 0\<rparr>) src (of_nat (length src)) (fp_pos s) s)"

definition linux_cfg_access :: "nat \<Rightarrow> u64 \<Rightarrow> u8 list \<Rightarrow> bool \<Rightarrow> fpga \<Rightarrow> (bool \<times> u8 list \<times> fpga) option" where
  "linux_cfg_access n addr src rd s =
     map_option (\<lambda>(r, out, s'). (r = 0, (case out of OStatus _ bs \<Rightarrow> bs | _ \<Rightarrow> []), s'))
       (ioctl (CfgAccess (Some \<lparr>ep_addr = addr, user_addr = 0, arg_size = of_nat n, is_read = rd\<rparr>) (Some src)) s)"

section \<open>Requests to the driver\<close>

definition fpga_sel_dev :: "u32 \<Rightarrow> fpga \<Rightarrow> (bool \<times> fpga) option" where
  "fpga_sel_dev bdf s =
     (let bdf = bdf AND 65535 in
      map_option (\<lambda>(r, _, s'). (r = 0, if r = 0 then s'\<lparr>m_bdf := bdf\<rparr> else s')) (ioctl (SelDev (ucast bdf)) s))"

definition fpga_sel_bar :: "u32 \<Rightarrow> fpga \<Rightarrow> (bool \<times> fpga) option" where
  "fpga_sel_bar bar s =
     map_option (\<lambda>(r, _, s'). (r = 0, if r = 0 then s'\<lparr>m_bar := bar\<rparr> else s')) (ioctl (SelBar (ucast bar)) s)"

definition fpga_use_cmd :: "bool \<Rightarrow> fpga \<Rightarrow> (bool \<times> fpga) option" where
  "fpga_use_cmd enable s = map_option (\<lambda>(r, _, s'). (r = 0, s')) (ioctl (UseCmd (of_bool enable)) s)"

definition fpga_set_sriov_numvfs :: "u32 \<Rightarrow> fpga \<Rightarrow> (bool \<times> fpga) option" where
  "fpga_set_sriov_numvfs num_vfs s = map_option (\<lambda>(r, _, s'). (r = 0, s')) (ioctl (SriovNumvfs (sint num_vfs)) s)"

definition fpga_set_kmem_size :: "u32 \<Rightarrow> u32 \<Rightarrow> u32 \<Rightarrow> u32 \<Rightarrow> fpga \<Rightarrow> (bool \<times> fpga) option" where
  "fpga_set_kmem_size page_size rx tx app_id s =
     (let rx = (if rx + tx < page_size then page_size - tx else rx) in
      map_option (\<lambda>(r, _, s'). (r = 0, if r = 0 then s'\<lparr>m_kmem_size := rx + tx\<rparr> else s'))
        (ioctl (SetKmemSize (Some \<lparr>rx_size = rx, tx_size = tx, core_id = app_id\<rparr>)) s))"

definition fpga_dma_queue :: "bool \<Rightarrow> u64 \<Rightarrow> u32 \<Rightarrow> u64 \<Rightarrow> fpga \<Rightarrow> (bool \<times> fpga) option" where
  "fpga_dma_queue rd ep_offset n kmem_offset s =
     map_option (\<lambda>(r, _, s'). (r = 0, s'))
       (ioctl (DmaQueue (Some \<lparr>ep_addr = ep_offset, user_addr = kmem_offset, arg_size = n, is_read = rd\<rparr>)) s)"

definition fpga_dma_send :: "u64 \<Rightarrow> fpga \<Rightarrow> (bool \<times> fpga) option" where
  "fpga_dma_send dirs s = map_option (\<lambda>(r, _, s'). (r = 0, s')) (ioctl (DmaSend dirs) s)"

definition fpga_get_uio_dev_name :: "fpga \<Rightarrow> (int \<times> string \<times> fpga) option" where
  "fpga_get_uio_dev_name s =
     map_option (\<lambda>(r, out, s'). (r, (case out of OName n \<Rightarrow> n | _ \<Rightarrow> ''''), s')) (ioctl GetUioDevName s)"

text \<open>The 32-bit result of a request that returns one; \<^verbatim>\<open>int\<close> is signed.\<close>

definition out_int :: "int \<times> ioctl_out \<times> fpga \<Rightarrow> int \<times> fpga" where
  "out_int = (\<lambda>(r, out, s). (if r \<noteq> 0 then -1
     else case out of OWord w \<Rightarrow> sint w | OFlag b \<Rightarrow> of_bool b | _ \<Rightarrow> 0, s))"

definition fpga_get_nb_fallback_queues :: "fpga \<Rightarrow> (int \<times> fpga) option" where
  "fpga_get_nb_fallback_queues s = map_option out_int (ioctl GetNbFallbackQueues s)"

definition fpga_set_rr_status :: "bool \<Rightarrow> fpga \<Rightarrow> (int \<times> fpga) option" where
  "fpga_set_rr_status rr s = map_option (\<lambda>(r, _, s'). (r, s')) (ioctl (SetRrStatus (of_bool rr)) s)"

definition fpga_get_rr_status :: "fpga \<Rightarrow> (int \<times> fpga) option" where
  "fpga_get_rr_status s = map_option out_int (ioctl GetRrStatus s)"

definition fpga_allocate_notif_buf :: "fpga \<Rightarrow> (int \<times> fpga) option" where
  "fpga_allocate_notif_buf s = map_option out_int (ioctl AllocNotifBuffer s)"

definition fpga_free_notif_buf :: "int \<Rightarrow> fpga \<Rightarrow> (int \<times> fpga) option" where
  "fpga_free_notif_buf nid s = map_option (\<lambda>(r, _, s'). (r, s')) (ioctl (FreeNotifBuffer (of_int nid)) s)"

definition fpga_allocate_pipe :: "bool \<Rightarrow> fpga \<Rightarrow> (int \<times> fpga) option" where
  "fpga_allocate_pipe fallback s = map_option out_int (ioctl (AllocPipe (Some fallback)) s)"

definition fpga_free_pipe :: "int \<Rightarrow> fpga \<Rightarrow> (int \<times> fpga) option" where
  "fpga_free_pipe pid s = map_option (\<lambda>(r, _, s'). (r, s')) (ioctl (FreePipe (of_int pid)) s)"

text \<open>
  \<^verbatim>\<open>mmap\<close> of the driver's memory at an offset that is a multiple of the page size; \<open>None\<close> is
  \<^verbatim>\<open>MAP_FAILED\<close>. \<open>vm_start\<close> is where the kernel would place the mapping.
\<close>

definition fpga_kmem_mmap :: "(u64 \<Rightarrow> u64) \<Rightarrow> bool \<Rightarrow> u64 \<Rightarrow> u32 \<Rightarrow> u32 \<Rightarrow> fpga \<Rightarrow> (u64 \<times> u64) option" where
  "fpga_kmem_mmap pa remap_ok vm_start n off s =
     (if n + off > m_kmem_size s then None
      else if n = 0 \<or> off mod 4096 \<noteq> 0 then None
      else Option.bind (files (fp_drv s) (m_dev_handle s)) (\<lambda>chr.
        Option.bind (dev_tree (fp_drv s) (chr_dev chr)) (\<lambda>dev.
          case chr_mmap pa remap_ok dev vm_start (vm_start + (ucast n + 4095) div 4096 * 4096) (ucast off div 4096) of
            Inl e \<Rightarrow> None
          | Inr m \<Rightarrow> Some m)))"

section \<open>Creation and destruction\<close>

record open_env =
  o_lock_intr :: bool
  o_alloc_bk :: bool
  o_alloc_notif :: bool
  o_alloc_pipes :: bool
  o_intr :: bool
  o_uio :: bool
  o_alloc_dev :: bool

definition sys_open :: "open_env \<Rightarrow> nat \<Rightarrow> drv \<Rightarrow> (bool \<times> drv) option" where
  "sys_open oe fd drv =
     (case chr_open (o_lock_intr oe) (o_alloc_bk oe) (o_alloc_notif oe) (o_alloc_pipes oe) (o_intr oe) fd drv of
        Ret (Inl e, drv') \<Rightarrow> Some (False, drv')
      | Ret (Inr _, drv') \<Rightarrow> Some (True, drv')
      | _ \<Rightarrow> None)"

text \<open>A step that fails closes the handle and makes \<^verbatim>\<open>Init\<close> return -1.\<close>

definition init_step :: "(int \<times> ioctl_out \<times> fpga) option \<Rightarrow> (ioctl_out \<Rightarrow> fpga \<Rightarrow> (int \<times> fpga) option) \<Rightarrow>
    (int \<times> fpga) option" where
  "init_step r k = Option.bind r (\<lambda>(result, out, s).
     if result \<noteq> 0 then map_option (\<lambda>s'. (-1, s')) (sys_close s) else k out s)"

definition fpga_Init :: "open_env \<Rightarrow> nat \<Rightarrow> u32 \<Rightarrow> int \<Rightarrow> fpga \<Rightarrow> (int \<times> fpga) option" where
  "fpga_Init oe fd bdf bar s =
     Option.bind (sys_open oe fd (fp_drv s)) (\<lambda>(ok, drv).
       if \<not> ok then Some (-1, s\<lparr>fp_drv := drv\<rparr>)
       else
         init_step (ioctl (if bdf > 0 then SelDev (ucast bdf) else GetDev) (s\<lparr>fp_drv := drv, m_dev_handle := fd\<rparr>)) (\<lambda>out s1.
         let bdf' = (case out of OWord w \<Rightarrow> w | _ \<Rightarrow> bdf) in
         init_step (ioctl (if bar \<ge> 0 then SelBar (ucast (of_int bar :: u32)) else GetBar)
             (if bar \<ge> 0 then s1\<lparr>m_bar := of_int bar\<rparr> else s1)) (\<lambda>out s2.
         let s3 = (case out of OWord w \<Rightarrow> s2\<lparr>m_bar := w\<rparr> | _ \<Rightarrow> s2) in
         init_step (ioctl GetUioDevName s3) (\<lambda>_ s4.
           if \<not> o_uio oe then map_option (\<lambda>s5. (-1, s5)) (sys_close s4)
           else Some (0, s4\<lparr>m_bdf := bdf', m_kmem_size := 0\<rparr>)))))"

definition fpga_destroy :: "fpga \<Rightarrow> fpga option" where
  "fpga_destroy s = Option.bind (fpga_use_cmd False s) (\<lambda>(_, s1). sys_close s1)"

text \<open>
  The destructor also runs after a failed \<^verbatim>\<open>Init\<close>, on a handle that is closed already or was never
  set; that the number may name another open file by then is not represented.
\<close>

definition fpga_Create :: "open_env \<Rightarrow> nat \<Rightarrow> u32 \<Rightarrow> int \<Rightarrow> fpga \<Rightarrow> (bool \<times> fpga) option" where
  "fpga_Create oe fd bdf bar s =
     (if \<not> o_alloc_dev oe then Some (False, s)
      else Option.bind (fpga_Init oe fd bdf bar s) (\<lambda>(r, s1).
        if r \<noteq> 0 then map_option (\<lambda>s2. (False, s2)) (fpga_destroy s1)
        else Option.bind (fpga_use_cmd True s1) (\<lambda>(ok, s2).
          if \<not> ok then map_option (\<lambda>s3. (False, s3)) (fpga_destroy s2) else Some (True, s2))))"

text \<open>\<open>v2p\<close> is \<^verbatim>\<open>virt_to_phys\<close>.\<close>

definition fpga_backend :: "(u64 \<Rightarrow> u64) \<Rightarrow> fpga backend" where
  "fpga_backend v2p =
     \<lparr>be_GetNbFallbackQueues = fpga_get_nb_fallback_queues, be_SetRrStatus = fpga_set_rr_status,
      be_GetRrStatus = fpga_get_rr_status, be_AllocateNotifBuf = fpga_allocate_notif_buf,
      be_FreeNotifBuf = fpga_free_notif_buf, be_AllocatePipe = fpga_allocate_pipe, be_FreePipe = fpga_free_pipe,
      be_ConvertVirtAddrToDevAddr = (\<lambda>a s. Some (v2p a, s))\<rparr>"

end
