(* ===== verification/Enso_Fpga.thy ===== *)
theory Enso_Fpga
  imports Enso_Runs Fpga_Backend
begin

text \<open>
  The pipe API over the FPGA backend over the kernel driver. What the library relies on when it asks a
  backend for pipes is the locale \<open>pipe_provider\<close>; the FPGA backend provides it on every state of the
  driver that several processes can reach.
\<close>

section \<open>What the library relies on\<close>

text \<open>\<open>mine\<close> are the pipes of the calling process, \<open>others\<close> those of all other processes.\<close>

locale pipe_provider =
  fixes be :: "'b backend" and inv :: "'b \<Rightarrow> bool" and mine others :: "'b \<Rightarrow> nat set"
  assumes alloc: "inv b \<Longrightarrow> be_AllocatePipe be fb b = Some (pid, b') \<Longrightarrow>
      inv b' \<and> others b' = others b \<and>
      (0 \<le> pid \<longrightarrow> nat pid < unat kMaxNbFlows \<and> nat pid \<notin> mine b \<union> others b \<and> mine b' = insert (nat pid) (mine b))"
    and free: "inv b \<Longrightarrow> be_FreePipe be pid b = Some (r, b') \<Longrightarrow> inv b' \<and> others b' = others b \<and> mine b' \<subseteq> mine b"
    and query: "inv b \<Longrightarrow> be_GetRrStatus be b = Some (r, b') \<or> be_GetNbFallbackQueues be b = Some (r, b') \<or>
      be_ConvertVirtAddrToDevAddr be a b = Some (p, b') \<Longrightarrow> inv b' \<and> others b' = others b \<and> mine b' = mine b"
begin

lemma update_fallback_keeps:
  assumes "inv b" "update_fallback_queues_config be junk nic nb b = Some (r, nb', b')"
  shows "inv b' \<and> others b' = others b \<and> mine b' = mine b"
proof -
  obtain r1 b1 where q1: "be_GetRrStatus be b = Some (r1, b1)"
    using assms(2) by (auto simp: update_fallback_queues_config_def bind_eq_Some_conv get_round_robin_status_def)
  note k1 = query [OF assms(1) disjI1 [OF q1]]
  show ?thesis
  proof (cases "r1 < 0")
    case True
    then show ?thesis
      using assms(2) k1 by (auto simp: update_fallback_queues_config_def get_round_robin_status_def q1)
  next
    case False
    then obtain r2 b2 where q2: "be_GetNbFallbackQueues be b1 = Some (r2, b2)" and "b' = b2"
      using assms(2) by (auto simp: update_fallback_queues_config_def get_round_robin_status_def q1 bind_eq_Some_conv
          pcie_get_nb_fallback_queues_def split: if_splits)
    with query [OF conjunct1 [OF k1] disjI2 [OF disjI1 [OF q2]]] k1 show ?thesis by simp
  qed
qed

lemma pipe_init_owner:
  assumes "inv b" "h_dev h = Some b" "enso_pipe_init be env nic fb ep nb h = Some (pid, ep', nb', h')" "0 \<le> pid"
  shows "\<exists>b'. h_dev h' = Some b' \<and> inv b' \<and> others b' = others b \<and> nat pid < unat kMaxNbFlows \<and>
    nat pid \<notin> mine b \<union> others b \<and> mine b' = insert (nat pid) (mine b)"
proof -
  obtain k b1 where al: "be_AllocatePipe be fb b = Some (k, b1)"
    using assms(2,3) by (auto simp: enso_pipe_init_def bind_eq_Some_conv)
  have k: "k = pid" using assms(2-4) al
    by (auto simp: enso_pipe_init_def bind_eq_Some_conv Let_def case_prod_unfold split: if_splits)
  note a = alloc [OF assms(1) al, unfolded k]
  have "inv b1" using a by blast
  from assms(2-4) al obtain addr p b2 junk nb1 r nb2 b3 where conv: "be_ConvertVirtAddrToDevAddr be addr b1 = Some (p, b2)"
    and upd: "update_fallback_queues_config be junk nic nb1 b2 = Some (r, nb2, b3)" and h': "h_dev h' = Some b3"
    by (auto simp: enso_pipe_init_def bind_eq_Some_conv Let_def case_prod_unfold split: if_splits)
  note q = query [OF \<open>inv b1\<close> disjI2 [OF disjI2 [OF conv]]]
  note u = update_fallback_keeps [OF conjunct1 [OF q] upd]
  show ?thesis using a q u h' assms(4) by auto
qed

text \<open>The identifier of a new RX pipe was nobody's and is the caller's now.\<close>

lemma allocate_rx_pipe_owner:
  assumes "inv b" "h_dev (ap_host a) = Some b" "AllocateRxPipe be env nic fb junk_ep a = Some (Some r, a')"
  shows "\<exists>b'. h_dev (ap_host a') = Some b' \<and> inv b' \<and> others b' = others b \<and>
    (let pid = unat (rp_id (rx_pipes (ap_dev a') ! r)) in
     pid \<notin> mine b \<union> others b \<and> mine b' = insert pid (mine b) \<and> rx_pipes_map (ap_dev a') pid = Some r)"
proof -
  from assms(3) obtain pid ep nb h where init: "enso_pipe_init be env nic fb junk_ep (ap_nb a) (ap_host a) = Some (pid, ep, nb, h)"
    and pid: "0 \<le> pid" and a': "h_dev (ap_host a') = h_dev h" "rp_id (rx_pipes (ap_dev a') ! r) = of_int pid"
      "rx_pipes_map (ap_dev a') (unat (of_int pid :: u16)) = Some r"
    by (auto simp: AllocateRxPipe_def bind_eq_Some_conv Let_def ap_put_def split: if_splits)
  from pipe_init_owner [OF assms(1,2) init pid] obtain b' where b': "h_dev h = Some b'" "inv b'" "others b' = others b"
    "nat pid < unat kMaxNbFlows" "nat pid \<notin> mine b \<union> others b" "mine b' = insert (nat pid) (mine b)" by blast
  have "unat (of_nat (nat pid) :: u16) = nat pid" using b'(4) by (intro unat_of_nat_small) (simp add: kMaxNbFlows_def)
  then have "unat (of_int pid :: u16) = nat pid" using pid by (simp only: of_nat_nat)
  then show ?thesis using a' b' by (simp add: Let_def)
qed

end

section \<open>The FPGA backend provides it\<close>

definition fp_dev :: "fpga \<Rightarrow> u16" where
  "fp_dev s = chr_dev (the (files (fp_drv s) (m_dev_handle s)))"

definition fp_inv :: "fpga \<Rightarrow> bool" where
  "fp_inv s \<longleftrightarrow> drv_reachable (fp_drv s) \<and> files (fp_drv s) (m_dev_handle s) \<noteq> None"

definition fp_mine :: "fpga \<Rightarrow> nat set" where
  "fp_mine s = {i. owns_pipe (fp_drv s) (m_dev_handle s) (fp_dev s) i}"

definition fp_others :: "fpga \<Rightarrow> nat set" where
  "fp_others s = {i. \<exists>f. f \<noteq> m_dev_handle s \<and> owns_pipe (fp_drv s) f (fp_dev s) i}"

text \<open>A request changes the handle it is made on and leaves all others and the device as they were.\<close>

lemma ioctl_run:
  assumes "ioctl req s = Some (r, out, s')" "fp_inv s" "\<And>b. req \<noteq> SelDev b"
  obtains chr dev res chr' dev' where "files (fp_drv s) (m_dev_handle s) = Some chr" "dev_tree (fp_drv s) (chr_dev chr) = Some dev"
    "handle_req (fp_env s (fp_time s)) req chr dev = Ret (res, chr', dev')" "chr_dev chr' = chr_dev chr"
    "files (fp_drv s') = (files (fp_drv s))(m_dev_handle s \<mapsto> chr')" "m_dev_handle s' = m_dev_handle s"
    "(r, out) = (case res of Inl e \<Rightarrow> (-1, OUnit) | Inr x \<Rightarrow> (ret_of x, x))" "fp_inv s'"
    "call_effect chr dev chr' dev'"
proof -
  let ?env = "fp_env s (fp_time s)" and ?fd = "m_dev_handle s" and ?d = "fp_drv s"
  obtain chr where chr: "files ?d ?fd = Some chr" using assms(2) by (auto simp: fp_inv_def)
  have disp: "intel_fpga_pcie_unlocked_ioctl ?env req ?fd ?d = on_handle (handle_req ?env req) ?fd ?d"
    using assms(3) by (cases req) (blast, simp_all add: intel_fpga_pcie_unlocked_ioctl_def)
  obtain res t where run: "intel_fpga_pcie_unlocked_ioctl ?env req ?fd ?d = Ret (res, t)"
    and out: "(r, out) = (case res of Inl e \<Rightarrow> (-1, OUnit) | Inr x \<Rightarrow> (ret_of x, x))" and s': "s' = fp_done t s"
    using assms(1) chr by (auto simp: ioctl_def split: kernel.splits sum.splits)
  from run obtain dev chr' dev' where h: "dev_tree ?d (chr_dev chr) = Some dev"
    "handle_req ?env req chr dev = Ret (res, chr', dev')"
    "t = ?d\<lparr>dev_tree := (dev_tree ?d)(chr_dev chr \<mapsto> dev'), files := (files ?d)(?fd \<mapsto> chr')\<rparr>"
    unfolding disp by (auto simp: on_handle_def chr split: option.splits kernel.splits)
  have eff: "call_effect chr dev chr' dev'" using handle_req_effect h(2) assms(3) by blast
  have "drv_reachable t"
    using assms(2,3) run by (intro d_run [OF _ s_ioctl [OF run]]) (simp_all add: fp_inv_def)
  then have "fp_inv s'" by (simp add: fp_inv_def s' fp_done_def h(3))
  then show thesis
    using that [OF chr h(1,2) _ _ _ out _ eff] eff by (simp add: s' fp_done_def h(3) call_effect_def)
qed

lemma owns_after:
  assumes "files t = (files s)(fd \<mapsto> chr')" "files s fd = Some chr" "chr_dev chr' = chr_dev chr"
  shows "f \<noteq> fd \<Longrightarrow> owns_pipe t f b i = owns_pipe s f b i"
    and "owns_pipe t fd (chr_dev chr) i \<longleftrightarrow> i \<in> bv_used (chr_pipe_status chr')"
    and "owns_pipe s fd (chr_dev chr) i \<longleftrightarrow> i \<in> bv_used (chr_pipe_status chr)"
  using assms by (auto simp: owns_pipe_def)

lemma ioctl_owners:
  assumes "ioctl req s = Some (r, out, s')" "fp_inv s" "\<And>b. req \<noteq> SelDev b"
  shows "fp_inv s'" "fp_others s' = fp_others s" "fp_dev s' = fp_dev s"
proof -
  from assms obtain chr dev res chr' dev' where h: "files (fp_drv s) (m_dev_handle s) = Some chr" "chr_dev chr' = chr_dev chr"
    "files (fp_drv s') = (files (fp_drv s))(m_dev_handle s \<mapsto> chr')" "m_dev_handle s' = m_dev_handle s" "fp_inv s'"
    by (rule ioctl_run) blast
  show "fp_inv s'" by (rule h)
  show dev: "fp_dev s' = fp_dev s" using h by (simp add: fp_dev_def)
  show "fp_others s' = fp_others s"
    using owns_after(1) [OF h(3,1,2)] by (auto simp: fp_others_def h(4) dev)
qed

lemma ioctl_query:
  assumes "ioctl req s = Some (r, out, s')" "fp_inv s" "req = GetRrStatus \<or> req = GetNbFallbackQueues"
  shows "fp_inv s' \<and> fp_others s' = fp_others s \<and> fp_mine s' = fp_mine s"
proof -
  have sel: "\<And>b. req \<noteq> SelDev b" using assms(3) by auto
  from assms(1,2) sel obtain chr dev res chr' dev' where h: "files (fp_drv s) (m_dev_handle s) = Some chr"
    "handle_req (fp_env s (fp_time s)) req chr dev = Ret (res, chr', dev')"
    "files (fp_drv s') = (files (fp_drv s))(m_dev_handle s \<mapsto> chr')" "m_dev_handle s' = m_dev_handle s"
    by (rule ioctl_run) blast
  have "chr' = chr" using h(2) assms(3) by auto
  then have "files (fp_drv s') = files (fp_drv s)" using h(1,3) by (simp add: fun_upd_idem)
  then have "fp_mine s' = fp_mine s" by (simp add: fp_mine_def owns_pipe_def fp_dev_def h(4))
  then show ?thesis using ioctl_owners [OF assms(1,2) sel] by simp
qed

interpretation fpga_pipes: pipe_provider "fpga_backend v2p" fp_inv fp_mine fp_others for v2p
proof unfold_locales
  fix b :: fpga and fb pid b'
  assume inv: "fp_inv b" and run: "be_AllocatePipe (fpga_backend v2p) fb b = Some (pid, b')"
  then obtain r out where io: "ioctl (AllocPipe (Some fb)) b = Some (r, out, b')" and pid: "(pid, b') = out_int (r, out, b')"
    by (auto simp: fpga_backend_def fpga_allocate_pipe_def out_int_def)
  have sel: "\<And>d. AllocPipe (Some fb) \<noteq> SelDev d" by simp
  note o = ioctl_owners [OF io inv sel]
  from io inv sel obtain chr dev res chr' dev' where h: "files (fp_drv b) (m_dev_handle b) = Some chr"
    "dev_tree (fp_drv b) (chr_dev chr) = Some dev"
    "handle_req (fp_env b (fp_time b)) (AllocPipe (Some fb)) chr dev = Ret (res, chr', dev')" "chr_dev chr' = chr_dev chr"
    "files (fp_drv b') = (files (fp_drv b))(m_dev_handle b \<mapsto> chr')" "m_dev_handle b' = m_dev_handle b"
    "(r, out) = (case res of Inl e \<Rightarrow> (-1, OUnit) | Inr x \<Rightarrow> (ret_of x, x))"
    by (rule ioctl_run) blast
  have dev: "fp_dev b = chr_dev chr" using h(1) by (simp add: fp_dev_def)
  have "nat pid < unat kMaxNbFlows \<and> nat pid \<notin> fp_mine b \<union> fp_others b \<and> fp_mine b' = insert (nat pid) (fp_mine b)"
    if pos: "0 \<le> pid"
  proof -
    obtain w where w: "res = Inr (OWord w)" "alloc_pipe (e_intr (fp_env b (fp_time b))) (Some fb) (e_ufault (fp_env b (fp_time b))) chr dev
        = Some (Inr w, chr', dev')" and p: "pid = sint w"
      using pos h(3,7) pid
      by (auto simp: lift_op_def kmap_def out_int_def ret_of_def split: option.splits sum.splits prod.splits)
    note a = alloc_pipe_Inr [OF w(2)]
    have "unat w < 2 ^ 31" using a by (simp add: MAX_NB_FLOWS_def)
    then have n: "nat pid = unat w" unfolding p by (simp add: sint_small)
    have "unat w \<notin> fp_mine b \<union> fp_others b"
      using a drv_inv_D(1) [OF drv_reachable_inv h(2)] inv
      by (auto simp: fp_mine_def fp_others_def fp_inv_def dev)
    moreover have "fp_mine b' = insert (unat w) (fp_mine b)"
      using a owns_after(2,3) [OF h(5,1,4)] by (auto simp: fp_mine_def o(3) h(6) dev)
    ultimately show ?thesis using a by (simp add: n kMaxNbFlows_def MAX_NB_FLOWS_def)
  qed
  with o show "fp_inv b' \<and> fp_others b' = fp_others b \<and> (0 \<le> pid \<longrightarrow> nat pid < unat kMaxNbFlows \<and>
      nat pid \<notin> fp_mine b \<union> fp_others b \<and> fp_mine b' = insert (nat pid) (fp_mine b))" by blast
next
  fix b :: fpga and pid r b'
  assume inv: "fp_inv b" and run: "be_FreePipe (fpga_backend v2p) pid b = Some (r, b')"
  then obtain out where io: "ioctl (FreePipe (of_int pid)) b = Some (r, out, b')"
    by (auto simp: fpga_backend_def fpga_free_pipe_def)
  have sel: "\<And>d. FreePipe (of_int pid) \<noteq> SelDev d" by simp
  note o = ioctl_owners [OF io inv sel]
  from io inv sel obtain chr dev res chr' dev' where h: "files (fp_drv b) (m_dev_handle b) = Some chr"
    "handle_req (fp_env b (fp_time b)) (FreePipe (of_int pid)) chr dev = Ret (res, chr', dev')" "chr_dev chr' = chr_dev chr"
    "files (fp_drv b') = (files (fp_drv b))(m_dev_handle b \<mapsto> chr')" "m_dev_handle b' = m_dev_handle b"
    by (rule ioctl_run) blast
  have dev: "fp_dev b = chr_dev chr" using h(1) by (simp add: fp_dev_def)
  have "bv_used (chr_pipe_status chr') \<subseteq> bv_used (chr_pipe_status chr)"
    using h(2) by (auto simp: lift_op_def free_pipe_def with_dev_def Let_def clear_byte' split: option.splits sum.splits if_splits)
  then have "fp_mine b' \<subseteq> fp_mine b"
    using owns_after(2,3) [OF h(4,1,3)] by (auto simp: fp_mine_def o(3) h(5) dev)
  with o show "fp_inv b' \<and> fp_others b' = fp_others b \<and> fp_mine b' \<subseteq> fp_mine b" by blast
next
  fix b :: fpga and a r p b'
  assume "fp_inv b" "be_GetRrStatus (fpga_backend v2p) b = Some (r, b') \<or>
    be_GetNbFallbackQueues (fpga_backend v2p) b = Some (r, b') \<or>
    be_ConvertVirtAddrToDevAddr (fpga_backend v2p) a b = Some (p, b')"
  then show "fp_inv b' \<and> fp_others b' = fp_others b \<and> fp_mine b' = fp_mine b"
    using ioctl_query [of GetRrStatus b] ioctl_query [of GetNbFallbackQueues b]
    by (auto simp: fpga_backend_def fpga_get_rr_status_def fpga_get_nb_fallback_queues_def out_int_def)
qed

lemma fp_unused:
  assumes "files (fp_drv b) (m_dev_handle b) = Some chr"
  shows "i \<notin> fp_mine b \<union> fp_others b \<longleftrightarrow> (\<forall>f. \<not> owns_pipe (fp_drv b) f (chr_dev chr) i)"
  using assms by (auto simp: fp_mine_def fp_others_def fp_dev_def) metis

lemma sint_ucast_small:
  assumes "n < 2 ^ 31"
  shows "sint (ucast (of_int (int n) :: u64) :: u32) = int n"
proof -
  have "unat (of_nat n :: u64) = n" using assms by (intro unat_of_nat_small) simp
  then have "unat (ucast (of_int (int n) :: u64) :: u32) = n"
    using assms by (simp add: unsigned_ucast_eq take_bit_nat_eq_self)
  then show ?thesis using assms by (simp add: sint_small)
qed
section \<open>Properties\<close>


definition fpga_two :: fpga where
  "fpga_two = \<lparr>m_dev_handle = 1, m_bdf = 0, m_bar = 0, m_kmem_size = 0, fp_drv = drv_two, fp_mem = (\<lambda>_. 0), fp_pos = 0,
     fp_env = (\<lambda>_. env_ok), fp_time = 0\<rparr>"

definition ep_zero :: RxEnsoPipeInternal where
  "ep_zero = \<lparr>ep_buf = 0, ep_buf_phys_addr = 0, ep_regs = regs_zero, ep_rx_head = 0, ep_rx_tail = 0,
     ep_phys_buf_offset = 0, ep_id = 0\<rparr>"

definition app_fpga :: "fpga app" where
  "app_fpga = \<lparr>ap_dev = new_device nb_zero (\<lambda>_. \<lparr>pr_pipe_id = 0, pr_nb_bytes = 0\<rparr>), ap_rx_addr = 0,
     ap_prefix = ''/mnt/huge/enso'', ap_host = \<lparr>h_dev = Some fpga_two, h_os = os_empty\<rparr>\<rparr>"


text \<open>
  One request on a handle of a device, seen from the driver: \<open>dev_at\<close> is the state of that device.
\<close>

definition dev_at :: "fpga \<Rightarrow> chr_dev_bookkeep \<Rightarrow> dev_bookkeep \<Rightarrow> bool" where
  "dev_at s chr dev \<longleftrightarrow> files (fp_drv s) (m_dev_handle s) = Some chr \<and> dev_tree (fp_drv s) (chr_dev chr) = Some dev"

lemma ioctl_step:
  assumes "dev_at s chr dev" "handle_req (fp_env s (fp_time s)) req chr dev = Ret (res, chr', dev')"
    "chr_dev chr' = chr_dev chr" "\<And>b. req \<noteq> SelDev b"
  shows "\<exists>s'. ioctl req s = Some (case res of Inl e \<Rightarrow> -1 | Inr x \<Rightarrow> ret_of x, case res of Inl e \<Rightarrow> OUnit | Inr x \<Rightarrow> x, s') \<and>
    dev_at s' chr' dev' \<and> fp_env s' = fp_env s"
proof -
  have "intel_fpga_pcie_unlocked_ioctl (fp_env s (fp_time s)) req (m_dev_handle s) (fp_drv s) =
      on_handle (handle_req (fp_env s (fp_time s)) req) (m_dev_handle s) (fp_drv s)"
    using assms(4) by (cases req) (blast, simp_all add: intel_fpga_pcie_unlocked_ioctl_def)
  then show ?thesis
    using assms(1-3) by (cases res) (auto simp: ioctl_def on_handle_def dev_at_def fp_done_def)
qed

text \<open>A device whose semaphore was never given back: every allocation sleeps.\<close>

lemma device_blocked:
  assumes "dev_at s chr dev" "dev_sem dev = 0" "files (fp_drv s) f = Some c" "chr_dev c = chr_dev chr" "\<not> e_intr env"
    "req = AllocPipe (Some fb) \<or> req = AllocNotifBuffer"
  shows "intel_fpga_pcie_unlocked_ioctl env req f (fp_drv s) = Sleep"
  using assms
  by (auto simp: intel_fpga_pcie_unlocked_ioctl_def on_handle_def dev_at_def lift_op_def alloc_pipe_def
      alloc_pipe_select_def alloc_notif_buffer_def with_dev_sleep)



end
