(* ===== verification/Fpga_Regs.thy ===== *)
theory Fpga_Regs
  imports Fpga_Backend
begin

text \<open>
  The register accesses of the FPGA backend, the remaining methods of \<^verbatim>\<open>IntelFpgaPcieDev\<close> in
  \<^verbatim>\<open>backends/intel_fpga/linux/intel_fpga_pcie_api_linux.cpp\<close>: reads and writes of 8 to 64 bits and of blocks,
  in the selected BAR or in a given one, accesses to configuration space, and what goes straight to the
  operating system.

  Numbers lie in memory with the lowest byte first. A read stores a number when it returns all of its bytes;
  after a short read the caller's variable is a mixture, which is \<open>None\<close> here.
\<close>

section \<open>Numbers and bytes\<close>

definition le_bytes :: "'a::len word \<Rightarrow> u8 list" where
  "le_bytes w = map (\<lambda>i. ucast (drop_bit (8 * i) w)) [0..<LENGTH('a) div 8]"

definition le_word :: "u8 list \<Rightarrow> 'a::len word" where
  "le_word bs = foldr (\<lambda>b w. push_bit 8 w OR ucast b) bs 0"

definition stored :: "bool \<times> u8 list \<times> fpga \<Rightarrow> bool \<times> 'a::len word option \<times> fpga" where
  "stored = (\<lambda>(r, bs, s). (r, if length bs = LENGTH('a) div 8 then Some (le_word bs) else None, s))"

section \<open>Accesses to the selected BAR\<close>

definition fpga_read8 :: "io_cfg \<Rightarrow> intel_fpga_pcie_cmd option \<Rightarrow> u64 \<Rightarrow> fpga \<Rightarrow> (bool \<times> u8 option \<times> fpga) option" where
  "fpga_read8 cfg cmd addr s = map_option stored (linux_read cfg cmd 1 addr s)"

definition fpga_read16 :: "io_cfg \<Rightarrow> intel_fpga_pcie_cmd option \<Rightarrow> u64 \<Rightarrow> fpga \<Rightarrow> (bool \<times> u16 option \<times> fpga) option" where
  "fpga_read16 cfg cmd addr s = map_option stored (linux_read cfg cmd 2 addr s)"

definition fpga_read32 :: "io_cfg \<Rightarrow> intel_fpga_pcie_cmd option \<Rightarrow> u64 \<Rightarrow> fpga \<Rightarrow> (bool \<times> u32 option \<times> fpga) option" where
  "fpga_read32 cfg cmd addr s = map_option stored (linux_read cfg cmd 4 addr s)"

definition fpga_read64 :: "io_cfg \<Rightarrow> intel_fpga_pcie_cmd option \<Rightarrow> u64 \<Rightarrow> fpga \<Rightarrow> (bool \<times> u64 option \<times> fpga) option" where
  "fpga_read64 cfg cmd addr s = map_option stored (linux_read cfg cmd 8 addr s)"

definition fpga_write8 :: "io_cfg \<Rightarrow> intel_fpga_pcie_cmd option \<Rightarrow> u64 \<Rightarrow> u8 \<Rightarrow> fpga \<Rightarrow> (bool \<times> fpga) option" where
  "fpga_write8 cfg cmd addr data s = linux_write cfg cmd (le_bytes data) addr s"

definition fpga_write16 :: "io_cfg \<Rightarrow> intel_fpga_pcie_cmd option \<Rightarrow> u64 \<Rightarrow> u16 \<Rightarrow> fpga \<Rightarrow> (bool \<times> fpga) option" where
  "fpga_write16 cfg cmd addr data s = linux_write cfg cmd (le_bytes data) addr s"

definition fpga_write32 :: "io_cfg \<Rightarrow> intel_fpga_pcie_cmd option \<Rightarrow> u64 \<Rightarrow> u32 \<Rightarrow> fpga \<Rightarrow> (bool \<times> fpga) option" where
  "fpga_write32 cfg cmd addr data s = linux_write cfg cmd (le_bytes data) addr s"

definition fpga_write64 :: "io_cfg \<Rightarrow> intel_fpga_pcie_cmd option \<Rightarrow> u64 \<Rightarrow> u64 \<Rightarrow> fpga \<Rightarrow> (bool \<times> fpga) option" where
  "fpga_write64 cfg cmd addr data s = linux_write cfg cmd (le_bytes data) addr s"

definition fpga_read_block :: "io_cfg \<Rightarrow> intel_fpga_pcie_cmd option \<Rightarrow> u64 \<Rightarrow> nat \<Rightarrow> fpga \<Rightarrow> (bool \<times> u8 list \<times> fpga) option" where
  "fpga_read_block cfg cmd src count s = linux_read cfg cmd count src s"

definition fpga_write_block :: "io_cfg \<Rightarrow> intel_fpga_pcie_cmd option \<Rightarrow> u64 \<Rightarrow> u8 list \<Rightarrow> fpga \<Rightarrow> (bool \<times> fpga) option" where
  "fpga_write_block cfg cmd dst src s = linux_write cfg cmd src dst s"

section \<open>Accesses to a given BAR\<close>

definition fpga_bar_read8 :: "io_cfg \<Rightarrow> u32 \<Rightarrow> u64 \<Rightarrow> fpga \<Rightarrow> (bool \<times> u8 option \<times> fpga) option" where
  "fpga_bar_read8 cfg bar addr s = map_option stored (linux_bar_read cfg 1 bar addr s)"

definition fpga_bar_read16 :: "io_cfg \<Rightarrow> u32 \<Rightarrow> u64 \<Rightarrow> fpga \<Rightarrow> (bool \<times> u16 option \<times> fpga) option" where
  "fpga_bar_read16 cfg bar addr s = map_option stored (linux_bar_read cfg 2 bar addr s)"

definition fpga_bar_read32 :: "io_cfg \<Rightarrow> u32 \<Rightarrow> u64 \<Rightarrow> fpga \<Rightarrow> (bool \<times> u32 option \<times> fpga) option" where
  "fpga_bar_read32 cfg bar addr s = map_option stored (linux_bar_read cfg 4 bar addr s)"

definition fpga_bar_read64 :: "io_cfg \<Rightarrow> u32 \<Rightarrow> u64 \<Rightarrow> fpga \<Rightarrow> (bool \<times> u64 option \<times> fpga) option" where
  "fpga_bar_read64 cfg bar addr s = map_option stored (linux_bar_read cfg 8 bar addr s)"

definition fpga_bar_write8 :: "io_cfg \<Rightarrow> u32 \<Rightarrow> u64 \<Rightarrow> u8 \<Rightarrow> fpga \<Rightarrow> (bool \<times> fpga) option" where
  "fpga_bar_write8 cfg bar addr data s = linux_bar_write cfg (le_bytes data) bar addr s"

definition fpga_bar_write16 :: "io_cfg \<Rightarrow> u32 \<Rightarrow> u64 \<Rightarrow> u16 \<Rightarrow> fpga \<Rightarrow> (bool \<times> fpga) option" where
  "fpga_bar_write16 cfg bar addr data s = linux_bar_write cfg (le_bytes data) bar addr s"

definition fpga_bar_write32 :: "io_cfg \<Rightarrow> u32 \<Rightarrow> u64 \<Rightarrow> u32 \<Rightarrow> fpga \<Rightarrow> (bool \<times> fpga) option" where
  "fpga_bar_write32 cfg bar addr data s = linux_bar_write cfg (le_bytes data) bar addr s"

definition fpga_bar_write64 :: "io_cfg \<Rightarrow> u32 \<Rightarrow> u64 \<Rightarrow> u64 \<Rightarrow> fpga \<Rightarrow> (bool \<times> fpga) option" where
  "fpga_bar_write64 cfg bar addr data s = linux_bar_write cfg (le_bytes data) bar addr s"

definition fpga_bar_read_block :: "io_cfg \<Rightarrow> u32 \<Rightarrow> u64 \<Rightarrow> nat \<Rightarrow> fpga \<Rightarrow> (bool \<times> u8 list \<times> fpga) option" where
  "fpga_bar_read_block cfg bar src count s = linux_bar_read cfg count bar src s"

definition fpga_bar_write_block :: "io_cfg \<Rightarrow> u32 \<Rightarrow> u64 \<Rightarrow> u8 list \<Rightarrow> fpga \<Rightarrow> (bool \<times> fpga) option" where
  "fpga_bar_write_block cfg bar dst src s = linux_bar_write cfg src bar dst s"

section \<open>Configuration space and the operating system\<close>

definition fpga_cfg_read8 :: "u64 \<Rightarrow> u8 \<Rightarrow> fpga \<Rightarrow> (bool \<times> u8 option \<times> fpga) option" where
  "fpga_cfg_read8 addr old s = map_option stored (linux_cfg_access 1 addr (le_bytes old) True s)"

definition fpga_cfg_read16 :: "u64 \<Rightarrow> u16 \<Rightarrow> fpga \<Rightarrow> (bool \<times> u16 option \<times> fpga) option" where
  "fpga_cfg_read16 addr old s = map_option stored (linux_cfg_access 2 addr (le_bytes old) True s)"

definition fpga_cfg_read32 :: "u64 \<Rightarrow> u32 \<Rightarrow> fpga \<Rightarrow> (bool \<times> u32 option \<times> fpga) option" where
  "fpga_cfg_read32 addr old s = map_option stored (linux_cfg_access 4 addr (le_bytes old) True s)"

definition fpga_cfg_write8 :: "u64 \<Rightarrow> u8 \<Rightarrow> fpga \<Rightarrow> (bool \<times> fpga) option" where
  "fpga_cfg_write8 addr data s = map_option (\<lambda>(r, _, s'). (r, s')) (linux_cfg_access 1 addr (le_bytes data) False s)"

definition fpga_cfg_write16 :: "u64 \<Rightarrow> u16 \<Rightarrow> fpga \<Rightarrow> (bool \<times> fpga) option" where
  "fpga_cfg_write16 addr data s = map_option (\<lambda>(r, _, s'). (r, s')) (linux_cfg_access 2 addr (le_bytes data) False s)"

definition fpga_cfg_write32 :: "u64 \<Rightarrow> u32 \<Rightarrow> fpga \<Rightarrow> (bool \<times> fpga) option" where
  "fpga_cfg_write32 addr data s = map_option (\<lambda>(r, _, s'). (r, s')) (linux_cfg_access 4 addr (le_bytes data) False s)"

definition fpga_get_dev :: "fpga \<Rightarrow> u32" where
  "fpga_get_dev s = m_bdf s"

definition fpga_get_bar :: "fpga \<Rightarrow> u32" where
  "fpga_get_bar s = m_bar s"

text \<open>\<open>os_mmap\<close> and \<open>os_munmap_ret\<close> are the answers of the operating system.\<close>

definition fpga_uio_mmap :: "(u64 \<Rightarrow> u32 \<Rightarrow> u64 option) \<Rightarrow> u32 \<Rightarrow> u64 \<Rightarrow> u32 \<Rightarrow> u64 option" where
  "fpga_uio_mmap os_mmap pagesize sz mapping = os_mmap sz (mapping * pagesize)"

definition fpga_kmem_munmap :: "(u64 \<Rightarrow> u32 \<Rightarrow> int) \<Rightarrow> u64 \<Rightarrow> u32 \<Rightarrow> bool" where
  "fpga_kmem_munmap os_munmap_ret addr sz \<longleftrightarrow> os_munmap_ret addr sz = 0"

text \<open>
  \<^verbatim>\<open>DevBackend::Create\<close> and its destructor; \<open>alloc_ok\<close> says whether there is memory for the object. When the
  device cannot be created its pointer is null and there is nothing to delete.
\<close>

definition dev_backend_Create :: "bool \<Rightarrow> open_env \<Rightarrow> nat \<Rightarrow> u32 \<Rightarrow> int \<Rightarrow> fpga \<Rightarrow> (bool \<times> fpga) option" where
  "dev_backend_Create alloc_ok oe fd bdf bar s = (if \<not> alloc_ok then Some (False, s) else fpga_Create oe fd bdf bar s)"

definition dev_backend_destroy :: "bool \<Rightarrow> fpga \<Rightarrow> fpga option" where
  "dev_backend_destroy dev_present s = (if dev_present then fpga_destroy s else Some s)"

section \<open>Bytes and numbers are inverse\<close>

lemma length_le_bytes [simp]: "length (le_bytes (w :: 'a::len word)) = LENGTH('a) div 8"
  by (simp add: le_bytes_def)

lemma le_word_snoc: "le_word (bs @ [b]) = le_word bs OR push_bit (8 * length bs) (ucast b)"
proof (induction bs)
  case (Cons c bs)
  then show ?case by (simp add: le_word_def bit_eq_iff bit_simps) (auto simp: bit_simps algebra_simps)
qed (simp add: le_word_def)

lemma le_word_bytes:
  fixes w :: "'a::len word"
  shows "le_word (map (\<lambda>i. ucast (drop_bit (8 * i) w)) [0..<n]) = take_bit (8 * n) w"
proof (induction n)
  case 0
  show ?case by (simp add: le_word_def)
next
  case (Suc n)
  have "take_bit (8 * Suc n) w = take_bit (8 * n) w OR push_bit (8 * n) (ucast (ucast (drop_bit (8 * n) w) :: u8))"
    by (rule bit_word_eqI) (auto simp: bit_simps less_diff_conv)
  then show ?case by (simp add: le_word_snoc Suc)
qed

lemma le_word_le_bytes: "8 dvd LENGTH('a) \<Longrightarrow> le_word (le_bytes (w :: 'a::len word)) = w"
  by (simp add: le_bytes_def le_word_bytes)
section \<open>From the register to the device\<close>

text \<open>
  With commands switched on, as \<^verbatim>\<open>Create\<close> leaves them, an access goes to the BAR and offset of the command and
  the position of the file stays where it is.
\<close>

lemma chr_access_cmd:
  assumes "use_cmd chr"
  shows "chr_access cfg (Some c) cfu flt chr dev ubuf count rd mem offp =
    (case chr_access cfg None cfu flt (chr\<lparr>use_cmd := False, cur_bar_num := bar_num c\<rparr>) dev (user_addr c) count rd mem (bar_offset c) of
       Ret (r, mem', _) \<Rightarrow> Ret (r, mem', offp) | k \<Rightarrow> k)"
proof (cases "count = 0 \<or> unat (bar_num c) \<ge> 6")
  case False
  obtain ep n where g: "get_address dev (unat (bar_num c)) (bar_offset c) (if count > MAX_TRANSFER_SIZE then MAX_TRANSFER_SIZE else count) = (ep, n)"
    by fastforce
  let ?b = "dev_bar dev (unat (bar_num c))"
  note run = chr_access_def [of cfg _ cfu flt _ dev _ count _ mem] Let_def g assms mod_eq_0_iff_dvd
  show ?thesis
  proof (cases "ep = 0 \<or> is_hprxm ?b \<and> \<not> (rd \<and> is_prefetchable ?b) \<and> (\<not> 4 dvd ep \<or> \<not> 4 dvd n)")
    case True
    then show ?thesis using False by (auto simp: run)
  next
    case ok: False
    show ?thesis
    proof (cases "if rd then Some [] else cfu (user_addr c) (unat n)")
      case None
      then show ?thesis using False ok by (simp add: run)
    next
      case (Some src)
      then show ?thesis
        using False ok
        by (cases rd; cases "access_xacts cfg ?b ep n (if is_hprxm ?b then unat (ep mod 32) else unat (ep mod 4)) rd") (auto simp: run)
    qed
  qed
qed (use assms in \<open>auto simp: chr_access_def\<close>)

text \<open>\<open>n\<close> bytes at \<open>addr\<close> of a BAR can be accessed through an open handle; \<open>bar_at\<close> is their address.\<close>

definition bar_of :: "fpga \<Rightarrow> u32 \<Rightarrow> bar_info option" where
  "bar_of s bar = Option.bind (files (fp_drv s) (m_dev_handle s)) (\<lambda>chr. if use_cmd chr
     then map_option (\<lambda>dev. dev_bar dev (unat bar)) (dev_tree (fp_drv s) (chr_dev chr)) else None)"

definition bar_at :: "fpga \<Rightarrow> u32 \<Rightarrow> u64 \<Rightarrow> u64" where
  "bar_at s bar addr = base_addr (the (bar_of s bar)) + addr"

definition bar_ready :: "fpga \<Rightarrow> u32 \<Rightarrow> u64 \<Rightarrow> nat \<Rightarrow> bool" where
  "bar_ready s bar addr n \<longleftrightarrow> unat bar < 6 \<and> 0 < n \<and> n \<le> 64 \<and> (\<exists>b. bar_of s bar = Some b \<and> base_addr b \<noteq> 0 \<and>
     base_addr b + addr \<noteq> 0 \<and> unat addr + n \<le> unat (bar_len b) \<and> access_ok b (base_addr b + addr) (of_nat n) False)"

lemma bar_ready_D:
  assumes "bar_ready s bar addr n"
  obtains chr dev where "files (fp_drv s) (m_dev_handle s) = Some chr" "use_cmd chr" "dev_tree (fp_drv s) (chr_dev chr) = Some dev"
    "unat bar < 6" "base_addr (dev_bar dev (unat bar)) \<noteq> 0" "bar_at s bar addr = base_addr (dev_bar dev (unat bar)) + addr"
    "bar_at s bar addr \<noteq> 0" "addr < bar_len (dev_bar dev (unat bar))" "access_ok (dev_bar dev (unat bar)) (bar_at s bar addr) (of_nat n) rd"
    "\<And>count. min (unat count) 64 = n \<Longrightarrow> access_len (dev_bar dev (unat bar)) addr count = of_nat n"
proof -
  from assms obtain chr dev where d: "files (fp_drv s) (m_dev_handle s) = Some chr" "use_cmd chr" "dev_tree (fp_drv s) (chr_dev chr) = Some dev"
    "unat bar < 6" "base_addr (dev_bar dev (unat bar)) \<noteq> 0" "bar_at s bar addr = base_addr (dev_bar dev (unat bar)) + addr"
    "bar_at s bar addr \<noteq> 0" "0 < n" "n \<le> 64" "unat addr + n \<le> unat (bar_len (dev_bar dev (unat bar)))"
    "access_ok (dev_bar dev (unat bar)) (bar_at s bar addr) (of_nat n) False"
    by (auto simp: bar_ready_def bar_of_def bar_at_def bind_eq_Some_conv split: if_splits)
  have lt: "addr < bar_len (dev_bar dev (unat bar))" using d(8,10) by (simp add: word_less_nat_alt)
  have "access_len (dev_bar dev (unat bar)) addr count = of_nat n" if "min (unat count) 64 = n" for count
  proof -
    have "unat (bar_len (dev_bar dev (unat bar)) - addr) = unat (bar_len (dev_bar dev (unat bar))) - unat addr"
      using lt by (simp add: unat_sub less_imp_le)
    then have "unat (access_len (dev_bar dev (unat bar)) addr count) = n"
      using that d(10) by (auto simp: access_len_def MAX_TRANSFER_SIZE_def min_def word_le_nat_alt split: if_splits)
    then show ?thesis using d(9) by (simp add: word_unat_eq_iff unat_of_nat_small)
  qed
  moreover have "access_ok (dev_bar dev (unat bar)) (bar_at s bar addr) (of_nat n) rd" using d(11) by (auto simp: access_ok_def)
  ultimately show thesis using that d lt by blast
qed

lemma bar_of_mem [simp]: "bar_of (s\<lparr>fp_mem := mem\<rparr>) bar = bar_of s bar"
  by (simp add: bar_of_def cong: if_cong)

lemma bar_write:
  assumes "bar_ready s bar addr n" "min (length src) 64 = n" "length src < 2 ^ 64"
  obtains mem where "linux_bar_write cfg src bar addr s = Some (length src \<le> 64, s\<lparr>fp_mem := mem\<rparr>)"
    "\<And>a. mem a = (if unat (a - bar_at s bar addr) < n then src ! unat (a - bar_at s bar addr) else fp_mem s a)"
proof -
  obtain chr dev where d: "files (fp_drv s) (m_dev_handle s) = Some chr" "use_cmd chr" "dev_tree (fp_drv s) (chr_dev chr) = Some dev"
    "unat bar < 6" "base_addr (dev_bar dev (unat bar)) \<noteq> 0" "bar_at s bar addr = base_addr (dev_bar dev (unat bar)) + addr"
    "bar_at s bar addr \<noteq> 0" "addr < bar_len (dev_bar dev (unat bar))" "access_ok (dev_bar dev (unat bar)) (bar_at s bar addr) (of_nat n) False"
    "\<And>count. min (unat count) 64 = n \<Longrightarrow> access_len (dev_bar dev (unat bar)) addr count = of_nat n"
    using bar_ready_D [OF assms(1), of False] by metis
  let ?chr = "chr\<lparr>use_cmd := False, cur_bar_num := bar\<rparr>" and ?count = "of_nat (length src) :: u64" and ?cfu = "\<lambda>_ n. Some (take n src)"
  have un: "unat ?count = length src" using assms(3) by (simp add: unat_of_nat_small)
  have len: "access_len (dev_bar dev (unat bar)) addr ?count = of_nat n" using assms(2) un by (intro d(10)) simp
  have n: "unat (of_nat n :: u64) = n" "0 < n" "n \<le> 64" using assms(1) by (simp_all add: bar_ready_def unat_of_nat_small)
  then have int_n: "uint (of_nat n :: u64) = int n" by (metis uint_nat)
  have "0 < ?count" using assms(2) n(2) un by (cases src) (auto simp: word_less_nat_alt)
  from chr_write_region [of ?chr dev addr ?count ?cfu 0 "take n src" cfg None False "fp_mem s"] this
  obtain mem off where w: "chr_write cfg None ?cfu False ?chr dev 0 ?count (fp_mem s) addr = Ret (Inr (of_nat n, None), mem, off)"
    "\<And>a. mem a = (if unat (a - bar_at s bar addr) < n then take n src ! unat (a - bar_at s bar addr) else fp_mem s a)"
    using d(4-9) n by (auto simp: len Let_def)
  have "linux_bar_write cfg src bar addr s = Some (int n = int (length src), s\<lparr>fp_mem := mem\<rparr>)"
    using w(1) by (simp add: linux_bar_write_def sys_io_def d(1,3) chr_access_cmd [OF d(2)] chr_write_def int_n)
  moreover have "int n = int (length src) \<longleftrightarrow> length src \<le> 64" using assms(2) by auto
  ultimately show thesis using that [of mem] w(2) by simp
qed

lemma bar_read:
  assumes "bar_ready s bar addr n"
  shows "linux_bar_read cfg n bar addr s = Some (True, map (\<lambda>i. fp_mem s (bar_at s bar addr + of_nat i)) [0..<n], s)"
proof -
  obtain chr dev where d: "files (fp_drv s) (m_dev_handle s) = Some chr" "use_cmd chr" "dev_tree (fp_drv s) (chr_dev chr) = Some dev"
    "unat bar < 6" "base_addr (dev_bar dev (unat bar)) \<noteq> 0" "bar_at s bar addr = base_addr (dev_bar dev (unat bar)) + addr"
    "bar_at s bar addr \<noteq> 0" "addr < bar_len (dev_bar dev (unat bar))" "access_ok (dev_bar dev (unat bar)) (bar_at s bar addr) (of_nat n) True"
    "\<And>count. min (unat count) 64 = n \<Longrightarrow> access_len (dev_bar dev (unat bar)) addr count = of_nat n"
    using bar_ready_D [OF assms(1), of True] by metis
  let ?chr = "chr\<lparr>use_cmd := False, cur_bar_num := bar\<rparr>"
  have n: "unat (of_nat n :: u64) = n" "0 < n" "n \<le> 64" using assms(1) by (simp_all add: bar_ready_def unat_of_nat_small)
  then have int_n: "uint (of_nat n :: u64) = int n" by (metis uint_nat)
  have len: "access_len (dev_bar dev (unat bar)) addr (of_nat n) = of_nat n" using n by (intro d(10)) simp
  have "0 < (of_nat n :: u64)" using n by (simp add: word_less_nat_alt)
  from chr_read_region [of ?chr dev addr "of_nat n" cfg None "\<lambda>_ n. Some (take n [])" 0 "fp_mem s"] this
  obtain off where r: "chr_read cfg None (\<lambda>_ n. Some (take n [])) False ?chr dev 0 (of_nat n) (fp_mem s) addr =
      Ret (Inr (of_nat n, Some (0, map (\<lambda>i. fp_mem s (bar_at s bar addr + of_nat i)) [0..<n])), fp_mem s, off)"
    using d(4-9) n by (auto simp: len Let_def)
  then show ?thesis
    by (simp add: linux_bar_read_def sys_io_def d(1,3) chr_access_cmd [OF d(2)] chr_read_def int_n)
qed

lemma bar_roundtrip:
  assumes "bar_ready s bar addr (length src)"
  obtains mem where "linux_bar_write cfg src bar addr s = Some (True, s\<lparr>fp_mem := mem\<rparr>)"
    "linux_bar_read cfg (length src) bar addr (s\<lparr>fp_mem := mem\<rparr>) = Some (True, src, s\<lparr>fp_mem := mem\<rparr>)"
    "\<forall>a. length src \<le> unat (a - bar_at s bar addr) \<longrightarrow> mem a = fp_mem s a"
proof -
  have n: "length src \<le> 64" using assms by (simp add: bar_ready_def)
  obtain mem where w: "linux_bar_write cfg src bar addr s = Some (True, s\<lparr>fp_mem := mem\<rparr>)"
    "\<And>a. mem a = (if unat (a - bar_at s bar addr) < length src then src ! unat (a - bar_at s bar addr) else fp_mem s a)"
    by (rule bar_write [OF assms, of src cfg]) (use n in auto)
  let ?s = "s\<lparr>fp_mem := mem\<rparr>"
  have same: "bar_ready ?s bar addr (length src)" "bar_at ?s bar addr = bar_at s bar addr"
    using assms by (simp_all add: bar_ready_def bar_at_def)
  have "map (\<lambda>i. mem (bar_at s bar addr + of_nat i)) [0..<length src] = src"
    by (rule nth_equalityI) (use n in \<open>simp_all add: w(2) unat_of_nat_small\<close>)
  then have "linux_bar_read cfg (length src) bar addr ?s = Some (True, src, ?s)" using bar_read [OF same(1), of cfg] same(2) by simp
  with w show thesis by (intro that) auto
qed
text \<open>Two states differ in the \<open>n\<close> bytes of the device at \<open>a\<close> only.\<close>

definition same_but :: "u64 \<Rightarrow> nat \<Rightarrow> fpga \<Rightarrow> fpga \<Rightarrow> bool" where
  "same_but a n s s' \<longleftrightarrow> s' = s\<lparr>fp_mem := fp_mem s'\<rparr> \<and> (\<forall>x. n \<le> unat (x - a) \<longrightarrow> fp_mem s' x = fp_mem s x)"

lemma register_bytes:
  fixes v :: "'a::len word"
  assumes "bar_ready s bar addr (LENGTH('a) div 8)" "8 dvd LENGTH('a)"
  shows "\<exists>s'. linux_bar_write cfg (le_bytes v) bar addr s = Some (True, s') \<and>
    map_option stored (linux_bar_read cfg (LENGTH('a) div 8) bar addr s') = Some (True, Some v, s') \<and>
    same_but (bar_at s bar addr) (LENGTH('a) div 8) s s'"
proof -
  have len: "length (le_bytes v) = LENGTH('a) div 8" by simp
  obtain mem where "linux_bar_write cfg (le_bytes v) bar addr s = Some (True, s\<lparr>fp_mem := mem\<rparr>)"
    "linux_bar_read cfg (length (le_bytes v)) bar addr (s\<lparr>fp_mem := mem\<rparr>) = Some (True, le_bytes v, s\<lparr>fp_mem := mem\<rparr>)"
    "\<forall>a. length (le_bytes v) \<le> unat (a - bar_at s bar addr) \<longrightarrow> mem a = fp_mem s a"
    by (rule bar_roundtrip [of s bar addr "le_bytes v" cfg]) (use assms(1) in simp)
  then show ?thesis
    using assms(2) by (intro exI [of _ "s\<lparr>fp_mem := mem\<rparr>"]) (simp add: stored_def le_word_le_bytes same_but_def)
qed


definition fpga_bar :: fpga where
  "fpga_bar = \<lparr>m_dev_handle = 1, m_bdf = 0, m_bar = 0, m_kmem_size = 0,
     fp_drv = \<lparr>dev_tree = [0 \<mapsto> dev_zero\<lparr>dev_bar := (\<lambda>_. bar_example True)\<rparr>], files = [1 \<mapsto> chr_zero\<lparr>use_cmd := True\<rparr>], live = 3\<rparr>,
     fp_mem = (\<lambda>_. 0), fp_pos = 0, fp_env = (\<lambda>_. env_ok), fp_time = 0\<rparr>"

definition io_plain :: io_cfg where
  "io_plain = \<lparr>has_avx = False, has_sse2 = False, config_64bit = True\<rparr>"

lemma fpga_bar_ready: "bar_ready fpga_bar 2 0x10 4" "bar_ready fpga_bar 2 0x10 64" "bar_at fpga_bar 2 0x10 = 0x1010"
  by (simp_all add: bar_ready_def bar_of_def bar_at_def fpga_bar_def bar_example_def access_ok_def chr_zero_def)




end
