(* ===== verification/Enso_Control.thy ===== *)
theory Enso_Control
  imports Enso_Runs
begin

text \<open>
  The control path of the pipe API, \<^verbatim>\<open>software/src/enso/pipe.cpp\<close>: binding a pipe to a flow and the
  methods of \<^verbatim>\<open>Device\<close> that configure the NIC, each a configuration message of
  \<^verbatim>\<open>software/src/enso/config.cpp\<close> sent through the notification buffer of the device.
\<close>

definition with_nb :: "Device \<Rightarrow> (int \<times> NotificationBufPair) option \<Rightarrow> (int \<times> Device) option" where
  "with_nb d res = map_option (\<lambda>(ret, nb). (ret, d\<lparr>dev_nb := nb\<rparr>)) res"

definition RxPipe_Bind :: "(nat \<Rightarrow> u64) \<Rightarrow> nic \<Rightarrow> nat \<Rightarrow> u16 \<Rightarrow> u16 \<Rightarrow> u32 \<Rightarrow> u32 \<Rightarrow> u32 \<Rightarrow> Device \<Rightarrow> (int \<times> Device) option" where
  "RxPipe_Bind junk nic r dst_port src_port dst_ip src_ip protocol d =
     with_nb d (insert_flow_entry junk nic (dev_nb d) dst_port src_port dst_ip src_ip protocol (ucast (rp_id (rx_pipes d ! r))))"

definition RxTxPipe_Bind :: "(nat \<Rightarrow> u64) \<Rightarrow> nic \<Rightarrow> nat \<Rightarrow> u16 \<Rightarrow> u16 \<Rightarrow> u32 \<Rightarrow> u32 \<Rightarrow> u32 \<Rightarrow> Device \<Rightarrow> (int \<times> Device) option" where
  "RxTxPipe_Bind junk nic j dst_port src_port dst_ip src_ip protocol d =
     RxPipe_Bind junk nic (rt_rx_pipe (rx_tx_pipes d ! j)) dst_port src_port dst_ip src_ip protocol d"

definition ApplyConfig :: "nic \<Rightarrow> TxNotification \<Rightarrow> Device \<Rightarrow> (int \<times> Device) option" where
  "ApplyConfig nic config_notification d = with_nb d (send_config nic (dev_nb d) config_notification)"

definition EnableTimeStamping :: "(nat \<Rightarrow> u64) \<Rightarrow> nic \<Rightarrow> u8 \<Rightarrow> Device \<Rightarrow> (int \<times> Device) option" where
  "EnableTimeStamping junk nic offset d = with_nb d (enable_timestamp junk nic (dev_nb d) offset)"

definition DisableTimeStamping :: "(nat \<Rightarrow> u64) \<Rightarrow> nic \<Rightarrow> Device \<Rightarrow> (int \<times> Device) option" where
  "DisableTimeStamping junk nic d = with_nb d (disable_timestamp junk nic (dev_nb d))"

definition EnableRateLimiting :: "(nat \<Rightarrow> u64) \<Rightarrow> nic \<Rightarrow> u16 \<Rightarrow> u16 \<Rightarrow> Device \<Rightarrow> (int \<times> Device) option" where
  "EnableRateLimiting junk nic num den d = with_nb d (enable_rate_limit junk nic (dev_nb d) num den)"

definition DisableRateLimiting :: "(nat \<Rightarrow> u64) \<Rightarrow> nic \<Rightarrow> Device \<Rightarrow> (int \<times> Device) option" where
  "DisableRateLimiting junk nic d = with_nb d (disable_rate_limit junk nic (dev_nb d))"

definition EnableRoundRobin :: "'b backend \<Rightarrow> (nat \<Rightarrow> u64) \<Rightarrow> nic \<Rightarrow> Device \<Rightarrow> 'b \<Rightarrow> (int \<times> Device \<times> 'b) option" where
  "EnableRoundRobin be junk nic d b =
     map_option (\<lambda>(ret, nb, b'). (ret, d\<lparr>dev_nb := nb\<rparr>, b')) (enable_round_robin be junk nic (dev_nb d) b)"

definition DisableRoundRobin :: "'b backend \<Rightarrow> (nat \<Rightarrow> u64) \<Rightarrow> nic \<Rightarrow> Device \<Rightarrow> 'b \<Rightarrow> (int \<times> Device \<times> 'b) option" where
  "DisableRoundRobin be junk nic d b =
     map_option (\<lambda>(ret, nb, b'). (ret, d\<lparr>dev_nb := nb\<rparr>, b')) (disable_round_robin be junk nic (dev_nb d) b)"

definition GetRoundRobinStatus :: "'b backend \<Rightarrow> 'b \<Rightarrow> (int \<times> 'b) option" where
  "GetRoundRobinStatus be b = get_round_robin_status be b"

definition GetNbFallbackQueues :: "'b backend \<Rightarrow> 'b \<Rightarrow> (int \<times> 'b) option" where
  "GetNbFallbackQueues be b = pcie_get_nb_fallback_queues be b"

section \<open>Control calls on an idle device\<close>

text \<open>A call that sends one configuration message, or none, and gives its result.\<close>

definition quiet :: "Device \<Rightarrow> int \<Rightarrow> (int \<times> Device) option \<Rightarrow> bool" where
  "quiet d ret res \<longleftrightarrow> (\<exists>d'. res = Some (ret, d') \<and> dev_ok d' \<and> requests d' = [] \<and>
     rx_pipes d' = rx_pipes d \<and> tx_pipes d' = tx_pipes d \<and> rx_tx_pipes d' = rx_tx_pipes d)"

lemma quiet_nb: "dev_ok d \<Longrightarrow> requests d = [] \<Longrightarrow> nb_idle nb \<Longrightarrow> quiet d ret (Some (ret, d\<lparr>dev_nb := nb\<rparr>))"
  using dev_ok_nb by (simp add: quiet_def requests_def)

lemma send_config_quiet:
  assumes "nic_fair nic" "dev_ok d" "requests d = []" "2 \<le> tx_signal cfg"
  shows "quiet d 0 (with_nb d (send_config nic (dev_nb d) cfg))"
proof -
  note e = nb_idle_empty [OF dev_ok_idle [OF assms(2,3)]]
  from send_config_empty [OF assms(1) e(1,2) assms(4)] obtain nb where
    nb: "send_config nic (dev_nb d) cfg = Some (0, nb)" and idle: "nb_idle nb" using e(3) nb_idle_I by auto
  show ?thesis using quiet_nb [OF assms(2,3) idle] by (simp add: nb with_nb_def)
qed

lemma configure_quiet:
  assumes "nic_fair nic" "dev_ok d" "requests d = []"
  shows "quiet d 0 (with_nb d (send_config nic (dev_nb d) (pack junk c)))"
  using send_config_quiet [OF assms, of "pack junk c"] by (simp add: unpack_pack)

lemmas control_defs = RxPipe_Bind_def RxTxPipe_Bind_def EnableTimeStamping_def DisableTimeStamping_def EnableRateLimiting_def
  DisableRateLimiting_def insert_flow_entry_def enable_timestamp_def disable_timestamp_def enable_rate_limit_def disable_rate_limit_def

text \<open>
  The control calls of the API. On a device with no transmission pending and with a fair NIC, binding
  a pipe, time stamping and rate limiting return 0 once the NIC has taken the message, and a time stamp
  offset that does not fit into the first 64 bytes is refused with -1 without sending anything; in every
  case the pipes are untouched, nothing becomes pending and the accounting of the device stays intact.
\<close>

theorem control_calls_quiet:
  assumes "nic_fair nic" "dev_ok d" "requests d = []"
  shows "quiet d 0 (RxPipe_Bind junk nic r dst_port src_port dst_ip src_ip protocol d) \<and>
    quiet d 0 (RxTxPipe_Bind junk nic j dst_port src_port dst_ip src_ip protocol d) \<and>
    quiet d (if 60 < offset then - 1 else 0) (EnableTimeStamping junk nic offset d) \<and>
    quiet d 0 (DisableTimeStamping junk nic d) \<and>
    quiet d 0 (EnableRateLimiting junk nic num den d) \<and> quiet d 0 (DisableRateLimiting junk nic d)"
proof -
  have "quiet d (- 1) (with_nb d (Some (- 1, dev_nb d)))"
    using quiet_nb [OF assms(2,3) dev_ok_idle [OF assms(2,3)], of "- 1"] by (simp add: with_nb_def)
  then show ?thesis using configure_quiet [OF assms] by (simp add: control_defs del: pack.simps)
qed

theorem control_calls_quiet_witness:
  "\<exists>a d'. app_reachable be_counter nic_eager a \<and> RxPipe_Bind (\<lambda>_. 0) nic_eager 0 80 0 1 0 17 (ap_dev a) = Some (0, d') \<and> dev_ok d'"
proof -
  obtain a b where a: "app_reachable be_counter nic_eager a" "requests (ap_dev a) = []" "tx_pipes (ap_dev a) = []"
    "rx_tx_pipes (ap_dev a) = []" "h_dev (ap_host a) = Some b" by (rule example_created)
  from control_calls_quiet [OF nic_fair_eager reachable_ok [OF a(1) nic_fair_eager] a(2)] a(1) show ?thesis
    unfolding quiet_def by blast
qed

end
