(* ===== verification/Mem_Copy.thy ===== *)
theory Mem_Copy
  imports Enso_Prelude
begin

text \<open>
  Copying in units of 64 bytes, \<^verbatim>\<open>software/include/enso/helpers.h\<close>. Memory is a function from
  addresses. \<^verbatim>\<open>mov64\<close> loads all of its 64 bytes before it stores any, in every vector width the
  source selects; where it falls back to \<^verbatim>\<open>memcpy\<close> the two regions must not overlap anyway. The
  assertion on the alignment of the destination is compiled out.
\<close>

type_synonym memory = "u64 \<Rightarrow> u8"

definition mov64 :: "u64 \<Rightarrow> u64 \<Rightarrow> memory \<Rightarrow> memory" where
  "mov64 dst src mem = (\<lambda>a. if a - dst < 64 then mem (src + (a - dst)) else mem a)"

function memcpy_64_align :: "u64 \<Rightarrow> u64 \<Rightarrow> u64 \<Rightarrow> memory \<Rightarrow> memory" where
  "memcpy_64_align dst src n mem =
     (if n \<ge> 64 then memcpy_64_align (dst + 64) (src + 64) (n - 64) (mov64 dst src mem) else mem)"
  by pat_completeness auto
termination
  by (relation "measure (\<lambda>(_, _, n, _). unat n)") (auto simp: unat_sub word_le_nat_alt)

declare memcpy_64_align.simps [simp del]

section \<open>Reference\<close>

definition memcpy :: "u64 \<Rightarrow> u64 \<Rightarrow> nat \<Rightarrow> memory \<Rightarrow> memory" where
  "memcpy dst src n mem = (\<lambda>a. if unat (a - dst) < n then mem (src + (a - dst)) else mem a)"

definition disjoint :: "u64 \<Rightarrow> u64 \<Rightarrow> nat \<Rightarrow> bool" where
  "disjoint dst src n \<longleftrightarrow> n \<le> unat (src - dst) \<and> n \<le> unat (dst - src)"

lemma unat_diff_swap:
  fixes x y :: u64
  assumes "x \<noteq> y"
  shows "unat (y - x) = 2 ^ 64 - unat (x - y)"
proof -
  have lt: "unat (x - y) < 2 ^ 64" using unsigned_less [of "x - y", where ?'a = nat] by simp
  have "(of_nat (2 ^ 64 - unat (x - y)) :: u64) = y - x" using lt by (simp add: of_nat_diff)
  moreover have "0 < unat (x - y)" using assms by (simp add: unat_gt_0)
  ultimately show ?thesis using unat_of_nat_small [of "2 ^ 64 - unat (x - y)", where ?'a = 64] by simp
qed

lemma disjoint_outside:
  assumes "disjoint dst src n" "unat x < n"
  shows "n \<le> unat (src + x - dst)"
proof -
  let ?s = "src - dst"
  have pos: "0 < n" using assms(2) by simp
  then have "src \<noteq> dst" using assms(1) by (auto simp: disjoint_def)
  then have "unat (dst - src) = 2 ^ 64 - unat ?s" by (rule unat_diff_swap)
  then have "unat ?s + unat x < 2 ^ 64" using assms unsigned_less [of ?s, where ?'a = nat] unfolding disjoint_def by simp linarith
  then have "unat (?s + x) = unat ?s + unat x" by (intro unat_plus_small) simp
  moreover have "src + x - dst = ?s + x" by simp
  ultimately have "unat (src + x - dst) = unat ?s + unat x" by (simp only:)
  then show ?thesis using assms(1) by (simp add: disjoint_def)
qed

lemma disjoint_mono: "disjoint dst src n \<Longrightarrow> m \<le> n \<Longrightarrow> disjoint (dst + k) (src + k) m"
  by (simp add: disjoint_def)

lemma memcpy_step:
  assumes "disjoint dst src (64 + m)" "64 + m < 2 ^ 64"
  shows "memcpy (dst + 64) (src + 64) m (mov64 dst src mem) = memcpy dst src (64 + m) mem"
proof
  fix a
  define x where "x = a - dst"
  have eq: "a - (dst + 64) = x - 64" "src + 64 + (x - 64) = src + x" "a = dst + x" by (simp_all add: x_def)
  show "memcpy (dst + 64) (src + 64) m (mov64 dst src mem) a = memcpy dst src (64 + m) mem a"
  proof (cases "unat x < 64")
    case True
    have "unat (x - 64) + (64 - unat x) = 2 ^ 64"
    proof -
      have "unat (64 - x) = 64 - unat x" using True by (subst unat_sub) (simp_all add: word_le_nat_alt)
      moreover have "unat (x - 64) = 2 ^ 64 - unat (64 - x)" using True by (intro unat_diff_swap) auto
      ultimately show ?thesis by simp
    qed
    then have "\<not> unat (x - 64) < m" using assms(2) by simp
    then show ?thesis using True by (simp add: memcpy_def mov64_def eq word_less_nat_alt flip: x_def)
  next
    case False
    then have sub: "unat (x - 64) = unat x - 64" by (subst unat_sub) (simp_all add: word_le_nat_alt)
    have "\<not> unat (src + x - dst) < 64" if "unat x < 64 + m" using disjoint_outside [OF assms(1) that] by simp
    then show ?thesis using False sub by (auto simp: memcpy_def mov64_def eq word_less_nat_alt simp flip: x_def)
  qed
qed

text \<open>
  C40: Copying in units of 64 bytes agrees with an ordinary copy. For regions that do not overlap,
  \<^verbatim>\<open>memcpy_64_align\<close> ends and does what \<^verbatim>\<open>memcpy\<close> does for the length rounded down to a multiple
  of 64: for a multiple of 64 it is \<^verbatim>\<open>memcpy\<close>, otherwise the last bytes are left out.
\<close>

theorem memcpy_64_align_exact:
  assumes "disjoint dst src (unat n)"
  shows "memcpy_64_align dst src n mem = memcpy dst src (64 * (unat n div 64)) mem"
  using assms
proof (induction dst src n mem rule: memcpy_64_align.induct)
  case (1 dst src n mem)
  show ?case
  proof (cases "64 \<le> n")
    case False
    then have "unat n div 64 = 0" by (simp add: word_le_nat_alt)
    with False show ?thesis by (simp add: memcpy_64_align.simps [of dst] memcpy_def)
  next
    case True
    then have n: "unat (n - 64) = unat n - 64" "64 \<le> unat n" by (simp_all add: unat_sub word_le_nat_alt)
    let ?m = "64 * ((unat n - 64) div 64)"
    have whole: "64 * (unat n div 64) = 64 + ?m" using n(2) by (simp add: div_le_dividend le_div_geq)
    have small: "64 + ?m \<le> unat n" using n(2) div_times_less_eq_dividend [of "unat n - 64" 64] by linarith
    have "memcpy_64_align dst src n mem = memcpy (dst + 64) (src + 64) ?m (mov64 dst src mem)"
      using 1 True n disjoint_mono [OF 1(2), of "unat n - 64" 64] by (simp add: memcpy_64_align.simps [of dst])
    also have "\<dots> = memcpy dst src (64 + ?m) mem"
    proof (rule memcpy_step)
      show "disjoint dst src (64 + ?m)" using disjoint_mono [OF 1(2) small, of 0] by simp
      show "64 + ?m < 2 ^ 64" using small unsigned_less [of n, where ?'a = nat] by simp
    qed
    finally show ?thesis unfolding whole .
  qed
qed

theorem memcpy_64_align_exact_witness:
  "memcpy_64_align 0 4100 128 (\<lambda>a. ucast a) 65 = (69 :: u8)"
  using memcpy_64_align_exact [of 0 4100 128 "\<lambda>a. ucast a"] by (simp add: disjoint_def memcpy_def)

end
