(* ===== verification/Enso_Sockets.thy ===== *)
theory Enso_Sockets
  imports Enso_Runs Mem_Copy
begin

text \<open>
  The socket-like API, \<^verbatim>\<open>software/src/enso/socket.cpp\<close>: the table of open sockets, one notification
  buffer pair per core, and the calls that open, use and shut down sockets. A call runs on the core
  \<open>he_cpu\<close> of the host. An index outside one of the two static arrays and the use of an entry of the
  table that was never filled (a null pointer) are the value \<open>None\<close>, as is a call that never returns.
\<close>

section \<open>State\<close>

definition MAX_NB_CORES :: int where "MAX_NB_CORES = 128"
definition MAX_NB_SOCKETS :: u32 where "MAX_NB_SOCKETS = kMaxNbFlows"

text \<open>The pointer to a notification buffer pair is the core it belongs to, \<open>None\<close> the null pointer.\<close>

record SocketInternal =
  si_nb :: "nat option"
  si_pipe :: RxEnsoPipeInternal

record 'b sockets =
  sk_nbs :: "NotifBuf arr"
  sk_devs :: "nat \<Rightarrow> 'b option"
  sk_os :: os
  open_sockets :: "SocketInternal arr"
  nb_open_sockets :: u32
  sk_bdf :: u16

definition sk_host :: "nat \<Rightarrow> 'b sockets \<Rightarrow> 'b host" where
  "sk_host c s = \<lparr>h_dev = sk_devs s c, h_os = sk_os s\<rparr>"

definition sk_put :: "nat \<Rightarrow> NotifBuf \<Rightarrow> 'b host \<Rightarrow> 'b sockets \<Rightarrow> 'b sockets" where
  "sk_put c nb h s = s\<lparr>sk_nbs := (sk_nbs s)(c := nb), sk_devs := (sk_devs s)(c := h_dev h), sk_os := h_os h\<rparr>"

definition sk_pair :: "nat \<Rightarrow> 'b sockets \<Rightarrow> NotificationBufPair" where
  "sk_pair c s = nb_pair (sk_nbs s c)"

definition sk_set_pair :: "nat \<Rightarrow> NotificationBufPair \<Rightarrow> 'b sockets \<Rightarrow> 'b sockets" where
  "sk_set_pair c p s = s\<lparr>sk_nbs := (sk_nbs s)(c := (sk_nbs s c)\<lparr>nb_pair := p\<rparr>)\<rparr>"

definition sk_set_pipe :: "nat \<Rightarrow> RxEnsoPipeInternal \<Rightarrow> 'b sockets \<Rightarrow> 'b sockets" where
  "sk_set_pipe i ep s = s\<lparr>open_sockets := (open_sockets s)(i := (open_sockets s i)\<lparr>si_pipe := ep\<rparr>)\<rparr>"

text \<open>\<^verbatim>\<open>&open_sockets[sockfd]\<close> and its notification buffer pair.\<close>

definition sock_index :: "int \<Rightarrow> nat option" where
  "sock_index sockfd = (if 0 \<le> sockfd \<and> sockfd < uint MAX_NB_SOCKETS then Some (nat sockfd) else None)"

definition sock_nb :: "int \<Rightarrow> 'b sockets \<Rightarrow> (nat \<times> nat) option" where
  "sock_nb sockfd s = Option.bind (sock_index sockfd) (\<lambda>i. map_option (Pair i) (si_nb (open_sockets s i)))"

section \<open>Opening and shutting down\<close>

definition set_bdf :: "u16 \<Rightarrow> 'b sockets \<Rightarrow> 'b sockets" where
  "set_bdf bdf s = s\<lparr>sk_bdf := bdf\<rparr>"

text \<open>\<open>junk_ep\<close> is the uninitialised pipe of the local \<^verbatim>\<open>socket_entry\<close>.\<close>

definition socket :: "'b backend \<Rightarrow> (u16 \<Rightarrow> 'b option) \<Rightarrow> host_env \<Rightarrow> nic \<Rightarrow> RxEnsoPipeInternal \<Rightarrow> bool \<Rightarrow> 'b sockets \<Rightarrow>
    (int \<times> 'b sockets) option" where
  "socket be create env nic junk_ep fallback s =
     (if nb_open_sockets s \<ge> MAX_NB_SOCKETS then Some (-1, s)
      else if he_cpu env \<ge> MAX_NB_CORES then None
      else
        let c = nat (he_cpu env) in
        Option.bind (dma_init be (create (sk_bdf s)) env nic ''/mnt/huge/enso'' fallback junk_ep (sk_nbs s c) (sk_host c s))
          (\<lambda>(socket_id, ep, nb, h).
            let s1 = (if he_cpu env < 0 then s else sk_put c nb h s) in
            if socket_id < 0 then Some (-1, s1)
            else Option.bind (sock_index socket_id) (\<lambda>i.
              Some (socket_id, s1\<lparr>open_sockets := (open_sockets s1)(i := \<lparr>si_nb = Some c, si_pipe = ep\<rparr>),
                nb_open_sockets := nb_open_sockets s1 + 1\<rparr>))))"

definition shutdown :: "'b backend \<Rightarrow> host_env \<Rightarrow> nic \<Rightarrow> int \<Rightarrow> 'b sockets \<Rightarrow> (int \<times> 'b sockets) option" where
  "shutdown be env nic sockfd s =
     Option.bind (sock_nb sockfd s) (\<lambda>(i, c).
       map_option (\<lambda>(_, ep, nb, h).
         let s1 = sk_set_pipe i ep (sk_put c nb h s) in (0, s1\<lparr>nb_open_sockets := nb_open_sockets s1 - 1\<rparr>))
       (dma_finish be env nic (si_pipe (open_sockets s i)) (sk_nbs s c) (sk_host c s)))"

section \<open>Addresses and flows\<close>

definition get_socket_phys_addr :: "int \<Rightarrow> 'b sockets \<Rightarrow> u64 option" where
  "get_socket_phys_addr sockfd s = map_option (\<lambda>i. ep_buf_phys_addr (si_pipe (open_sockets s i))) (sock_index sockfd)"

definition get_socket_virt_addr :: "int \<Rightarrow> 'b sockets \<Rightarrow> u64 option" where
  "get_socket_virt_addr sockfd s = map_option (\<lambda>i. ep_buf (si_pipe (open_sockets s i))) (sock_index sockfd)"

definition convert_buf_addr_to_phys :: "int \<Rightarrow> u64 \<Rightarrow> 'b sockets \<Rightarrow> u64 option" where
  "convert_buf_addr_to_phys sockfd addr s =
     map_option (\<lambda>i. addr + ep_phys_buf_offset (si_pipe (open_sockets s i))) (sock_index sockfd)"

definition ntohs :: "u16 \<Rightarrow> u16" where
  "ntohs x = push_bit 8 x OR drop_bit 8 x"

definition ntohl :: "u32 \<Rightarrow> u32" where
  "ntohl x = push_bit 24 x OR (push_bit 8 x AND 0xff0000) OR (drop_bit 8 x AND 0xff00) OR drop_bit 24 x"

record sockaddr_in =
  sin_port :: u16
  sin_addr :: u32

definition sock_bind :: "(nat \<Rightarrow> u64) \<Rightarrow> nic \<Rightarrow> int \<Rightarrow> sockaddr_in \<Rightarrow> 'b sockets \<Rightarrow> (int \<times> 'b sockets) option" where
  "sock_bind junk nic sockfd addr s =
     Option.bind (sock_nb sockfd s) (\<lambda>(i, c).
       map_option (\<lambda>(_, p). (0, sk_set_pair c p s))
         (insert_flow_entry junk nic (sk_pair c s) (ntohs (sin_port addr)) 0 (ntohl (sin_addr addr)) 0 0x11
           (get_enso_pipe_id_from_socket (si_pipe (open_sockets s i)))))"

section \<open>Receiving and sending\<close>

text \<open>\<open>len\<close> is the size of the user's buffer, which the code does not look at.\<close>

definition recv :: "int \<Rightarrow> u64 \<Rightarrow> u64 \<Rightarrow> memory \<times> 'b sockets \<Rightarrow> (int \<times> memory \<times> 'b sockets) option" where
  "recv sockfd buf len = (\<lambda>(mem, s).
     Option.bind (sock_nb sockfd s) (\<lambda>(i, c).
     Option.bind (get_new_tails (sk_pair c s)) (\<lambda>(_, p).
       let s1 = sk_set_pair c p s;
           (bytes_received, ring_buf, ep) = get_next_batch_from_queue (si_pipe (open_sockets s i)) p in
       if uint bytes_received \<le> 0 then Some (uint bytes_received, mem, sk_set_pipe i ep s1)
       else Some (uint bytes_received, memcpy buf ring_buf (unat bytes_received) mem,
              sk_set_pipe i (advance_pipe ep (ucast bytes_received)) s1))))"

definition recv_zc :: "int \<Rightarrow> u64 \<Rightarrow> 'b sockets \<Rightarrow> (int \<times> u64 \<times> 'b sockets) option" where
  "recv_zc sockfd len s =
     Option.bind (sock_nb sockfd s) (\<lambda>(i, c).
     Option.bind (get_new_tails (sk_pair c s)) (\<lambda>(_, p).
       let (bytes_received, buf, ep) = get_next_batch_from_queue (si_pipe (open_sockets s i)) p in
       Some (uint bytes_received, buf, sk_set_pipe i ep (sk_set_pair c p s))))"

text \<open>The result carries the socket and the buffer when there was something to receive.\<close>

definition recv_select :: "int \<Rightarrow> u64 \<Rightarrow> 'b sockets \<Rightarrow> (int \<times> (int \<times> u64) option \<times> 'b sockets) option" where
  "recv_select ref_sockfd len s =
     Option.bind (sock_nb ref_sockfd s) (\<lambda>(_, c).
       map_option (\<lambda>(n, found, p, socks).
           (uint n, found, (sk_set_pair c p s)\<lparr>open_sockets := (\<lambda>i. (open_sockets s i)\<lparr>si_pipe := socks i\<rparr>)\<rparr>))
         (get_next_batch (sk_pair c s) (\<lambda>i. si_pipe (open_sockets s i))))"

text \<open>\<^verbatim>\<open>size_t len\<close> is converted to the 32-bit parameter of \<^verbatim>\<open>send_to_queue\<close>.\<close>

definition send :: "nic \<Rightarrow> int \<Rightarrow> u64 \<Rightarrow> u64 \<Rightarrow> 'b sockets \<Rightarrow> (int \<times> 'b sockets) option" where
  "send nic sockfd phys_addr len s =
     Option.bind (sock_nb sockfd s) (\<lambda>(_, c).
       map_option (\<lambda>(n, p). (uint n, sk_set_pair c p s)) (send_to_queue nic (sk_pair c s) phys_addr (ucast len)))"

definition get_completions :: "nic \<Rightarrow> int \<Rightarrow> 'b sockets \<Rightarrow> (u32 \<times> 'b sockets) option" where
  "get_completions nic ref_sockfd s =
     map_option (\<lambda>(_, c). let (n, p) = get_unreported_completions nic (sk_pair c s) in (n, sk_set_pair c p s))
       (sock_nb ref_sockfd s)"

definition free_enso_pipe :: "int \<Rightarrow> u64 \<Rightarrow> 'b sockets \<Rightarrow> 'b sockets option" where
  "free_enso_pipe sockfd len s =
     map_option (\<lambda>i. sk_set_pipe i (advance_pipe (si_pipe (open_sockets s i)) len) s) (sock_index sockfd)"

section \<open>Device configuration\<close>

definition device_config :: "int \<Rightarrow> (NotificationBufPair \<Rightarrow> (int \<times> NotificationBufPair) option) \<Rightarrow> 'b sockets \<Rightarrow>
    (int \<times> 'b sockets) option" where
  "device_config ref_sockfd f s =
     (if nb_open_sockets s = 0 then Some (-2, s)
      else Option.bind (sock_nb ref_sockfd s) (\<lambda>(_, c). map_option (\<lambda>(ret, p). (ret, sk_set_pair c p s)) (f (sk_pair c s))))"

definition enable_device_timestamp :: "(nat \<Rightarrow> u64) \<Rightarrow> nic \<Rightarrow> int \<Rightarrow> u8 \<Rightarrow> 'b sockets \<Rightarrow> (int \<times> 'b sockets) option" where
  "enable_device_timestamp junk nic ref_sockfd offset = device_config ref_sockfd (\<lambda>p. enable_timestamp junk nic p offset)"

definition disable_device_timestamp :: "(nat \<Rightarrow> u64) \<Rightarrow> nic \<Rightarrow> int \<Rightarrow> 'b sockets \<Rightarrow> (int \<times> 'b sockets) option" where
  "disable_device_timestamp junk nic ref_sockfd = device_config ref_sockfd (disable_timestamp junk nic)"

definition enable_device_rate_limit :: "(nat \<Rightarrow> u64) \<Rightarrow> nic \<Rightarrow> int \<Rightarrow> u16 \<Rightarrow> u16 \<Rightarrow> 'b sockets \<Rightarrow> (int \<times> 'b sockets) option" where
  "enable_device_rate_limit junk nic ref_sockfd num den = device_config ref_sockfd (\<lambda>p. enable_rate_limit junk nic p num den)"

definition disable_device_rate_limit :: "(nat \<Rightarrow> u64) \<Rightarrow> nic \<Rightarrow> int \<Rightarrow> 'b sockets \<Rightarrow> (int \<times> 'b sockets) option" where
  "disable_device_rate_limit junk nic ref_sockfd = device_config ref_sockfd (disable_rate_limit junk nic)"

text \<open>Round robin needs the backend of the notification buffer as well.\<close>

definition device_round_robin :: "int \<Rightarrow> (NotificationBufPair \<Rightarrow> 'b \<Rightarrow> (int \<times> NotificationBufPair \<times> 'b) option) \<Rightarrow>
    'b sockets \<Rightarrow> (int \<times> 'b sockets) option" where
  "device_round_robin ref_sockfd f s =
     (if nb_open_sockets s = 0 then Some (-2, s)
      else Option.bind (sock_nb ref_sockfd s) (\<lambda>(_, c). Option.bind (sk_devs s c) (\<lambda>b.
        map_option (\<lambda>(ret, p, b'). (ret, (sk_set_pair c p s)\<lparr>sk_devs := (sk_devs s)(c \<mapsto> b')\<rparr>)) (f (sk_pair c s) b))))"

definition enable_device_round_robin :: "'b backend \<Rightarrow> (nat \<Rightarrow> u64) \<Rightarrow> nic \<Rightarrow> int \<Rightarrow> 'b sockets \<Rightarrow> (int \<times> 'b sockets) option" where
  "enable_device_round_robin be junk nic ref_sockfd = device_round_robin ref_sockfd (enable_round_robin be junk nic)"

definition disable_device_round_robin :: "'b backend \<Rightarrow> (nat \<Rightarrow> u64) \<Rightarrow> nic \<Rightarrow> int \<Rightarrow> 'b sockets \<Rightarrow> (int \<times> 'b sockets) option" where
  "disable_device_round_robin be junk nic ref_sockfd = device_round_robin ref_sockfd (disable_round_robin be junk nic)"


section \<open>What opening and shutting down keep\<close>

text \<open>The members of a notification buffer pair that no message to the NIC changes.\<close>

definition nb_ident :: "NotificationBufPair \<Rightarrow> u32 \<times> u32" where
  "nb_ident nb = (nb_id nb, ref_cnt nb)"

lemma nb_ident_simps [simp]:
  "nb_ident (nb\<lparr>nb_tx_buf := b\<rparr>) = nb_ident nb" "nb_ident (nb\<lparr>nb_unreported_completions := n\<rparr>) = nb_ident nb"
  "nb_ident (nb\<lparr>wrap_tracker := w\<rparr>) = nb_ident nb" "nb_ident (nb\<lparr>nb_tx_head := h\<rparr>) = nb_ident nb"
  "nb_ident (nb\<lparr>nb_tx_tail := h\<rparr>) = nb_ident nb" "nb_ident (nb\<lparr>nb_polls := k\<rparr>) = nb_ident nb"
  "nb_ident (nb\<lparr>nb_regs := r\<rparr>) = nb_ident nb" "nb_ident (nb\<lparr>tx_full_cnt := x\<rparr>) = nb_ident nb"
  "nb_ident (nb\<lparr>pending_rx_pipe_tails := p\<rparr>) = nb_ident nb"
  by (simp_all add: nb_ident_def)

lemma update_tx_head_loop_ident: "update_tx_head_loop k nb head tail = (nb', head') \<Longrightarrow> nb_ident nb' = nb_ident nb"
  by (induction k nb head tail rule: update_tx_head_loop.induct) (auto simp: Let_def update_tx_head_loop.simps split: if_splits)

lemma update_tx_head_ident [simp]: "nb_ident (update_tx_head nic nb) = nb_ident nb"
  by (auto simp: update_tx_head_def nic_poll_def Let_def dest!: update_tx_head_loop_ident split: prod.split)

lemma wait_free_slot_ident: "wait_free_slot nic nb tx_tail = Some nb' \<Longrightarrow> nb_ident nb' = nb_ident nb"
  by (rule wait_free_slot.raw_induct [where P = "\<lambda>nic nb t nb'. nb_ident nb' = nb_ident nb"]) (fastforce split: if_splits)

lemma wait_completion_ident: "wait_completion nic nb old = Some nb' \<Longrightarrow> nb_ident nb' = nb_ident nb"
  by (rule wait_completion.raw_induct [where P = "\<lambda>nic nb old nb'. nb_ident nb' = nb_ident nb"]) (fastforce split: if_splits)

lemma send_config_ident: "send_config nic nb cfg = Some (r, nb') \<Longrightarrow> nb_ident nb' = nb_ident nb"
  by (auto simp: send_config_def bind_eq_Some_conv publish_tx_tail_def Let_def split: if_splits
      dest!: wait_free_slot_ident wait_completion_ident)

lemma update_fallback_ident: "update_fallback_queues_config be junk nic nb b = Some (r, nb', b') \<Longrightarrow> nb_ident nb' = nb_ident nb"
  by (auto simp: update_fallback_queues_config_def configure_fallback_queues_def bind_eq_Some_conv split: if_splits
      dest!: send_config_ident)

definition page_taken :: "host_env \<Rightarrow> string \<Rightarrow> u64 \<Rightarrow> os \<Rightarrow> os \<Rightarrow> bool" where
  "page_taken env path a s s' \<longleftrightarrow> a \<noteq> 0 \<and> pc_map (he_page env path) = Some a \<and>
     s' = s\<lparr>os_files := List.insert path (os_files s), os_maps := (a, 4194304) # os_maps s\<rparr>"

lemma huge_page_taken:
  assumes "get_huge_page (he_page env path) path 0 mirror s = (a, s')" "a \<noteq> 0"
  shows "page_taken env path a s s'"
  using assms
  by (auto simp: get_huge_page_def page_taken_def Let_def kBufPageSize_def os_close_def split: if_splits option.splits)

text \<open>Giving the page back unmaps the first half of the mapping only.\<close>

lemma page_given_back:
  assumes "page_taken env path a s s'" "\<forall>x \<in> set ms \<union> set (os_maps s). fst x \<noteq> a"
  shows "os_unlink path (os_munmap a 2097152 (s'\<lparr>os_files := fs, os_maps := ms @ os_maps s'\<rparr>)) =
    s\<lparr>os_files := removeAll path fs, os_maps := ms @ (a + 2097152, 2097152) # os_maps s\<rparr>"
proof -
  have "concat (map (\<lambda>(b, l). if b = a then (if l \<le> 2097152 then [] else [(b + 2097152, l - 2097152)]) else [(b, l)]) xs) = xs"
    if "\<forall>x \<in> set xs. fst x \<noteq> a" for xs :: "(u64 \<times> u64) list"
    using that by (induction xs) auto
  then show ?thesis using assms by (simp add: os_munmap_def os_unlink_def page_taken_def)
qed

lemma notif_init_done:
  assumes "notification_buf_init be create env pfx nb h = Some (0, nb', h')" "he_mmio env = (\<lambda>_ r. r)"
    and "\<And>i. unat (reg_tx_tail (he_regs env i)) < notif_N"
  shows "nb_idle (nb_pair nb')" "ref_cnt (nb_pair nb') = ref_cnt (nb_pair nb)" "nb_huge_page_prefix nb' = pfx"
    "page_taken env (notif_buf_path pfx (unat (nb_id (nb_pair nb')))) (nb_rx_buf_addr nb') (h_os h) (h_os h')"
proof -
  from assms(1,2) obtain b0 b1 b2 nid addr phys_addr p0 where w:
    "create = Some b0" "be_AllocateNotifBuf be b0 = Some (nid, b1)" "0 \<le> nid" "addr \<noteq> 0" "nb_huge_page_prefix nb' = pfx"
    "nb_rx_buf_addr nb' = addr" "nb_pair nb' = enable_notif_buf phys_addr p0" "nb_id p0 = of_int nid"
    "nb_tx_tail p0 = reg_tx_tail (he_regs env (nat nid + unat kMaxNbFlows))"
    "nb_tx_head p0 = nb_tx_tail p0" "reg_tx_tail (nb_regs p0) = nb_tx_tail p0"
    "wrap_tracker p0 = (\<lambda>_. 0)" "nb_unreported_completions p0 = 0"
    by (rule notification_buf_init_success) blast
  show "nb_idle (nb_pair nb')" using assms(3) by (intro nb_idle_I) (simp_all add: w tx_inv_def bv_bit_def)
  show "nb_huge_page_prefix nb' = pfx" by (fact w)
  let ?path = "notif_buf_path pfx (unat (of_int nid :: u32))"
  obtain a s' where page: "get_huge_page (he_page env ?path) ?path 0 False (h_os h) = (a, s')" by fastforce
  have "a = addr \<and> h_os h' = s' \<and> ref_cnt (nb_pair nb') = ref_cnt (nb_pair nb)"
    using assms(1,2) w(6)
    by (auto simp: notification_buf_init_def w(1,2) regs_reset_now page Let_def bind_eq_Some_conv notif_buf_indices_def
        enable_notif_buf_def split: if_splits)
  then show "ref_cnt (nb_pair nb') = ref_cnt (nb_pair nb)"
    "page_taken env (notif_buf_path pfx (unat (nb_id (nb_pair nb')))) (nb_rx_buf_addr nb') (h_os h) (h_os h')"
    using huge_page_taken [OF page] w(4,6,7,8) by simp_all
qed

lemma pipe_init_done:
  assumes "enso_pipe_init be env nic fb ep nb h = Some (pid, ep', nb', h')" "0 \<le> pid" "pid < 8192" "nic_fair nic" "nb_idle (nb_pair nb)"
  shows "nb_idle (nb_pair nb')" "nb_ident (nb_pair nb') = nb_ident (nb_pair nb)" "nb_huge_page_prefix nb' = nb_huge_page_prefix nb"
    "nb_rx_buf_addr nb' = nb_rx_buf_addr nb" "h_dev h' \<noteq> None" "unat (ep_id ep') = nat pid"
    "page_taken env (rx_pipe_path (nb_huge_page_prefix nb) (nat pid)) (ep_buf ep') (h_os h) (h_os h')"
proof -
  show "nb_idle (nb_pair nb')" by (rule pipe_init_idle(1) [OF assms(4,5,1)])
  let ?path = "rx_pipe_path (nb_huge_page_prefix nb) (nat pid)"
  obtain a s' where page: "get_huge_page (he_page env ?path) ?path 0 True (h_os h) = (a, s')" by fastforce
  have id: "unat (of_int pid :: u16) = nat pid" using assms(2,3) by (simp add: unsigned_of_int take_bit_int_eq_self)
  have "ep_buf ep' = a \<and> a \<noteq> 0 \<and> h_os h' = s' \<and> h_dev h' \<noteq> None \<and> ep_id ep' = of_int pid \<and>
      nb_ident (nb_pair nb') = nb_ident (nb_pair nb) \<and> nb_huge_page_prefix nb' = nb_huge_page_prefix nb \<and>
      nb_rx_buf_addr nb' = nb_rx_buf_addr nb"
    using assms(1,2) page
    by (auto simp: enso_pipe_init_def bind_eq_Some_conv Let_def case_prod_unfold split: if_splits dest!: update_fallback_ident)
  then show "nb_ident (nb_pair nb') = nb_ident (nb_pair nb)" "nb_huge_page_prefix nb' = nb_huge_page_prefix nb"
    "nb_rx_buf_addr nb' = nb_rx_buf_addr nb" "h_dev h' \<noteq> None" "unat (ep_id ep') = nat pid"
    "page_taken env ?path (ep_buf ep') (h_os h) (h_os h')"
    using huge_page_taken [OF page] id by simp_all
qed

text \<open>A backend whose calls on the way out all return.\<close>

definition backend_answers :: "'b backend \<Rightarrow> bool" where
  "backend_answers be \<longleftrightarrow> (\<forall>b i. be_FreePipe be i b \<noteq> None \<and> be_FreeNotifBuf be i b \<noteq> None \<and>
     be_GetRrStatus be b \<noteq> None \<and> be_GetNbFallbackQueues be b \<noteq> None)"

lemma pipe_free_done:
  assumes "backend_answers be" "nic_fair nic" "nb_idle (nb_pair nb)" "h_dev h \<noteq> None" "ep_buf ep \<noteq> 0"
  obtains ep' nb' h' where "enso_pipe_free be env nic pid pfx ep nb h = Some (ep', nb', h')"
    "nb_ident (nb_pair nb') = nb_ident (nb_pair nb)" "nb_huge_page_prefix nb' = nb_huge_page_prefix nb"
    "nb_rx_buf_addr nb' = nb_rx_buf_addr nb" "h_dev h' \<noteq> None"
    "h_os h' = os_unlink (rx_pipe_path pfx (unat pid)) (os_munmap (ep_buf ep) 2097152 (h_os h))"
proof -
  obtain b where b: "h_dev h = Some b" using assms(4) by blast
  have answers: "be_FreePipe be (int (unat pid)) b \<noteq> None" "be_GetRrStatus be b1 \<noteq> None" "be_GetNbFallbackQueues be b1 \<noteq> None" for b1
    using assms(1) by (simp_all add: backend_answers_def)
  obtain k b1 where free: "be_FreePipe be (int (unat pid)) b = Some (k, b1)" using answers(1) by fast
  obtain r1 b2 where q1: "be_GetRrStatus be b1 = Some (r1, b2)" using answers(2) by fast
  obtain r2 b3 where q2: "be_GetNbFallbackQueues be b2 = Some (r2, b3)" using answers(3) by fast
  obtain r nb' b4 where "update_fallback_queues_config be (he_junk64 env) nic (nb_pair nb) b1 = Some (r, nb', b4)"
    using update_fallback_returns [OF assms(2,3) q1 q2] by blast
  with update_fallback_ident [OF this] free b assms(5) show thesis
    by (intro that [of "ep\<lparr>ep_regs := (ep_regs ep)\<lparr>reg_rx_mem_low := 0, reg_rx_mem_high := 0\<rparr>, ep_buf := 0\<rparr>" "nb\<lparr>nb_pair := nb'\<rparr>"
          "\<lparr>h_dev = Some b4, h_os = os_unlink (rx_pipe_path pfx (unat pid)) (os_munmap (ep_buf ep) 2097152 (h_os h))\<rparr>"])
      (simp_all add: enso_pipe_free_def Let_def kBufPageSize_def)
qed

text \<open>Shutting down the last socket of a core.\<close>

lemma finish_last:
  assumes "backend_answers be" "nic_fair nic" "nb_idle (nb_pair nb)" "ref_cnt (nb_pair nb) = 1" "h_dev h \<noteq> None" "ep_buf ep \<noteq> 0"
  obtains ep' nb' h' where "dma_finish be env nic ep nb h = Some (0, ep', nb', h')" "ref_cnt (nb_pair nb') = 0" "h_dev h' = None"
    "h_os h' = os_unlink (notif_buf_path (nb_huge_page_prefix nb) (unat (nb_id (nb_pair nb)))) (os_munmap (nb_rx_buf_addr nb) 2097152
      (os_unlink (rx_pipe_path (nb_huge_page_prefix nb) (unat (ep_id ep))) (os_munmap (ep_buf ep) 2097152 (h_os h))))"
proof -
  obtain ep' nb1 h1 where free: "enso_pipe_free be env nic (ep_id ep) (nb_huge_page_prefix nb) ep nb h = Some (ep', nb1, h1)"
    "nb_ident (nb_pair nb1) = nb_ident (nb_pair nb)" "nb_huge_page_prefix nb1 = nb_huge_page_prefix nb"
    "nb_rx_buf_addr nb1 = nb_rx_buf_addr nb" "h_dev h1 \<noteq> None"
    "h_os h1 = os_unlink (rx_pipe_path (nb_huge_page_prefix nb) (unat (ep_id ep))) (os_munmap (ep_buf ep) 2097152 (h_os h))"
    by (rule pipe_free_done [OF assms(1-3,5,6)])
  obtain b1 where b1: "h_dev h1 = Some b1" using free(5) by blast
  have "be_FreeNotifBuf be (sint (nb_id (nb_pair nb1))) b1 \<noteq> None" using assms(1) by (simp add: backend_answers_def)
  then obtain k b2 where "be_FreeNotifBuf be (sint (nb_id (nb_pair nb1))) b1 = Some (k, b2)" by fast
  with free b1 assms(4) have "\<exists>ep' nb' h'. dma_finish be env nic ep nb h = Some (0, ep', nb', h') \<and> ref_cnt (nb_pair nb') = 0 \<and>
      h_dev h' = None \<and> h_os h' = os_unlink (notif_buf_path (nb_huge_page_prefix nb) (unat (nb_id (nb_pair nb))))
        (os_munmap (nb_rx_buf_addr nb) 2097152 (h_os h1))"
    by (simp add: dma_finish_def notification_buf_free_def nb_ident_def kAlignedDscBufPairSize_def kNotificationBufSize_def kBufPageSize_def)
  then show thesis using that free(6) by auto
qed

text \<open>
  The kernel maps pages where nothing is mapped: the mapping of a notification buffer and the one of an
  RX pipe, of two pages each, overlap neither each other nor an earlier mapping.
\<close>

definition pages_fresh :: "host_env \<Rightarrow> os \<Rightarrow> bool" where
  "pages_fresh env s \<longleftrightarrow> (\<forall>n m a b. pc_map (he_page env (notif_buf_path ''/mnt/huge/enso'' n)) = Some a \<and>
     pc_map (he_page env (rx_pipe_path ''/mnt/huge/enso'' m)) = Some b \<longrightarrow>
       a \<noteq> b \<and> a \<noteq> b + 2097152 \<and> (\<forall>x \<in> set (os_maps s). fst x \<noteq> a \<and> fst x \<noteq> b))"

lemma pages_given_back:
  assumes "pages_fresh env s" "page_taken env p1 a s s1" "page_taken env p2 b s1 s2"
    and "p1 = notif_buf_path ''/mnt/huge/enso'' n" "p2 = rx_pipe_path ''/mnt/huge/enso'' m"
  shows "os_unlink p1 (os_munmap a 2097152 (os_unlink p2 (os_munmap b 2097152 s2))) =
    s\<lparr>os_files := removeAll p1 (removeAll p2 (os_files s2)), os_maps := (b + 2097152, 2097152) # (a + 2097152, 2097152) # os_maps s\<rparr>"
proof -
  have ab: "a \<noteq> b" "a \<noteq> b + 2097152" "\<forall>x \<in> set (os_maps s). fst x \<noteq> a \<and> fst x \<noteq> b"
    using assms unfolding pages_fresh_def page_taken_def by blast+
  have maps1: "os_maps s1 = (a, 4194304) # os_maps s" using assms(2) by (simp add: page_taken_def)
  have "os_unlink p2 (os_munmap b 2097152 s2) = s1\<lparr>os_files := removeAll p2 (os_files s2), os_maps := [(b + 2097152, 2097152)] @ os_maps s1\<rparr>"
    using page_given_back [OF assms(3), of "[]" "os_files s2"] ab by (simp add: maps1)
  then show ?thesis using page_given_back [OF assms(2), of "[(b + 2097152, 2097152)]"] ab by simp
qed

lemma notif_init_result: "notification_buf_init be create env pfx nb h = Some (r, nb', h') \<Longrightarrow> r = 0 \<or> r = - 1"
  by (auto simp: notification_buf_init_def Let_def bind_eq_Some_conv case_prod_unfold split: option.splits if_splits)

lemma socket_first:
  assumes "socket be create env nic junk_ep fb s = Some (fd, s1)" "0 \<le> fd" "ref_cnt (sk_pair c s) = 0" "c = nat (he_cpu env)"
    and "nic_fair nic" "he_mmio env = (\<lambda>_ r. r)" "\<And>i. unat (reg_tx_tail (he_regs env i)) < notif_N"
  obtains ep nb h os1 where "s1 = (sk_put c nb h s)\<lparr>open_sockets := (open_sockets s)(nat fd := \<lparr>si_nb = Some c, si_pipe = ep\<rparr>),
      nb_open_sockets := nb_open_sockets s + 1\<rparr>" "sock_index fd = Some (nat fd)"
    "nb_idle (nb_pair nb)" "ref_cnt (nb_pair nb) = 1" "nb_huge_page_prefix nb = ''/mnt/huge/enso''" "h_dev h \<noteq> None"
    "page_taken env (notif_buf_path ''/mnt/huge/enso'' (unat (nb_id (nb_pair nb)))) (nb_rx_buf_addr nb) (sk_os s) os1"
    "page_taken env (rx_pipe_path ''/mnt/huge/enso'' (unat (ep_id ep))) (ep_buf ep) os1 (h_os h)" "unat (ep_id ep) = nat fd"
proof -
  have cpu: "0 \<le> he_cpu env" using assms(1,2) by (auto simp: socket_def dma_init_def Let_def split: if_splits)
  from assms(1,2) cpu obtain ep nb h where
    dma: "dma_init be (create (sk_bdf s)) env nic ''/mnt/huge/enso'' fb junk_ep (sk_nbs s c) (sk_host c s) = Some (fd, ep, nb, h)"
    and idx: "sock_index fd = Some (nat fd)"
    and s1: "s1 = (sk_put c nb h s)\<lparr>open_sockets := (open_sockets s)(nat fd := \<lparr>si_nb = Some c, si_pipe = ep\<rparr>),
      nb_open_sockets := nb_open_sockets s + 1\<rparr>"
    by (auto simp: socket_def assms(4) Let_def bind_eq_Some_conv sock_index_def sk_put_def split: if_splits)
  from dma assms(2,3) cpu obtain nb0 h0 where
    init: "notification_buf_init be (create (sk_bdf s)) env ''/mnt/huge/enso'' (sk_nbs s c) (sk_host c s) = Some (0, nb0, h0)"
    and pipe: "enso_pipe_init be env nic fb junk_ep (nb0\<lparr>nb_pair := (nb_pair nb0)\<lparr>ref_cnt := ref_cnt (nb_pair nb0) + 1\<rparr>\<rparr>) h0 =
      Some (fd, ep, nb, h)"
    using notif_init_result by (fastforce simp: dma_init_def sk_pair_def bind_eq_Some_conv split: if_splits)
  note i = notif_init_done [OF init assms(6,7)]
  have lt: "fd < 8192" using idx by (simp add: sock_index_def MAX_NB_SOCKETS_def kMaxNbFlows_def split: if_splits)
  have idle: "nb_idle (nb_pair (nb0\<lparr>nb_pair := (nb_pair nb0)\<lparr>ref_cnt := ref_cnt (nb_pair nb0) + 1\<rparr>\<rparr>))"
    by (rule nb_idle_same [OF _ i(1)]) (simp add: tx_same_def)
  note p = pipe_init_done [OF pipe assms(2) lt assms(5) idle]
  show thesis
    using i p assms(3) by (intro that [OF s1 idx p(1)]) (simp_all add: nb_ident_def sk_pair_def sk_host_def)
qed

lemma sk_put_simps [simp]:
  "sk_nbs (sk_put c nb h s) = (sk_nbs s)(c := nb)" "sk_devs (sk_put c nb h s) = (sk_devs s)(c := h_dev h)"
  "sk_os (sk_put c nb h s) = h_os h" "open_sockets (sk_put c nb h s) = open_sockets s"
  "nb_open_sockets (sk_put c nb h s) = nb_open_sockets s" "sk_bdf (sk_put c nb h s) = sk_bdf s"
  by (simp_all add: sk_put_def)

definition opened_and_closed :: "nat \<Rightarrow> nat \<Rightarrow> 'b sockets \<Rightarrow> 'b sockets \<Rightarrow> bool" where
  "opened_and_closed c fd s s' \<longleftrightarrow> nb_open_sockets s' = nb_open_sockets s \<and> ref_cnt (sk_pair c s') = 0 \<and>
     si_nb (open_sockets s' fd) = Some c \<and> (\<forall>i. i \<noteq> fd \<longrightarrow> open_sockets s' i = open_sockets s i) \<and>
     sk_devs s' = (sk_devs s)(c := None) \<and> (\<forall>d. d \<noteq> c \<longrightarrow> sk_nbs s' d = sk_nbs s d) \<and>
     os_fds (sk_os s') = os_fds (sk_os s) \<and> os_bad_free (sk_os s') = os_bad_free (sk_os s) \<and>
     (\<exists>n. set (os_files (sk_os s')) =
        set (os_files (sk_os s)) - {notif_buf_path ''/mnt/huge/enso'' n, rx_pipe_path ''/mnt/huge/enso'' fd}) \<and>
     (\<exists>a b. os_maps (sk_os s') = (b + 2097152, 2097152) # (a + 2097152, 2097152) # os_maps (sk_os s))"

lemma shutdown_first:
  assumes "socket be create env nic junk_ep fb s = Some (fd, s1)" "0 \<le> fd" "ref_cnt (sk_pair c s) = 0" "c = nat (he_cpu env)"
    and "nic_fair nic" "he_mmio env = (\<lambda>_ r. r)" "\<And>i. unat (reg_tx_tail (he_regs env i)) < notif_N"
    and "backend_answers be" "pages_fresh env (sk_os s)"
  shows "\<exists>s2. shutdown be env nic fd s1 = Some (0, s2) \<and> opened_and_closed c (nat fd) s s2"
proof -
  obtain ep nb h os1 where s1: "s1 = (sk_put c nb h s)\<lparr>open_sockets := (open_sockets s)(nat fd := \<lparr>si_nb = Some c, si_pipe = ep\<rparr>),
      nb_open_sockets := nb_open_sockets s + 1\<rparr>" and idx: "sock_index fd = Some (nat fd)"
    and nb: "nb_idle (nb_pair nb)" "ref_cnt (nb_pair nb) = 1" "nb_huge_page_prefix nb = ''/mnt/huge/enso''" "h_dev h \<noteq> None"
    and pages: "page_taken env (notif_buf_path ''/mnt/huge/enso'' (unat (nb_id (nb_pair nb)))) (nb_rx_buf_addr nb) (sk_os s) os1"
      "page_taken env (rx_pipe_path ''/mnt/huge/enso'' (unat (ep_id ep))) (ep_buf ep) os1 (h_os h)" and id: "unat (ep_id ep) = nat fd"
    by (rule socket_first [OF assms(1-7)])
  have buf: "ep_buf ep \<noteq> 0" using pages(2) by (simp add: page_taken_def)
  obtain ep' nb' h' where fin: "dma_finish be env nic ep nb h = Some (0, ep', nb', h')" "ref_cnt (nb_pair nb') = 0" "h_dev h' = None"
    "h_os h' = os_unlink (notif_buf_path ''/mnt/huge/enso'' (unat (nb_id (nb_pair nb)))) (os_munmap (nb_rx_buf_addr nb) 2097152
      (os_unlink (rx_pipe_path ''/mnt/huge/enso'' (unat (ep_id ep))) (os_munmap (ep_buf ep) 2097152 (h_os h))))"
    by (rule finish_last [OF assms(8,5) nb(1,2,4) buf]) (simp add: nb(3))
  note os = fin(4) [unfolded pages_given_back [OF assms(9) pages refl refl]]
  have files: "set (os_files (h_os h)) = insert (notif_buf_path ''/mnt/huge/enso'' (unat (nb_id (nb_pair nb))))
      (insert (rx_pipe_path ''/mnt/huge/enso'' (nat fd)) (set (os_files (sk_os s))))"
    using pages by (auto simp: page_taken_def id)
  have host: "sk_host c s1 = h" "sk_nbs s1 c = nb" "open_sockets s1 (nat fd) = \<lparr>si_nb = Some c, si_pipe = ep\<rparr>"
    by (simp_all add: s1 sk_host_def)
  let ?s2 = "(sk_set_pipe (nat fd) ep' (sk_put c nb' h' s1))\<lparr>nb_open_sockets := nb_open_sockets s\<rparr>"
  have "shutdown be env nic fd s1 = Some (0, ?s2)"
    using fin(1) by (simp add: shutdown_def sock_nb_def idx host Let_def) (simp add: s1 sk_set_pipe_def)
  moreover have "opened_and_closed c (nat fd) s ?s2"
    using fin(2,3) files by (auto simp: opened_and_closed_def s1 sk_set_pipe_def sk_pair_def os id)
  ultimately show ?thesis by blast
qed

section \<open>Properties\<close>

text \<open>
  C25: Opening the first socket of a core and shutting it down again. With a backend whose calls return
  and a fair NIC, \<^verbatim>\<open>shutdown\<close> returns 0 and gives back the pipe, the notification buffer and the backend:
  the numbers of open sockets and of users of the notification buffer are what they were, the files of the
  two huge pages are gone, no file descriptor is left, and other sockets and cores are untouched. What
  stays behind is the second half of both mappings: the pages are mapped twice and unmapped once.
\<close>

theorem shutdown_undoes_socket:
  assumes "socket be create env nic junk_ep fb s = Some (fd, s1)" "0 \<le> fd" "ref_cnt (sk_pair c s) = 0" "c = nat (he_cpu env)"
    and "nic_fair nic" "he_mmio env = (\<lambda>_ r. r)" "\<And>i. unat (reg_tx_tail (he_regs env i)) < notif_N"
    and "backend_answers be" "pages_fresh env (sk_os s)"
  shows "\<exists>s2. shutdown be env nic fd s1 = Some (0, s2) \<and> opened_and_closed c (nat fd) s s2"
  using assms by (rule shutdown_first)

text \<open>A machine on which nothing fails and the two pages lie apart, before the first socket is opened.\<close>

definition host_two :: host_env where
  "host_two = host_ok\<lparr>he_page := (\<lambda>p. \<lparr>pc_open = True, pc_truncate = True,
     pc_map = Some (if p ! 15 = CHR ''n'' then 4194304 else 16777216), pc_mirror = True, pc_lock = True\<rparr>)\<rparr>"

definition ep_none :: RxEnsoPipeInternal where
  "ep_none = \<lparr>ep_buf = 0, ep_buf_phys_addr = 0, ep_regs = regs_zero, ep_rx_head = 0, ep_rx_tail = 0, ep_phys_buf_offset = 0, ep_id = 0\<rparr>"

definition sockets_zero :: "nat sockets" where
  "sockets_zero = \<lparr>sk_nbs = (\<lambda>_. \<lparr>nb_pair = nb_zero, nb_rx_buf_addr = 0, nb_huge_page_prefix = ''''\<rparr>), sk_devs = (\<lambda>_. None),
     sk_os = os_empty, open_sockets = (\<lambda>_. \<lparr>si_nb = None, si_pipe = ep_none\<rparr>), nb_open_sockets = 0, sk_bdf = 0\<rparr>"

lemma host_two_simps [simp]:
  "he_mmio host_two = (\<lambda>_ r. r)" "he_cpu host_two = 0" "he_uio_mmap host_two" "he_malloc host_two i" "he_regs host_two i = regs_zero"
  "reg_tx_tail regs_zero = 0"
  by (simp_all add: host_two_def host_ok_def regs_zero_def)

lemma host_two_pages:
  "pages_fresh host_two os_empty"
  "get_huge_page (he_page host_two p) p 0 m s =
     (if p ! 15 = CHR ''n'' then 4194304 else 16777216,
      s\<lparr>os_files := List.insert p (os_files s), os_maps := (if p ! 15 = CHR ''n'' then 4194304 else 16777216, 4194304) # os_maps s\<rparr>)"
  by (simp_all add: pages_fresh_def host_two_def notif_buf_path_def rx_pipe_path_def os_empty_def get_huge_page_def kBufPageSize_def
      os_close_def Let_def)

lemma sockets_zero_start:
  "ref_cnt (sk_pair 0 sockets_zero) = 0" "sk_os sockets_zero = os_empty" "nb_open_sockets sockets_zero = 0"
  by (simp_all add: sk_pair_def sockets_zero_def nb_zero_def)

lemma be_counter_answers: "backend_answers be_counter"
  by (simp add: backend_answers_def be_counter_def)

lemma be_counter_calls:
  "be_AllocatePipe be_counter fb n = Some (int n, Suc n)" "be_ConvertVirtAddrToDevAddr be_counter a n = Some (a + 8589934592, n)"
  by (simp_all add: be_counter_def)

lemma example_socket:
  obtains s1 where "socket be_counter (\<lambda>_. Some 0) host_two nic_eager ep_none False sockets_zero = Some (1, s1)"
proof -
  let ?nb = "\<lparr>nb_pair = nb_zero, nb_rx_buf_addr = 0, nb_huge_page_prefix = ''''\<rparr>" and ?h = "\<lparr>h_dev = None, h_os = os_empty\<rparr>"
  have "\<exists>nb h. notification_buf_init be_counter (Some 0) host_two ''/mnt/huge/enso'' ?nb ?h = Some (0, nb, h) \<and> h_dev h = Some 1"
    by (simp add: notification_buf_init_def be_counter_def regs_reset_now host_two_pages Let_def)
  then obtain nb h where init: "notification_buf_init be_counter (Some 0) host_two ''/mnt/huge/enso'' ?nb ?h = Some (0, nb, h)"
    and dev: "h_dev h = Some 1" by blast
  define nb1 where "nb1 = nb\<lparr>nb_pair := (nb_pair nb)\<lparr>ref_cnt := ref_cnt (nb_pair nb) + 1\<rparr>\<rparr>"
  have "nb_idle (nb_pair nb)" using init by (rule notif_init_done(1)) simp_all
  then have "nb_idle ((nb_pair nb1)\<lparr>pending_rx_pipe_tails := f\<rparr>)" for f
    by (rule nb_idle_same [rotated]) (simp add: nb1_def tx_same_def)
  from example_update [OF this] obtain nb2 b2 where
    "update_fallback_queues_config be_counter (he_junk64 host_two) nic_eager
      ((nb_pair nb1)\<lparr>pending_rx_pipe_tails := (pending_rx_pipe_tails (nb_pair nb1))(1 := 0)\<rparr>) (Suc (Suc 0)) = Some (0, nb2, b2)" by blast
  then have "\<exists>ep nb' h'. enso_pipe_init be_counter host_two nic_eager False ep_none nb1 h = Some (1, ep, nb', h')"
    using dev by (simp add: enso_pipe_init_def regs_reset_now host_two_pages be_counter_calls Let_def)
  then obtain ep nb' h' where "enso_pipe_init be_counter host_two nic_eager False ep_none nb1 h = Some (1, ep, nb', h')" by blast
  with init have "dma_init be_counter (Some 0) host_two nic_eager ''/mnt/huge/enso'' False ep_none ?nb ?h = Some (1, ep, nb', h')"
    by (simp add: dma_init_def nb1_def) (simp add: nb_zero_def)
  then show thesis
    using that by (simp add: socket_def sockets_zero_def sk_host_def MAX_NB_SOCKETS_def MAX_NB_CORES_def kMaxNbFlows_def sock_index_def)
qed

lemma example_shutdown:
  assumes "socket be_counter (\<lambda>_. Some 0) host_two nic_eager ep_none False sockets_zero = Some (1, s1)"
  obtains s2 where "shutdown be_counter host_two nic_eager 1 s1 = Some (0, s2)" "opened_and_closed 0 1 sockets_zero s2"
proof -
  have "\<exists>s2. shutdown be_counter host_two nic_eager 1 s1 = Some (0, s2) \<and> opened_and_closed 0 (nat 1) sockets_zero s2"
    by (rule shutdown_first [OF assms _ _ _ nic_fair_eager _ _ be_counter_answers]) (simp_all add: sockets_zero_start host_two_pages)
  with that show thesis by auto
qed

theorem shutdown_undoes_socket_witness:
  "\<exists>s1 s2. socket be_counter (\<lambda>_. Some 0) host_two nic_eager ep_none False sockets_zero = Some (1, s1) \<and>
     shutdown be_counter host_two nic_eager 1 s1 = Some (0, s2) \<and> nb_open_sockets s2 = 0 \<and> sk_devs s2 0 = None"
proof -
  obtain s1 where run: "socket be_counter (\<lambda>_. Some 0) host_two nic_eager ep_none False sockets_zero = Some (1, s1)"
    by (rule example_socket)
  have "\<exists>s2. shutdown be_counter host_two nic_eager 1 s1 = Some (0, s2) \<and> opened_and_closed 0 (nat 1) sockets_zero s2"
    by (rule shutdown_undoes_socket [OF run _ _ _ nic_fair_eager _ _ be_counter_answers]) (simp_all add: sockets_zero_start host_two_pages)
  with run show ?thesis unfolding opened_and_closed_def by (auto simp: sockets_zero_start)
qed


text \<open>
  Shutting a socket down twice. When no socket is open any more and the notification buffer of a closed
  socket has no user, shutting that socket down reports success and the unsigned counter of open sockets
  drops below zero: every later attempt to open a socket, on any core and with any device, is then refused
  because of too many open sockets.
\<close>

theorem double_shutdown_blocks:
  assumes "sock_nb fd s = Some (i, c)" "ref_cnt (sk_pair c s) = 0" "nb_open_sockets s = 0"
  shows "\<exists>s'. shutdown be env nic fd s = Some (0, s') \<and> nb_open_sockets s' = 2 ^ 32 - 1 \<and>
    (\<forall>be' create env' nic' ep fb. socket be' create env' nic' ep fb s' = Some (- 1, s'))"
proof -
  let ?s = "(sk_set_pipe i (si_pipe (open_sockets s i)) (sk_put c (sk_nbs s c) (sk_host c s) s))\<lparr>nb_open_sockets := - 1\<rparr>"
  have "shutdown be env nic fd s = Some (0, ?s)"
    using assms by (simp add: shutdown_def dma_finish_def sk_pair_def Let_def sk_set_pipe_def)
  moreover have "MAX_NB_SOCKETS \<le> - 1" by (rule word_order.extremum)
  ultimately show ?thesis by (simp add: socket_def)
qed

theorem double_shutdown_blocks_witness:
  "\<exists>s1 s2 s3. socket be_counter (\<lambda>_. Some 0) host_two nic_eager ep_none False sockets_zero = Some (1, s1) \<and>
     shutdown be_counter host_two nic_eager 1 s1 = Some (0, s2) \<and> shutdown be_counter host_two nic_eager 1 s2 = Some (0, s3) \<and>
     socket be_counter (\<lambda>_. Some 0) host_two nic_eager ep_none False s3 = Some (- 1, s3)"
proof -
  obtain s1 where run: "socket be_counter (\<lambda>_. Some 0) host_two nic_eager ep_none False sockets_zero = Some (1, s1)"
    by (rule example_socket)
  then obtain s2 where s2: "shutdown be_counter host_two nic_eager 1 s1 = Some (0, s2)" "opened_and_closed 0 1 sockets_zero s2"
    by (rule example_shutdown)
  have "nb_open_sockets sockets_zero = 0" by (simp add: sockets_zero_def)
  then have "sock_nb 1 s2 = Some (1, 0)" "ref_cnt (sk_pair 0 s2) = 0" "nb_open_sockets s2 = 0"
    using s2(2) by (simp_all add: opened_and_closed_def sock_nb_def sock_index_def MAX_NB_SOCKETS_def kMaxNbFlows_def)
  from double_shutdown_blocks [OF this] run s2(1) show ?thesis by blast
qed

definition mirrored :: "u64 \<Rightarrow> memory \<Rightarrow> bool" where
  "mirrored base mem \<longleftrightarrow> (\<forall>k < 2097152. mem (base + of_nat (2097152 + k)) = mem (base + of_nat k))"

definition announced :: "NotificationBufPair \<Rightarrow> RxEnsoPipeInternal \<Rightarrow> u32" where
  "announced p ep = note_tails (rx_batch p) (pending_rx_pipe_tails p) (unat (ep_id ep))"

lemma mirrored_mod:
  assumes "mirrored base mem" "k < 4194304"
  shows "mem (base + of_nat k) = mem (base + of_nat (k mod 2097152))"
proof (cases "k < 2097152")
  case False
  then have "k - 2097152 < 2097152" using assms(2) by simp
  with False show ?thesis using assms(1) [unfolded mirrored_def, rule_format, of "k - 2097152"] by (simp add: mod_if)
qed simp

lemma advance_received:
  assumes "unat (ep_rx_tail ep) < pipe_N" "ep_rx_head ep = ep_rx_tail ep" "unat t < pipe_N"
    and "unat (n :: u32) = 64 * ring_dist pipe_N (unat (ep_rx_tail ep)) (unat t)"
  shows "n = 0 \<Longrightarrow> ep_rx_head ep = t" "ep_rx_head (advance_pipe (ep\<lparr>ep_rx_tail := t\<rparr>) (ucast n)) = t"
    "ep_rx_tail (advance_pipe (ep\<lparr>ep_rx_tail := t\<rparr>) len) = t"
proof -
  show "ep_rx_head ep = t" if "n = 0" using that assms by (simp add: word_unat_eq_iff)
  have "(64 * ring_dist pipe_N (unat (ep_rx_tail ep)) (unat t) + 63) div 64 = ring_dist pipe_N (unat (ep_rx_tail ep)) (unat t)" by simp
  then show "ep_rx_head (advance_pipe (ep\<lparr>ep_rx_tail := t\<rparr>) (ucast n)) = t"
    using assms by (simp add: word_unat_eq_iff advance_pipe_head)
  show "ep_rx_tail (advance_pipe (ep\<lparr>ep_rx_tail := t\<rparr>) len) = t" by (simp add: advance_pipe_def Let_def)
qed

text \<open>
  C20: Receiving into the user's buffer. On an open socket whose notification buffer is well formed and whose
  announced tail lies inside the ring, \<^verbatim>\<open>recv\<close> returns the number of bytes announced since the last call
  and copies exactly these bytes, in order and also across the end of the circular buffer, to the user's
  buffer; it touches no other memory, gives all of them back to the NIC and leaves the other sockets alone.
  The number of bytes does not depend on the size of the user's buffer, which may be smaller.
\<close>

theorem recv_exact:
  assumes "sock_nb fd s = Some (i, c)" "rx_wf (sk_pair c s)" "valid_ids (rx_batch (sk_pair c s))"
    and ep: "ep = si_pipe (open_sockets s i)" "unat (ep_rx_tail ep) < pipe_N" "ep_rx_head ep = ep_rx_tail ep"
    and t: "t = announced (sk_pair c s) ep" "unat t < pipe_N"
    and "mirrored (ep_buf ep) mem"
  shows "\<exists>n mem' ep'. recv fd buf len (mem, s) =
      Some (int n, mem', sk_set_pipe i ep' (sk_set_pair c (poll_result (sk_pair c s) (rx_batch (sk_pair c s))) s)) \<and>
    n = 64 * ring_dist pipe_N (unat (ep_rx_tail ep)) (unat t) \<and>
    (\<forall>k < n. mem' (buf + of_nat k) = mem (ep_buf ep + of_nat ((64 * unat (ep_rx_tail ep) + k) mod 2097152))) \<and>
    (\<forall>a. n \<le> unat (a - buf) \<longrightarrow> mem' a = mem a) \<and> ep_rx_tail ep' = t \<and> ep_rx_head ep' = t"
proof -
  let ?p = "sk_pair c s" and ?h = "unat (ep_rx_tail ep)"
  let ?q = "poll_result ?p (rx_batch ?p)" and ?n = "64 * ring_dist pipe_N ?h (unat t)"
  have poll: "get_new_tails ?p = Some (of_nat (length (rx_batch ?p)), ?q)" using get_new_tails_eq [OF assms(2)] assms(3) by simp
  have tail: "pending_rx_pipe_tails ?q (unat (ep_id ep)) = t" by (simp add: t(1) announced_def)
  obtain size where batch: "get_next_batch_from_queue ep ?q = (size, ep_buf ep + of_nat (64 * ?h), ep\<lparr>ep_rx_tail := t\<rparr>)"
    and size: "unat size = ?n"
    using consume_queue_eq [of ep ?q False, unfolded tail] ep(2) t(2) by (auto simp: get_next_batch_from_queue_def)
  have dist: "ring_dist pipe_N ?h (unat t) < pipe_N" by (rule ring_dist_less) simp
  then have bound: "?n < 2097152" "64 * ?h + ?n < 4194304" using ep(2) by linarith+
  define ep' where "ep' = (if size = 0 then ep\<lparr>ep_rx_tail := t\<rparr> else advance_pipe (ep\<lparr>ep_rx_tail := t\<rparr>) (ucast size))"
  have "ep_rx_head ep' = t" "ep_rx_tail ep' = t" unfolding ep'_def using advance_received [OF ep(2,3) t(2) size] by auto
  moreover have "recv fd buf len (mem, s) = Some (int ?n, memcpy buf (ep_buf ep + of_nat (64 * ?h)) ?n mem, sk_set_pipe i ep' (sk_set_pair c ?q s))"
  proof (cases "size = 0")
    case True
    then have "?n = 0" using size by simp
    with True show ?thesis by (simp add: recv_def assms(1) ep(1) [symmetric] poll batch Let_def ep'_def memcpy_def)
  next
    case False
    then have "\<not> uint size \<le> 0" by (simp add: word_neq_0_conv word_less_def)
    moreover have "uint size = int ?n" using size by (metis uint_nat)
    ultimately show ?thesis using False by (simp add: recv_def assms(1) ep(1) [symmetric] poll batch size Let_def ep'_def)
  qed
  moreover have "memcpy buf (ep_buf ep + of_nat (64 * ?h)) ?n mem (buf + of_nat k) = mem (ep_buf ep + of_nat ((64 * ?h + k) mod 2097152))"
    if "k < ?n" for k
    using that bound mirrored_mod [OF assms(9), of "64 * ?h + k"] by (simp add: memcpy_def unat_of_nat_small add.assoc)
  moreover have "memcpy buf src ?n mem a = mem a" if "?n \<le> unat (a - buf)" for src a using that by (simp add: memcpy_def)
  ultimately show ?thesis by blast
qed

text \<open>Two units announced across the end of the circular buffer, received into a buffer of 64 bytes.\<close>

definition mem_seven :: memory where
  "mem_seven a = (if unat (a - 4096) < 4194304 then 7 else 0)"

definition sockets_five :: "nat sockets" where
  "sockets_five = sockets_zero\<lparr>open_sockets := (\<lambda>_. \<lparr>si_nb = Some 0, si_pipe = ep_example\<rparr>),
     sk_nbs := (\<lambda>_. \<lparr>nb_pair = nb_zero\<lparr>pending_rx_pipe_tails := (\<lambda>_. 1)\<rparr>, nb_rx_buf_addr = 0, nb_huge_page_prefix = ''''\<rparr>)\<rparr>"

theorem recv_exact_witness:
  "\<exists>mem' s'. recv 5 4294967296 64 (mem_seven, sockets_five) = Some (128, mem', s') \<and>
     mem_seven (4294967296 + of_nat 127) = 0 \<and> mem' (4294967296 + of_nat 127) = 7"
proof -
  let ?s = sockets_five
  have idx: "sock_nb 5 ?s = Some (5, 0)"
    by (simp add: sock_nb_def sock_index_def sockets_five_def MAX_NB_SOCKETS_def kMaxNbFlows_def)
  have pair: "sk_pair 0 ?s = nb_zero\<lparr>pending_rx_pipe_tails := (\<lambda>_. 1)\<rparr>" "si_pipe (open_sockets ?s 5) = ep_example"
    by (simp_all add: sk_pair_def sockets_five_def)
  have batch: "rx_batch (sk_pair 0 ?s) = []" 
    using rx_ready_Suc [of 0 63 "\<lambda>_. rx_notif_zero"] by (simp add: pair nb_zero_def rx_notif_zero_def kBatchSize_def)
  have wf: "rx_wf (sk_pair 0 ?s)" "valid_ids (rx_batch (sk_pair 0 ?s))" by (simp_all add: batch valid_ids_def) (simp add: pair rx_wf_def nb_zero_def)
  have ann: "announced (sk_pair 0 ?s) ep_example = 1" unfolding announced_def batch by (simp add: pair note_tails_def)
  have fields: "ep_rx_tail ep_example = 32767" "ep_rx_head ep_example = 32767" "ep_buf ep_example = 4096" by (simp_all add: ep_example_def)
  have mir: "mirrored (ep_buf ep_example) mem_seven"
    by (simp add: mirrored_def mem_seven_def ep_example_def unat_of_nat_small add.assoc flip: of_nat_add)
  obtain n mem' s' where r: "recv 5 4294967296 64 (mem_seven, ?s) = Some (int n, mem', s')" "n = 64 * ring_dist pipe_N 32767 1"
    "\<forall>k < n. mem' (4294967296 + of_nat k) = mem_seven (4096 + of_nat ((2097088 + k) mod 2097152))"
    using recv_exact [OF idx wf pair(2) [symmetric] _ _ ann [symmetric] _ mir, of 4294967296 64] by (auto simp: fields)
  have n: "n = 128" by (simp add: r(2) ring_dist_def)
  have "mem' (4294967296 + of_nat 127) = 7" using r(3) [rule_format, of 127] by (simp add: n mem_seven_def)
  moreover have "mem_seven (4294967296 + of_nat 127) = 0" by (simp add: mem_seven_def)
  ultimately show ?thesis using r(1) n by auto
qed

text \<open>
  A socket that cannot get a pipe has already been counted as a user of the notification buffer: the
  counter stays at one without a socket that could ever lower it, and the backend stays open.
\<close>

lemma failed_socket_pins:
  assumes "nb_open_sockets s < MAX_NB_SOCKETS" "0 \<le> he_cpu env" "he_cpu env < MAX_NB_CORES" "c = nat (he_cpu env)"
    and "ref_cnt (sk_pair c s) = 0" "he_mmio env = (\<lambda>_ r. r)" "\<And>i. unat (reg_tx_tail (he_regs env i)) < notif_N"
    and "notification_buf_init be (create (sk_bdf s)) env ''/mnt/huge/enso'' (sk_nbs s c) (sk_host c s) = Some (0, nb, h)"
    and "h_dev h = Some b" "be_AllocatePipe be fb b = Some (pid, b')" "pid < 0"
  shows "\<exists>s'. socket be create env nic junk_ep fb s = Some (- 1, s') \<and> ref_cnt (sk_pair c s') = 1 \<and>
    nb_open_sockets s' = nb_open_sockets s \<and> open_sockets s' = open_sockets s \<and> sk_devs s' c = Some b'"
proof -
  have "ref_cnt (nb_pair nb) = 0" using notif_init_done(2) [OF assms(8,6,7)] assms(5) by (simp add: sk_pair_def)
  moreover have "\<not> MAX_NB_SOCKETS \<le> nb_open_sockets s" "\<not> MAX_NB_CORES \<le> he_cpu env" using assms(1,3) by auto
  ultimately show ?thesis
    using assms(2,4,5,8-11) by (simp add: socket_def dma_init_def enso_pipe_init_def Let_def sk_pair_def)
qed
end
