(* ===== verification/Pkt_Batch.thy ===== *)
theory Pkt_Batch
  imports Enso_Accounting "HOL-Library.Signed_Division"
begin

text \<open>
  Batches of packets, \<^verbatim>\<open>software/include/enso/pipe.h\<close> (\<^verbatim>\<open>RxPipe::MessageBatch\<close>,
  \<^verbatim>\<open>MessageIteratorBase\<close>, \<^verbatim>\<open>PktIterator\<close>, \<^verbatim>\<open>PeekPktIterator\<close>) and the packet helpers of
  \<^verbatim>\<open>software/include/enso/helpers.h\<close>: an application receives all bytes of a pipe as a batch and
  walks over it with a range-based loop that finds each packet from the length in the IP header of
  the one before.

  The buffer of a pipe is one page that is mapped twice, one mapping after the other, so the bytes at
  addresses \<open>base + i\<close> and \<open>base + i + page_N\<close> are the same byte. The model keeps the page and
  reads and writes it through \<open>buf_pos\<close>; the slice of a ring that a batch occupies is therefore
  contiguous for the application even where it wraps.
\<close>

section \<open>The doubly mapped buffer\<close>

definition buf_pos :: "u64 \<Rightarrow> u64 \<Rightarrow> nat" where
  "buf_pos base a = unat (a - base) mod page_N"

definition buf_byte :: "u64 \<Rightarrow> u8 arr \<Rightarrow> u64 \<Rightarrow> u8" where
  "buf_byte base page a = page (buf_pos base a)"

lemma buf_pos_add [simp]: "buf_pos base (base + of_nat i) = i mod page_N"
  by (simp add: buf_pos_def unat_of_nat take_bit_eq_mod mod_mod_cancel)

lemma buf_pos_offset: "buf_pos base (base + of_nat i + of_nat j) = (i + j) mod page_N"
  using buf_pos_add [of base "i + j"] by (simp add: add.assoc)

section \<open>Packet lengths\<close>

definition be_to_le_16 :: "u16 \<Rightarrow> u16" where
  "be_to_le_16 le = push_bit 8 (le AND 0x00ff) OR drop_bit 8 (le AND 0xff00)"

text \<open>
  The IP header follows the Ethernet header of 14 bytes and has its total length at offset 2. The
  sum in \<^verbatim>\<open>get_pkt_len\<close> is computed as an \<^verbatim>\<open>int\<close> and stored in 16 bits.
\<close>

definition load16 :: "u64 \<Rightarrow> u8 arr \<Rightarrow> u64 \<Rightarrow> u16" where
  "load16 base page a = ucast (buf_byte base page a) OR push_bit 8 (ucast (buf_byte base page (a + 1)))"

definition get_pkt_len :: "u64 \<Rightarrow> u8 arr \<Rightarrow> u64 \<Rightarrow> u16" where
  "get_pkt_len base page addr = be_to_le_16 (load16 base page (addr + 14 + 2)) + 14"

text \<open>\<^verbatim>\<open>pkt_len - 1\<close> is an \<^verbatim>\<open>int\<close>, negative for length 0, and its division truncates.\<close>

definition get_next_pkt :: "u64 \<Rightarrow> u8 arr \<Rightarrow> u64 \<Rightarrow> u64" where
  "get_next_pkt base page pkt =
     (let pkt_len = get_pkt_len base page pkt;
          nb_flits = of_int ((uint pkt_len - 1) sdiv 64 + 1) :: u16
      in pkt + of_int (uint nb_flits * 64))"

section \<open>Batches and iterators\<close>

record MessageBatch =
  mb_available_bytes :: u32
  mb_message_limit :: u32
  mb_buf :: u64
  mb_processed_bytes :: u32
  mb_pipe :: nat

record MessageIterator =
  it_addr :: u64
  it_missing_messages :: u32
  it_next_addr :: u64

datatype it_kind = PktIterator | PeekPktIterator

definition new_iterator :: "u64 \<Rightarrow> u8 arr \<Rightarrow> u64 \<Rightarrow> u32 \<Rightarrow> MessageIterator" where
  "new_iterator base page addr message_limit =
     \<lparr>it_addr = addr, it_missing_messages = message_limit, it_next_addr = get_next_pkt base page addr\<rparr>"

definition batch_begin :: "u64 \<Rightarrow> u8 arr \<Rightarrow> MessageBatch \<Rightarrow> MessageIterator" where
  "batch_begin base page b = new_iterator base page (mb_buf b) (mb_message_limit b)"

definition batch_end :: "u64 \<Rightarrow> u8 arr \<Rightarrow> MessageBatch \<Rightarrow> MessageIterator" where
  "batch_end base page b =
     new_iterator base page (mb_buf b + ucast (mb_available_bytes b)) (mb_message_limit b)"

definition it_not_equal :: "MessageIterator \<Rightarrow> MessageIterator \<Rightarrow> bool" where
  "it_not_equal it other \<longleftrightarrow> it_missing_messages it \<noteq> 0 \<and> it_next_addr it \<le> it_addr other"

fun OnAdvanceMessage :: "it_kind \<Rightarrow> nat \<Rightarrow> u32 \<Rightarrow> Device \<Rightarrow> Device" where
  "OnAdvanceMessage PktIterator r nb_bytes d = RxPipe_ConfirmBytes r nb_bytes d"
| "OnAdvanceMessage PeekPktIterator r nb_bytes d = d"

definition NotifyProcessedBytes :: "u32 \<Rightarrow> MessageBatch \<Rightarrow> MessageBatch" where
  "NotifyProcessedBytes nb_bytes b = b\<lparr>mb_processed_bytes := mb_processed_bytes b + nb_bytes\<rparr>"

definition it_increment ::
    "it_kind \<Rightarrow> u64 \<Rightarrow> u8 arr \<Rightarrow> MessageIterator \<Rightarrow> MessageBatch \<Rightarrow> Device \<Rightarrow>
     MessageIterator \<times> MessageBatch \<times> Device" where
  "it_increment k base page it b d =
     (let nb_bytes = ucast (it_next_addr it - it_addr it) :: u32;
          d' = OnAdvanceMessage k (mb_pipe b) nb_bytes d
      in (\<lparr>it_addr = it_next_addr it, it_missing_messages = it_missing_messages it - 1,
           it_next_addr = get_next_pkt base page (it_next_addr it)\<rparr>,
          NotifyProcessedBytes nb_bytes b, d'))"

text \<open>
  The loop \<^verbatim>\<open>for (auto pkt : batch)\<close>: the end is computed once; the body may change the buffer
  and the application's own state \<open>'s\<close>.
\<close>

partial_function (option) for_loop ::
    "it_kind \<Rightarrow> u64 \<Rightarrow> (u64 \<Rightarrow> u8 arr \<times> 's \<Rightarrow> u8 arr \<times> 's) \<Rightarrow> MessageIterator \<Rightarrow> MessageIterator \<Rightarrow>
     MessageBatch \<Rightarrow> Device \<Rightarrow> u8 arr \<times> 's \<Rightarrow> (MessageBatch \<times> Device \<times> u8 arr \<times> 's) option" where
  "for_loop k base body e it b d m =
     (if it_not_equal it e then
        let m' = body (it_addr it) m in
        case it_increment k base (fst m') it b d of (it', b', d') \<Rightarrow> for_loop k base body e it' b' d' m'
      else Some (b, d, m))"

definition for_each ::
    "it_kind \<Rightarrow> u64 \<Rightarrow> (u64 \<Rightarrow> u8 arr \<times> 's \<Rightarrow> u8 arr \<times> 's) \<Rightarrow> MessageBatch \<Rightarrow> Device \<Rightarrow> u8 arr \<times> 's \<Rightarrow>
     (MessageBatch \<times> Device \<times> u8 arr \<times> 's) option" where
  "for_each k base body b d m =
     for_loop k base body (batch_end base (fst m) b) (batch_begin base (fst m) b) b d m"

section \<open>Receiving a batch\<close>

definition RecvMessages :: "nat \<Rightarrow> u32 \<Rightarrow> Device \<Rightarrow> (MessageBatch \<times> Device) option" where
  "RecvMessages r max_nb_messages d =
     map_option (\<lambda>(recv, buf, d').
       (\<lparr>mb_available_bytes = recv, mb_message_limit = max_nb_messages, mb_buf = buf,
         mb_processed_bytes = 0, mb_pipe = r\<rparr>, d')) (RxPipe_Peek r (NOT 0) d)"

definition RecvPkts :: "nat \<Rightarrow> u32 \<Rightarrow> Device \<Rightarrow> (it_kind \<times> MessageBatch \<times> Device) option" where
  "RecvPkts r max_nb_pkts d = map_option (Pair PktIterator) (RecvMessages r max_nb_pkts d)"

definition PeekPkts :: "nat \<Rightarrow> u32 \<Rightarrow> Device \<Rightarrow> (it_kind \<times> MessageBatch \<times> Device) option" where
  "PeekPkts r max_nb_pkts d = map_option (Pair PeekPktIterator) (RecvMessages r max_nb_pkts d)"

definition RxTxPipe_RecvMessages :: "nic \<Rightarrow> nat \<Rightarrow> u32 \<Rightarrow> Device \<Rightarrow> (MessageBatch \<times> Device) option" where
  "RxTxPipe_RecvMessages nic j max_nb_messages d =
     (let d' = ProcessCompletions nic d in RecvMessages (rt_rx_pipe (rx_tx_pipes d' ! j)) max_nb_messages d')"

definition RxTxPipe_RecvPkts :: "nic \<Rightarrow> nat \<Rightarrow> u32 \<Rightarrow> Device \<Rightarrow> (it_kind \<times> MessageBatch \<times> Device) option" where
  "RxTxPipe_RecvPkts nic j max_nb_pkts d =
     (let d' = ProcessCompletions nic d in RecvPkts (rt_rx_pipe (rx_tx_pipes d' ! j)) max_nb_pkts d')"

definition RxTxPipe_PeekPkts :: "nic \<Rightarrow> nat \<Rightarrow> u32 \<Rightarrow> Device \<Rightarrow> (it_kind \<times> MessageBatch \<times> Device) option" where
  "RxTxPipe_PeekPkts nic j max_nb_pkts d =
     (let d' = ProcessCompletions nic d in PeekPkts (rt_rx_pipe (rx_tx_pipes d' ! j)) max_nb_pkts d')"

section \<open>Frames\<close>

text \<open>
  What the NIC puts into a pipe: packets padded to a multiple of 64 bytes. \<open>flits n\<close> is the number
  of 64-byte units that the code takes for a packet of length \<open>n\<close>, one for length 0.
\<close>

definition flits :: "nat \<Rightarrow> nat" where
  "flits n = (n - 1) div 64 + 1"

definition frame_len :: "u8 list \<Rightarrow> nat" where
  "frame_len f = 256 * unat (f ! 16) + unat (f ! 17) + 14"

definition frame_ok :: "u8 list \<Rightarrow> bool" where
  "frame_ok f \<longleftrightarrow> frame_len f < 65536 \<and> length f = 64 * flits (frame_len f)"

lemma be_to_le_16_bytes:
  "be_to_le_16 (ucast (lo :: u8) OR push_bit 8 (ucast (hi :: u8))) = ucast hi OR push_bit 8 (ucast lo)"
proof (rule bit_word_eqI)
  fix n assume n: "n < LENGTH(16)"
  have masks: "(0x00ff :: u16) = mask 8" "(0xff00 :: u16) = push_bit 8 (mask 8)"
    by (simp_all add: mask_eq_exp_minus_1)
  have out: "\<not> bit (x :: u8) m" if "8 \<le> m" for x m using that bit_imp_le_length [of x m] by auto
  show "bit (be_to_le_16 (ucast lo OR push_bit 8 (ucast hi))) n = bit (ucast hi OR push_bit 8 (ucast lo) :: u16) n"
    unfolding be_to_le_16_def masks using n by (cases "n < 8") (auto simp: bit_simps out)
qed

lemma unat_two_bytes: "unat (ucast (lo :: u8) OR push_bit 8 (ucast (hi :: u8)) :: u16) = unat lo + 256 * unat hi"
proof -
  have "(ucast lo :: u16) OR push_bit 8 (ucast hi) = ucast lo + push_bit 8 (ucast hi)"
    by (rule disjunctive_add_eq_or [symmetric]) (rule bit_word_eqI, auto simp: bit_simps dest: bit_imp_le_length)
  moreover have "unat (push_bit 8 (ucast hi) :: u16) = 256 * unat hi"
    using unsigned_less [of hi, where ?'a = nat] unat_times_small [of "ucast hi :: u16" 256]
    by (simp add: push_bit_eq_mult unat_ucast_up)
  ultimately show ?thesis
    using unsigned_less [of hi, where ?'a = nat] unsigned_less [of lo, where ?'a = nat]
    by (simp add: unat_plus_small unat_ucast_up)
qed

lemma unat_get_pkt_len:
  "unat (get_pkt_len base page a) =
     (256 * unat (buf_byte base page (a + 16)) + unat (buf_byte base page (a + 17)) + 14) mod 65536"
proof -
  have "unat (be_to_le_16 (load16 base page (a + 14 + 2))) =
      256 * unat (buf_byte base page (a + 16)) + unat (buf_byte base page (a + 17))"
    unfolding load16_def be_to_le_16_bytes by (simp add: unat_two_bytes add.assoc)
  then show ?thesis by (simp add: get_pkt_len_def unat_word_ariths)
qed

lemma uint_flits: "uint (of_int ((uint (l :: u16) - 1) sdiv 64 + 1) :: u16) = int (flits (unat l))"
proof -
  define n where "n = unat l"
  have lt: "n < 65536" unfolding n_def using unsigned_less [of l, where ?'a = nat] by simp
  have "(int n - 1) sdiv 64 + 1 = int (flits n)"
    by (cases n) (simp_all add: flits_def signed_divide_int_def zdiv_int sgn_if)
  moreover have "flits n < 65536" using lt by (simp add: flits_def)
  ultimately have "uint (of_int ((int n - 1) sdiv 64 + 1) :: u16) = int (flits n)"
    using unat_of_nat_small [of "flits n", where ?'a = 16] by (simp add: uint_nat)
  then show ?thesis by (simp add: n_def)
qed

lemma get_next_pkt_flits: "get_next_pkt base page a = a + of_nat (64 * flits (unat (get_pkt_len base page a)))"
  unfolding get_next_pkt_def Let_def uint_flits by (simp add: mult.commute)

lemma frame_ok_length:
  assumes "frame_ok f"
  shows "64 \<le> length f" "length f \<le> 65536" "64 dvd length f"
  using assms by (auto simp: frame_ok_def flits_def)

lemma frames_count: "\<forall>f\<in>set fs. frame_ok f \<Longrightarrow> 64 * length fs \<le> length (concat fs)"
  by (induction fs) (use frame_ok_length(1) in fastforce)+

lemma frame_byte:
  "ring_slice page_N page i (length f) = f \<Longrightarrow> j < length f \<Longrightarrow> buf_byte base page (base + of_nat i + of_nat j) = f ! j"
  using nth_ring_slice [of j "length f" page_N page i] by (simp only: buf_byte_def buf_pos_offset)

lemma pkt_len_frame:
  assumes "frame_ok f" "ring_slice page_N page i (length f) = f"
  shows "unat (get_pkt_len base page (base + of_nat i)) = frame_len f"
  using frame_byte [OF assms(2), of 16 base] frame_byte [OF assms(2), of 17 base] frame_ok_length(1) [OF assms(1)] assms(1)
  by (simp add: unat_get_pkt_len frame_len_def frame_ok_def)

lemma next_pkt_frame:
  assumes "frame_ok f" "ring_slice page_N page i (length f) = f"
  shows "get_next_pkt base page (base + of_nat i) = base + of_nat (i + length f)"
  using pkt_len_frame [OF assms, of base] assms(1) by (simp add: get_next_pkt_flits frame_ok_def add.assoc)

lemma next_pkt_beyond:
  assumes "unat a + 65536 < 2 ^ 64"
  shows "a < get_next_pkt base page a"
proof -
  let ?n = "64 * flits (unat (get_pkt_len base page a))"
  have "?n \<le> 65536" "0 < ?n"
    using unsigned_less [of "get_pkt_len base page a", where ?'a = nat] by (simp_all add: flits_def)
  then have "unat (a + of_nat ?n) = unat a + ?n"
    using assms unat_of_nat_small [of ?n, where ?'a = 64] by (simp add: unat_plus_small del: of_nat_mult)
  then show ?thesis using \<open>0 < ?n\<close> by (simp add: get_next_pkt_flits word_less_nat_alt)
qed

section \<open>Rings of bytes\<close>

lemma ring_put_append:
  assumes "h < N" "length xs + length ys \<le> N"
  shows "ring_put N (ring_put N b h xs) ((h + length xs) mod N) ys = ring_put N b h (xs @ ys)"
  using assms
proof (induction xs arbitrary: b h)
  case (Cons x xs)
  from Cons.prems have "length xs < N" "length (xs @ ys) < N" "Suc h mod N < N" by auto
  moreover have "(h + length (x # xs)) mod N = (Suc h mod N + length xs) mod N" by (simp add: mod_add_left_eq)
  ultimately show ?case
    using Cons.prems Cons.IH [of "Suc h mod N" "b(h := x)"] by (simp add: ring_put_Cons fun_upd_def)
qed simp

lemma ring_slice_put_after:
  assumes "h < N" "length xs + n \<le> N"
  shows "ring_slice N (ring_put N b h xs) (h + length xs) n = ring_slice N b (h + length xs) n"
proof (rule ring_slice_cong)
  fix i assume "i < n"
  then have "ring_dist N h ((h + (length xs + i)) mod N) = length xs + i"
    using assms by (intro ring_dist_add) auto
  then show "ring_put N b h xs ((h + length xs + i) mod N) = b ((h + length xs + i) mod N)"
    by (simp add: ring_put_def add.assoc)
qed

lemma ring_slice_mod_left: "ring_slice N b (h mod N + m) n = ring_slice N b (h + m) n"
  using ring_slice_mod [of N b "h mod N + m" n] ring_slice_mod [of N b "h + m" n] by (simp add: mod_add_left_eq)

lemma ucast_of_nat_64_32: "ucast (of_nat n :: u64) = (of_nat n :: u32)"
  by (simp add: unsigned_of_nat word_of_nat_eq_iff)

lemma word_eq_of_nat: "unat (x :: 'a::len word) = n \<Longrightarrow> x = of_nat n"
  by (drule sym) simp

lemma length_concat_take: "length (concat (take m fs)) \<le> length (concat fs)"
  by (metis append_take_drop_id concat_append length_append le_add1)

section \<open>Confirming bytes\<close>

lemma confirm_bytes_0: "unat (ep_rx_tail ep) < pipe_N \<Longrightarrow> confirm_bytes 0 ep = ep"
  by (simp add: confirm_bytes_def pipe_ring.mod_id)

lemma confirm_bytes_tail: "unat (ep_rx_tail (confirm_bytes n ep)) = (unat (ep_rx_tail ep) + unat n div 64) mod pipe_N"
  by (simp add: confirm_bytes_def pipe_ring.add unat_div)

lemma confirm_bytes_add:
  assumes "64 dvd m" "m + n < 2 ^ 32"
  shows "confirm_bytes (of_nat n) (confirm_bytes (of_nat m) ep) = confirm_bytes (of_nat (m + n)) ep"
proof -
  have "m div 64 + n div 64 = (m + n) div 64" using assms(1) by (auto elim!: dvdE)
  then have "ep_rx_tail (confirm_bytes (of_nat n) (confirm_bytes (of_nat m) ep)) =
      ep_rx_tail (confirm_bytes (of_nat (m + n)) ep)"
    using assms(2) unat_of_nat_small [of m, where ?'a = 32] unat_of_nat_small [of n, where ?'a = 32]
      unat_of_nat_small [of "m + n", where ?'a = 32]
    by (simp only: word_unat_eq_iff confirm_bytes_tail) (simp add: mod_add_left_eq add.assoc del: of_nat_add)
  then show ?thesis by (simp add: confirm_bytes_def)
qed

lemma upd_rx_upd_rx: "r < length (rx_pipes d) \<Longrightarrow> upd_rx r f (upd_rx r g d) = upd_rx r (\<lambda>ep. f (g ep)) d"
  by (simp add: upd_rx_def)

lemma upd_rx_same: "f (internal_rx_pipe (rx_pipes d ! r)) = internal_rx_pipe (rx_pipes d ! r) \<Longrightarrow> upd_rx r f d = d"
  by (simp add: upd_rx_def)

definition rx_at :: "nat \<Rightarrow> Device \<Rightarrow> bool" where
  "rx_at r d \<longleftrightarrow> r < length (rx_pipes d) \<and> unat (ep_rx_tail (internal_rx_pipe (rx_pipes d ! r))) < pipe_N"

lemma OnAdvance_0: "rx_at r d \<Longrightarrow> OnAdvanceMessage k r 0 d = d"
  by (cases k) (simp_all add: RxPipe_ConfirmBytes_def rx_at_def upd_rx_same confirm_bytes_0)

lemma OnAdvance_add:
  assumes "rx_at r d" "64 dvd m" "m + n < 2 ^ 32"
  shows "OnAdvanceMessage k r (of_nat n) (OnAdvanceMessage k r (of_nat m) d) = OnAdvanceMessage k r (of_nat (m + n)) d"
  using assms by (cases k) (simp_all add: RxPipe_ConfirmBytes_def rx_at_def upd_rx_upd_rx confirm_bytes_add del: of_nat_add)

lemma OnAdvance_rx_at: "rx_at r d \<Longrightarrow> rx_at r (OnAdvanceMessage k r n d)"
  by (cases k) (simp_all add: RxPipe_ConfirmBytes_def rx_at_def upd_rx_def confirm_bytes_tail)

section \<open>Packet handlers\<close>

text \<open>
  What the loop relies on of its body: given a packet it changes the bytes of that packet only, in a
  way that depends on the packet and the application's state, both described by \<open>handle\<close>.
\<close>

fun handle_all :: "('f \<Rightarrow> 's \<Rightarrow> 'f \<times> 's) \<Rightarrow> 'f list \<Rightarrow> 's \<Rightarrow> 'f list \<times> 's" where
  "handle_all h [] s = ([], s)"
| "handle_all h (f # fs) s =
     (case h f s of (f', s') \<Rightarrow> case handle_all h fs s' of (fs', s'') \<Rightarrow> (f' # fs', s''))"

locale pkt_handler =
  fixes body :: "u64 \<Rightarrow> u64 \<Rightarrow> u8 arr \<times> 's \<Rightarrow> u8 arr \<times> 's"
    and handle :: "u8 list \<Rightarrow> 's \<Rightarrow> u8 list \<times> 's"
  assumes handle_length: "frame_ok f \<Longrightarrow> length (fst (handle f s)) = length f"
    and body_handle: "frame_ok f \<Longrightarrow> ring_slice page_N page i (length f) = f \<Longrightarrow>
      body base (base + of_nat i) (page, s) = (ring_put page_N page (i mod page_N) (fst (handle f s)), snd (handle f s))"
begin

lemma handle_all_length:
  "\<forall>f\<in>set fs. frame_ok f \<Longrightarrow> length (concat (fst (handle_all handle fs s))) = length (concat fs)"
proof (induction fs arbitrary: s)
  case (Cons f fs)
  then show ?case using handle_length [of f s] by (auto split: prod.splits) (metis fst_conv)
qed simp

lemma for_loop_step:
  assumes "frame_ok f" "ring_slice page_N page i (length f) = f" "unat base + i + length f + n < 2 ^ 64"
    and "it_addr e = base + of_nat (i + length f + n)" "it_missing_messages it \<noteq> 0"
    and "it_addr it = base + of_nat i" "it_next_addr it = get_next_pkt base page (it_addr it)"
  shows "for_loop k base (body base) e it b d (page, s) =
    (let page' = ring_put page_N page (i mod page_N) (fst (handle f s)) in for_loop k base (body base) e
      \<lparr>it_addr = base + of_nat (i + length f), it_missing_messages = it_missing_messages it - 1,
       it_next_addr = get_next_pkt base page' (base + of_nat (i + length f))\<rparr>
      (NotifyProcessedBytes (of_nat (length f)) b) (OnAdvanceMessage k (mb_pipe b) (of_nat (length f)) d)
      (page', snd (handle f s)))"
proof -
  have nx: "it_next_addr it = base + of_nat (i + length f)" using next_pkt_frame [OF assms(1,2)] assms(6,7) by simp
  have addr: "unat (base + of_nat j) = unat base + j" if "j \<le> i + length f + n" for j
    using that assms(3) unat_of_nat_small [of j, where ?'a = 64] by (simp add: unat_plus_small)
  have "it_not_equal it e"
    using assms(4,5) nx addr [of "i + length f"] addr [of "i + length f + n"]
    by (simp add: it_not_equal_def word_le_nat_alt del: of_nat_add)
  moreover have "it_next_addr it - it_addr it = of_nat (length f)" using nx assms(6) by simp
  ultimately show ?thesis
    using body_handle [OF assms(1,2), of base s] assms(6) nx
    unfolding for_loop.simps [of _ _ _ _ it] it_increment_def Let_def by (simp add: ucast_of_nat_64_32 del: of_nat_add)
qed

lemma for_loop_frames:
  assumes "\<forall>f\<in>set fs. frame_ok f" "ring_slice page_N page i (length (concat fs)) = concat fs"
    and "length (concat fs) \<le> page_N" "unat base + i + length (concat fs) + 65536 < 2 ^ 64"
    and "it_addr e = base + of_nat (i + length (concat fs))"
    and "it_addr it = base + of_nat i" "it_next_addr it = get_next_pkt base page (it_addr it)" "rx_at (mb_pipe b) d"
  shows "for_loop k base (body base) e it b d (page, s) =
    (let n = length (concat (take (unat (it_missing_messages it)) fs));
         (hs, s') = handle_all handle (take (unat (it_missing_messages it)) fs) s
     in Some (NotifyProcessedBytes (of_nat n) b, OnAdvanceMessage k (mb_pipe b) (of_nat n) d,
          ring_put page_N page (i mod page_N) (concat hs), s'))"
  using assms
proof (induction fs arbitrary: i it b d page s)
  case Nil
  have "unat (base + of_nat i) = unat base + i"
    using Nil.prems(4) unat_of_nat_small [of i, where ?'a = 64] by (simp add: unat_plus_small)
  then have "\<not> it_not_equal it e"
    using Nil.prems next_pkt_beyond [of "base + of_nat i" base page] by (simp add: it_not_equal_def not_le)
  then show ?case using Nil.prems(8) by (simp add: for_loop.simps NotifyProcessedBytes_def OnAdvance_0)
next
  case (Cons f fs)
  show ?case
  proof (cases "it_missing_messages it = 0")
    case True
    then show ?thesis
      using Cons.prems(8) by (simp add: for_loop.simps it_not_equal_def NotifyProcessedBytes_def OnAdvance_0)
  next
    case False
    obtain f' s1 where h: "handle f s = (f', s1)" by fastforce
    let ?page = "ring_put page_N page (i mod page_N) f'" and ?n = "length f" and ?rest = "length (concat fs)"
    have ok: "frame_ok f" using Cons.prems(1) by simp
    have slice: "ring_slice page_N page i ?n = f" "ring_slice page_N page (i + ?n) ?rest = concat fs"
      using Cons.prems(2) ring_slice_append [of page_N page i ?n ?rest] by simp_all
    have len: "length f' = ?n" using handle_length [OF ok, of s] h by simp
    let ?m = "unat (it_missing_messages it) - 1" and ?b = "NotifyProcessedBytes (of_nat ?n) b"
      and ?d = "OnAdvanceMessage k (mb_pipe b) (of_nat ?n) d"
    have miss: "unat (it_missing_messages it - 1) = ?m" "unat (it_missing_messages it) = Suc ?m"
      using False by (simp_all add: unat_minus_one unat_gt_0)
    have "ring_slice page_N ?page (i mod page_N + ?n) ?rest = concat fs"
      using ring_slice_put_after [of "i mod page_N" page_N f' ?rest page] Cons.prems(3) slice(2) len
      by (simp add: ring_slice_mod_left)
    then have tail: "ring_slice page_N ?page (i + ?n) ?rest = concat fs" by (simp add: ring_slice_mod_left)
    obtain hs s2 where hs: "handle_all handle (take ?m fs) s1 = (hs, s2)" by fastforce
    let ?k = "length (concat (take ?m fs))"
    let ?it = "\<lparr>it_addr = base + of_nat (i + ?n), it_missing_messages = it_missing_messages it - 1,
       it_next_addr = get_next_pkt base ?page (base + of_nat (i + ?n))\<rparr>"
    have "for_loop k base (body base) e it b d (page, s) = for_loop k base (body base) e ?it ?b ?d (?page, s1)"
      using for_loop_step [OF ok slice(1), of base ?rest e it k b d s] False Cons.prems h by (simp add: add.assoc Let_def)
    also have "\<dots> =
      Some (NotifyProcessedBytes (of_nat ?k) ?b, OnAdvanceMessage k (mb_pipe ?b) (of_nat ?k) ?d,
            ring_put page_N ?page ((i + ?n) mod page_N) (concat hs), s2)"
      using Cons.IH [OF _ tail, where it = ?it and b = ?b and d = ?d and s = s1] Cons.prems hs
        OnAdvance_rx_at [of "mb_pipe b" d k "of_nat ?n"]
      by (simp add: NotifyProcessedBytes_def add.assoc miss(1) Let_def)
    finally have "for_loop k base (body base) e it b d (page, s) =
      Some (NotifyProcessedBytes (of_nat ?k) ?b, OnAdvanceMessage k (mb_pipe b) (of_nat ?k) ?d,
            ring_put page_N ?page ((i + ?n) mod page_N) (concat hs), s2)" by (simp add: NotifyProcessedBytes_def)
    moreover have small: "?n + ?k \<le> page_N" using length_concat_take [of ?m fs] Cons.prems(3) by simp
    then have "OnAdvanceMessage k (mb_pipe b) (of_nat ?k) ?d = OnAdvanceMessage k (mb_pipe b) (of_nat (?n + ?k)) d"
      using frame_ok_length(3) [OF ok] Cons.prems(8) by (intro OnAdvance_add) simp_all
    moreover have "length (concat hs) = ?k"
      using handle_all_length [of "take ?m fs" s1] Cons.prems(1) hs by (auto dest: in_set_takeD)
    then have "ring_put page_N ?page ((i + ?n) mod page_N) (concat hs) = ring_put page_N page (i mod page_N) (f' @ concat hs)"
      using ring_put_append [of "i mod page_N" page_N f' "concat hs" page] small len by (simp add: mod_add_left_eq)
    ultimately show ?thesis using h hs by (subst (1 2) miss(2)) (simp add: NotifyProcessedBytes_def add.assoc)
  qed
qed

end

section \<open>Receiving batches\<close>

abbreviation rx_ep :: "nat \<Rightarrow> Device \<Rightarrow> RxEnsoPipeInternal" where
  "rx_ep r d \<equiv> internal_rx_pipe (rx_pipes d ! r)"

abbreviation rx_announced :: "nat \<Rightarrow> Device \<Rightarrow> u32" where
  "rx_announced r d \<equiv> pending_rx_pipe_tails (dev_nb d) (unat (ep_id (rx_ep r d)))"

text \<open>The bytes of a pipe that were announced and not yet confirmed.\<close>

definition rx_unread :: "nat \<Rightarrow> Device \<Rightarrow> nat" where
  "rx_unread r d = 64 * ring_dist pipe_N (unat (ep_rx_tail (rx_ep r d))) (unat (rx_announced r d))"

lemma peek_eq:
  assumes "unat (ep_rx_tail ep) < pipe_N" "unat (pending_rx_pipe_tails nb (unat (ep_id ep))) < pipe_N"
  shows "\<exists>size. peek_next_batch_from_queue ep nb = (size, ep_buf ep + of_nat (64 * unat (ep_rx_tail ep)), ep) \<and>
    unat size = 64 * ring_dist pipe_N (unat (ep_rx_tail ep)) (unat (pending_rx_pipe_tails nb (unat (ep_id ep))))"
  using consume_queue_eq [OF assms, of True] by (simp add: peek_next_batch_from_queue_def)

lemma RxPipe_Peek_cases:
  assumes "RxPipe_Peek r m d = Some (n, buf, d1)"
  obtains nb recv where "peek_next_batch_from_queue (rx_ep r d) nb = (recv, buf, rx_ep r d)" "n = min recv m" "d1 = d\<lparr>dev_nb := nb\<rparr>"
proof -
  from assms obtain nb where "(case peek_next_batch_from_queue (rx_ep r d) nb of (ret, buf, ep) \<Rightarrow>
      Some (min ret m, buf, upd_rx r (\<lambda>_. ep) (d\<lparr>dev_nb := nb\<rparr>))) = Some (n, buf, d1)"
    unfolding RxPipe_Peek_def Let_def bind_eq_Some_conv by blast
  then obtain recv ep where nb: "peek_next_batch_from_queue (rx_ep r d) nb = (recv, buf, ep)" "n = min recv m"
    and d1: "d1 = upd_rx r (\<lambda>_. ep) (d\<lparr>dev_nb := nb\<rparr>)"
    by (cases "peek_next_batch_from_queue (rx_ep r d) nb") auto
  have "ep = rx_ep r d" using nb by (auto simp: peek_next_batch_from_queue_def consume_queue_def Let_def split: if_splits)
  then show ?thesis using that nb d1 by (simp add: upd_rx_same)
qed

lemma RecvMessages_region:
  assumes "RecvMessages r lim d = Some (b, d1)" "rx_at r d" "unat (rx_announced r d1) < pipe_N"
  shows "unat (mb_available_bytes b) = rx_unread r d1" "mb_message_limit b = lim" "mb_processed_bytes b = 0"
    "mb_buf b = ep_buf (rx_ep r d1) + of_nat (64 * unat (ep_rx_tail (rx_ep r d1)))" "mb_pipe b = r" "rx_ep r d1 = rx_ep r d" "rx_at r d1"
proof -
  obtain recv buf where peek: "RxPipe_Peek r (NOT 0) d = Some (recv, buf, d1)"
    and b: "b = \<lparr>mb_available_bytes = recv, mb_message_limit = lim, mb_buf = buf, mb_processed_bytes = 0, mb_pipe = r\<rparr>"
    using assms(1) by (auto simp: RecvMessages_def)
  from peek obtain nb n where nb: "peek_next_batch_from_queue (rx_ep r d) nb = (n, buf, rx_ep r d)" "recv = min n (NOT 0)"
    and d1: "d1 = d\<lparr>dev_nb := nb\<rparr>" by (rule RxPipe_Peek_cases)
  show "rx_ep r d1 = rx_ep r d" "rx_at r d1" using d1 assms(2) by (simp_all add: rx_at_def)
  show "unat (mb_available_bytes b) = rx_unread r d1" "mb_message_limit b = lim" "mb_processed_bytes b = 0" "mb_pipe b = r"
    "mb_buf b = ep_buf (rx_ep r d1) + of_nat (64 * unat (ep_rx_tail (rx_ep r d1)))"
    using peek_eq [of "rx_ep r d" nb] assms(2,3) nb d1 b by (auto simp: rx_at_def rx_unread_def)
qed

lemma rx_unread_less: "rx_unread r d + 64 \<le> page_N"
  using ring_dist_less [of pipe_N "unat (ep_rx_tail (rx_ep r d))" "unat (rx_announced r d)"]
  by (simp add: rx_unread_def del: ring_dist_less)

context pkt_handler
begin

lemma for_each_frames:
  assumes "RecvMessages r lim d = Some (b, d1)" "rx_at r d" "unat (rx_announced r d1) < pipe_N"
    and "unat (ep_buf (rx_ep r d)) + 2 ^ 23 < 2 ^ 64"
    and "\<forall>f\<in>set fs. frame_ok f" "ring_slice page_N page (64 * unat (ep_rx_tail (rx_ep r d))) (rx_unread r d1) = concat fs"
  shows "for_each k (ep_buf (rx_ep r d)) (body (ep_buf (rx_ep r d))) b d1 (page, s) =
    (let n = length (concat (take (unat lim) fs)); (hs, s') = handle_all handle (take (unat lim) fs) s
     in Some (b\<lparr>mb_processed_bytes := of_nat n\<rparr>, OnAdvanceMessage k r (of_nat n) d1,
          ring_put page_N page (64 * unat (ep_rx_tail (rx_ep r d))) (concat hs), s'))"
proof -
  let ?base = "ep_buf (rx_ep r d)" and ?i = "64 * unat (ep_rx_tail (rx_ep r d))"
  note reg = RecvMessages_region [OF assms(1-3)]
  have len: "length (concat fs) = rx_unread r d1" using arg_cong [OF assms(6), of length] by simp
  have i: "?i < page_N" using assms(2) by (simp add: rx_at_def)
  have "ucast (mb_available_bytes b) = (of_nat (rx_unread r d1) :: u64)"
    using reg(1) by (intro word_eq_of_nat) simp
  then have e: "it_addr (batch_end ?base page b) = ?base + of_nat (?i + length (concat fs))"
    using reg(4,6) len by (simp add: batch_end_def new_iterator_def)
  have "it_addr (batch_begin ?base page b) = ?base + of_nat ?i" "it_missing_messages (batch_begin ?base page b) = lim"
    using reg(2,4,6) by (simp_all add: batch_begin_def new_iterator_def)
  then show ?thesis
    using for_loop_frames [OF assms(5), of page ?i ?base "batch_end ?base page b" "batch_begin ?base page b" b d1 k s]
      e reg(3,5,7) assms(4,6) i len rx_unread_less [of r d1]
    by (simp add: for_each_def batch_begin_def new_iterator_def NotifyProcessedBytes_def Let_def)
qed

end

end
