(* ===== verification/Echo_App.thy ===== *)
theory Echo_App
  imports Pkt_Batch Enso_Runs
begin

text \<open>
  Applications over the packet batches: the correctness of the range-based loop for every packet
  handler, and the echo server of \<^verbatim>\<open>software/examples/echo.cpp\<close>, which increments a byte of every
  packet and transmits the packets in place, from the buffer they were received in.
\<close>

section \<open>What a loop over a batch leaves in the pipe\<close>

lemma ring_put_length_same:
  assumes "h < N" "length xs \<le> N"
  shows "ring_slice N (ring_put N b h xs) h (length xs) = xs"
  using ring_slice_ring_put [of h N 0 xs b] assms by simp

lemma rx_confirm:
  assumes "rx_at r d" "unat (rx_announced r d) < pipe_N" "64 dvd n" "n \<le> rx_unread r d"
  shows "rx_at r (RxPipe_ConfirmBytes r (of_nat n) d)"
    and "64 * unat (ep_rx_tail (rx_ep r (RxPipe_ConfirmBytes r (of_nat n) d))) = (64 * unat (ep_rx_tail (rx_ep r d)) + n) mod page_N"
    and "rx_unread r (RxPipe_ConfirmBytes r (of_nat n) d) = rx_unread r d - n"
    and "rx_announced r (RxPipe_ConfirmBytes r (of_nat n) d) = rx_announced r d"
    and "ep_buf (rx_ep r (RxPipe_ConfirmBytes r (of_nat n) d)) = ep_buf (rx_ep r d)"
proof -
  let ?d = "RxPipe_ConfirmBytes r (of_nat n) d" and ?t = "unat (ep_rx_tail (rx_ep r d))"
  from assms(3) obtain m where m: "n = 64 * m" by blast
  have "n < 2 ^ 32" using assms(4) rx_unread_less [of r d] by simp
  then have un: "unat (of_nat n :: u32) = n" by (intro unat_of_nat_small) simp
  have ep: "rx_ep r ?d = confirm_bytes (of_nat n) (rx_ep r d)"
    using assms(1) by (simp add: RxPipe_ConfirmBytes_def upd_rx_def rx_at_def)
  have tail: "unat (ep_rx_tail (rx_ep r ?d)) = (?t + m) mod pipe_N"
    unfolding ep confirm_bytes_tail un by (simp add: m)
  then show "64 * unat (ep_rx_tail (rx_ep r ?d)) = (64 * ?t + n) mod page_N"
    using mult_mod_right [of 64 "?t + m" pipe_N] by (simp add: m algebra_simps)
  show "rx_at r ?d" using assms(1) tail by (simp add: rx_at_def RxPipe_ConfirmBytes_def upd_rx_def)
  show ann: "rx_announced r ?d = rx_announced r d"
    by (simp add: ep) (simp add: confirm_bytes_def RxPipe_ConfirmBytes_def upd_rx_def)
  show "rx_unread r ?d = rx_unread r d - n"
    using ring_dist_advance [of ?t pipe_N "unat (rx_announced r d)" m] assms(1,2,4)
    unfolding rx_unread_def ann tail by (simp add: m rx_at_def rx_unread_def diff_mult_distrib2)
  show "ep_buf (rx_ep r ?d) = ep_buf (rx_ep r d)" unfolding ep by (simp add: confirm_bytes_def)
qed

lemma frames_dvd: "\<forall>f\<in>set fs. frame_ok f \<Longrightarrow> 64 dvd length (concat fs)"
  by (induction fs) (use frame_ok_length(3) in auto)

text \<open>
  C4: Receiving packets loses none and invents none. Let the unread bytes of an RX pipe be a sequence of
  packets, each padded to a multiple of 64 bytes, wherever in the circular buffer they lie. A loop
  over \<^verbatim>\<open>RecvPkts(limit)\<close> with any body that only changes the packet it is given ends, calls the
  body once for each of the first \<open>limit\<close> packets, in order and on its exact bytes, and confirms
  exactly these packets: what is unread afterwards is the remaining packets, unchanged, so that the next
  batch starts with the first packet not handled. A limit of -1 means all packets.
\<close>

theorem recv_pkts_exact:
  assumes "pkt_handler body handle" "RecvPkts r lim d = Some (k, b, d1)" "rx_at r d" "unat (rx_announced r d1) < pipe_N"
    and "unat (ep_buf (rx_ep r d)) + 2 ^ 23 < 2 ^ 64" "\<forall>f\<in>set fs. frame_ok f"
    and "ring_slice page_N page (64 * unat (ep_rx_tail (rx_ep r d))) (rx_unread r d1) = concat fs"
  shows "\<exists>b' d2 page' s' hs. for_each k (ep_buf (rx_ep r d)) (body (ep_buf (rx_ep r d))) b d1 (page, s) = Some (b', d2, page', s') \<and>
    handle_all handle (take (unat lim) fs) s = (hs, s') \<and>
    ring_slice page_N page' (64 * unat (ep_rx_tail (rx_ep r d))) (length (concat (take (unat lim) fs))) = concat hs \<and>
    unat (mb_processed_bytes b') = length (concat (take (unat lim) fs)) \<and>
    rx_at r d2 \<and> ep_buf (rx_ep r d2) = ep_buf (rx_ep r d) \<and>
    ring_slice page_N page' (64 * unat (ep_rx_tail (rx_ep r d2))) (rx_unread r d2) = concat (drop (unat lim) fs)"
proof -
  let ?gs = "take (unat lim) fs" and ?rest = "drop (unat lim) fs" and ?t = "64 * unat (ep_rx_tail (rx_ep r d))"
  let ?n = "length (concat ?gs)" and ?d2 = "RxPipe_ConfirmBytes r (of_nat (length (concat (take (unat lim) fs)))) d1"
  have k: "k = PktIterator" and recv: "RecvMessages r lim d = Some (b, d1)" using assms(2) by (auto simp: RecvPkts_def)
  obtain hs s' where hs: "handle_all handle ?gs s = (hs, s')" by fastforce
  let ?page = "ring_put page_N page ?t (concat hs)"
  have loop: "for_each k (ep_buf (rx_ep r d)) (body (ep_buf (rx_ep r d))) b d1 (page, s) =
      Some (b\<lparr>mb_processed_bytes := of_nat ?n\<rparr>, ?d2, ?page, s')"
    using pkt_handler.for_each_frames [OF assms(1) recv assms(3-7), of k s] hs by (simp add: k Let_def)
  have split: "concat fs = concat ?gs @ concat ?rest" by (metis append_take_drop_id concat_append)
  have len: "length (concat ?gs) + length (concat ?rest) = rx_unread r d1"
    using arg_cong [OF assms(7), of length] split by simp
  have hlen: "length (concat hs) = ?n"
    using pkt_handler.handle_all_length [OF assms(1), of ?gs s] assms(6) hs by (auto dest: in_set_takeD)
  have t: "?t < page_N" using assms(3) by (simp add: rx_at_def)
  note reg = RecvMessages_region [OF recv assms(3,4)]
  have "64 dvd ?n" using assms(6) by (intro frames_dvd) (auto dest: in_set_takeD)
  note conf = rx_confirm [OF reg(7) assms(4) this, unfolded reg(6)]
  have small: "?n + length (concat ?rest) \<le> page_N" using rx_unread_less [of r d1] len by simp
  have "ring_slice page_N page (?t + ?n) (length (concat ?rest)) = concat ?rest"
    using assms(7) ring_slice_append [of page_N page ?t ?n "length (concat ?rest)"] split len by simp
  then have "ring_slice page_N ?page (?t + ?n) (length (concat ?rest)) = concat ?rest"
    using ring_slice_put_after [OF t, of "concat hs" "length (concat ?rest)" page] small hlen by simp
  then have rest: "ring_slice page_N ?page (64 * unat (ep_rx_tail (rx_ep r ?d2))) (rx_unread r ?d2) = concat ?rest"
    using conf by (simp flip: len)
  have "ring_slice page_N ?page ?t ?n = concat hs"
    using ring_put_length_same [OF t, of "concat hs" page] small hlen by simp
  moreover have "unat (of_nat ?n :: u32) = ?n" using small by (intro unat_of_nat_small) simp
  ultimately show ?thesis using loop hs rest conf len by (intro exI conjI) (assumption | simp)+
qed

section \<open>The echo server\<close>

record stats_t =
  st_recv_bytes :: u64
  st_nb_batches :: u64
  st_nb_pkts :: u64

text \<open>The body of the loop over the packets of a batch.\<close>

definition echo_body :: "u64 \<Rightarrow> u64 \<Rightarrow> u8 arr \<times> stats_t \<Rightarrow> u8 arr \<times> stats_t" where
  "echo_body base pkt m =
     (case m of (page, stats) \<Rightarrow>
        (page(buf_pos base (pkt + 63) := buf_byte base page (pkt + 63) + 1),
         stats\<lparr>st_nb_pkts := st_nb_pkts stats + 1\<rparr>))"

text \<open>
  One pass of \<^verbatim>\<open>run_echo\<close> over one of its pipes, with the page of that pipe: peek at the packets,
  handle them, confirm what was processed, count it and send it from where it is.
\<close>

definition echo_pass :: "nic \<Rightarrow> nat \<Rightarrow> Device \<times> u8 arr \<times> stats_t \<Rightarrow> (Device \<times> u8 arr \<times> stats_t) option" where
  "echo_pass nic j m =
     (case m of (d, page, stats) \<Rightarrow>
      Option.bind (RxTxPipe_PeekPkts nic j (- 1) d) (\<lambda>(k, batch, d1).
        if mb_available_bytes batch = 0 then Some (d1, page, stats)
        else
          let base = ep_buf (rx_ep (rt_rx_pipe (rx_tx_pipes d1 ! j)) d1) in
          Option.bind (for_each k base (echo_body base) batch d1 (page, stats)) (\<lambda>(batch', d2, page', stats').
            let batch_length = mb_processed_bytes batch';
                d3 = RxTxPipe_ConfirmBytes j batch_length d2;
                stats'' = stats'\<lparr>st_recv_bytes := st_recv_bytes stats' + ucast batch_length,
                  st_nb_batches := st_nb_batches stats' + 1\<rparr>
            in map_option (\<lambda>d4. (d4, page', stats'')) (RxTxPipe_SendAndFree nic j batch_length d3))))"

text \<open>What the body does to a packet.\<close>

definition echo_handle :: "u8 list \<Rightarrow> stats_t \<Rightarrow> u8 list \<times> stats_t" where
  "echo_handle f stats = (f[63 := f ! 63 + 1], stats\<lparr>st_nb_pkts := st_nb_pkts stats + 1\<rparr>)"

lemma ring_put_slice_upd:
  assumes "h < N" "n \<le> N" "j < n"
  shows "ring_put N b h ((ring_slice N b h n)[j := v]) = b((h + j) mod N := v)"
proof
  fix s
  have "s = (h + ring_dist N h s) mod N" if "s < N" using assms(1) that by simp
  moreover have "ring_dist N h ((h + j) mod N) = j" using assms by (intro ring_dist_add) auto
  ultimately show "ring_put N b h ((ring_slice N b h n)[j := v]) s = (b((h + j) mod N := v)) s"
    using assms by (auto simp: ring_put_def nth_list_update)
qed

interpretation echo: pkt_handler echo_body echo_handle
proof
  fix f :: "u8 list" and page :: "u8 arr" and i :: nat and base :: u64 and s :: stats_t
  assume ok: "frame_ok f" and f: "ring_slice page_N page i (length f) = f"
  let ?h = "i mod page_N"
  have "63 < length f" "length f \<le> page_N" using frame_ok_length [OF ok] by simp_all
  then have "ring_put page_N page ?h (f[63 := f ! 63 + 1]) = page((i + 63) mod page_N := page ((i + 63) mod page_N) + 1)"
    using ring_put_slice_upd [of ?h page_N "length f" 63 page "f ! 63 + 1"] f nth_ring_slice [of 63 "length f" page_N page i]
    by (simp add: mod_add_left_eq)
  moreover have "buf_pos base (base + of_nat i + 63) = (i + 63) mod page_N" using buf_pos_offset [of base i 63] by simp
  ultimately show "echo_body base (base + of_nat i) (page, s) =
      (ring_put page_N page (i mod page_N) (fst (echo_handle f s)), snd (echo_handle f s))"
    by (simp add: echo_body_def echo_handle_def buf_byte_def)
qed (simp add: echo_handle_def)

lemma echo_handle_all:
  "handle_all echo_handle fs stats =
     (map (\<lambda>f. f[63 := f ! 63 + 1]) fs, stats\<lparr>st_nb_pkts := st_nb_pkts stats + of_nat (length fs)\<rparr>)"
  by (induction fs arbitrary: stats) (simp_all add: echo_handle_def add.assoc)

section \<open>Positions of an RX/TX pipe\<close>

text \<open>What completions leave alone in the RX pipes: position, buffer and identifier.\<close>

definition rx_cursor :: "RxPipe \<Rightarrow> u32 \<times> u64 \<times> u16" where
  "rx_cursor p = (ep_rx_tail (internal_rx_pipe p), ep_buf (internal_rx_pipe p), ep_id (internal_rx_pipe p))"

abbreviation rx_cursors :: "Device \<Rightarrow> (u32 \<times> u64 \<times> u16) list" where
  "rx_cursors d \<equiv> map rx_cursor (rx_pipes d)"

lemma rt_process_cursors: "rx_cursors (RxTxPipe_ProcessCompletions j d) = rx_cursors d"
  by (simp add: RxTxPipe_ProcessCompletions_def RxPipe_Free_def upd_rx_def advance_pipe_def Let_def map_update rx_cursor_def)
    (metis (no_types, lifting) list_update_id map_update rx_cursor_def)

lemma process_cursors: "rx_cursors (ProcessCompletions nic d) = rx_cursors d"
proof -
  have "rx_cursors (fold RxTxPipe_ProcessCompletions js d) = rx_cursors d" for js d
    by (induction js arbitrary: d) (simp_all add: rt_process_cursors)
  then show ?thesis by (simp add: ProcessCompletions_def Let_def split: prod.splits)
qed

lemma send_cursors: "RxTxPipe_SendAndFree nic j n d = Some d' \<Longrightarrow> rx_cursors d' = rx_cursors d"
  using wait_pending_invariant [where P = "\<lambda>e. rx_cursors e = rx_cursors d"] process_cursors
  by (fastforce simp: RxTxPipe_SendAndFree_def SendAndFree_def Device_Send_def Let_def bind_eq_Some_conv push_request_def)

lemma cursors_ep:
  assumes "rx_cursors d' = rx_cursors d" "r < length (rx_pipes d)"
  shows "ep_rx_tail (rx_ep r d') = ep_rx_tail (rx_ep r d)" "ep_buf (rx_ep r d') = ep_buf (rx_ep r d)"
    "ep_id (rx_ep r d') = ep_id (rx_ep r d)" "rx_at r d' = rx_at r d"
proof -
  have "length (rx_pipes d') = length (rx_pipes d)" using arg_cong [OF assms(1), of length] by simp
  moreover from this have "rx_cursor (rx_pipes d' ! r) = rx_cursor (rx_pipes d ! r)"
    using arg_cong [OF assms(1), of "\<lambda>xs. xs ! r"] assms(2) by simp
  ultimately show "ep_rx_tail (rx_ep r d') = ep_rx_tail (rx_ep r d)" "ep_buf (rx_ep r d') = ep_buf (rx_ep r d)"
    "ep_id (rx_ep r d') = ep_id (rx_ep r d)" "rx_at r d' = rx_at r d" by (simp_all add: rx_cursor_def rx_at_def)
qed

text \<open>
  An application that transmits exactly what it has received, in the order received, keeps the read
  position of the RX pipe and the transmission position of the TX pipe together.
\<close>

abbreviation rt_rx :: "nat \<Rightarrow> Device \<Rightarrow> nat" where
  "rt_rx j d \<equiv> rt_rx_pipe (rx_tx_pipes d ! j)"

abbreviation rt_tx :: "nat \<Rightarrow> Device \<Rightarrow> nat" where
  "rt_tx j d \<equiv> rt_tx_pipe (rx_tx_pipes d ! j)"

definition lockstep :: "nat \<Rightarrow> Device \<Rightarrow> bool" where
  "lockstep j d \<longleftrightarrow> rx_at (rt_rx j d) d \<and>
     unat (app_begin (tx_pipes d ! rt_tx j d)) = 64 * unat (ep_rx_tail (rx_ep (rt_rx j d) d))"

text \<open>The space that the NIC may fill: the buffer less what the application has not freed.\<close>

definition rx_room :: "nat \<Rightarrow> Device \<Rightarrow> nat" where
  "rx_room r d = page_N - ring_dist page_N (64 * unat (ep_rx_head (rx_ep r d)) mod page_N) (64 * unat (ep_rx_tail (rx_ep r d)))"

lemma lockstep_room:
  assumes "dev_ok d" "j < length (rx_tx_pipes d)" "lockstep j d"
  shows "rx_room (rt_rx j d) d = unat (last_tx_pipe_capacity (rx_tx_pipes d ! j)) + 1"
proof -
  have "dev_inv [] d" "rt_ok (\<lambda>_. 0) d j" using assms(1,2) by (simp_all add: dev_ok_def rts_ok_def)
  from rt_last [OF this] assms(3) show ?thesis by (simp add: rx_room_def lockstep_def)
qed

lemma rx_tx_send_effect:
  assumes fair: "nic_fair nic" and ok: "dev_ok d" and j: "j < length (rx_tx_pipes d)"
    and n: "0 < n" "64 dvd unat n" "n \<le> last_tx_pipe_capacity (rx_tx_pipes d ! j)"
  shows "\<exists>d' q. RxTxPipe_SendAndFree nic j n d = Some d' \<and> dev_ok d' \<and> rx_cursors d' = rx_cursors d \<and>
    rt_rx j d' = rt_rx j d \<and> rt_tx j d' = rt_tx j d \<and> length (rx_tx_pipes d') = length (rx_tx_pipes d) \<and>
    requests d' = q @ [\<lparr>pr_pipe_id = of_nat (rt_tx j d), pr_nb_bytes = n\<rparr>] \<and>
    app_begin (tx_pipes d' ! rt_tx j d) = (app_begin (tx_pipes d ! rt_tx j d) + n) AND kBufMask"
proof -
  have inv: "dev_inv [] d" and rts: "rts_ok (\<lambda>_. 0) d" using ok by (simp_all add: dev_ok_def)
  then have i: "rt_tx j d < length (tx_pipes d)" and cap: "n \<le> capacity (tx_pipes d ! rt_tx j d)"
    using n(3) j by (auto simp: rts_ok_def rt_ok_def Let_def word_le_nat_alt)
  have own: "n \<le> last_tx_pipe_capacity (rx_tx_pipes d ! k)"
    if "k < length (rx_tx_pipes d)" "rt_tx k d = rt_tx j d" for k
    using that rts j n(3) by (auto simp: rts_ok_def distinct_conv_nth)
  obtain d1 where d1: "SendAndFree nic (rt_tx j d) n d = Some d1"
    using send_and_free_ends [OF fair inv rts i n(1,2) cap own] by blast
  note s = send_and_free_spec [OF inv rts i n(1,2) cap own d1]
  obtain d' where d': "RxTxPipe_SendAndFree nic j n d = Some d'"
    and eq: "d' = d1\<lparr>rx_tx_pipes := (rx_tx_pipes d1)[j := (rx_tx_pipes d1 ! j)
         \<lparr>last_tx_pipe_capacity := last_tx_pipe_capacity (rx_tx_pipes d1 ! j) - n\<rparr>]\<rparr>"
    using d1 by (simp add: RxTxPipe_SendAndFree_def)
  have "requests d' = requests d1" by (simp add: eq requests_def)
  with s(3) obtain q where "requests d' = q @ [\<lparr>pr_pipe_id = of_nat (rt_tx j d), pr_nb_bytes = n\<rparr>]" by auto
  moreover have "rt_rx j d' = rt_rx j d" "rt_tx j d' = rt_tx j d" "length (rx_tx_pipes d') = length (rx_tx_pipes d)"
    "app_begin (tx_pipes d' ! rt_tx j d) = (app_begin (tx_pipes d ! rt_tx j d) + n) AND kBufMask"
    using s(4,6,7,8) j by (simp_all add: eq)
  ultimately show ?thesis
    using d' rx_tx_send_spec [OF ok j n d'] send_cursors [OF d'] by blast
qed

lemma echo_peek:
  assumes "dev_ok d" "j < length (rx_tx_pipes d)" "lockstep j d" "RxTxPipe_PeekPkts nic j lim d = Some (k, b, d1)"
  shows "k = PeekPktIterator" "dev_ok d1" "j < length (rx_tx_pipes d1)" "lockstep j d1" "rt_rx j d1 = rt_rx j d"
    "rt_tx j d1 = rt_tx j d" "ep_buf (rx_ep (rt_rx j d) d1) = ep_buf (rx_ep (rt_rx j d) d)"
    "ep_rx_tail (rx_ep (rt_rx j d) d1) = ep_rx_tail (rx_ep (rt_rx j d) d)"
    "\<exists>d0. RecvMessages (rt_rx j d) lim d0 = Some (b, d1) \<and> rx_at (rt_rx j d) d0 \<and> rx_ep (rt_rx j d) d1 = rx_ep (rt_rx j d) d0"
proof -
  let ?d0 = "ProcessCompletions nic d" and ?r = "rt_rx j d"
  have inv: "dev_inv [] d" "rts_ok (\<lambda>_. 0) d" using assms(1) by (simp_all add: dev_ok_def)
  note pc = process_completions [OF inv, of nic, simplified]
  have at: "rx_at ?r d" "?r < length (rx_pipes d)" using assms(3) by (simp_all add: lockstep_def rx_at_def)
  note cur = cursors_ep [OF process_cursors at(2), of nic]
  have rt0: "rt_rx j ?d0 = ?r" "rt_tx j ?d0 = rt_tx j d" "j < length (rx_tx_pipes ?d0)" using pc(8,9) assms(2) by simp_all
  have "rt_tx j d < length (tx_pipes d)" using inv(2) assms(2) by (simp add: rts_ok_def rt_ok_def Let_def)
  then have lock0: "lockstep j ?d0" using assms(3) cur pc(6) rt0 by (simp add: lockstep_def)
  from assms(4) rt0 have recv: "RecvMessages ?r lim ?d0 = Some (b, d1)" and k: "k = PeekPktIterator"
    by (auto simp: RxTxPipe_PeekPkts_def PeekPkts_def Let_def)
  then obtain recv buf where peek: "RxPipe_Peek ?r (NOT 0) ?d0 = Some (recv, buf, d1)" by (auto simp: RecvMessages_def)
  have only: "rx_only ?d0 d1" by (rule peek_only [OF peek])
  have ep: "rx_ep ?r d1 = rx_ep ?r ?d0" using peek by (rule RxPipe_Peek_cases) simp
  have "dev_ok ?d0" by (rule process_ok [OF assms(1)])
  then show "dev_ok d1" by (rule rx_only_ok [OF only])
  show "j < length (rx_tx_pipes d1)" "rt_rx j d1 = ?r" "rt_tx j d1 = rt_tx j d" "lockstep j d1"
    using only rt0 ep lock0 by (simp_all add: rx_only_def lockstep_def rx_at_def)
  show "ep_buf (rx_ep ?r d1) = ep_buf (rx_ep ?r d)" "ep_rx_tail (rx_ep ?r d1) = ep_rx_tail (rx_ep ?r d)" using ep cur by simp_all
  show "\<exists>d0. RecvMessages ?r lim d0 = Some (b, d1) \<and> rx_at ?r d0 \<and> rx_ep ?r d1 = rx_ep ?r d0"
    using recv cur(4) at ep by blast
  show "k = PeekPktIterator" by (rule k)
qed

lemma echo_loop:
  assumes "RecvMessages r (- 1) d0 = Some (b, d1)" "rx_at r d0" "unat (rx_announced r d1) < pipe_N"
    and "unat (ep_buf (rx_ep r d0)) + 2 ^ 23 < 2 ^ 64" "\<forall>f\<in>set fs. frame_ok f"
    and "ring_slice page_N page (64 * unat (ep_rx_tail (rx_ep r d0))) (rx_unread r d1) = concat fs"
  shows "for_each PeekPktIterator (ep_buf (rx_ep r d0)) (echo_body (ep_buf (rx_ep r d0))) b d1 (page, stats) =
    Some (b\<lparr>mb_processed_bytes := of_nat (length (concat fs))\<rparr>, d1,
      ring_put page_N page (64 * unat (ep_rx_tail (rx_ep r d0))) (concat (map (\<lambda>f. f[63 := f ! 63 + 1]) fs)),
      stats\<lparr>st_nb_pkts := st_nb_pkts stats + of_nat (length fs)\<rparr>)"
proof -
  have "length (concat fs) = rx_unread r d1" using arg_cong [OF assms(6), of length] by simp
  moreover have "unat (- 1 :: u32) = 4294967295"
  proof -
    have "(- 1 :: u32) = 4294967295" by simp
    then show ?thesis by (simp only:) simp
  qed
  ultimately have "length fs \<le> unat (- 1 :: u32)" using frames_count [OF assms(5)] rx_unread_less [of r d1] by linarith
  then show ?thesis
    using echo.for_each_frames [OF assms, of PeekPktIterator stats] by (simp add: echo_handle_all Let_def)
qed


section \<open>An echo server with two packets\<close>

text \<open>
  Two packets of one unit each, all bytes zero, at the start of the buffer; the third unit is free.
\<close>

definition echo_dev :: Device where
  "echo_dev = (new_device (nb_zero\<lparr>pending_rx_pipe_tails := (\<lambda>_. 2)\<rparr>) (\<lambda>_. \<lparr>pr_pipe_id = 0, pr_nb_bytes = 0\<rparr>))
     \<lparr>rx_pipes := [\<lparr>rp_next_pipe = True, rp_id = 0, internal_rx_pipe =
        \<lparr>ep_buf = 4096, ep_buf_phys_addr = 0, ep_regs = regs_zero, ep_rx_head = 0, ep_rx_tail = 0, ep_phys_buf_offset = 0, ep_id = 0\<rparr>\<rparr>],
      tx_pipes := [\<lparr>tp_kId = 0, tp_buf = 4096, tp_internal_buf = False, app_begin = 0, app_end = 0, tp_buf_phys_addr = 0\<rparr>],
      rx_tx_pipes := [\<lparr>rt_rx_pipe = 0, rt_tx_pipe = 0, last_tx_pipe_capacity = kBufMask\<rparr>]\<rparr>"

definition stats_zero :: stats_t where
  "stats_zero = \<lparr>st_recv_bytes = 0, st_nb_batches = 0, st_nb_pkts = 0\<rparr>"

lemma frame_zero: "frame_ok (replicate 64 0)"
  by (simp add: frame_ok_def frame_len_def flits_def)

lemma zero_page: "ring_slice N (\<lambda>_. 0) h n = replicate n 0"
  by (rule nth_equalityI) simp_all

lemma echo_dev_ok: "dev_ok echo_dev" "lockstep 0 echo_dev"
proof -
  let ?d0 = "new_device (nb_zero\<lparr>pending_rx_pipe_tails := (\<lambda>_. 2)\<rparr>) (\<lambda>_. \<lparr>pr_pipe_id = 0, pr_nb_bytes = 0\<rparr>)"
  let ?rx = "\<lparr>rp_next_pipe = True, rp_id = 0, internal_rx_pipe =
        \<lparr>ep_buf = 4096, ep_buf_phys_addr = 0, ep_regs = regs_zero, ep_rx_head = 0, ep_rx_tail = 0, ep_phys_buf_offset = 0, ep_id = 0\<rparr>\<rparr>"
  let ?tx = "\<lparr>tp_kId = 0, tp_buf = 4096, tp_internal_buf = False, app_begin = 0, app_end = 0, tp_buf_phys_addr = 0\<rparr> :: TxPipe"
  have "nb_idle nb_zero" using tx_inv_zero by (intro nb_idle_I) (simp_all add: nb_zero_def)
  then have idle: "nb_idle (nb_zero\<lparr>pending_rx_pipe_tails := (\<lambda>_. 2)\<rparr>)" by (rule nb_idle_same [rotated]) (simp add: tx_same_def)
  have "dev_ok ?d0" using idle
    by (simp add: dev_ok_def dev_inv_def nb_idle_def rts_ok_def new_device_def requests_def pr_wf_def)
  from dev_ok_add_rx [OF this, where p = ?rx and m = "\<lambda>_. None"]
  have "dev_ok (?d0\<lparr>rx_pipes := [?rx]\<rparr>)" by (simp add: new_device_def)
  from dev_ok_add_tx [OF this, where p = ?tx]
  have "dev_ok (?d0\<lparr>rx_pipes := [?rx], tx_pipes := [?tx]\<rparr>)" by (simp add: new_device_def fresh_tx_def)
  from dev_ok_add_rt [OF this, where i = 0 and r = 0 and m = "\<lambda>_. None"] show "dev_ok echo_dev"
    by (simp add: new_device_def fresh_tx_def echo_dev_def capacity_def)
  show "lockstep 0 echo_dev" by (simp add: echo_dev_def lockstep_def rx_at_def)
qed

lemma echo_dev_process:
  "\<exists>nb. ProcessCompletions nic_eager echo_dev = echo_dev\<lparr>dev_nb := nb\<rparr> \<and> pending_rx_pipe_tails nb = (\<lambda>_. 2)"
  by (simp add: ProcessCompletions_def echo_dev_def new_device_def get_unreported_completions_def update_tx_head_def nic_poll_def nb_zero_def
      RxTxPipe_ProcessCompletions_def capacity_def Let_def)

lemma echo_dev_unread:
  assumes "pending_rx_pipe_tails nb = (\<lambda>_. 2)"
  shows "rx_unread 0 (echo_dev\<lparr>dev_nb := nb\<rparr>) = 128" "rx_room 0 (echo_dev\<lparr>dev_nb := nb\<rparr>) = page_N"
  using assms by (simp_all add: rx_unread_def rx_room_def echo_dev_def ring_dist_def)

lemma echo_dev_recv: "\<exists>b. RecvMessages 0 lim (echo_dev\<lparr>dev_nb := nb\<rparr>) = Some (b, echo_dev\<lparr>dev_nb := nb\<rparr>)"
  by (simp add: RecvMessages_def RxPipe_Peek_def echo_dev_def peek_next_batch_from_queue_def consume_queue_def upd_rx_def Let_def)

theorem recv_pkts_exact_witness:
  "\<exists>b b' d2 page' s'. RecvPkts 0 1 echo_dev = Some (PktIterator, b, echo_dev) \<and>
     for_each PktIterator 4096 (echo_body 4096) b echo_dev (\<lambda>_. 0, stats_zero) = Some (b', d2, page', s') \<and>
     unat (mb_processed_bytes b') = 64 \<and> st_nb_pkts s' = 1 \<and>
     ring_slice page_N page' 0 64 = (replicate 64 0)[63 := 1] \<and>
     ring_slice page_N page' (64 * unat (ep_rx_tail (rx_ep 0 d2))) (rx_unread 0 d2) = replicate 64 0"
proof -
  let ?fs = "[replicate 64 0, replicate 64 0] :: u8 list list"
  have nb: "echo_dev\<lparr>dev_nb := dev_nb echo_dev\<rparr> = echo_dev" "pending_rx_pipe_tails (dev_nb echo_dev) = (\<lambda>_. 2)"
    by (simp_all add: echo_dev_def new_device_def)
  then obtain b where b: "RecvPkts 0 1 echo_dev = Some (PktIterator, b, echo_dev)"
    using echo_dev_recv [of 1 "dev_nb echo_dev"] by (auto simp: RecvPkts_def)
  have un: "rx_unread 0 echo_dev = 128" using echo_dev_unread(1) [OF nb(2)] nb(1) by simp
  have ep: "ep_buf (rx_ep 0 echo_dev) = 4096" "ep_rx_tail (rx_ep 0 echo_dev) = 0" "rx_at 0 echo_dev"
    by (simp_all add: echo_dev_def rx_at_def)
  have "ring_slice page_N (\<lambda>_. 0 :: u8) (64 * unat (ep_rx_tail (rx_ep 0 echo_dev))) (rx_unread 0 echo_dev) = concat ?fs"
    by (simp add: un zero_page flip: replicate_add)
  from recv_pkts_exact [OF echo.pkt_handler_axioms b ep(3) _ _ _ this, of stats_zero]
  show ?thesis using b ep frame_zero nb(2)
    by (fastforce simp: echo_handle_all echo_handle_def stats_zero_def)
qed


end
