(* ===== verification/Gen_Buffers.thy ===== *)
theory Gen_Buffers
  imports Pkt_Batch Pcie_Init
begin

text \<open>
  The packet generator, \<^verbatim>\<open>software/examples/ensogen.cpp\<close>, before it sends: packets of a trace are copied
  into buffers of 128 KB on huge pages (\<^verbatim>\<open>pcap_pkt_handler\<close>), the packets of a small trace are repeated in
  their buffer, and \<^verbatim>\<open>main\<close> computes how many bytes make up the number of packets to send.

  A buffer carries its own bytes: \<open>gp_mem b i\<close> is the byte at \<^verbatim>\<open>buf + i\<close>. The function \<open>v2p\<close> is the
  translation of addresses (\<open>gen_virt_to_phys\<close> for the process's page map), \<open>fresh\<close> the bytes of newly mapped memory, \<open>pc id\<close> the answers of the operating
  system when the page number \<open>id\<close> is requested.
\<close>

section \<open>Buffers\<close>

definition BUFFER_SIZE :: u32 where "BUFFER_SIZE = kMaxTransferLen"
definition HUGEPAGE_SIZE :: u64 where "HUGEPAGE_SIZE = push_bit 20 2"

record EnsoPipe =
  gp_buf :: u64
  gp_mem :: "u8 arr"
  gp_length :: u32
  gp_good_bytes :: u32
  gp_nb_pkts :: u32
  gp_phys_addr :: u64

record PcapHandlerContext =
  enso_pipes :: "EnsoPipe list"
  free_flits :: u32
  hugepage_offset :: u32
  pcap_break :: bool
  page_id :: nat
  ctx_os :: os

text \<open>The generator's own \<^verbatim>\<open>get_huge_page\<close>: the file is unlinked at once, on success too.\<close>

definition gen_page_path :: "nat \<Rightarrow> string" where
  "gen_page_path n = ''/mnt/huge/ensogen:'' @ nat_string n"

definition gen_get_huge_page :: "page_calls \<Rightarrow> string \<Rightarrow> u64 \<Rightarrow> os \<Rightarrow> u64 \<times> os" where
  "gen_get_huge_page pc path sz s =
     (if \<not> pc_open pc then (0, s)
      else
        let s1 = s\<lparr>os_files := List.insert path (os_files s), os_fds := Suc (os_fds s)\<rparr> in
        if \<not> pc_truncate pc then (0, os_unlink path (os_close s1))
        else case pc_map pc of
          None \<Rightarrow> (0, os_unlink path (os_close s1))
        | Some virt_addr \<Rightarrow>
            let s2 = s1\<lparr>os_maps := (virt_addr, sz) # os_maps s1\<rparr> in
            if \<not> pc_lock pc then (0, os_unlink path (os_close (os_munmap virt_addr sz s2)))
            else (virt_addr, os_unlink path (os_close s2)))"

text \<open>The generator's own \<^verbatim>\<open>virt_to_phys\<close>; \<open>pagemap\<close> is \<^verbatim>\<open>/proc/self/pagemap\<close> as in \<open>Huge_Pages\<close>.\<close>

definition gen_virt_to_phys :: "(u64 \<Rightarrow> u64 option) \<Rightarrow> u64 \<Rightarrow> u64 \<Rightarrow> u64" where
  "gen_virt_to_phys pagemap pagesize virt =
     (case pagemap (virt div pagesize) of
        None \<Rightarrow> 0
      | Some phy \<Rightarrow> if phy = 0 then 0 else (phy AND 0x7fffffffffffff) * pagesize + virt mod pagesize)"

definition new_pipe :: "(u64 \<Rightarrow> u64) \<Rightarrow> (u64 \<Rightarrow> u8) \<Rightarrow> u64 \<Rightarrow> EnsoPipe" where
  "new_pipe v2p fresh buf = \<lparr>gp_buf = buf, gp_mem = (\<lambda>i. fresh (buf + of_nat i)), gp_length = 0, gp_good_bytes = 0,
     gp_nb_pkts = 0, gp_phys_addr = v2p buf\<rparr>"

section \<open>Reading the trace\<close>

definition place_pkt :: "u8 arr \<Rightarrow> u32 \<Rightarrow> u32 \<Rightarrow> EnsoPipe \<Rightarrow> EnsoPipe" where
  "place_pkt pkt len nb_flits b =
     (let dest = unat (gp_length b) in
      b\<lparr>gp_mem := (\<lambda>i. if dest \<le> i \<and> i < dest + unat len then pkt (i - dest) else gp_mem b i),
        gp_length := gp_length b + nb_flits * 64, gp_good_bytes := gp_good_bytes b + len, gp_nb_pkts := gp_nb_pkts b + 1\<rparr>)"

definition place_last :: "u8 arr \<Rightarrow> u32 \<Rightarrow> u32 \<Rightarrow> PcapHandlerContext \<Rightarrow> PcapHandlerContext" where
  "place_last pkt len nb_flits ctx =
     ctx\<lparr>enso_pipes := butlast (enso_pipes ctx) @ [place_pkt pkt len nb_flits (last (enso_pipes ctx))],
         free_flits := free_flits ctx - nb_flits\<rparr>"

definition add_buffer :: "(u64 \<Rightarrow> u64) \<Rightarrow> (u64 \<Rightarrow> u8) \<Rightarrow> u64 \<Rightarrow> u32 \<Rightarrow> PcapHandlerContext \<Rightarrow> PcapHandlerContext" where
  "add_buffer v2p fresh buf offset ctx =
     ctx\<lparr>hugepage_offset := offset, enso_pipes := enso_pipes ctx @ [new_pipe v2p fresh buf], free_flits := BUFFER_SIZE div 64\<rparr>"

text \<open>The handler ends the program with the exit code on the left, or returns.\<close>

definition pcap_pkt_handler :: "(u64 \<Rightarrow> u64) \<Rightarrow> (u64 \<Rightarrow> u8) \<Rightarrow> (nat \<Rightarrow> page_calls) \<Rightarrow> u8 arr \<Rightarrow> PcapHandlerContext \<Rightarrow>
    int + PcapHandlerContext" where
  "pcap_pkt_handler v2p fresh pc pkt ctx =
     (if \<not> (pkt 12 = 0x08 \<and> pkt 13 = 0x00) then Inl 8
      else
        let len = ucast (get_pkt_len 0 pkt 0) :: u32;
            nb_flits = (len - 1) div 64 + 1 in
        if nb_flits > free_flits ctx then
          if (ucast (hugepage_offset ctx + BUFFER_SIZE) :: u64) > HUGEPAGE_SIZE then
            let (buf, os') = gen_get_huge_page (pc (page_id ctx)) (gen_page_path (page_id ctx)) HUGEPAGE_SIZE (ctx_os ctx);
                ctx1 = ctx\<lparr>page_id := Suc (page_id ctx), ctx_os := os'\<rparr> in
            if buf = 0 then Inr (ctx1\<lparr>pcap_break := True\<rparr>)
            else Inr (place_last pkt len nb_flits (add_buffer v2p fresh buf BUFFER_SIZE ctx1))
          else
            Inr (place_last pkt len nb_flits (add_buffer v2p fresh (gp_buf (last (enso_pipes ctx)) + ucast BUFFER_SIZE)
              (hugepage_offset ctx + BUFFER_SIZE) ctx))
        else Inr (place_last pkt len nb_flits ctx))"

definition ctx_init :: "os \<Rightarrow> PcapHandlerContext" where
  "ctx_init s = \<lparr>enso_pipes = [], free_flits = 0, hugepage_offset = ucast HUGEPAGE_SIZE, pcap_break = False, page_id = 0, ctx_os = s\<rparr>"

section \<open>Repeating a small trace\<close>

definition fill_step :: "u32 \<Rightarrow> u32 \<Rightarrow> u32 \<Rightarrow> EnsoPipe \<Rightarrow> EnsoPipe" where
  "fill_step original_buf_length original_good_bytes original_nb_pkts buffer =
     (let dest = unat (gp_length buffer) in
      buffer\<lparr>gp_mem := (\<lambda>i. if dest \<le> i \<and> i < dest + unat original_buf_length then gp_mem buffer (i - dest) else gp_mem buffer i),
        gp_length := gp_length buffer + original_buf_length, gp_good_bytes := gp_good_bytes buffer + original_good_bytes,
        gp_nb_pkts := gp_nb_pkts buffer + original_nb_pkts\<rparr>)"

partial_function (option) fill_small :: "u32 \<Rightarrow> u32 \<Rightarrow> u32 \<Rightarrow> EnsoPipe \<Rightarrow> EnsoPipe option" where
  "fill_small original_buf_length original_good_bytes original_nb_pkts buffer =
     (if gp_length buffer + original_buf_length \<le> BUFFER_SIZE then
        fill_small original_buf_length original_good_bytes original_nb_pkts
          (fill_step original_buf_length original_good_bytes original_nb_pkts buffer)
      else Some buffer)"

definition repeat_small :: "EnsoPipe list \<Rightarrow> EnsoPipe list option" where
  "repeat_small pipes =
     (if length pipes = 1 \<and> gp_length (hd pipes) < BUFFER_SIZE div 2
      then let b = hd pipes in map_option (\<lambda>b'. [b']) (fill_small (gp_length b) (gp_good_bytes b) (gp_nb_pkts b) b)
      else Some pipes)"

section \<open>How many bytes to send\<close>

fun plan_walk :: "EnsoPipe \<Rightarrow> nat \<Rightarrow> u64 \<Rightarrow> u64 \<Rightarrow> u64 \<Rightarrow> u64 \<times> u64" where
  "plan_walk b 0 pkt tot last_pkts = (tot, last_pkts)"
| "plan_walk b (Suc n) pkt tot last_pkts =
     (let nb_flits = of_int ((uint (get_pkt_len (gp_buf b) (gp_mem b) pkt) - 1) sdiv 64 + 1) :: u16 in
      plan_walk b n (get_next_pkt (gp_buf b) (gp_mem b) pkt) (tot + of_int (uint nb_flits * 64)) (last_pkts + 1))"

fun plan_loop :: "EnsoPipe list \<Rightarrow> u64 \<Rightarrow> u64 \<Rightarrow> u64 \<Rightarrow> u64 \<times> u64" where
  "plan_loop [] remaining tot last_pkts = (tot, last_pkts)"
| "plan_loop (b # bs) remaining tot last_pkts =
     (if remaining < ucast (gp_nb_pkts b) then plan_walk b (unat remaining) (gp_buf b) tot last_pkts
      else plan_loop bs (remaining - ucast (gp_nb_pkts b)) (tot + ucast (gp_length b)) last_pkts)"

text \<open>
  The result is \<^verbatim>\<open>total_bytes_to_send\<close>, \<^verbatim>\<open>total_good_bytes_to_send\<close> and \<^verbatim>\<open>pkts_in_last_buffer\<close>;
  \<open>None\<close> is the division by zero when the trace was empty.
\<close>

definition bytes_to_send :: "u64 \<Rightarrow> EnsoPipe list \<Rightarrow> (u64 \<times> u64 \<times> u64) option" where
  "bytes_to_send nb_pkts pipes =
     (let total_pkts = sum_list (map (\<lambda>b. ucast (gp_nb_pkts b)) pipes);
          total_bytes = sum_list (map (\<lambda>b. ucast (gp_length b)) pipes);
          total_good = sum_list (map (\<lambda>b. ucast (gp_good_bytes b)) pipes) in
      if nb_pkts > 0 then
        if total_pkts = 0 then None
        else
          let nb_pkts_remaining = nb_pkts mod total_pkts; nb_full_iters = nb_pkts div total_pkts;
              pkts_in_last = (if nb_pkts_remaining = 0 then ucast (gp_nb_pkts (last pipes)) else 0);
              (tot, last_pkts) = plan_loop pipes nb_pkts_remaining (nb_full_iters * total_bytes) pkts_in_last in
          Some (tot, nb_full_iters * total_good, last_pkts)
      else Some (0xffffffffffffffff, 0xffffffffffffffff, 0))"


section \<open>What the buffers hold\<close>

text \<open>\<open>holds b fs\<close>: the buffer consists of the packets \<open>fs\<close>, each padded to a multiple of 64 bytes, and counts them.\<close>

definition holds :: "EnsoPipe \<Rightarrow> u8 list list \<Rightarrow> bool" where
  "holds b fs \<longleftrightarrow> (\<forall>f \<in> set fs. frame_ok f) \<and> length (concat fs) \<le> 131072 \<and>
     ring_slice page_N (gp_mem b) 0 (length (concat fs)) = concat fs \<and>
     unat (gp_length b) = length (concat fs) \<and> unat (gp_nb_pkts b) = length fs \<and>
     unat (gp_good_bytes b) = sum_list (map frame_len fs)"

lemma holds_D:
  assumes "holds b fs"
  shows "\<forall>f \<in> set fs. frame_ok f" "gp_length b = of_nat (length (concat fs))" "gp_nb_pkts b = of_nat (length fs)"
    "length (concat fs) \<le> 131072" "length fs \<le> 2048" "ring_slice page_N (gp_mem b) 0 (length (concat fs)) = concat fs"
proof -
  show "\<forall>f \<in> set fs. frame_ok f" "ring_slice page_N (gp_mem b) 0 (length (concat fs)) = concat fs"
    using assms by (auto simp: holds_def)
  show len: "length (concat fs) \<le> 131072" using assms by (simp add: holds_def)
  show "length fs \<le> 2048" using assms len frames_count [of fs] by (simp add: holds_def)
  show "gp_length b = of_nat (length (concat fs))" "gp_nb_pkts b = of_nat (length fs)"
    using assms by (auto simp: holds_def intro!: word_eq_of_nat)
qed

lemma holds_nth:
  assumes "holds b fs" "i < length (concat fs)"
  shows "gp_mem b i = concat fs ! i"
  using nth_ring_slice [OF assms(2), of page_N "gp_mem b" 0, unfolded holds_D(6) [OF assms(1)]] assms(2) holds_D(4) [OF assms(1)]
  by simp

lemma frame_at:
  assumes "ring_slice page_N m 0 (length (xs @ f @ ys)) = xs @ f @ ys"
  shows "ring_slice page_N m (length xs) (length f) = f"
proof -
  have "ring_slice page_N m (0 + length xs) (length f) @ ring_slice page_N m (length xs + length f) (length ys) = f @ ys"
    using assms ring_slice_append [of page_N m 0 "length xs" "length f + length ys"]
      ring_slice_append [of page_N m "length xs" "length f" "length ys"]
    by (simp add: append_eq_append_conv)
  then show ?thesis by (simp add: append_eq_append_conv)
qed

lemma pkt_flits_frame:
  assumes "frame_ok f" "ring_slice page_N page i (length f) = f"
  shows "of_int (uint (of_int ((uint (get_pkt_len base page (base + of_nat i)) - 1) sdiv 64 + 1) :: u16) * 64) = (of_nat (length f) :: u64)"
proof -
  have "get_next_pkt base page (base + of_nat i) = base + of_nat i +
      of_int (uint (of_int ((uint (get_pkt_len base page (base + of_nat i)) - 1) sdiv 64 + 1) :: u16) * 64)"
    unfolding get_next_pkt_def Let_def by (rule refl)
  with next_pkt_frame [OF assms, of base] show ?thesis by (simp add: add.assoc)
qed

lemma plan_walk_eq:
  assumes "\<forall>f \<in> set (pre @ rest). frame_ok f" "ring_slice page_N (gp_mem b) 0 (length (concat (pre @ rest))) = concat (pre @ rest)" "n \<le> length rest"
  shows "plan_walk b n (gp_buf b + of_nat (length (concat pre))) tot k =
    (tot + of_nat (length (concat (take n rest))), k + of_nat n)"
  using assms
proof (induction n arbitrary: pre rest tot k)
  case (Suc n)
  then obtain f fs where rest: "rest = f # fs" by (cases rest) auto
  have ok: "frame_ok f" using Suc.prems(1) rest by simp
  have at: "ring_slice page_N (gp_mem b) (length (concat pre)) (length f) = f"
    by (rule frame_at [of _ _ _ "concat fs"]) (use Suc.prems(2) rest in simp)
  note step = next_pkt_frame [OF ok at, of "gp_buf b"] pkt_flits_frame [OF ok at, of "gp_buf b"]
  have "plan_walk b n (gp_buf b + of_nat (length (concat (pre @ [f])))) (tot + of_nat (length f)) (k + 1) =
      (tot + of_nat (length f) + of_nat (length (concat (take n fs))), k + 1 + of_nat n)"
    by (rule Suc.IH) (use Suc.prems rest in simp_all)
  then show ?case unfolding plan_walk.simps Let_def step by (simp add: rest add.assoc)
qed simp

fun in_last :: "nat \<Rightarrow> 'a list list \<Rightarrow> nat" where
  "in_last r [] = 0"
| "in_last r (fs # fss) = (if r < length fs then r else in_last (r - length fs) fss)"

lemma plan_loop_eq:
  assumes "list_all2 holds bs fss" "r < length (concat fss) \<or> r = 0" "r < 2 ^ 64"
  shows "plan_loop bs (of_nat r) tot k =
    (tot + of_nat (length (concat (take r (concat fss)))), k + of_nat (in_last r fss))"
  using assms
proof (induction arbitrary: r tot rule: list_all2_induct)
  case (Cons b bs fs fss)
  note h = holds_D [OF Cons.hyps(1)]
  have n: "unat (gp_nb_pkts b) = length fs" using Cons.hyps(1) by (simp add: holds_def)
  have n64: "(ucast (gp_nb_pkts b) :: u64) = of_nat (length fs)" using n by (intro word_eq_of_nat) simp
  have r: "unat (of_nat r :: u64) = r" using Cons.prems(2) by (intro unat_of_nat_small) simp
  show ?case
  proof (cases "r < length fs")
    case True
    have "plan_walk b r (gp_buf b) tot k = (tot + of_nat (length (concat (take r fs))), k + of_nat r)"
      using plan_walk_eq [of "[]" fs b r tot k] h True by simp
    then show ?thesis using True by (simp add: word_less_nat_alt n r)
  next
    case False
    have sub: "(of_nat r :: u64) - ucast (gp_nb_pkts b) = of_nat (r - length fs)"
      using False by (simp add: n64 of_nat_diff)
    have "(ucast (gp_length b) :: u64) = of_nat (length (concat fs))"
      using Cons.hyps(1) by (intro word_eq_of_nat) (simp add: holds_def)
    moreover have "plan_loop bs (of_nat (r - length fs)) (tot + of_nat (length (concat fs))) k =
        (tot + of_nat (length (concat fs)) + of_nat (length (concat (take (r - length fs) (concat fss)))),
         k + of_nat (in_last (r - length fs) fss))"
      using Cons.prems False by (intro Cons.IH) auto
    ultimately show ?thesis using False by (simp add: word_less_nat_alt n r sub add.assoc)
  qed
qed simp

lemma good_bytes_le: "\<forall>f \<in> set fs. frame_ok f \<Longrightarrow> sum_list (map frame_len fs) \<le> length (concat fs)"
proof (induction fs)
  case (Cons f fs)
  have "frame_len f \<le> length f" using Cons.prems by (simp add: frame_ok_def flits_def)
  with Cons show ?case by simp
qed simp

lemma holds_extend:
  assumes "holds b fs" "\<forall>g \<in> set gs. frame_ok g" "length (concat fs) + length (concat gs) \<le> 131072"
    and "\<And>i. i < length (concat fs) \<Longrightarrow> m i = gp_mem b i" "\<And>i. i < length (concat gs) \<Longrightarrow> m (length (concat fs) + i) = concat gs ! i"
    and "l = of_nat (length (concat gs))" "g = of_nat (sum_list (map frame_len gs))" "n = of_nat (length gs)"
  shows "holds (b\<lparr>gp_mem := m, gp_length := gp_length b + l, gp_good_bytes := gp_good_bytes b + g, gp_nb_pkts := gp_nb_pkts b + n\<rparr>) (fs @ gs)"
proof -
  have ok: "\<forall>f \<in> set (fs @ gs). frame_ok f" using assms(1,2) by (auto simp: holds_def)
  note frames_count [OF ok] good_bytes_le [OF ok]
  moreover have "ring_slice page_N m 0 (length (concat (fs @ gs))) = concat (fs @ gs)"
  proof (rule nth_equalityI)
    fix i assume i: "i < length (ring_slice page_N m 0 (length (concat (fs @ gs))))"
    then have lt: "i < page_N" using assms(3) by simp
    have "gp_mem b i = concat fs ! i" if "i < length (concat fs)" using holds_nth [OF assms(1) that] .
    moreover have "m i = concat gs ! (i - length (concat fs))" if "\<not> i < length (concat fs)"
      using that i assms(5) [of "i - length (concat fs)"] by simp
    ultimately show "ring_slice page_N m 0 (length (concat (fs @ gs))) ! i = concat (fs @ gs) ! i"
      using i lt assms(4) by (auto simp: nth_append)
  qed simp
  ultimately show ?thesis using assms(1,3,6-8) ok by (simp add: holds_def unat_plus_small unat_of_nat_small)
qed

lemma sum_counts:
  assumes "list_all2 holds bs fss"
  shows "sum_list (map (\<lambda>b. ucast (gp_nb_pkts b)) bs) = (of_nat (length (concat fss)) :: u64)"
    "sum_list (map (\<lambda>b. ucast (gp_length b)) bs) = (of_nat (length (concat (concat fss))) :: u64)"
    "sum_list (map (\<lambda>b. ucast (gp_good_bytes b)) bs) = (of_nat (sum_list (map frame_len (concat fss))) :: u64)"
proof -
  have e: "(ucast (gp_nb_pkts b) :: u64) = of_nat (length fs)" "(ucast (gp_length b) :: u64) = of_nat (length (concat fs))"
    "(ucast (gp_good_bytes b) :: u64) = of_nat (sum_list (map frame_len fs))" if "holds b fs" for b fs
    using that by (auto simp: holds_def intro!: word_eq_of_nat)
  from assms show "sum_list (map (\<lambda>b. ucast (gp_nb_pkts b)) bs) = (of_nat (length (concat fss)) :: u64)"
    "sum_list (map (\<lambda>b. ucast (gp_length b)) bs) = (of_nat (length (concat (concat fss))) :: u64)"
    "sum_list (map (\<lambda>b. ucast (gp_good_bytes b)) bs) = (of_nat (sum_list (map frame_len (concat fss))) :: u64)"
    by (induction rule: list_all2_induct) (simp_all add: e)
qed

lemma in_last_0 [simp]: "in_last 0 fss = 0"
  by (induction fss) auto

lemma bytes_to_send_eq:
  assumes "list_all2 holds bs fss" "0 < length (concat fss)" "length (concat fss) < 2 ^ 64" "0 < n" "n < 2 ^ 64"
  shows "let T = length (concat fss); q = n div T; r = n mod T in
    bytes_to_send (of_nat n) bs =
      Some (of_nat (q * length (concat (concat fss)) + length (concat (take r (concat fss)))),
            of_nat (q * sum_list (map frame_len (concat fss))),
            of_nat (if r = 0 then length (last fss) else in_last r fss))"
proof -
  let ?T = "length (concat fss)"
  note c = sum_counts [OF assms(1)]
  have un: "unat (of_nat ?T :: u64) = ?T" "unat (of_nat n :: u64) = n" using assms(3,5) by (simp_all add: unat_of_nat_small)
  have div: "(of_nat n :: u64) div of_nat ?T = of_nat (n div ?T)" "(of_nat n :: u64) mod of_nat ?T = of_nat (n mod ?T)"
    by (intro word_eq_of_nat, simp add: unat_div unat_mod un)+
  have r: "n mod ?T < ?T" using assms(2) by (rule mod_less_divisor)
  then have r64: "n mod ?T < 2 ^ 64" using assms(3) by (rule order.strict_trans)
  have z: "(of_nat (n mod ?T) :: u64) = 0 \<longleftrightarrow> n mod ?T = 0" "(of_nat ?T :: u64) \<noteq> 0" "0 < (of_nat n :: u64)"
    using unat_of_nat_small [of "n mod ?T", where ?'a = 64] r64 un assms(2,4) by (auto simp: word_unat_eq_iff word_less_nat_alt)
  have "bs \<noteq> []" "fss \<noteq> []" using assms(1,2) by auto
  then have "holds (last bs) (last fss)" using assms(1) by (simp add: list_all2_conv_all_nth last_conv_nth)
  then have last: "(ucast (gp_nb_pkts (last bs)) :: u64) = of_nat (length (last fss))"
    by (intro word_eq_of_nat) (simp add: holds_def)
  note p = plan_loop_eq [OF assms(1) disjI1 [OF r] r64]
  show ?thesis unfolding bytes_to_send_def Let_def c div p using z last by simp
qed

lemma length_repeat [simp]: "length (concat (concat (replicate m fs))) = m * length (concat fs)"
  by (induction m) simp_all

lemma fill_step_simps [simp]:
  "gp_buf (fill_step l g n b) = gp_buf b" "gp_phys_addr (fill_step l g n b) = gp_phys_addr b"
  by (simp_all add: fill_step_def Let_def)

lemma holds_repeat:
  assumes "holds b (concat (replicate m fs))" "0 < m" "holds b0 fs" "Suc m * length (concat fs) \<le> 131072"
  shows "holds (fill_step (gp_length b0) (gp_good_bytes b0) (gp_nb_pkts b0) b) (concat (replicate (Suc m) fs))"
proof -
  let ?L = "length (concat fs)" and ?d = "unat (gp_length b)"
  have first: "gp_mem b i = concat fs ! i" if "i < ?L" for i
  proof -
    obtain m' where m': "m = Suc m'" using assms(2) by (cases m) auto
    have "gp_mem b i = concat (concat (replicate m fs)) ! i" using that by (intro holds_nth [OF assms(1)]) (simp add: m')
    then show ?thesis using that by (simp add: m' nth_append)
  qed
  have eqs: "?d = m * ?L" "unat (gp_length b0) = ?L" "gp_length b0 = of_nat ?L" "gp_nb_pkts b0 = of_nat (length fs)"
    "gp_good_bytes b0 = of_nat (sum_list (map frame_len fs))"
    using assms(1,3) holds_D(2,3) [OF assms(3)] by (auto simp: holds_def intro: word_eq_of_nat)
  have "holds (fill_step (gp_length b0) (gp_good_bytes b0) (gp_nb_pkts b0) b) (concat (replicate m fs) @ fs)"
    unfolding fill_step_def Let_def
    using assms(4) first by (intro holds_extend [OF assms(1) holds_D(1) [OF assms(3)]]) (simp_all add: eqs(1,2), simp_all add: eqs)
  moreover have "concat (replicate (Suc m) fs) = concat (replicate m fs) @ fs" by (induction m) simp_all
  ultimately show ?thesis by (simp only:)
qed

lemma fill_fits:
  assumes "holds b (concat (replicate m fs))" "holds b0 fs"
  shows "gp_length b + gp_length b0 \<le> BUFFER_SIZE \<longleftrightarrow> Suc m * length (concat fs) \<le> 131072"
proof -
  have "unat (gp_length b) = m * length (concat fs)" "unat (gp_length b0) = length (concat fs)"
    "unat (gp_length b) \<le> 131072" "unat (gp_length b0) \<le> 131072"
    using assms by (simp_all add: holds_def)
  moreover from this(3,4) have "unat (gp_length b + gp_length b0) = unat (gp_length b) + unat (gp_length b0)"
    by (intro unat_plus_small) simp
  ultimately show ?thesis
    by (simp add: word_le_nat_alt BUFFER_SIZE_def kMaxTransferLen_def) (simp add: add.commute)
qed

lemma fill_small_ends:
  assumes b0: "holds b0 fs" "fs \<noteq> []"
    and b: "holds b (concat (replicate m fs))" "0 < m" "131072 div length (concat fs) - m = k"
  shows "\<exists>b'. fill_small (gp_length b0) (gp_good_bytes b0) (gp_nb_pkts b0) b = Some b' \<and>
    holds b' (concat (replicate (131072 div length (concat fs)) fs)) \<and> gp_buf b' = gp_buf b \<and> gp_phys_addr b' = gp_phys_addr b"
  using b
proof (induction k arbitrary: b m)
  let ?L = "length (concat fs)"
  have "0 < length fs" using b0(2) by simp
  then have L: "0 < ?L" using frames_count [OF holds_D(1) [OF b0(1)]] by linarith
  note le = less_eq_div_iff_mult_less_eq [OF L]
  {
    case 0
    then have "m \<le> 131072 div ?L" using holds_D(4) [OF 0(1)] by (simp add: le)
    with 0 have m: "m = 131072 div ?L" by simp
    then have "\<not> Suc m * ?L \<le> 131072" by (simp add: le [symmetric] del: mult_Suc)
    then have "fill_small (gp_length b0) (gp_good_bytes b0) (gp_nb_pkts b0) b = Some b"
      using fill_fits [OF 0(1) b0(1)] by (subst fill_small.simps) simp
    then show ?case using 0(1) m by simp
  next
    case (Suc k)
    then have "Suc m \<le> 131072 div ?L" by simp
    then have lt: "Suc m * ?L \<le> 131072" by (simp add: le del: mult_Suc)
    note h = holds_repeat [OF Suc.prems(1,2) b0(1) lt]
    have "\<exists>b'. fill_small (gp_length b0) (gp_good_bytes b0) (gp_nb_pkts b0) (fill_step (gp_length b0) (gp_good_bytes b0) (gp_nb_pkts b0) b) = Some b' \<and>
      holds b' (concat (replicate (131072 div ?L) fs)) \<and> gp_buf b' = gp_buf b \<and> gp_phys_addr b' = gp_phys_addr b"
      using Suc.IH [OF h] Suc.prems(3) by simp
    then show ?case using fill_fits [OF Suc.prems(1) b0(1)] lt by (subst fill_small.simps) simp
  }
qed

section \<open>From the trace to the buffers\<close>

text \<open>A packet of the trace: IPv4, captured as a whole, with a length that fits into 16 bits.\<close>

definition pkt_ok :: "u8 list \<Rightarrow> bool" where
  "pkt_ok p \<longleftrightarrow> 18 \<le> length p \<and> length p = frame_len p \<and> frame_len p < 65536 \<and> p ! 12 = 0x08 \<and> p ! 13 = 0x00"

text \<open>The buffers hold the packets \<open>fss\<close>, and the free space is that of the last buffer.\<close>

definition ctx_ok :: "PcapHandlerContext \<Rightarrow> u8 list list list \<Rightarrow> bool" where
  "ctx_ok ctx fss \<longleftrightarrow> list_all2 holds (enso_pipes ctx) fss \<and> [] \<notin> set fss \<and> unat (hugepage_offset ctx) \<le> 2097152 \<and>
     (if fss = [] then free_flits ctx = 0 \<and> hugepage_offset ctx = 2097152
      else 64 * unat (free_flits ctx) + length (concat (last fss)) = 131072)"

definition carries :: "u8 list \<Rightarrow> u8 list \<Rightarrow> bool" where
  "carries p f \<longleftrightarrow> frame_ok f \<and> take (length p) f = p"

lemma pkt_ok_len:
  assumes "pkt_ok p"
  shows "unat (ucast (get_pkt_len 0 ((!) p) 0) :: u32) = length p"
    "unat ((ucast (get_pkt_len 0 ((!) p) 0) :: u32) - 1) = length p - 1"
    "unat (((ucast (get_pkt_len 0 ((!) p) 0) :: u32) - 1) div 64 + 1) = flits (length p)" "flits (length p) \<le> 1024"
proof -
  let ?len = "ucast (get_pkt_len 0 ((!) p) 0) :: u32"
  have "unat (get_pkt_len 0 ((!) p) 0) = (256 * unat (p ! 16) + unat (p ! 17) + 14) mod 65536"
    by (simp add: unat_get_pkt_len buf_byte_def buf_pos_def)
  then show len: "unat ?len = length p" using assms by (simp add: pkt_ok_def frame_len_def)
  then show pred: "unat (?len - 1) = length p - 1" using assms unat_minus_one [of ?len] by (fastforce simp: pkt_ok_def)
  show fl: "flits (length p) \<le> 1024"
  proof -
    have "length p - 1 \<le> 65534" using assms by (auto simp: pkt_ok_def)
    then show ?thesis using div_le_mono [of "length p - 1" 65534 64] by (simp add: flits_def)
  qed
  then show "unat ((?len - 1) div 64 + 1) = flits (length p)"
    using pred by (simp add: flits_def unat_plus_small unat_div)
qed

lemma place_pkt_ok:
  assumes "holds b fs" "pkt_ok p" "length (concat fs) + 64 * flits (length p) \<le> 131072"
    and "unat len = length p" "unat nb_flits = flits (length p)"
  obtains f where "carries p f" "length f = 64 * flits (length p)" "holds (place_pkt ((!) p) len nb_flits b) (fs @ [f])"
proof -
  let ?d = "length (concat fs)" and ?n = "64 * flits (length p)"
  have le: "length p \<le> ?n" using assms(2) by (simp add: flits_def pkt_ok_def)
  define f where "f = p @ map (gp_mem b) [?d + length p ..< ?d + ?n]"
  have len: "length f = ?n" using le by (simp add: f_def)
  have fl: "frame_len f = frame_len p" using assms(2) by (simp add: f_def frame_len_def pkt_ok_def nth_append)
  have ok: "frame_ok f" using assms(2) len fl by (simp add: frame_ok_def pkt_ok_def)
  have d: "unat (gp_length b) = ?d" using assms(1) by (simp add: holds_def)
  have "holds (place_pkt ((!) p) len nb_flits b) (fs @ [f])"
    unfolding place_pkt_def Let_def d
  proof (rule holds_extend [OF assms(1)])
    fix i assume i: "i < length (concat [f])"
    show "(if ?d \<le> ?d + i \<and> ?d + i < ?d + unat len then p ! (?d + i - ?d) else gp_mem b (?d + i)) = concat [f] ! i"
      using i assms(4) le by (auto simp: f_def nth_append)
  next
    show "nb_flits * 64 = of_nat (length (concat [f]))"
      using assms(3,5) len unat_times_small [of nb_flits 64] by (intro word_eq_of_nat) simp
    show "len = of_nat (sum_list (map frame_len [f]))" using assms(2,4) fl by (intro word_eq_of_nat) (simp add: pkt_ok_def)
  qed (use ok len assms(3) in simp_all)
  moreover have "carries p f" using ok by (simp add: carries_def f_def)
  ultimately show thesis using that len by blast
qed

lemma place_last_ok:
  assumes "list_all2 holds (enso_pipes ctx) (fss @ [fs])" "pkt_ok p" "unat (hugepage_offset ctx) \<le> 2097152" "[] \<notin> set fss"
    and "64 * unat (free_flits ctx) + length (concat fs) = 131072" "flits (length p) \<le> unat (free_flits ctx)"
    and "unat len = length p" "unat nb_flits = flits (length p)"
  shows "\<exists>f. carries p f \<and> ctx_ok (place_last ((!) p) len nb_flits ctx) (fss @ [fs @ [f]])"
proof -
  obtain bs b where bs: "enso_pipes ctx = bs @ [b]" "list_all2 holds bs fss" "holds b fs"
    using assms(1) by (auto simp: list_all2_append2 list_all2_Cons2)
  have "length (concat fs) + 64 * flits (length p) \<le> 131072" using assms(5,6) by linarith
  then obtain f where f: "carries p f" "length f = 64 * flits (length p)" "holds (place_pkt ((!) p) len nb_flits b) (fs @ [f])"
    by (rule place_pkt_ok [OF bs(3) assms(2) _ assms(7,8)])
  have "unat (free_flits ctx - nb_flits) = unat (free_flits ctx) - flits (length p)"
    using assms(6,8) by (simp add: unat_sub word_le_nat_alt)
  with f bs assms(3-6) show ?thesis
    by (auto simp: ctx_ok_def place_last_def bs list_all2_appendI)
qed

lemma add_buffer_ok:
  assumes "list_all2 holds (enso_pipes ctx) fss" "unat offset \<le> 2097152"
  shows "list_all2 holds (enso_pipes (add_buffer v2p fresh buf offset ctx)) (fss @ [[]])"
    "64 * unat (free_flits (add_buffer v2p fresh buf offset ctx)) + length (concat []) = 131072"
    "unat (hugepage_offset (add_buffer v2p fresh buf offset ctx)) \<le> 2097152"
  using assms by (simp_all add: add_buffer_def list_all2_appendI holds_def new_pipe_def BUFFER_SIZE_def kMaxTransferLen_def)

definition received_one :: "u8 list \<Rightarrow> u8 list list list \<Rightarrow> PcapHandlerContext \<Rightarrow> bool" where
  "received_one p fss ctx \<longleftrightarrow> (\<exists>fss' f. ctx_ok ctx fss' \<and> \<not> pcap_break ctx \<and> concat fss' = concat fss @ [f] \<and> carries p f)"

lemma place_new_ok:
  assumes "list_all2 holds (enso_pipes c) fss" "pkt_ok p" "\<not> pcap_break c" "[] \<notin> set fss" "unat o' \<le> 2097152" "unat len = length p" "unat nb_flits = flits (length p)"
  shows "received_one p fss (place_last ((!) p) len nb_flits (add_buffer v2p fresh buf o' c))"
proof -
  note b = add_buffer_ok [OF assms(1,5), of v2p fresh buf]
  have "flits (length p) \<le> unat (free_flits (add_buffer v2p fresh buf o' c))" using b(2) pkt_ok_len(4) [OF assms(2)] by simp
  from place_last_ok [OF b(1) assms(2) b(3) assms(4) b(2) this assms(6,7)] obtain f where
    "carries p f" "ctx_ok (place_last ((!) p) len nb_flits (add_buffer v2p fresh buf o' c)) (fss @ [[] @ [f]])" by blast
  then show ?thesis unfolding received_one_def
    using assms(3) by (intro exI [of _ "fss @ [[] @ [f]]"] exI [of _ f]) (simp add: place_last_def add_buffer_def)
qed

lemma place_room_ok:
  assumes "ctx_ok ctx fss" "pkt_ok p" "\<not> pcap_break ctx" "flits (length p) \<le> unat (free_flits ctx)"
    and "unat len = length p" "unat nb_flits = flits (length p)"
  shows "received_one p fss (place_last ((!) p) len nb_flits ctx)"
proof -
  have "0 < flits (length p)" by (simp add: flits_def)
  then have ne: "fss \<noteq> []" using assms(1,4) by (auto simp: ctx_ok_def)
  then have "list_all2 holds (enso_pipes ctx) (butlast fss @ [last fss])" "unat (hugepage_offset ctx) \<le> 2097152"
    "64 * unat (free_flits ctx) + length (concat (last fss)) = 131072" "[] \<notin> set (butlast fss)"
    using assms(1) by (auto simp: ctx_ok_def dest: in_set_butlastD)
  from place_last_ok [OF this(1) assms(2) this(2,4,3) assms(4-6)] obtain f where
    f: "carries p f" "ctx_ok (place_last ((!) p) len nb_flits ctx) (butlast fss @ [last fss @ [f]])" by blast
  have "concat fss = concat (butlast fss @ [last fss])" using ne by simp
  then show ?thesis unfolding received_one_def
    using f assms(3) by (intro exI [of _ "butlast fss @ [last fss @ [f]]"] exI [of _ f]) (simp add: place_last_def)
qed

lemma handler_ok:
  assumes "ctx_ok ctx fss" "pkt_ok p" "\<not> pcap_break ctx"
  obtains ctx' where "pcap_pkt_handler v2p fresh pc ((!) p) ctx = Inr ctx'" "pcap_break ctx' \<or> received_one p fss ctx'"
proof -
  note l = pkt_ok_len [OF assms(2)]
  let ?len = "ucast (get_pkt_len 0 ((!) p) 0) :: u32"
  let ?fl = "(?len - 1) div 64 + 1"
  have eth: "p ! 12 = 8" "p ! 13 = 0" using assms(2) by (simp_all add: pkt_ok_def)
  have off: "unat (hugepage_offset ctx) \<le> 2097152" and hs: "list_all2 holds (enso_pipes ctx) fss" "[] \<notin> set fss" using assms(1) by (auto simp: ctx_ok_def)
  obtain buf os' where page: "gen_get_huge_page (pc (page_id ctx)) (gen_page_path (page_id ctx)) HUGEPAGE_SIZE (ctx_os ctx) = (buf, os')"
    by fastforce
  note run = pcap_pkt_handler_def [of v2p fresh pc "(!) p" ctx, unfolded Let_def page prod.case]
  show thesis
  proof (cases "?fl > free_flits ctx")
    case False
    then have le: "flits (length p) \<le> unat (free_flits ctx)" using l(3) by (simp add: word_less_nat_alt)
    from place_room_ok [OF assms le l(1,3)]
    have "received_one p fss (place_last ((!) p) ?len ?fl ctx)" .
    with False show thesis by (intro that [OF _ disjI2]) (simp add: run eth)
  next
    case True
    show thesis
    proof (cases "(ucast (hugepage_offset ctx + BUFFER_SIZE) :: u64) > HUGEPAGE_SIZE")
      case big: True
      show thesis
      proof (cases "buf = 0")
        case False
        have "received_one p fss (place_last ((!) p) ?len ?fl (add_buffer v2p fresh buf BUFFER_SIZE (ctx\<lparr>page_id := Suc (page_id ctx), ctx_os := os'\<rparr>)))"
          using hs assms(2,3) l(1,3) by (intro place_new_ok) (simp_all add: BUFFER_SIZE_def kMaxTransferLen_def)
        with True big False show thesis by (intro that [OF _ disjI2]) (simp add: run eth)
      qed (use True big in
          \<open>intro that [of "ctx\<lparr>page_id := Suc (page_id ctx), ctx_os := os', pcap_break := True\<rparr>"], simp_all add: run eth\<close>)
    next
      case small: False
      then have "unat (hugepage_offset ctx + BUFFER_SIZE) \<le> 2097152" by (simp add: word_less_nat_alt HUGEPAGE_SIZE_def)
      then have "received_one p fss (place_last ((!) p) ?len ?fl (add_buffer v2p fresh (gp_buf (last (enso_pipes ctx)) + ucast BUFFER_SIZE)
          (hugepage_offset ctx + BUFFER_SIZE) ctx))"
        using hs assms(2,3) l(1,3) by (intro place_new_ok) simp_all
      with True small show thesis by (intro that [OF _ disjI2]) (simp add: run eth)
    qed
  qed
qed

text \<open>The handler is called for the packets of the trace in turn, until it asks to stop.\<close>

fun handle_pkts :: "(u64 \<Rightarrow> u64) \<Rightarrow> (u64 \<Rightarrow> u8) \<Rightarrow> (nat \<Rightarrow> page_calls) \<Rightarrow> u8 list list \<Rightarrow> PcapHandlerContext \<Rightarrow> int + PcapHandlerContext" where
  "handle_pkts v2p fresh pc [] ctx = Inr ctx"
| "handle_pkts v2p fresh pc (p # ps) ctx =
     (case pcap_pkt_handler v2p fresh pc ((!) p) ctx of
        Inl e \<Rightarrow> Inl e
      | Inr ctx' \<Rightarrow> if pcap_break ctx' then Inr ctx' else handle_pkts v2p fresh pc ps ctx')"

lemma handle_pkts_ok:
  assumes "ctx_ok ctx fss" "\<forall>p \<in> set ps. pkt_ok p" "\<not> pcap_break ctx"
  shows "\<exists>ctx'. handle_pkts v2p fresh pc ps ctx = Inr ctx' \<and>
    (pcap_break ctx' \<or> (\<exists>fss' fs. ctx_ok ctx' fss' \<and> concat fss' = concat fss @ fs \<and> list_all2 carries ps fs))"
  using assms
proof (induction ps arbitrary: ctx fss)
  case (Cons p ps)
  then have "pkt_ok p" by simp
  then obtain c where c: "pcap_pkt_handler v2p fresh pc ((!) p) ctx = Inr c" "pcap_break c \<or> received_one p fss c"
    by (rule handler_ok [OF Cons.prems(1) _ Cons.prems(3)])
  show ?case
  proof (cases "pcap_break c")
    case False
    with c(2) obtain fss1 f where f: "ctx_ok c fss1" "concat fss1 = concat fss @ [f]" "carries p f" by (auto simp: received_one_def)
    from Cons.IH [OF f(1) _ False] Cons.prems(2) f(2,3) c(1) False show ?thesis by fastforce
  qed (use c(1) in simp)
qed (auto intro: exI [of _ fss])

lemma repeat_small_ok:
  assumes "list_all2 holds pipes fss" "[] \<notin> set fss"
  shows "\<exists>pipes' fss' k. repeat_small pipes = Some pipes' \<and> list_all2 holds pipes' fss' \<and> [] \<notin> set fss' \<and> 0 < k \<and>
    concat fss' = concat (replicate k (concat fss)) \<and> length (concat fss') \<le> max 2048 (length (concat fss))"
proof (cases "length pipes = 1 \<and> gp_length (hd pipes) < BUFFER_SIZE div 2")
  case True
  then obtain b fs where b: "pipes = [b]" "fss = [fs]" "holds b fs" using assms(1) by (auto simp: length_Suc_conv list_all2_Cons1)
  have "fs \<noteq> []" using assms(2) b(2) by auto
  then obtain b' where b': "fill_small (gp_length b) (gp_good_bytes b) (gp_nb_pkts b) b = Some b'"
    "holds b' (concat (replicate (131072 div length (concat fs)) fs))"
    using fill_small_ends [OF b(3) _ _ _ refl, of b 1] b(3) by auto
  have "0 < length fs" using \<open>fs \<noteq> []\<close> by simp
  then have "0 < length (concat fs)" using frames_count [OF holds_D(1) [OF b(3)]] by linarith
  then have "0 < 131072 div length (concat fs)" using holds_D(4) [OF b(3)] by (simp add: div_greater_zero_iff)
  moreover have "length (concat (replicate (131072 div length (concat fs)) fs)) \<le> 2048" using b'(2) by (rule holds_D(5))
  moreover have "repeat_small pipes = Some [b']" using True b'(1) by (simp add: repeat_small_def b(1) Let_def)
  ultimately show ?thesis
    using b'(2) b(2) \<open>fs \<noteq> []\<close> by (intro exI [of _ "[b']"] exI [of _ "[concat (replicate (131072 div length (concat fs)) fs)]"]
        exI [of _ "131072 div length (concat fs)"]) simp
next
  case False
  then show ?thesis using assms by (intro exI [of _ pipes] exI [of _ fss] exI [of _ 1]) (auto simp: repeat_small_def)
qed

text \<open>
  A trace of IPv4 packets reaches the buffers as it is, unless a huge page is missing: the buffers hold exactly
  the packets of the trace, in order, each padded to a multiple of 64 bytes, and no packet crosses the end of a
  buffer. Repeating a small trace ends, and leaves the trace a whole number of times.
\<close>

lemma trace_in_buffers:
  assumes "\<forall>p \<in> set ps. pkt_ok p"
  obtains ctx where "handle_pkts v2p fresh pc ps (ctx_init s) = Inr ctx" "pcap_break ctx"
  | ctx fs pipes fss k where "handle_pkts v2p fresh pc ps (ctx_init s) = Inr ctx" "\<not> pcap_break ctx" "list_all2 carries ps fs"
    "repeat_small (enso_pipes ctx) = Some pipes" "list_all2 holds pipes fss" "[] \<notin> set fss" "0 < k"
    "concat fss = concat (replicate k fs)" "length (concat fss) \<le> max 2048 (length ps)"
proof -
  have init: "ctx_ok (ctx_init s) []" by (simp add: ctx_ok_def ctx_init_def HUGEPAGE_SIZE_def)
  obtain ctx where ctx: "handle_pkts v2p fresh pc ps (ctx_init s) = Inr ctx"
    "pcap_break ctx \<or> (\<exists>fss fs. ctx_ok ctx fss \<and> concat fss = concat [] @ fs \<and> list_all2 carries ps fs)"
    using handle_pkts_ok [OF init assms, of v2p fresh pc] by (auto simp: ctx_init_def)
  show thesis
  proof (cases "pcap_break ctx")
    case False
    with ctx(2) obtain fss where fss: "ctx_ok ctx fss" "list_all2 carries ps (concat fss)" by auto
    then have "list_all2 holds (enso_pipes ctx) fss" "[] \<notin> set fss" by (simp_all add: ctx_ok_def)
    from repeat_small_ok [OF this] show thesis
      using that(2) [OF ctx(1) False fss(2)] list_all2_lengthD [OF fss(2)] by auto
  qed (use that(1) ctx(1) in blast)
qed

definition pkt64 :: "u8 list" where
  "pkt64 = replicate 12 0 @ [8, 0, 0, 0, 0, 50] @ replicate 46 0"

definition gen_pages :: "nat \<Rightarrow> page_calls" where
  "gen_pages n = \<lparr>pc_open = True, pc_truncate = True, pc_map = Some (of_nat (Suc n) * HUGEPAGE_SIZE), pc_mirror = True, pc_lock = True\<rparr>"

definition gen_os :: os where
  "gen_os = \<lparr>os_files = [], os_fds = 3, os_maps = [], os_bad_free = False\<rparr>"

lemma pkt64_ok: "pkt_ok pkt64"
  by (simp add: pkt_ok_def pkt64_def frame_len_def nth_append)

lemma pkt64_len: "get_pkt_len 0 ((!) pkt64) 0 = 64"
  using pkt_ok_len(1) [OF pkt64_ok] by (intro word_unat_eq_iff [THEN iffD2]) (simp add: pkt64_def)

lemma gen_page_first: "gen_get_huge_page (gen_pages 0) path sz s = (HUGEPAGE_SIZE, os_unlink path (os_close
    (s\<lparr>os_files := List.insert path (os_files s), os_fds := Suc (os_fds s), os_maps := (HUGEPAGE_SIZE, sz) # os_maps s\<rparr>)))"
  by (simp add: gen_get_huge_page_def gen_pages_def Let_def)

end
