(* ===== verification/Gen_Traffic.thy ===== *)
theory Gen_Traffic
  imports Gen_Buffers Enso_Sockets
begin

text \<open>
  The packet generator, \<^verbatim>\<open>software/examples/ensogen.cpp\<close>, while it sends: \<^verbatim>\<open>transmit_pkts\<close> hands the
  buffers to the NIC in turn, over and over, until the planned number of bytes is sent, and collects
  completions from time to time; \<^verbatim>\<open>reclaim_all_buffers\<close> waits for the rest of them.

  The iterator \<^verbatim>\<open>current_enso_pipe\<close> is an index into the list of buffers. \<open>gt_sent\<close> is the history of the
  calls of \<^verbatim>\<open>send\<close>, with the physical address and the length; the code does not keep it.
\<close>

section \<open>Transmitting\<close>

definition TX_RECLAIM_DELAY :: u64 where "TX_RECLAIM_DELAY = 1024"
definition TRANSFERS_PER_BUFFER :: u32 where "TRANSFERS_PER_BUFFER = (BUFFER_SIZE - 1) div kMaxTransferLen + 1"

record TxStats =
  tx_pkts :: u64
  tx_bytes :: u64

record TxArgs =
  ignored_reclaims :: u64
  total_remaining_bytes :: u64
  total_remaining_good_bytes :: u64
  transmissions_pending :: u32
  pkts_in_last_buffer :: u64
  current_enso_pipe :: nat
  tx_socket_fd :: int

definition TxArgs_new :: "u64 \<Rightarrow> u64 \<Rightarrow> u64 \<Rightarrow> int \<Rightarrow> TxArgs" where
  "TxArgs_new total_bytes_to_send total_good_bytes_to_send last_pkts fd =
     \<lparr>ignored_reclaims = 0, total_remaining_bytes = total_bytes_to_send, total_remaining_good_bytes = total_good_bytes_to_send,
      transmissions_pending = 0, pkts_in_last_buffer = last_pkts, current_enso_pipe = 0, tx_socket_fd = fd\<rparr>"

record 'b gen_tx =
  gt_args :: TxArgs
  gt_stats :: TxStats
  gt_socks :: "'b sockets"
  keep_running :: bool
  gt_sent :: "(u64 \<times> u32) list"

definition buf_fill_thresh :: u32 where
  "buf_fill_thresh = kNotificationBufSize - TRANSFERS_PER_BUFFER - 1"

text \<open>The first part of \<^verbatim>\<open>transmit_pkts\<close>: the current buffer, or what is left to send of it.\<close>

definition send_buffer :: "nic \<Rightarrow> EnsoPipe list \<Rightarrow> 'b gen_tx \<Rightarrow> 'b gen_tx option" where
  "send_buffer nic pipes g =
     (let a = gt_args g; st = gt_stats g in
      if \<not> current_enso_pipe a < length pipes then None
      else
        let b = pipes ! current_enso_pipe a;
            transmission_length = min (ucast (min (ucast BUFFER_SIZE) (total_remaining_bytes a)) :: u32) (gp_length b);
            good_transmission_length = ucast (min (total_remaining_good_bytes a) (ucast (gp_good_bytes b))) :: u32 in
        map_option (\<lambda>(_, s).
          let a1 = a\<lparr>transmissions_pending := transmissions_pending a + 1,
                     total_remaining_bytes := total_remaining_bytes a - ucast transmission_length,
                     total_remaining_good_bytes := total_remaining_good_bytes a - ucast good_transmission_length\<rparr>;
              st1 = st\<lparr>tx_bytes := tx_bytes st + ucast good_transmission_length\<rparr>;
              g1 = g\<lparr>gt_socks := s, gt_sent := gt_sent g @ [(gp_phys_addr b, transmission_length)]\<rparr> in
          if total_remaining_bytes a1 = 0 then
            g1\<lparr>gt_args := a1, gt_stats := st1\<lparr>tx_pkts := tx_pkts st1 + pkts_in_last_buffer a\<rparr>, keep_running := False\<rparr>
          else
            let next = Suc (current_enso_pipe a) in
            g1\<lparr>gt_args := a1\<lparr>current_enso_pipe := (if next = length pipes then 0 else next)\<rparr>,
               gt_stats := st1\<lparr>tx_pkts := tx_pkts st1 + ucast (gp_nb_pkts b)\<rparr>\<rparr>)
        (send nic (tx_socket_fd a) (gp_phys_addr b) (ucast transmission_length) (gt_socks g)))"

text \<open>The second part: completions are collected when many are pending, but not every time.\<close>

definition collect_completions :: "nic \<Rightarrow> 'b gen_tx \<Rightarrow> 'b gen_tx option" where
  "collect_completions nic g =
     map_option (\<lambda>(n, s). g\<lparr>gt_socks := s, gt_args := (gt_args g)\<lparr>transmissions_pending := transmissions_pending (gt_args g) - n\<rparr>\<rparr>)
       (get_completions nic (tx_socket_fd (gt_args g)) (gt_socks g))"

definition reclaim_some :: "nic \<Rightarrow> 'b gen_tx \<Rightarrow> 'b gen_tx option" where
  "reclaim_some nic g =
     (let a = gt_args g in
      if transmissions_pending a > kNotificationBufSize div 4 then
        if ignored_reclaims a > TX_RECLAIM_DELAY then collect_completions nic (g\<lparr>gt_args := a\<lparr>ignored_reclaims := 0\<rparr>\<rparr>)
        else Some (g\<lparr>gt_args := a\<lparr>ignored_reclaims := ignored_reclaims a + 1\<rparr>\<rparr>)
      else Some g)"

definition transmit_pkts :: "nic \<Rightarrow> EnsoPipe list \<Rightarrow> 'b gen_tx \<Rightarrow> 'b gen_tx option" where
  "transmit_pkts nic pipes g =
     (if transmissions_pending (gt_args g) < buf_fill_thresh then
        Option.bind (send_buffer nic pipes g) (\<lambda>g'.
          if total_remaining_bytes (gt_args g') = 0 then Some g' else reclaim_some nic g')
      else reclaim_some nic g)"

partial_function (option) reclaim_all_buffers :: "nic \<Rightarrow> 'b gen_tx \<Rightarrow> 'b gen_tx option" where
  "reclaim_all_buffers nic g =
     (if transmissions_pending (gt_args g) \<noteq> 0 then Option.bind (collect_completions nic g) (reclaim_all_buffers nic)
      else Some g)"

text \<open>The loop of the transmitting thread.\<close>

partial_function (option) tx_loop :: "nic \<Rightarrow> EnsoPipe list \<Rightarrow> 'b gen_tx \<Rightarrow> 'b gen_tx option" where
  "tx_loop nic pipes g = (if keep_running g then Option.bind (transmit_pkts nic pipes g) (tx_loop nic pipes) else Some g)"

definition gen_start :: "u64 \<Rightarrow> u64 \<Rightarrow> u64 \<Rightarrow> int \<Rightarrow> 'b sockets \<Rightarrow> 'b gen_tx" where
  "gen_start total_bytes_to_send total_good_bytes_to_send last_pkts fd s =
     \<lparr>gt_args = TxArgs_new total_bytes_to_send total_good_bytes_to_send last_pkts fd, gt_stats = \<lparr>tx_pkts = 0, tx_bytes = 0\<rparr>,
      gt_socks = s, keep_running = True, gt_sent = []\<rparr>"

section \<open>Going round and round\<close>

text \<open>\<open>cyc xs k\<close> are the elements of \<open>k\<close> lists in turn, starting over after the last one.\<close>

definition cyc :: "'a list list \<Rightarrow> nat \<Rightarrow> 'a list" where
  "cyc xs k = concat (map (\<lambda>j. xs ! (j mod length xs)) [0..<k])"

lemma cyc_0 [simp]: "cyc xs 0 = []"
  by (simp add: cyc_def)

lemma cyc_Suc: "cyc xs (Suc k) = cyc xs k @ xs ! (k mod length xs)"
  by (simp add: cyc_def)

lemma cyc_concat: "xs \<noteq> [] \<Longrightarrow> concat (cyc xs k) = cyc (map concat xs) k"
  by (induction k) (simp_all add: cyc_Suc)

lemma concat_replicate_snoc: "concat (replicate q c) @ c = c @ concat (replicate q c)"
  by (induction q) simp_all

lemma cyc_part:
  assumes "t \<le> length xs"
  shows "cyc xs (q * length xs + t) = concat (replicate q (concat xs)) @ concat (take t xs)"
  using assms
proof (induction q arbitrary: t)
  case 0
  then show ?case by (induction t) (simp_all add: cyc_Suc take_Suc_conv_app_nth)
next
  case (Suc q)
  have full: "cyc xs (Suc q * length xs) = concat (replicate (Suc q) (concat xs))"
    using Suc.IH [of "length xs"] by (simp add: add.commute concat_replicate_snoc)
  show ?case using Suc.prems
  proof (induction t)
    case (Suc t)
    then show ?case by (simp add: cyc_Suc take_Suc_conv_app_nth del: mult_Suc)
  qed (simp add: full del: mult_Suc)
qed

lemma cyc_mono: "k \<le> l \<Longrightarrow> prefix (cyc xs k) (cyc xs l)"
  by (induction rule: inc_induct) (auto simp: cyc_Suc dest: append_prefixD)

lemma prefix_same: "prefix a c \<Longrightarrow> prefix b c \<Longrightarrow> length a = length b \<Longrightarrow> a = b"
  by (metis prefix_length_prefix prefix_order.antisym order_refl)

section \<open>The socket of the transmitting thread\<close>

text \<open>As many completions are owed by the notification buffer as the generator counts as pending.\<close>

definition port_ok :: "int \<Rightarrow> nat \<Rightarrow> u32 \<Rightarrow> 'b sockets \<Rightarrow> bool" where
  "port_ok fd c pend s \<longleftrightarrow> (\<exists>i. sock_nb fd s = Some (i, c)) \<and> unat pend \<le> 16382 \<and>
     tx_paced 0 (unat pend) (sk_pair c s) (nb_tx_tail (sk_pair c s))"

lemma sk_set_pair_simps [simp]:
  "sk_pair c (sk_set_pair c p s) = p" "sock_nb fd (sk_set_pair c p s) = sock_nb fd s"
  by (simp_all add: sk_pair_def sk_set_pair_def sock_nb_def)

lemma port_send:
  fixes len :: u32
  assumes "nic_fair nic" "port_ok fd c pend s" "unat pend < 16382" "len \<noteq> 0" "unat len \<le> 131072"
  shows "\<exists>r s'. send nic fd addr (ucast len) s = Some (r, s') \<and> port_ok fd c (pend + 1) s'"
proof -
  let ?nb = "sk_pair c s"
  have paced: "tx_paced 0 (unat pend) ?nb (nb_tx_tail ?nb)" using assms(2) by (simp add: port_ok_def)
  then have inv: "tx_inv ?nb (nb_tx_tail ?nb)" by (simp add: tx_paced_def)
  obtain nb' where nb': "send_to_queue nic ?nb addr len = Some (len, nb')"
    using send_to_queue_ends [OF assms(1) inv, of len addr] assms(5) by auto
  have up: "unat (pend + 1) = Suc (unat pend)" using assms(3) by (simp add: unat_plus_small)
  have "tx_paced 0 (Suc (unat pend)) nb' (nb_tx_tail nb')"
    using tx_paced_send [OF nb' paced assms(3,4)] assms(5) by simp
  moreover have "(ucast (ucast len :: u64) :: u32) = len" by (rule bit_word_eqI) (simp add: bit_unsigned_iff)
  ultimately show ?thesis using nb' assms(2,3) by (auto simp: port_ok_def send_def up)
qed

lemma port_collect:
  assumes "port_ok fd c pend s"
  shows "\<exists>n s'. get_completions nic fd s = Some (n, s') \<and> port_ok fd c (pend - n) s' \<and> n \<le> pend \<and>
    sk_pair c s' = collect nic (sk_pair c s) \<and>
    (nb_tx_head (sk_pair c s) = nb_tx_tail (sk_pair c s) \<longrightarrow> n = pend)"
proof -
  let ?nb = "sk_pair c s"
  have paced: "tx_paced 0 (unat pend) ?nb (nb_tx_tail ?nb)" and le: "unat pend \<le> 16382" using assms by (simp_all add: port_ok_def)
  obtain n nb' where r: "get_unreported_completions nic ?nb = (n, nb')" by fastforce
  note spec = tx_paced_collect [OF r paced le]
  have n: "n \<le> pend" using spec by (simp add: word_le_nat_alt)
  then have sub: "unat (pend - n) = unat pend - unat n" by (simp add: unat_sub)
  have "nb_tx_head ?nb = nb_tx_tail ?nb \<longrightarrow> n = pend"
    using tx_paced_drained_collect [OF paced le, of nic] r by (simp add: word_unat_eq_iff)
  with spec n sub r assms show ?thesis
    by (auto simp: port_ok_def get_completions_def collect_def)
qed

lemma port_drains: "nic_fair nic \<Longrightarrow> port_ok fd c pend s \<Longrightarrow> \<exists>k. nb_tx_head ((collect nic ^^ k) (sk_pair c s)) = nb_tx_tail (sk_pair c s)"
  unfolding port_ok_def tx_paced_def by (blast dest: collect.drains)

lemma port_collect_tail: "port_ok fd c pend s \<Longrightarrow> nb_tx_tail (collect nic (sk_pair c s)) = nb_tx_tail (sk_pair c s)"
  unfolding port_ok_def tx_paced_def by (blast dest: collect.tail_tick)

text \<open>Waiting for all completions ends.\<close>

abbreviation gt_port :: "nat \<Rightarrow> 'b gen_tx \<Rightarrow> bool" where
  "gt_port c g \<equiv> port_ok (tx_socket_fd (gt_args g)) c (transmissions_pending (gt_args g)) (gt_socks g)"

lemma collect_step:
  assumes "gt_port c g"
  obtains n s where "collect_completions nic g =
      Some (g\<lparr>gt_socks := s, gt_args := (gt_args g)\<lparr>transmissions_pending := transmissions_pending (gt_args g) - n\<rparr>\<rparr>)"
    "port_ok (tx_socket_fd (gt_args g)) c (transmissions_pending (gt_args g) - n) s" "n \<le> transmissions_pending (gt_args g)"
    "sk_pair c s = collect nic (sk_pair c (gt_socks g))"
    "nb_tx_head (sk_pair c (gt_socks g)) = nb_tx_tail (sk_pair c (gt_socks g)) \<Longrightarrow> n = transmissions_pending (gt_args g)"
  using port_collect [OF assms, of nic] by (auto simp: collect_completions_def)

lemma reclaim_none: "transmissions_pending (gt_args g) = 0 \<Longrightarrow> reclaim_all_buffers nic g = Some g"
  by (simp add: reclaim_all_buffers.simps)

lemma reclaim_drained:
  assumes "gt_port c g" "nb_tx_head ((collect nic ^^ k) (sk_pair c (gt_socks g))) = nb_tx_tail (sk_pair c (gt_socks g))"
  shows "\<exists>g'. reclaim_all_buffers nic g = Some g' \<and> transmissions_pending (gt_args g') = 0 \<and> gt_port c g' \<and>
    gt_stats g' = gt_stats g \<and> gt_sent g' = gt_sent g"
  using assms
proof (induction k arbitrary: g)
  case 0
  obtain n s where r: "collect_completions nic g =
      Some (g\<lparr>gt_socks := s, gt_args := (gt_args g)\<lparr>transmissions_pending := 0\<rparr>\<rparr>)"
    "port_ok (tx_socket_fd (gt_args g)) c 0 s"
    by (rule collect_step [OF "0.prems"(1), of nic]) (use "0.prems"(2) in auto)
  then show ?case
    using "0.prems"(1) by (cases "transmissions_pending (gt_args g) = 0") (simp_all add: reclaim_all_buffers.simps [of nic g] reclaim_none)
next
  case (Suc k)
  obtain n s where r: "collect_completions nic g =
      Some (g\<lparr>gt_socks := s, gt_args := (gt_args g)\<lparr>transmissions_pending := transmissions_pending (gt_args g) - n\<rparr>\<rparr>)"
    "port_ok (tx_socket_fd (gt_args g)) c (transmissions_pending (gt_args g) - n) s"
    "sk_pair c s = collect nic (sk_pair c (gt_socks g))"
    by (rule collect_step [OF Suc.prems(1), of nic]) blast
  show ?case
  proof (cases "transmissions_pending (gt_args g) = 0")
    case False
    let ?g = "g\<lparr>gt_socks := s, gt_args := (gt_args g)\<lparr>transmissions_pending := transmissions_pending (gt_args g) - n\<rparr>\<rparr>"
    have "\<exists>g'. reclaim_all_buffers nic ?g = Some g' \<and> transmissions_pending (gt_args g') = 0 \<and> gt_port c g' \<and>
        gt_stats g' = gt_stats ?g \<and> gt_sent g' = gt_sent ?g"
      by (rule Suc.IH) (use r(2,3) Suc.prems port_collect_tail [OF Suc.prems(1), of nic] in \<open>simp_all add: funpow_swap1\<close>)
    with False r(1) show ?thesis by (simp add: reclaim_all_buffers.simps [of nic g])
  qed (use Suc.prems(1) in \<open>simp add: reclaim_all_buffers.simps\<close>)
qed

lemma reclaim_all_ends:
  assumes "nic_fair nic" "gt_port c g"
  shows "\<exists>g'. reclaim_all_buffers nic g = Some g' \<and> transmissions_pending (gt_args g') = 0 \<and> gt_port c g' \<and>
    gt_stats g' = gt_stats g \<and> gt_sent g' = gt_sent g"
  using port_drains [OF assms] reclaim_drained [OF assms(2)] by blast

section \<open>Progress\<close>

text \<open>
  \<open>N\<close> bytes are to be sent, \<open>G\<close> bytes without padding, and \<open>k\<close> buffers have been sent. The buffers hold the
  packets \<open>fss\<close>.
\<close>

definition full_sends :: "EnsoPipe list \<Rightarrow> nat \<Rightarrow> (u64 \<times> u32) list" where
  "full_sends pipes k = map (\<lambda>j. (gp_phys_addr (pipes ! (j mod length pipes)), gp_length (pipes ! (j mod length pipes)))) [0..<k]"

abbreviation cyc_bytes :: "u8 list list list \<Rightarrow> nat \<Rightarrow> nat" where
  "cyc_bytes fss k \<equiv> length (concat (cyc fss k))"

abbreviation cyc_good :: "u8 list list list \<Rightarrow> nat \<Rightarrow> nat" where
  "cyc_good fss k \<equiv> sum_list (map frame_len (cyc fss k))"

definition progress :: "EnsoPipe list \<Rightarrow> u8 list list list \<Rightarrow> nat \<Rightarrow> nat \<Rightarrow> u64 \<Rightarrow> nat \<Rightarrow> 'b gen_tx \<Rightarrow> bool" where
  "progress pipes fss N G last_pkts k g \<longleftrightarrow> keep_running g \<and> current_enso_pipe (gt_args g) = k mod length pipes \<and>
     cyc_bytes fss k < N \<and> total_remaining_bytes (gt_args g) = of_nat (N - cyc_bytes fss k) \<and>
     total_remaining_good_bytes (gt_args g) = of_nat (G - cyc_good fss k) \<and> pkts_in_last_buffer (gt_args g) = last_pkts \<and>
     tx_pkts (gt_stats g) = of_nat (length (cyc fss k)) \<and> tx_bytes (gt_stats g) = of_nat (min G (cyc_good fss k)) \<and>
     gt_sent g = full_sends pipes k"

definition finished :: "EnsoPipe list \<Rightarrow> u8 list list list \<Rightarrow> nat \<Rightarrow> nat \<Rightarrow> u64 \<Rightarrow> nat \<Rightarrow> 'b gen_tx \<Rightarrow> bool" where
  "finished pipes fss N G last_pkts k g \<longleftrightarrow> \<not> keep_running g \<and> cyc_bytes fss k < N \<and> N \<le> cyc_bytes fss (Suc k) \<and>
     tx_pkts (gt_stats g) = of_nat (length (cyc fss k)) + last_pkts \<and> tx_bytes (gt_stats g) = of_nat (min G (cyc_good fss (Suc k))) \<and>
     gt_sent g = full_sends pipes k @ [(gp_phys_addr (pipes ! (k mod length pipes)), of_nat (N - cyc_bytes fss k))]"

definition loaded :: "EnsoPipe list \<Rightarrow> u8 list list list \<Rightarrow> bool" where
  "loaded pipes fss \<longleftrightarrow> list_all2 holds pipes fss \<and> fss \<noteq> [] \<and> [] \<notin> set fss"

lemma unat_min: "unat (min a b :: 'a :: len word) = min (unat a) (unat b)"
  by (simp add: min_def word_le_nat_alt)

lemma of_nat_sub_min: "(of_nat a :: 'a :: len word) - of_nat (min a b) = of_nat (a - b)"
  by (cases "a \<le> b") (simp_all add: min_def)

lemma loaded_nth:
  assumes "loaded pipes fss"
  shows "length pipes = length fss" "0 < length fss" "holds (pipes ! (k mod length fss)) (fss ! (k mod length fss))"
    "0 < length (concat (fss ! (k mod length fss)))"
proof -
  have l: "list_all2 holds pipes fss" "fss \<noteq> []" "[] \<notin> set fss" using assms by (simp_all add: loaded_def)
  show len: "length pipes = length fss" using l(1) by (rule list_all2_lengthD)
  show pos: "0 < length fss" using l(2) by simp
  then have k: "k mod length fss < length fss" by (rule mod_less_divisor)
  show h: "holds (pipes ! (k mod length fss)) (fss ! (k mod length fss))" using l(1) k len by (simp add: list_all2_conv_all_nth)
  have "fss ! (k mod length fss) \<noteq> []" using l(3) k by (metis nth_mem)
  then have "0 < length (fss ! (k mod length fss))" by simp
  then show "0 < length (concat (fss ! (k mod length fss)))" using frames_count [OF holds_D(1) [OF h]] by linarith
qed

lemma send_buffer_step:
  assumes "nic_fair nic" "loaded pipes fss" "gt_port c g" "unat (transmissions_pending (gt_args g)) < 16382"
    and "progress pipes fss N G last_pkts k g" "N < 2 ^ 64" "G < 2 ^ 64"
  shows "\<exists>g'. send_buffer nic pipes g = Some g' \<and> gt_port c g' \<and>
    (if N \<le> cyc_bytes fss (Suc k) then finished pipes fss N G last_pkts k g' \<and> total_remaining_bytes (gt_args g') = 0
     else progress pipes fss N G last_pkts (Suc k) g' \<and> total_remaining_bytes (gt_args g') \<noteq> 0)"
proof -
  note ld = loaded_nth(1,2) [OF assms(2)] loaded_nth(3,4) [OF assms(2), of k]
  let ?j = "k mod length fss" and ?a = "gt_args g"
  let ?b = "pipes ! ?j" and ?fs = "fss ! ?j"
  define R Rg where R_def: "R = N - cyc_bytes fss k" and Rg_def: "Rg = G - cyc_good fss k"
  note p = assms(5) [unfolded progress_def ld(1), folded R_def Rg_def]
  have L: "unat (gp_length ?b) = length (concat ?fs)" "length (concat ?fs) \<le> 131072" "unat (gp_good_bytes ?b) = sum_list (map frame_len ?fs)"
    using ld(3) by (simp_all add: holds_def)
  have n64: "(ucast (gp_nb_pkts ?b) :: u64) = of_nat (length ?fs)" using ld(3) by (intro word_eq_of_nat) (simp add: holds_def)
  have R: "unat (of_nat R :: u64) = R" "unat (of_nat Rg :: u64) = Rg" by (intro unat_of_nat_small, use assms(6,7) in \<open>simp add: R_def Rg_def\<close>)+
  have pos: "0 < R" using p by (simp add: R_def)
  define len :: u32 where "len = min (ucast (min (ucast BUFFER_SIZE) (total_remaining_bytes ?a))) (gp_length ?b)"
  define good :: u32 where "good = ucast (min (total_remaining_good_bytes ?a) (ucast (gp_good_bytes ?b)))"
  have len: "unat len = min R (length (concat ?fs))"
    using L p R by (simp add: len_def unat_min unsigned_ucast_eq take_bit_nat_eq_self BUFFER_SIZE_def kMaxTransferLen_def)
  have gb: "unat (gp_good_bytes ?b) < 4294967296" by (rule order.strict_trans2 [OF unsigned_less]) simp
  have good: "unat good = min Rg (sum_list (map frame_len ?fs))"
    using L p R gb by (simp add: good_def unat_min unsigned_ucast_eq take_bit_nat_eq_self)
  have "len \<noteq> 0" "unat len \<le> 131072" using len pos ld(4) L(2) by (auto simp: word_unat_eq_iff)
  from port_send [OF assms(1,3,4) this, of "gp_phys_addr ?b"] obtain r s where
    s: "send nic (tx_socket_fd ?a) (gp_phys_addr ?b) (ucast len) (gt_socks g) = Some (r, s)"
    "port_ok (tx_socket_fd ?a) c (transmissions_pending ?a + 1) s" by blast
  have l64: "(ucast len :: u64) = of_nat (min R (length (concat ?fs)))" "(ucast good :: u64) = of_nat (min Rg (sum_list (map frame_len ?fs)))"
    using len good by (intro word_eq_of_nat, simp)+
  define left :: u64 where "left = total_remaining_bytes ?a - ucast len"
  have left: "left = of_nat (R - length (concat ?fs))"
    using p by (simp add: left_def l64(1) of_nat_sub_min)
  define goodleft :: u64 where "goodleft = total_remaining_good_bytes ?a - ucast good"
  have goodleft: "goodleft = of_nat (G - cyc_good fss (Suc k))"
    using p by (simp add: goodleft_def l64(2) cyc_Suc of_nat_sub_min) (simp add: Rg_def)
  have sum: "min G (cyc_good fss (Suc k)) = min G (cyc_good fss k) + min Rg (sum_list (map frame_len ?fs))" by (simp add: cyc_Suc Rg_def)
  have cur: "current_enso_pipe ?a = ?j" using p by blast
  note run = send_buffer_def [of nic pipes g, unfolded Let_def cur, folded len_def good_def, folded left_def goodleft_def]
  show ?thesis
  proof (cases "N \<le> cyc_bytes fss (Suc k)")
    case True
    then have "R - length (concat ?fs) = 0" "min R (length (concat ?fs)) = R" using p by (auto simp: R_def cyc_Suc)
    then have "left = 0" "len = of_nat R" using left len by (auto intro!: word_eq_of_nat)
    moreover have "k mod length fss < length fss" using ld(2) by simp
    ultimately show ?thesis
      using True s p ld(1,2) by (simp add: run finished_def R_def sum l64(2))
  next
    case False
    then have lt: "length (concat ?fs) < R" using p by (simp add: R_def cyc_Suc)
    have "unat left = R - length (concat ?fs)" unfolding left by (intro unat_of_nat_small) (use assms(6) in \<open>simp add: R_def\<close>)
    then have "left \<noteq> 0" "len = gp_length ?b" "left = of_nat (N - cyc_bytes fss (Suc k))"
      using lt len L(1) left by (auto simp: word_unat_eq_iff R_def cyc_Suc)
    moreover have "k mod length fss < length fss" "(if Suc ?j = length fss then 0 else Suc ?j) = Suc k mod length fss"
      using ld(2) by (simp_all add: mod_Suc)
    ultimately show ?thesis
      using False s p ld(1,2) by (simp add: run progress_def sum [unfolded cyc_Suc map_append sum_list.append] l64(2) n64 full_sends_def goodleft cyc_Suc)
  qed
qed

lemma reclaim_some_keeps:
  assumes "gt_port c g"
  shows "\<exists>g'. reclaim_some nic g = Some g' \<and> gt_port c g' \<and>
    (progress pipes fss N G last_pkts k g \<longrightarrow> progress pipes fss N G last_pkts k g')"
proof -
  let ?h = "g\<lparr>gt_args := (gt_args g)\<lparr>ignored_reclaims := 0\<rparr>\<rparr>"
  have "gt_port c ?h" using assms by simp
  then obtain n s where "collect_completions nic ?h = Some (?h\<lparr>gt_socks := s, gt_args := (gt_args ?h)\<lparr>transmissions_pending := transmissions_pending (gt_args ?h) - n\<rparr>\<rparr>)"
    "port_ok (tx_socket_fd (gt_args ?h)) c (transmissions_pending (gt_args ?h) - n) s"
    by (rule collect_step [where nic = nic])
  then show ?thesis using assms by (simp add: reclaim_some_def Let_def progress_def)
qed

lemma transmit_step:
  assumes "nic_fair nic" "loaded pipes fss" "gt_port c g" "unat (transmissions_pending (gt_args g)) < 16382"
    and "progress pipes fss N G last_pkts k g" "N < 2 ^ 64" "G < 2 ^ 64"
  shows "\<exists>g'. transmit_pkts nic pipes g = Some g' \<and> gt_port c g' \<and>
    (if N \<le> cyc_bytes fss (Suc k) then finished pipes fss N G last_pkts k g' else progress pipes fss N G last_pkts (Suc k) g')"
proof -
  have "transmissions_pending (gt_args g) < buf_fill_thresh"
    using assms(4) by (simp add: buf_fill_thresh_def word_less_nat_alt kNotificationBufSize_def TRANSFERS_PER_BUFFER_def BUFFER_SIZE_def kMaxTransferLen_def)
  moreover obtain g1 where g1: "send_buffer nic pipes g = Some g1" "gt_port c g1"
    "if N \<le> cyc_bytes fss (Suc k) then finished pipes fss N G last_pkts k g1 \<and> total_remaining_bytes (gt_args g1) = 0
     else progress pipes fss N G last_pkts (Suc k) g1 \<and> total_remaining_bytes (gt_args g1) \<noteq> 0"
    using send_buffer_step [OF assms] by blast
  ultimately show ?thesis
    using reclaim_some_keeps [OF g1(2), of nic pipes fss N G last_pkts "Suc k"] by (auto simp: transmit_pkts_def split: if_splits)
qed

text \<open>When the ring is full, nothing is sent, and sooner or later a collection makes room.\<close>

lemma transmit_full:
  assumes "gt_port c g" "unat (transmissions_pending (gt_args g)) = 16382" "ignored_reclaims (gt_args g) \<le> 1024"
  shows "transmit_pkts nic pipes g = Some (g\<lparr>gt_args := (gt_args g)\<lparr>ignored_reclaims := ignored_reclaims (gt_args g) + 1\<rparr>\<rparr>)"
  using assms by (simp add: transmit_pkts_def buf_fill_thresh_def word_less_nat_alt word_le_nat_alt kNotificationBufSize_def
      TRANSFERS_PER_BUFFER_def BUFFER_SIZE_def kMaxTransferLen_def reclaim_some_def Let_def TX_RECLAIM_DELAY_def)

lemma transmit_full_collect:
  assumes "gt_port c g" "unat (transmissions_pending (gt_args g)) = 16382" "ignored_reclaims (gt_args g) > 1024"
  shows "transmit_pkts nic pipes g = collect_completions nic (g\<lparr>gt_args := (gt_args g)\<lparr>ignored_reclaims := 0\<rparr>\<rparr>)"
  using assms by (simp add: transmit_pkts_def buf_fill_thresh_def word_less_nat_alt word_le_nat_alt kNotificationBufSize_def
      TRANSFERS_PER_BUFFER_def BUFFER_SIZE_def kMaxTransferLen_def reclaim_some_def Let_def TX_RECLAIM_DELAY_def)

lemma tx_loop_step: "keep_running g \<Longrightarrow> transmit_pkts nic pipes g = Some g' \<Longrightarrow> tx_loop nic pipes g = tx_loop nic pipes g'"
  by (simp add: tx_loop.simps [of nic pipes g])

lemma ignored_enough:
  assumes "gt_port c g" "keep_running g" "unat (transmissions_pending (gt_args g)) = 16382"
  shows "\<exists>x > 1024. tx_loop nic pipes g = tx_loop nic pipes (g\<lparr>gt_args := (gt_args g)\<lparr>ignored_reclaims := x\<rparr>\<rparr>)"
  using assms
proof (induction "1025 - unat (ignored_reclaims (gt_args g))" arbitrary: g)
  case 0
  then have "ignored_reclaims (gt_args g) > 1024" by (simp add: word_less_nat_alt)
  then show ?case by (intro exI [of _ "ignored_reclaims (gt_args g)"]) simp
next
  case (Suc m)
  let ?g = "g\<lparr>gt_args := (gt_args g)\<lparr>ignored_reclaims := ignored_reclaims (gt_args g) + 1\<rparr>\<rparr>"
  have le: "unat (ignored_reclaims (gt_args g)) \<le> 1024" using Suc.hyps(2) by simp
  then have up: "unat (ignored_reclaims (gt_args g) + 1) = Suc (unat (ignored_reclaims (gt_args g)))" by (simp add: unat_plus_small)
  have "\<exists>x > 1024. tx_loop nic pipes ?g = tx_loop nic pipes (?g\<lparr>gt_args := (gt_args ?g)\<lparr>ignored_reclaims := x\<rparr>\<rparr>)"
    by (rule Suc.hyps(1)) (use Suc.hyps(2) Suc.prems up in simp_all)
  moreover have "tx_loop nic pipes g = tx_loop nic pipes ?g"
    using Suc.prems le by (intro tx_loop_step transmit_full) (simp_all add: word_le_nat_alt)
  ultimately show ?case by simp
qed

lemma makes_room:
  assumes "gt_port c g" "progress pipes fss N G last_pkts k g"
    and "nb_tx_head ((collect nic ^^ m) (sk_pair c (gt_socks g))) = nb_tx_tail (sk_pair c (gt_socks g))"
  shows "\<exists>g'. tx_loop nic pipes g = tx_loop nic pipes g' \<and> gt_port c g' \<and> progress pipes fss N G last_pkts k g' \<and>
    unat (transmissions_pending (gt_args g')) < 16382"
  using assms
proof (induction m arbitrary: g)
  case 0
  have "tx_paced 0 (unat (transmissions_pending (gt_args g))) (sk_pair c (gt_socks g)) (nb_tx_tail (sk_pair c (gt_socks g)))"
    using "0.prems"(1) by (simp add: port_ok_def)
  from tx_paced_drained [OF this] "0.prems" show ?case by (intro exI [of _ g]) simp
next
  case (Suc m)
  show ?case
  proof (cases "unat (transmissions_pending (gt_args g)) < 16382")
    case False
    then have full: "unat (transmissions_pending (gt_args g)) = 16382" using Suc.prems(1) by (simp add: port_ok_def)
    have run: "keep_running g" using Suc.prems(2) by (simp add: progress_def)
    obtain x where x: "x > 1024" "tx_loop nic pipes g = tx_loop nic pipes (g\<lparr>gt_args := (gt_args g)\<lparr>ignored_reclaims := x\<rparr>\<rparr>)"
      using ignored_enough [OF Suc.prems(1) run full, of nic pipes] by blast
    let ?g = "g\<lparr>gt_args := (gt_args g)\<lparr>ignored_reclaims := x\<rparr>\<rparr>" and ?h = "g\<lparr>gt_args := (gt_args g)\<lparr>ignored_reclaims := 0\<rparr>\<rparr>"
    have "gt_port c ?h" using Suc.prems(1) by simp
    then obtain n s where r: "collect_completions nic ?h = Some (?h\<lparr>gt_socks := s, gt_args := (gt_args ?h)\<lparr>transmissions_pending := transmissions_pending (gt_args ?h) - n\<rparr>\<rparr>)"
      "port_ok (tx_socket_fd (gt_args ?h)) c (transmissions_pending (gt_args ?h) - n) s" "sk_pair c s = collect nic (sk_pair c (gt_socks ?h))"
      by (rule collect_step [where nic = nic])
    let ?g' = "?h\<lparr>gt_socks := s, gt_args := (gt_args ?h)\<lparr>transmissions_pending := transmissions_pending (gt_args ?h) - n\<rparr>\<rparr>"
    have "tx_loop nic pipes ?g = tx_loop nic pipes ?g'"
      using run Suc.prems(1) full x(1) r(1) transmit_full_collect [of ?g c nic pipes] by (intro tx_loop_step) simp_all
    moreover have "\<exists>g'. tx_loop nic pipes ?g' = tx_loop nic pipes g' \<and> gt_port c g' \<and> progress pipes fss N G last_pkts k g' \<and>
        unat (transmissions_pending (gt_args g')) < 16382"
      by (rule Suc.IH) (use r Suc.prems port_collect_tail [OF Suc.prems(1), of nic] in \<open>simp_all add: funpow_swap1 progress_def\<close>)
    ultimately show ?thesis using x(2) by simp
  qed (use Suc.prems in blast)
qed

text \<open>The transmitting loop ends, and the last buffer it sends completes the planned number of bytes.\<close>

lemma tx_loop_ends:
  assumes "nic_fair nic" "loaded pipes fss" "gt_port c g" "progress pipes fss N G last_pkts k g" "N < 2 ^ 64" "G < 2 ^ 64"
  shows "\<exists>g' k'. tx_loop nic pipes g = Some g' \<and> gt_port c g' \<and> finished pipes fss N G last_pkts k' g'"
  using assms(3,4)
proof (induction "N - cyc_bytes fss k" arbitrary: g k rule: less_induct)
  case less
  obtain m where "nb_tx_head ((collect nic ^^ m) (sk_pair c (gt_socks g))) = nb_tx_tail (sk_pair c (gt_socks g))"
    using port_drains [OF assms(1) less.prems(1)] by blast
  from makes_room [OF less.prems this] obtain g1 where g1: "tx_loop nic pipes g = tx_loop nic pipes g1" "gt_port c g1"
    "progress pipes fss N G last_pkts k g1" "unat (transmissions_pending (gt_args g1)) < 16382" by blast
  obtain g2 where g2: "transmit_pkts nic pipes g1 = Some g2" "gt_port c g2"
    "if N \<le> cyc_bytes fss (Suc k) then finished pipes fss N G last_pkts k g2 else progress pipes fss N G last_pkts (Suc k) g2"
    using transmit_step [OF assms(1,2) g1(2,4,3) assms(5,6)] by blast
  have run: "keep_running g1" "cyc_bytes fss k < N" using g1(3) by (simp_all add: progress_def)
  then have eq: "tx_loop nic pipes g = tx_loop nic pipes g2" using g1(1) tx_loop_step [OF run(1) g2(1)] by simp
  show ?case
  proof (cases "N \<le> cyc_bytes fss (Suc k)")
    case True
    then have "\<not> keep_running g2" using g2(3) by (simp add: finished_def)
    then have "tx_loop nic pipes g2 = Some g2" by (simp add: tx_loop.simps)
    with True g2 eq show ?thesis by auto
  next
    case False
    have "N - cyc_bytes fss (Suc k) < N - cyc_bytes fss k"
      using run(2) loaded_nth(4) [OF assms(2), of k] unfolding cyc_Suc concat_append length_append by linarith
    from less.hyps [OF this g2(2)] g2(3) False eq show ?thesis by simp
  qed
qed

section \<open>What was sent\<close>

text \<open>The first \<open>n\<close> packets of a trace that starts over at its end.\<close>

definition first_pkts :: "nat \<Rightarrow> 'a list \<Rightarrow> 'a list" where
  "first_pkts n ws = take n (concat (replicate (Suc (n div length ws)) ws))"

lemma length_concat_replicate [simp]: "length (concat (replicate q ws)) = q * length ws"
  by (induction q) simp_all

lemma first_pkts_eq:
  assumes "ws \<noteq> []"
  shows "first_pkts n ws = concat (replicate (n div length ws) ws) @ take (n mod length ws) ws"
proof -
  have "concat (replicate (Suc (n div length ws)) ws) = concat (replicate (n div length ws) ws) @ ws"
    by (simp add: concat_replicate_snoc)
  then show ?thesis unfolding first_pkts_def by (simp only: take_append) (simp add: minus_div_mult_eq_mod)
qed

lemma length_first_pkts: "ws \<noteq> [] \<Longrightarrow> length (first_pkts n ws) = n"
  by (simp add: first_pkts_eq less_imp_le)

lemma nth_concat_replicate: "i < q * length ws \<Longrightarrow> concat (replicate q ws) ! i = ws ! (i mod length ws)"
proof (induction q arbitrary: i)
  case (Suc q)
  then show ?case by (cases "i < length ws") (simp_all add: nth_append not_less le_mod_geq)
qed simp

lemma nth_first_pkts:
  assumes "i < n" "ws \<noteq> []"
  shows "first_pkts n ws ! i = ws ! (i mod length ws)"
proof -
  have "n < Suc (n div length ws) * length ws" using assms(2) by (simp add: dividend_less_div_times)
  then show ?thesis using assms(1) unfolding first_pkts_def by (subst nth_take) (simp_all only: nth_concat_replicate order.strict_trans)
qed

definition sent_from :: "EnsoPipe list \<Rightarrow> (nat \<times> nat) list \<Rightarrow> u8 list" where
  "sent_from pipes sends = concat (map (\<lambda>(j, n). map (gp_mem (pipes ! j)) [0..<n]) sends)"

lemma holds_bytes:
  assumes "holds b fs" "n \<le> length (concat fs)"
  shows "map (gp_mem b) [0..<n] = take n (concat fs)"
  using assms holds_nth [OF assms(1)] by (auto simp: list_eq_iff_nth_eq)

lemma sent_full:
  assumes "loaded pipes fss"
  shows "sent_from pipes (map (\<lambda>j. (j mod length fss, length (concat (fss ! (j mod length fss))))) [0..<k]) = concat (cyc fss k)"
  by (induction k) (simp_all add: sent_from_def cyc_Suc holds_bytes [OF loaded_nth(3) [OF assms] order_refl])

lemma finished_sends:
  assumes "loaded pipes fss" "finished pipes fss N G last_pkts k g"
  shows "\<exists>sends. gt_sent g = map (\<lambda>(j, n). (gp_phys_addr (pipes ! j), of_nat n)) sends \<and>
    (\<forall>(j, n) \<in> set sends. j < length pipes \<and> n \<le> unat (gp_length (pipes ! j))) \<and>
    sent_from pipes sends = take N (concat (cyc fss (Suc k)))"
proof -
  note ld = loaded_nth(1,2) [OF assms(1)] and h = loaded_nth(3) [OF assms(1)]
  note f = assms(2) [unfolded finished_def]
  let ?m = "length fss" and ?r = "N - cyc_bytes fss k"
  let ?full = "map (\<lambda>j. (j mod ?m, length (concat (fss ! (j mod ?m))))) [0..<k]"
  have len: "unat (gp_length (pipes ! (j mod ?m))) = length (concat (fss ! (j mod ?m)))"
    "gp_length (pipes ! (j mod ?m)) = of_nat (length (concat (fss ! (j mod ?m))))" for j
    using h [of j] holds_D(2) [OF h, of j] by (simp_all add: holds_def)
  have r: "?r \<le> length (concat (fss ! (k mod ?m)))" using f [unfolded cyc_Suc concat_append length_append] by linarith
  have "gt_sent g = map (\<lambda>(j, n). (gp_phys_addr (pipes ! j), of_nat n)) (?full @ [(k mod ?m, ?r)])"
    using f by (simp add: full_sends_def ld(1) len(2) comp_def)
  moreover have "\<forall>(j, n) \<in> set (?full @ [(k mod ?m, ?r)]). j < length pipes \<and> n \<le> unat (gp_length (pipes ! j))"
    using ld r by (auto simp: len(1))
  moreover have "sent_from pipes (?full @ [(k mod ?m, ?r)]) = take N (concat (cyc fss (Suc k)))"
  proof -
    have "sent_from pipes (?full @ [(k mod ?m, ?r)]) = sent_from pipes ?full @ map (gp_mem (pipes ! (k mod ?m))) [0..<?r]"
      by (simp add: sent_from_def)
    then show ?thesis unfolding sent_full [OF assms(1)] holds_bytes [OF h r] using f by (simp add: cyc_Suc)
  qed
  ultimately show ?thesis by blast
qed

lemma prefix_concat: "prefix xs ys \<Longrightarrow> prefix (concat xs) (concat ys)"
  by (auto simp: prefix_def)

lemma first_pkts_cyc:
  assumes "concat fss \<noteq> []"
  shows "\<exists>l. prefix (first_pkts n (concat fss)) (cyc fss l)"
proof -
  let ?q = "n div length (concat fss)"
  have "cyc fss (?q * length fss + length fss) = concat (replicate (Suc ?q) (concat fss))"
    using cyc_part [of "length fss" fss ?q] by (simp add: concat_replicate_snoc)
  then show ?thesis by (metis first_pkts_def take_is_prefix)
qed

lemma finished_first:
  assumes "concat fss \<noteq> []" "N = length (concat (first_pkts n (concat fss)))" "N \<le> cyc_bytes fss k"
  shows "take N (concat (cyc fss k)) = concat (first_pkts n (concat fss))"
proof -
  obtain l where l: "prefix (first_pkts n (concat fss)) (cyc fss l)" using first_pkts_cyc [OF assms(1)] by blast
  have "prefix (first_pkts n (concat fss)) (cyc fss (max k l))"
    using l cyc_mono [of l "max k l" fss] by (meson prefix_order.trans max.cobounded2)
  then have "prefix (concat (first_pkts n (concat fss))) (concat (cyc fss (max k l)))" by (rule prefix_concat)
  moreover have "prefix (take N (concat (cyc fss k))) (concat (cyc fss (max k l)))"
    using prefix_concat [OF cyc_mono [of k "max k l" fss]] take_is_prefix by (meson prefix_order.trans max.cobounded1)
  moreover have "length (take N (concat (cyc fss k))) = length (concat (first_pkts n (concat fss)))" using assms(2,3) by simp
  ultimately show ?thesis by (intro prefix_same)
qed

lemma first_pkts_ok: "\<forall>f \<in> set ws. frame_ok f \<Longrightarrow> \<forall>f \<in> set (first_pkts n ws). frame_ok f"
  by (auto simp: first_pkts_def dest!: in_set_takeD split: if_splits)

lemma frames_bytes: "\<forall>f \<in> set fs. frame_ok f \<Longrightarrow> length (concat fs) \<le> 65536 * length fs \<and> sum_list (map frame_len fs) \<le> length (concat fs)"
proof (induction fs)
  case (Cons f fs)
  then have "frame_len f \<le> length f" "length f \<le> 65536" using frame_ok_length(2) [of f] by (auto simp: frame_ok_def flits_def)
  with Cons show ?case by simp
qed simp

lemma holds_frames: "list_all2 holds pipes fss \<Longrightarrow> \<forall>f \<in> set (concat fss). frame_ok f"
  by (induction rule: list_all2_induct) (auto simp: holds_def)

lemma loaded_frames: "loaded pipes fss \<Longrightarrow> \<forall>f \<in> set (concat fss). frame_ok f"
  unfolding loaded_def by (blast dest: holds_frames)

lemma good_replicate: "sum_list (map frame_len (concat (replicate q ws))) = q * sum_list (map frame_len ws)"
  by (induction q) simp_all

lemma concat_concat_replicate: "concat (concat (replicate q ws)) = concat (replicate q (concat ws))"
  by (induction q) simp_all

lemma generator_run:
  fixes s :: "'b sockets"
  assumes "nic_fair nic" "loaded pipes fss" "0 < n" "65536 * n < 2 ^ 64" "length (concat fss) < 2 ^ 64"
    and "bytes_to_send (of_nat n) pipes = Some (tot, good, last_pkts)"
    and "sock_nb fd s = Some (i, c)" "nb_idle (sk_pair c s)"
  defines "ws \<equiv> concat fss"
  shows "\<exists>g k. tx_loop nic pipes (gen_start tot good last_pkts fd s) = Some g \<and> gt_port c g \<and>
    finished pipes fss (length (concat (first_pkts n ws))) (n div length ws * sum_list (map frame_len ws)) last_pkts k g"
    and "last_pkts = of_nat (if n mod length ws = 0 then length (last fss) else in_last (n mod length ws) fss)"
proof -
  let ?N = "length (concat (first_pkts n ws))" and ?G = "n div length ws * sum_list (map frame_len ws)"
  let ?g = "gen_start tot good last_pkts fd s :: 'b gen_tx"
  have ne: "ws \<noteq> []" using assms(2) by (cases fss) (auto simp: loaded_def ws_def)
  have ok: "\<forall>f \<in> set ws. frame_ok f" using loaded_frames [OF assms(2)] by (simp add: ws_def)
  note first = first_pkts_ok [OF ok, of n]
  have N: "64 * n \<le> ?N" "?N \<le> 65536 * n"
    using frames_count [OF first] frames_bytes [OF first] length_first_pkts [OF ne, of n] by simp_all
  have sum: "?N = n div length ws * length (concat ws) + length (concat (take (n mod length ws) ws))"
    by (simp add: first_pkts_eq [OF ne] concat_concat_replicate)
  have G: "?G \<le> ?N" using frames_bytes [OF ok] sum by (simp add: trans_le_add1)
  have plan: "(tot, good, last_pkts) = (of_nat ?N, of_nat ?G, of_nat (if n mod length ws = 0 then length (last fss) else in_last (n mod length ws) fss))"
    using bytes_to_send_eq [of pipes fss n] assms ne sum by (simp add: Let_def loaded_def)
  then show "last_pkts = of_nat (if n mod length ws = 0 then length (last fss) else in_last (n mod length ws) fss)" by simp
  have "0 < ?N" using N(1) assms(3) by linarith
  have "progress pipes fss ?N ?G last_pkts 0 ?g"
    using plan \<open>0 < ?N\<close> loaded_nth(1) [OF assms(2)] by (simp add: progress_def gen_start_def TxArgs_new_def full_sends_def)
  moreover have "gt_port c ?g" using assms(7,8) by (simp add: port_ok_def gen_start_def TxArgs_new_def nb_idle_def)
  moreover have "?N < 2 ^ 64" "?G < 2 ^ 64" using N(2) G assms(4) by linarith+
  ultimately show "\<exists>g k. tx_loop nic pipes ?g = Some g \<and> gt_port c g \<and> finished pipes fss ?N ?G last_pkts k g"
    by (intro tx_loop_ends [OF assms(1,2)])
qed

section \<open>What is reported\<close>

lemma cyc_bytes_less:
  assumes "loaded pipes fss" "a < b"
  shows "cyc_bytes fss a < cyc_bytes fss b"
proof (rule lift_Suc_mono_less [OF _ assms(2)])
  show "cyc_bytes fss k < cyc_bytes fss (Suc k)" for k
    using loaded_nth(4) [OF assms(1), of k] unfolding cyc_Suc concat_append length_append by linarith
qed

lemma cyc_bytes_le: "loaded pipes fss \<Longrightarrow> cyc_bytes fss a < cyc_bytes fss b \<Longrightarrow> a < b"
  using cyc_bytes_less [of pipes fss b a] by (metis linorder_less_linear order_less_imp_not_less)

lemma take_bytes_less:
  assumes "length (concat (take a ws)) < length (concat (take b ws))"
  shows "a < b"
proof (rule ccontr)
  assume "\<not> a < b"
  then have "take a ws = take b ws @ take (a - b) (drop b ws)" by (metis le_add_diff_inverse not_less take_add)
  then show False using assms by simp
qed

lemma take_bytes_le:
  assumes "\<forall>f \<in> set ws. frame_ok f" "length (concat (take a ws)) \<le> length (concat (take b ws))" "a \<le> length ws"
  shows "a \<le> b"
proof (rule ccontr)
  assume n: "\<not> a \<le> b"
  then have eq: "take a ws = take b ws @ take (a - b) (drop b ws)" by (metis le_add_diff_inverse not_le order_less_imp_le take_add)
  have pos: "0 < length (take (a - b) (drop b ws))" using n assms(3) by simp
  have "\<forall>f \<in> set (take (a - b) (drop b ws)). frame_ok f" using assms(1) by (meson in_set_takeD in_set_dropD)
  from frames_count [OF this] pos have "0 < length (concat (take (a - b) (drop b ws)))" by linarith
  then show False using assms(2) unfolding eq concat_append length_append by linarith
qed

lemma take_concat: "t \<le> length fss \<Longrightarrow> concat (take t fss) = take (length (concat (take t fss))) (concat fss)"
  by (metis append_take_drop_id append_eq_conv_conj concat_append)

lemma take_concat_le: "a \<le> b \<Longrightarrow> length (concat (take a fss)) \<le> length (concat (take b fss))"
  by (metis le_add_diff_inverse take_add concat_append length_append le_add1)

lemma in_last_eq:
  assumes "[] \<notin> set fss" "t < length fss" "length (concat (take t fss)) < r" "r \<le> length (concat (take (Suc t) fss))" "r < length (concat fss)"
  shows "in_last r fss = (if r = length (concat (take (Suc t) fss)) then 0 else r - length (concat (take t fss)))"
  using assms
proof (induction fss arbitrary: t r)
  case (Cons fs fss)
  show ?case
  proof (cases t)
    case 0
    with Cons.prems show ?thesis by (cases fss) auto
  next
    case (Suc u)
    with Cons.prems have "in_last (r - length fs) fss = (if r - length fs = length (concat (take (Suc u) fss)) then 0
        else r - length fs - length (concat (take u fss)))"
      by (intro Cons.IH) auto
    then show ?thesis using Suc Cons.prems by auto
  qed
qed simp

lemma cyc_bytes_part:
  "t \<le> length fss \<Longrightarrow> cyc_bytes fss (q * length fss + t) = q * length (concat (concat fss)) + length (concat (concat (take t fss)))"
  by (simp add: cyc_part concat_concat_replicate)

text \<open>Where the last buffer lies: in the last full round, or after \<open>t\<close> buffers of the round that is not completed.\<close>

lemma finished_round:
  assumes "loaded pipes fss" "0 < n" "ws = concat fss" "N = length (concat (first_pkts n ws))"
    and "cyc_bytes fss k < N" "N \<le> cyc_bytes fss (Suc k)"
  shows "n mod length ws = 0 \<Longrightarrow> Suc k = n div length ws * length fss"
    and "n mod length ws \<noteq> 0 \<Longrightarrow> \<exists>t < length fss. k = n div length ws * length fss + t \<and>
      length (concat (take t fss)) < n mod length ws \<and> n mod length ws \<le> length (concat (take (Suc t) fss))"
proof -
  let ?q = "n div length ws" and ?r = "n mod length ws" and ?m = "length fss"
  have ne: "ws \<noteq> []" using assms(1,3) by (cases fss) (auto simp: loaded_def)
  have ok: "\<forall>f \<in> set ws. frame_ok f" using loaded_frames [OF assms(1)] by (simp add: assms(3))
  have N: "N = ?q * length (concat ws) + length (concat (take ?r ws))"
    by (simp add: assms(4) first_pkts_eq [OF ne] concat_concat_replicate)
  have full: "cyc_bytes fss (?q * ?m) = ?q * length (concat ws)" using cyc_bytes_part [of 0 fss ?q] by (simp add: assms(3))
  have lt: "?r < length ws" using ne by simp
  show "Suc k = ?q * ?m" if "?r = 0"
  proof -
    have "N = cyc_bytes fss (?q * ?m)" using N full that by simp
    then have "k < ?q * ?m" "\<not> Suc k < ?q * ?m"
      using assms(5,6) cyc_bytes_le [OF assms(1)] cyc_bytes_less [OF assms(1), of "Suc k" "?q * ?m"] by (blast, linarith)
    then show ?thesis by simp
  qed
  assume r: "?r \<noteq> 0"
  have "\<not> length (concat (take ?r ws)) \<le> length (concat (take 0 ws))" using take_bytes_le [OF ok, of ?r 0] r lt by linarith
  then have "cyc_bytes fss (?q * ?m) < cyc_bytes fss (Suc k)" using N full assms(6) by linarith
  then have lo: "?q * ?m \<le> k" using cyc_bytes_le [OF assms(1)] by fastforce
  have "length (concat (take ?r ws)) \<le> length (concat ws)" by (metis append_take_drop_id concat_append length_append le_add1)
  then have "N \<le> cyc_bytes fss (?q * ?m + ?m)" using cyc_bytes_part [of ?m fss ?q] N by (simp add: assms(3))
  then have "cyc_bytes fss k < cyc_bytes fss (?q * ?m + ?m)" using assms(5) by linarith
  then have hi: "k < ?q * ?m + ?m" by (rule cyc_bytes_le [OF assms(1)])
  define t where "t = k - ?q * ?m"
  have t: "t < ?m" "k = ?q * ?m + t" using lo hi by (simp_all add: t_def)
  have "length (concat (concat (take t fss))) < length (concat (take ?r ws))" "length (concat (take ?r ws)) \<le> length (concat (concat (take (Suc t) fss)))"
    using assms(5,6) N cyc_bytes_part [of t fss ?q] cyc_bytes_part [of "Suc t" fss ?q] t by (simp_all add: assms(3))
  moreover have "concat (take t fss) = take (length (concat (take t fss))) ws" "concat (take (Suc t) fss) = take (length (concat (take (Suc t) fss))) ws"
    unfolding assms(3) using t(1) by (intro take_concat, simp)+
  ultimately have "length (concat (take t fss)) < ?r" "?r \<le> length (concat (take (Suc t) fss))"
    using take_bytes_less [of "length (concat (take t fss))" ws ?r] take_bytes_le [OF ok, of ?r "length (concat (take (Suc t) fss))"] lt by auto
  with t show "\<exists>t < length fss. k = ?q * ?m + t \<and> length (concat (take t fss)) < ?r \<and> ?r \<le> length (concat (take (Suc t) fss))" by blast
qed

lemma finished_good:
  assumes "loaded pipes fss" "0 < n" "ws = concat fss" "finished pipes fss (length (concat (first_pkts n ws))) G last_pkts k g"
    and "G = n div length ws * sum_list (map frame_len ws)"
  shows "tx_bytes (gt_stats g) = of_nat G"
proof -
  let ?q = "n div length ws" and ?r = "n mod length ws" and ?m = "length fss"
  note f = assms(4) [unfolded finished_def]
  have k: "cyc_bytes fss k < length (concat (first_pkts n ws))" "length (concat (first_pkts n ws)) \<le> cyc_bytes fss (Suc k)" using f by blast+
  have "?q * ?m \<le> Suc k" using finished_round [OF assms(1-3) refl k] by (cases "?r = 0") fastforce+
  then have "prefix (cyc fss (?q * ?m)) (cyc fss (Suc k))" by (rule cyc_mono)
  then have "cyc_good fss (?q * ?m) \<le> cyc_good fss (Suc k)" by (auto simp: prefix_def)
  moreover have "cyc_good fss (?q * ?m) = G" using cyc_part [of 0 fss ?q] by (simp add: assms(3,5) good_replicate)
  ultimately show ?thesis using f by (simp add: min_def)
qed

lemma finished_pkts:
  assumes "loaded pipes fss" "0 < n" "ws = concat fss" "finished pipes fss (length (concat (first_pkts n ws))) G last_pkts k g"
    and "last_pkts = of_nat (if n mod length ws = 0 then length (last fss) else in_last (n mod length ws) fss)"
  shows "n mod length ws = 0 \<Longrightarrow> tx_pkts (gt_stats g) = of_nat n"
    and "n mod length ws \<noteq> 0 \<Longrightarrow> \<exists>t < length fss. length (concat (take t fss)) < n mod length ws \<and>
      n mod length ws \<le> length (concat (take (Suc t) fss)) \<and>
      tx_pkts (gt_stats g) = of_nat (if n mod length ws = length (concat (take (Suc t) fss)) then n - length (fss ! t) else n)"
proof -
  let ?q = "n div length ws" and ?r = "n mod length ws" and ?m = "length fss"
  have k: "cyc_bytes fss k < length (concat (first_pkts n ws))" "length (concat (first_pkts n ws)) \<le> cyc_bytes fss (Suc k)"
    and pk: "tx_pkts (gt_stats g) = of_nat (length (cyc fss k)) + last_pkts"
    using assms(4) [unfolded finished_def] by blast+
  note round = finished_round [OF assms(1-3) refl k]
  have nn: "n = ?q * length ws + ?r" by simp
  have lt: "?r < length ws" using assms(1,3) by (cases fss) (auto simp: loaded_def)
  have part: "length (cyc fss (?q * ?m + t)) = ?q * length ws + length (concat (take t fss))" if "t \<le> ?m" for t
    using cyc_part [OF that, of ?q] by (simp add: assms(3))
  show "tx_pkts (gt_stats g) = of_nat n" if z: "?r = 0"
  proof -
    have "Suc k mod ?m = 0" using round(1) [OF z] by simp
    then have "k mod ?m = ?m - 1" using mod_Suc [of k ?m] by (simp split: if_splits)
    with loaded_nth(2) [OF assms(1)] have "fss ! (k mod ?m) = last fss" by (simp add: last_conv_nth)
    then have "length (cyc fss (Suc k)) = length (cyc fss k) + length (last fss)" by (simp add: cyc_Suc)
    then have "n = length (cyc fss k) + length (last fss)" using part [of 0] round(1) [OF z] z nn by simp
    then show ?thesis using pk assms(5) z by simp
  qed
  assume r: "?r \<noteq> 0"
  obtain t where t: "t < ?m" "k = ?q * ?m + t" "length (concat (take t fss)) < ?r" "?r \<le> length (concat (take (Suc t) fss))"
    using round(2) [OF r] by blast
  have il: "in_last ?r fss = (if ?r = length (concat (take (Suc t) fss)) then 0 else ?r - length (concat (take t fss)))"
    using in_last_eq [of fss t ?r] t assms(1,3) lt by (simp add: loaded_def)
  have len: "length (cyc fss k) = ?q * length ws + length (concat (take t fss))" using part [of t] t by simp
  have grow: "length (concat (take (Suc t) fss)) = length (concat (take t fss)) + length (fss ! t)" using t(1) by (simp add: take_Suc_conv_app_nth)
  have sums: "L = Q + a \<Longrightarrow> b = a + l \<Longrightarrow> x = Q + y \<Longrightarrow> a < y \<Longrightarrow>
      L + (if y = b then 0 else y - a) = (if y = b then x - l else x)" for L Q a b l x y :: nat by simp
  have "length (cyc fss k) + in_last ?r fss = (if ?r = length (concat (take (Suc t) fss)) then n - length (fss ! t) else n)"
    unfolding il by (rule sums [OF len grow nn t(3)])
  with pk assms(5) r have "tx_pkts (gt_stats g) = of_nat (if ?r = length (concat (take (Suc t) fss)) then n - length (fss ! t) else n)"
    by (simp del: of_nat_add flip: of_nat_add)
  with t show "\<exists>t < ?m. length (concat (take t fss)) < ?r \<and> ?r \<le> length (concat (take (Suc t) fss)) \<and>
      tx_pkts (gt_stats g) = of_nat (if ?r = length (concat (take (Suc t) fss)) then n - length (fss ! t) else n)" by blast
qed

section \<open>Properties\<close>


text \<open>A socket on core 0 with nothing pending.\<close>

definition gen_sockets :: "nat sockets" where
  "gen_sockets = sockets_zero\<lparr>open_sockets := (\<lambda>_. \<lparr>si_nb = Some 0, si_pipe = ep_none\<rparr>),
     sk_nbs := (\<lambda>_. \<lparr>nb_pair = nb_zero, nb_rx_buf_addr = 0, nb_huge_page_prefix = ''''\<rparr>)\<rparr>"

lemma gen_sockets_ok: "sock_nb 5 gen_sockets = Some (5, 0)" "nb_idle (sk_pair 0 gen_sockets)"
proof -
  show "sock_nb 5 gen_sockets = Some (5, 0)"
    by (simp add: sock_nb_def sock_index_def gen_sockets_def MAX_NB_SOCKETS_def kMaxNbFlows_def)
  have "sk_pair 0 gen_sockets = nb_zero" by (simp add: sk_pair_def gen_sockets_def)
  then show "nb_idle (sk_pair 0 gen_sockets)" using tx_inv_zero by (intro nb_idle_I) (simp_all add: nb_zero_def)
qed

lemma gen_example_loads: "\<exists>ctx. handle_pkts id (\<lambda>_. 0) gen_pages [pkt64] (ctx_init os_empty) = Inr ctx \<and> \<not> pcap_break ctx"
  by (simp add: pcap_pkt_handler_def pkt64_len gen_page_first ctx_init_def Let_def place_last_def add_buffer_def
      HUGEPAGE_SIZE_def BUFFER_SIZE_def kMaxTransferLen_def) (simp add: pkt64_def nth_append)


text \<open>
  C37: What the generator reports at the end. The bytes reported as sent are those of the full rounds over the
  trace only: the bytes of a round that the number of packets does not complete are missing, all of them when
  the trace is longer than the number of packets. The packets reported are right, except when the last packet
  ends a buffer inside a round: then the packets of that buffer are missing.
\<close>

theorem generator_reports:
  assumes "nic_fair nic" "loaded pipes fss" "0 < n" "65536 * n < 2 ^ 64" "length (concat fss) < 2 ^ 64"
    and "bytes_to_send (of_nat n) pipes = Some (tot, good, last_pkts)"
    and "sock_nb fd s = Some (i, c)" "nb_idle (sk_pair c s)"
  shows "\<exists>g. tx_loop nic pipes (gen_start tot good last_pkts fd s) = Some g \<and>
    (let ws = concat fss; q = n div length ws; r = n mod length ws in
     tx_bytes (gt_stats g) = of_nat (q * sum_list (map frame_len ws)) \<and>
     (if r = 0 then tx_pkts (gt_stats g) = of_nat n
      else \<exists>t < length fss. length (concat (take t fss)) < r \<and> r \<le> length (concat (take (Suc t) fss)) \<and>
        tx_pkts (gt_stats g) = of_nat (if r = length (concat (take (Suc t) fss)) then n - length (fss ! t) else n)))"
proof -
  note run = generator_run [OF assms]
  obtain g k where g: "tx_loop nic pipes (gen_start tot good last_pkts fd s) = Some g"
    "finished pipes fss (length (concat (first_pkts n (concat fss)))) (n div length (concat fss) * sum_list (map frame_len (concat fss))) last_pkts k g"
    using run(1) by blast
  note b = finished_good [OF assms(2,3) refl g(2) refl] and p = finished_pkts [OF assms(2,3) refl g(2) run(2)]
  show ?thesis using g(1) b p by (auto simp: Let_def)
qed

text \<open>Two buffers with one packet each, and three packets to send.\<close>

definition gen_two :: "EnsoPipe list" where
  "gen_two = (let b = place_pkt ((!) pkt64) 64 1 (new_pipe id (\<lambda>_. 0) HUGEPAGE_SIZE) in [b, b])"

lemma gen_two_loaded: "loaded gen_two [[pkt64], [pkt64]]"
proof -
  have ok: "frame_ok pkt64" using pkt64_ok by (simp add: frame_ok_def pkt_ok_def frame_len_def pkt64_def nth_append flits_def)
  have "ring_slice page_N (gp_mem (place_pkt ((!) pkt64) 64 1 (new_pipe id (\<lambda>_. 0) HUGEPAGE_SIZE))) 0 64 = pkt64"
    by (rule nth_equalityI) (simp_all add: place_pkt_def new_pipe_def pkt64_def)
  moreover have "length pkt64 = 64" "frame_len pkt64 = 64" by (simp_all add: pkt64_def frame_len_def nth_append)
  ultimately show ?thesis using ok by (simp add: loaded_def gen_two_def Let_def holds_def) (simp add: place_pkt_def new_pipe_def)
qed

theorem generator_reports_witness:
  "\<exists>tot good last_pkts g. bytes_to_send (of_nat 3) gen_two = Some (tot, good, last_pkts) \<and>
     tx_loop nic_eager gen_two (gen_start tot good last_pkts 5 gen_sockets) = Some g \<and>
     tx_pkts (gt_stats g) = 2 \<and> tx_bytes (gt_stats g) = 128"
proof -
  have "list_all2 holds gen_two [[pkt64], [pkt64]]" using gen_two_loaded by (simp add: loaded_def)
  from bytes_to_send_eq [OF this, of 3] obtain tot good last_pkts where
    plan: "bytes_to_send (of_nat 3) gen_two = Some (tot, good, last_pkts)" by (auto simp: Let_def)
  have len: "frame_len pkt64 = 64" "length (concat [[pkt64], [pkt64]]) = 2" by (simp_all add: pkt64_def frame_len_def nth_append)
  have prems: "0 < (3 :: nat)" "65536 * 3 < (2 ^ 64 :: nat)" "length (concat [[pkt64], [pkt64]]) < 2 ^ 64" by simp_all
  obtain g where g: "tx_loop nic_eager gen_two (gen_start tot good last_pkts 5 gen_sockets) = Some g"
    "tx_bytes (gt_stats g) = of_nat (3 div 2 * sum_list (map frame_len (concat [[pkt64], [pkt64]])))"
    "if 3 mod 2 = (0 :: nat) then tx_pkts (gt_stats g) = of_nat 3
     else \<exists>t < length [[pkt64], [pkt64]]. length (concat (take t [[pkt64], [pkt64]])) < 3 mod 2 \<and>
      3 mod 2 \<le> length (concat (take (Suc t) [[pkt64], [pkt64]])) \<and> tx_pkts (gt_stats g) =
        of_nat (if 3 mod 2 = length (concat (take (Suc t) [[pkt64], [pkt64]])) then 3 - length ([[pkt64], [pkt64]] ! t) else 3)"
    using generator_reports [OF nic_fair_eager gen_two_loaded prems plan gen_sockets_ok] unfolding Let_def len(2) by blast
  then have "tx_pkts (gt_stats g) = 2" by (auto simp: less_2_cases_iff less_Suc_eq)
  moreover have "tx_bytes (gt_stats g) = 128" using g(2) by (simp add: len)
  ultimately show ?thesis using plan g(1) by blast
qed

end
