(* ===== verification/Gen_Receive.thy ===== *)
theory Gen_Receive
  imports Pkt_Batch Enso_Sockets
begin

text \<open>
  The packet generator, \<^verbatim>\<open>software/examples/ensogen.cpp\<close>, on the receiving side: \<^verbatim>\<open>receive_pkts\<close> walks
  over the packets of a batch, counts them and records their round-trip times, and frees the batch for the
  NIC. The loops around it are in \<open>Gen_Threads\<close>, the options that control it in \<open>Gen_Main\<close>.

  \<open>mem i\<close> is the page of the circular buffer of socket \<open>i\<close>. \<open>None\<close> is a loop that never ends or an access
  outside an array, \<open>Inl\<close> an exit code.
\<close>

section \<open>Statistics\<close>

definition RECV_BUF_LEN :: u64 where "RECV_BUF_LEN = 10000000"
definition ITER_NO_PKT_THRESH :: u64 where "ITER_NO_PKT_THRESH = push_bit 28 1"

record RxStats =
  rx_pkts :: u64
  rx_bytes :: u64
  rtt_sum :: u64
  rx_nb_batches :: u64
  rtt_hist_len :: u32
  rtt_hist_offset :: u32
  rtt_hist :: "u64 arr"
  backup_rtt_hist :: "u32 \<rightharpoonup> u64"

definition RxStats_new :: "u32 \<Rightarrow> u32 \<Rightarrow> RxStats" where
  "RxStats_new len offset = \<lparr>rx_pkts = 0, rx_bytes = 0, rtt_sum = 0, rx_nb_batches = 0, rtt_hist_len = len,
     rtt_hist_offset = offset, rtt_hist = (\<lambda>_. 0), backup_rtt_hist = Map.empty\<rparr>"

definition add_rtt_to_hist :: "u32 \<Rightarrow> RxStats \<Rightarrow> RxStats option" where
  "add_rtt_to_hist rtt st =
     (if rtt \<ge> rtt_hist_len st - rtt_hist_offset st \<or> rtt < rtt_hist_offset st then
        Some (st\<lparr>backup_rtt_hist := (backup_rtt_hist st)(rtt \<mapsto> (case backup_rtt_hist st rtt of None \<Rightarrow> 0 | Some n \<Rightarrow> n) + 1)\<rparr>)
      else
        let i = unat (rtt - rtt_hist_offset st) in
        if i < unat (rtt_hist_len st) then Some (st\<lparr>rtt_hist := (rtt_hist st)(i := rtt_hist st i + 1)\<rparr>) else None)"

record RxArgs =
  enable_rtt :: bool
  enable_rtt_history :: bool
  rx_socket_fd :: int
  timestamp_offset :: u8

section \<open>Receiving\<close>

definition load32 :: "u64 \<Rightarrow> u8 arr \<Rightarrow> u64 \<Rightarrow> u32" where
  "load32 base page a = ucast (buf_byte base page a) OR push_bit 8 (ucast (buf_byte base page (a + 1))) OR
     push_bit 16 (ucast (buf_byte base page (a + 2))) OR push_bit 24 (ucast (buf_byte base page (a + 3)))"

definition get_pkt_rtt :: "u64 \<Rightarrow> u8 arr \<Rightarrow> u64 \<Rightarrow> u8 \<Rightarrow> u32" where
  "get_pkt_rtt base page pkt rtt_offset = ntohl (load32 base page (pkt + ucast rtt_offset))"

definition record_rtt :: "RxArgs \<Rightarrow> u32 \<Rightarrow> RxStats \<Rightarrow> RxStats option" where
  "record_rtt a rtt st =
     (let st1 = st\<lparr>rtt_sum := rtt_sum st + ucast rtt\<rparr> in if enable_rtt_history a then add_rtt_to_hist rtt st1 else Some st1)"

text \<open>The length in units of 64 bytes, and in bytes again; both are stored in 16 bits.\<close>

definition pkt_aligned_len :: "u16 \<Rightarrow> u16" where
  "pkt_aligned_len pkt_len = (let nb_flits = of_int ((uint pkt_len - 1) sdiv 64 + 1) :: u16 in of_int (uint nb_flits * 64))"

text \<open>The loop over the packets of a batch, with the number of bytes and of packets so far.\<close>

partial_function (option) rx_pkt_loop :: "RxArgs \<Rightarrow> u64 \<Rightarrow> u8 arr \<Rightarrow> int \<Rightarrow> u64 \<Rightarrow> int \<Rightarrow> u64 \<Rightarrow> u64 \<Rightarrow> RxStats \<Rightarrow>
    (u64 \<times> u64 \<times> RxStats) option" where
  "rx_pkt_loop a base page recv_len pkt processed_bytes recv_bytes nb_pkts st =
     (if processed_bytes < recv_len then
        let pkt_len = get_pkt_len base page pkt in
        Option.bind (if enable_rtt a then record_rtt a (get_pkt_rtt base page pkt (timestamp_offset a)) st else Some st)
          (rx_pkt_loop a base page recv_len (pkt + ucast (pkt_aligned_len pkt_len)) (processed_bytes + uint (pkt_aligned_len pkt_len))
            (recv_bytes + ucast pkt_len) (nb_pkts + 1))
      else Some (recv_bytes, nb_pkts, st))"

definition receive_pkts :: "RxArgs \<Rightarrow> (nat \<Rightarrow> u8 arr) \<Rightarrow> RxStats \<Rightarrow> 'b sockets \<Rightarrow> (int + (u64 \<times> RxStats \<times> 'b sockets)) option" where
  "receive_pkts a mem st s =
     Option.bind (recv_select (rx_socket_fd a) RECV_BUF_LEN s) (\<lambda>(recv_len, found, s1).
       if recv_len < 0 then Some (Inl 7)
       else if recv_len > 0 then
         Option.bind found (\<lambda>(socket_fd, recv_buf).
         Option.bind (rx_pkt_loop a (ep_buf (si_pipe (open_sockets s1 (nat socket_fd)))) (mem (nat socket_fd)) recv_len recv_buf 0 0 0 st)
           (\<lambda>(recv_bytes, nb_pkts, st1).
             map_option (\<lambda>s2. Inr (nb_pkts, st1\<lparr>rx_pkts := rx_pkts st1 + nb_pkts, rx_nb_batches := rx_nb_batches st1 + 1,
                 rx_bytes := rx_bytes st1 + recv_bytes\<rparr>, s2))
               (free_enso_pipe socket_fd (of_int recv_len) s1)))
       else Some (Inr (0, st, s1)))"

section \<open>The histogram\<close>

text \<open>How often a round-trip time has been recorded, wherever it is stored.\<close>

definition hist_count :: "RxStats \<Rightarrow> u32 \<Rightarrow> u64" where
  "hist_count st v =
     (if v \<ge> rtt_hist_len st - rtt_hist_offset st \<or> v < rtt_hist_offset st
      then (case backup_rtt_hist st v of None \<Rightarrow> 0 | Some n \<Rightarrow> n) else rtt_hist st (unat (v - rtt_hist_offset st)))"

abbreviation hist_ok :: "RxStats \<Rightarrow> bool" where
  "hist_ok st \<equiv> rtt_hist_offset st \<le> rtt_hist_len st"

lemma hist_index:
  fixes v off len :: u32
  assumes "off \<le> len" "\<not> v \<ge> len - off" "\<not> v < off"
  shows "unat (v - off) < unat len"
  using assms by (simp add: word_le_nat_alt word_less_nat_alt unat_sub)

lemma add_rtt_counts:
  assumes "hist_ok st"
  obtains st' where "add_rtt_to_hist rtt st = Some st'" "hist_count st' = (hist_count st)(rtt := hist_count st rtt + 1)" "hist_ok st'"
    "rx_pkts st' = rx_pkts st" "rx_bytes st' = rx_bytes st" "rtt_sum st' = rtt_sum st" "rx_nb_batches st' = rx_nb_batches st"
proof (cases "rtt \<ge> rtt_hist_len st - rtt_hist_offset st \<or> rtt < rtt_hist_offset st")
  case True
  then show ?thesis using assms by (intro that [of "st\<lparr>backup_rtt_hist := (backup_rtt_hist st)(rtt \<mapsto> (case backup_rtt_hist st rtt of None \<Rightarrow> 0 | Some n \<Rightarrow> n) + 1)\<rparr>"])
    (auto simp: add_rtt_to_hist_def hist_count_def fun_eq_iff)
next
  case False
  let ?i = "unat (rtt - rtt_hist_offset st)"
  have "?i < unat (rtt_hist_len st)" using False assms by (intro hist_index) simp_all
  with False show ?thesis using assms by (intro that [of "st\<lparr>rtt_hist := (rtt_hist st)(?i := rtt_hist st ?i + 1)\<rparr>"])
    (auto simp: add_rtt_to_hist_def hist_count_def fun_eq_iff Let_def word_unat_eq_iff [symmetric])
qed

section \<open>Walking over a batch\<close>

definition frame_rtt :: "u8 \<Rightarrow> u8 list \<Rightarrow> u32" where
  "frame_rtt off f = (let i = unat off in
     ntohl (ucast (f ! i) OR push_bit 8 (ucast (f ! (i + 1))) OR push_bit 16 (ucast (f ! (i + 2))) OR push_bit 24 (ucast (f ! (i + 3)))))"

text \<open>The round-trip times \<open>rs\<close> have been added up and those in \<open>hs\<close> counted; nothing else has changed.\<close>

definition counted :: "u32 list \<Rightarrow> u32 list \<Rightarrow> RxStats \<Rightarrow> RxStats \<Rightarrow> bool" where
  "counted rs hs st st' \<longleftrightarrow> rtt_sum st' = rtt_sum st + sum_list (map ucast rs) \<and>
     hist_count st' = (\<lambda>v. hist_count st v + of_nat (count_list hs v)) \<and>
     rx_pkts st' = rx_pkts st \<and> rx_bytes st' = rx_bytes st \<and> rx_nb_batches st' = rx_nb_batches st"

lemma counted_refl: "counted [] [] st st"
  by (simp add: counted_def)

lemma counted_trans: "counted rs hs st st1 \<Longrightarrow> counted rs' hs' st1 st2 \<Longrightarrow> counted (rs @ rs') (hs @ hs') st st2"
  by (simp add: counted_def add.assoc)

abbreviation rtts_of :: "RxArgs \<Rightarrow> u8 list list \<Rightarrow> u32 list" where
  "rtts_of a fs \<equiv> (if enable_rtt a then map (frame_rtt (timestamp_offset a)) fs else [])"

abbreviation hists_of :: "RxArgs \<Rightarrow> u8 list list \<Rightarrow> u32 list" where
  "hists_of a fs \<equiv> (if enable_rtt_history a then rtts_of a fs else [])"

lemma hist_count_sum [simp]: "hist_count (st\<lparr>rtt_sum := x\<rparr>) = hist_count st"
  by (simp add: hist_count_def fun_eq_iff)

lemma record_rtt_counts:
  assumes "enable_rtt_history a \<Longrightarrow> hist_ok st"
  obtains st' where "record_rtt a r st = Some st'" "counted [r] (if enable_rtt_history a then [r] else []) st st'"
    "enable_rtt_history a \<longrightarrow> hist_ok st'"
proof (cases "enable_rtt_history a")
  case True
  then have "hist_ok (st\<lparr>rtt_sum := rtt_sum st + ucast r\<rparr>)" using assms by simp
  from add_rtt_counts [OF this, of r] obtain st' where st': "add_rtt_to_hist r (st\<lparr>rtt_sum := rtt_sum st + ucast r\<rparr>) = Some st'"
    "hist_count st' = (hist_count (st\<lparr>rtt_sum := rtt_sum st + ucast r\<rparr>))(r := hist_count (st\<lparr>rtt_sum := rtt_sum st + ucast r\<rparr>) r + 1)" "hist_ok st'"
    "rx_pkts st' = rx_pkts st" "rx_bytes st' = rx_bytes st" "rtt_sum st' = rtt_sum st + ucast r" "rx_nb_batches st' = rx_nb_batches st"
    by auto
  with True show ?thesis by (intro that [of st']) (auto simp: record_rtt_def Let_def counted_def fun_eq_iff)
next
  case False
  then show ?thesis by (intro that [of "st\<lparr>rtt_sum := rtt_sum st + ucast r\<rparr>"]) (simp_all add: record_rtt_def counted_def)
qed

lemma pkt_rtt_frame:
  assumes "frame_ok f" "ring_slice page_N page i (length f) = f" "unat off \<le> 60"
  shows "get_pkt_rtt base page (base + of_nat i) off = frame_rtt off f"
proof -
  have off: "(ucast off :: u64) = of_nat (unat off)" by (intro word_eq_of_nat) (simp add: unat_ucast_up)
  have "buf_byte base page (base + of_nat i + of_nat (unat off + j)) = f ! (unat off + j)" if "j < 4" for j
    using frame_ok_length(1) [OF assms(1)] assms(3) that by (intro frame_byte [OF assms(2)]) simp
  from this [of 0] this [of 1] this [of 2] this [of 3] show ?thesis
    unfolding get_pkt_rtt_def load32_def frame_rtt_def Let_def off by (simp add: add_ac)
qed

lemma unat_aligned_len: "unat (pkt_aligned_len l) = 64 * flits (unat l) mod 65536"
proof -
  have "pkt_aligned_len l = of_nat (64 * flits (unat l))"
    unfolding pkt_aligned_len_def Let_def uint_flits by (simp add: mult.commute)
  then show ?thesis by (simp only: unat_of_nat take_bit_eq_mod) simp
qed

lemma aligned_len_frame:
  assumes "frame_ok f" "length f < 65536" "ring_slice page_N page i (length f) = f"
  shows "unat (pkt_aligned_len (get_pkt_len base page (base + of_nat i))) = length f"
  using assms(1,2) by (simp add: unat_aligned_len pkt_len_frame [OF assms(1,3)] frame_ok_def)

lemma rx_loop_frames:
  assumes "\<forall>f \<in> set fs. frame_ok f \<and> length f < 65536" "ring_slice page_N page i (length (concat fs)) = concat fs"
    and "unat (timestamp_offset a) \<le> 60" "enable_rtt_history a \<Longrightarrow> hist_ok st" "recv_len = done + int (length (concat fs))"
  shows "\<exists>st'. rx_pkt_loop a base page recv_len (base + of_nat i) done bytes pkts st =
      Some (bytes + of_nat (sum_list (map frame_len fs)), pkts + of_nat (length fs), st') \<and> counted (rtts_of a fs) (hists_of a fs) st st'"
  using assms(1,2,4,5)
proof (induction fs arbitrary: i "done" bytes pkts st)
  case Nil
  then show ?case by (simp add: rx_pkt_loop.simps counted_refl)
next
  case (Cons f fs)
  let ?pkt = "base + of_nat i"
  have f: "frame_ok f" "length f < 65536" and at: "ring_slice page_N page i (length f) = f"
    and rest: "ring_slice page_N page (i + length f) (length (concat fs)) = concat fs"
    using Cons.prems(1,2) by (auto simp: ring_slice_append append_eq_append_conv)
  let ?l = "get_pkt_len base page ?pkt"
  have al: "unat (pkt_aligned_len ?l) = length f" by (rule aligned_len_frame [OF f at])
  then have al_int: "uint (pkt_aligned_len ?l) = int (length f)" by (simp only: uint_nat)
  have al64: "(ucast (pkt_aligned_len ?l) :: u64) = of_nat (length f)" using al by (intro word_eq_of_nat) (simp add: unat_ucast_up)
  have len: "(ucast (get_pkt_len base page ?pkt) :: u64) = of_nat (frame_len f)"
    using pkt_len_frame [OF f(1) at, of base] by (intro word_eq_of_nat) (simp add: unat_ucast_up)
  have rtt: "get_pkt_rtt base page ?pkt (timestamp_offset a) = frame_rtt (timestamp_offset a) f" by (rule pkt_rtt_frame [OF f(1) at assms(3)])
  obtain st1 where st1: "(if enable_rtt a then record_rtt a (frame_rtt (timestamp_offset a) f) st else Some st) = Some st1"
    "counted (rtts_of a [f]) (hists_of a [f]) st st1" "enable_rtt_history a \<Longrightarrow> hist_ok st1"
  proof (cases "enable_rtt a")
    case True
    obtain st' where "record_rtt a (frame_rtt (timestamp_offset a) f) st = Some st'"
      "counted [frame_rtt (timestamp_offset a) f] (if enable_rtt_history a then [frame_rtt (timestamp_offset a) f] else []) st st'"
      "enable_rtt_history a \<longrightarrow> hist_ok st'"
      by (rule record_rtt_counts [OF Cons.prems(3), where r = "frame_rtt (timestamp_offset a) f"])
    with True show thesis by (intro that [of st']) (auto split: if_splits)
  qed (use that Cons.prems(3) counted_refl in simp)
  let ?go = "\<lambda>d b p st. rx_pkt_loop a base page recv_len (base + of_nat (i + length f)) d b p st"
  obtain st2 where st2: "?go (done + int (length f)) (bytes + of_nat (frame_len f)) (pkts + 1) st1 =
      Some (bytes + of_nat (frame_len f) + of_nat (sum_list (map frame_len fs)), pkts + 1 + of_nat (length fs), st2)"
    "counted (rtts_of a fs) (hists_of a fs) st1 st2"
    using Cons.IH [of "i + length f" st1 "done + int (length f)" "bytes + of_nat (frame_len f)" "pkts + 1"] rest st1(3) Cons.prems(1,4) by auto
  have pos: "done < recv_len" using Cons.prems(4) frame_ok_length(1) [OF f(1)] by simp
  have "rx_pkt_loop a base page recv_len ?pkt done bytes pkts st =
      ?go (done + int (length f)) (bytes + of_nat (frame_len f)) (pkts + 1) st1"
    using pos al_int unfolding rx_pkt_loop.simps [of a base page recv_len ?pkt "done"]
    by (simp only: if_True Let_def rtt st1(1) al64 len Option.bind.simps of_nat_add add.assoc)
  moreover have "counted (rtts_of a (f # fs)) (hists_of a (f # fs)) st st2" using counted_trans [OF st1(2) st2(2)] by (simp split: if_splits)
  ultimately show ?case using st2(1) by (simp add: add_ac)
qed

section \<open>Properties\<close>

text \<open>The batch that \<^verbatim>\<open>recv_select\<close> finds.\<close>

lemma recv_select_batch:
  assumes "sock_nb fd s = Some (i, c)" "get_next_enso_pipe_id (sk_pair c s) = Some (int j, p)"
    and ep: "ep = si_pipe (open_sockets s j)" "unat (ep_rx_tail ep) < pipe_N" "t = pending_rx_pipe_tails p (unat (ep_id ep))" "unat t < pipe_N"
  shows "recv_select fd len s = Some (int (64 * ring_dist pipe_N (unat (ep_rx_tail ep)) (unat t)),
    Some (int j, ep_buf ep + of_nat (64 * unat (ep_rx_tail ep))), sk_set_pipe j (ep\<lparr>ep_rx_tail := t\<rparr>) (sk_set_pair c p s))"
proof -
  obtain size where size: "consume_queue ep p False = (size, ep_buf ep + of_nat (64 * unat (ep_rx_tail ep)), ep\<lparr>ep_rx_tail := t\<rparr>)"
    "unat size = 64 * ring_dist pipe_N (unat (ep_rx_tail ep)) (unat t)"
    using consume_queue_eq [of ep p False] ep by auto
  then have "uint size = int (64 * ring_dist pipe_N (unat (ep_rx_tail ep)) (unat t))" by (metis uint_nat)
  moreover have "(sk_set_pair c p s)\<lparr>open_sockets := \<lambda>k. (open_sockets s k)\<lparr>si_pipe := ((\<lambda>k. si_pipe (open_sockets s k))(j := e)) k\<rparr>\<rparr> =
      sk_set_pipe j e (sk_set_pair c p s)" for e
    by (auto simp: sk_set_pipe_def sk_set_pair_def intro!: sockets.equality)
  ultimately show ?thesis
    using assms(1,2) size(1) by (simp add: recv_select_def get_next_batch_def ep(1) [symmetric])
qed

lemma receive_batch:
  assumes "sock_nb (rx_socket_fd a) s = Some (i, c)" "get_next_enso_pipe_id (sk_pair c s) = Some (int j, p)" "j < 8192"
    and ep: "ep = si_pipe (open_sockets s j)" "unat (ep_rx_tail ep) < pipe_N" "ep_rx_head ep = ep_rx_tail ep"
    and t: "t = pending_rx_pipe_tails p (unat (ep_id ep))" "unat t < pipe_N" "t \<noteq> ep_rx_tail ep"
    and fs: "\<forall>f \<in> set fs. frame_ok f \<and> length f < 65536"
      "ring_slice page_N (mem j) (64 * unat (ep_rx_tail ep)) (64 * ring_dist pipe_N (unat (ep_rx_tail ep)) (unat t)) = concat fs"
    and "unat (timestamp_offset a) \<le> 60" "enable_rtt_history a \<Longrightarrow> hist_ok st"
  shows "\<exists>st' ep'. receive_pkts a mem st s = Some (Inr (of_nat (length fs),
      st'\<lparr>rx_pkts := rx_pkts st + of_nat (length fs), rx_nb_batches := rx_nb_batches st + 1,
        rx_bytes := rx_bytes st + of_nat (sum_list (map frame_len fs))\<rparr>, sk_set_pipe j ep' (sk_set_pair c p s))) \<and>
    counted (rtts_of a fs) (hists_of a fs) st st' \<and> ep_rx_tail ep' = t \<and> ep_rx_head ep' = t"
proof -
  let ?n = "64 * ring_dist pipe_N (unat (ep_rx_tail ep)) (unat t)" and ?e = "ep\<lparr>ep_rx_tail := t\<rparr>"
  let ?s = "sk_set_pipe j ?e (sk_set_pair c p s)"
  note sel = recv_select_batch [OF assms(1,2) ep(1,2) t(1,2), of RECV_BUF_LEN]
  have len: "length (concat fs) = ?n" using arg_cong [OF fs(2), of length] by simp
  have pos: "0 < ?n" using t ep(2) by (auto simp: word_unat_eq_iff intro!: Nat.gr0I)
  have "ring_dist pipe_N (unat (ep_rx_tail ep)) (unat t) < pipe_N" by (rule ring_dist_less) simp
  then have small: "?n < 4294967296" by linarith
  have "ring_slice page_N (mem j) (64 * unat (ep_rx_tail ep)) (length (concat fs)) = concat fs" using fs(2) len by simp
  from rx_loop_frames [OF fs(1) this assms(12,13), of "int ?n" 0 "ep_buf ep" 0 0] obtain st' where
    loop: "rx_pkt_loop a (ep_buf ep) (mem j) (int ?n) (ep_buf ep + of_nat (64 * unat (ep_rx_tail ep))) 0 0 0 st =
      Some (of_nat (sum_list (map frame_len fs)), of_nat (length fs), st')" "counted (rtts_of a fs) (hists_of a fs) st st'"
    using len by auto
  have idx: "sock_index (int j) = Some j" using assms(3) by (simp add: sock_index_def MAX_NB_SOCKETS_def kMaxNbFlows_def)
  define ep' where "ep' = advance_pipe ?e (of_int (int ?n))"
  have un: "unat (of_nat ?n :: u32) = ?n" "(of_int (int ?n) :: u64) = ucast (of_nat ?n :: u32)"
    using small by (simp_all add: unat_of_nat_small word_unat_eq_iff unat_ucast_up del: of_nat_mult)
  have "ep_rx_head ep' = t" "ep_rx_tail ep' = t"
    unfolding ep'_def un(2) by (rule advance_received(2,3) [OF ep(2,3) t(2) un(1)])+
  moreover have "si_pipe (open_sockets ?s j) = ?e" by (simp add: sk_set_pipe_def)
  moreover have "free_enso_pipe (int j) (of_int (int ?n)) ?s = Some (sk_set_pipe j ep' (sk_set_pair c p s))"
    using idx by (simp add: free_enso_pipe_def sk_set_pipe_def ep'_def)
  ultimately show ?thesis
    using loop pos by (intro exI [of _ st'] exI [of _ ep']) (simp add: receive_pkts_def sel counted_def)
qed

text \<open>
  C21: Receiving in the generator. When the next pipe holds the packets \<open>fs\<close>, each shorter than 65473 bytes,
  \<^verbatim>\<open>receive_pkts\<close> counts exactly these packets and their bytes without padding as one batch, adds up their
  round-trip times and counts each in the histogram, inside the array or in the map for the others, and gives
  exactly the batch back to the NIC. This needs a histogram whose offset is not larger than its length.
\<close>

theorem gen_receive_exact:
  assumes "sock_nb (rx_socket_fd a) s = Some (i, c)" "get_next_enso_pipe_id (sk_pair c s) = Some (int j, p)" "j < 8192"
    and ep: "ep = si_pipe (open_sockets s j)" "unat (ep_rx_tail ep) < pipe_N" "ep_rx_head ep = ep_rx_tail ep"
    and t: "t = pending_rx_pipe_tails p (unat (ep_id ep))" "unat t < pipe_N" "t \<noteq> ep_rx_tail ep"
    and fs: "\<forall>f \<in> set fs. frame_ok f \<and> length f < 65536"
      "ring_slice page_N (mem j) (64 * unat (ep_rx_tail ep)) (64 * ring_dist pipe_N (unat (ep_rx_tail ep)) (unat t)) = concat fs"
    and "unat (timestamp_offset a) \<le> 60" "enable_rtt_history a \<Longrightarrow> hist_ok st"
  shows "\<exists>st' ep'. receive_pkts a mem st s = Some (Inr (of_nat (length fs),
      st'\<lparr>rx_pkts := rx_pkts st + of_nat (length fs), rx_nb_batches := rx_nb_batches st + 1,
        rx_bytes := rx_bytes st + of_nat (sum_list (map frame_len fs))\<rparr>, sk_set_pipe j ep' (sk_set_pair c p s))) \<and>
    counted (rtts_of a fs) (hists_of a fs) st st' \<and> ep_rx_tail ep' = t \<and> ep_rx_head ep' = t"
  using assms by (rule receive_batch)

text \<open>Three packets of 64 bytes, the last two after the end of the circular buffer.\<close>

definition rx_args_example :: RxArgs where
  "rx_args_example = \<lparr>enable_rtt = True, enable_rtt_history = True, rx_socket_fd = 5, timestamp_offset = 18\<rparr>"

definition gen_rx_sockets :: "u32 \<Rightarrow> nat sockets" where
  "gen_rx_sockets t = sockets_zero\<lparr>open_sockets := (\<lambda>_. \<lparr>si_nb = Some 0, si_pipe = ep_example\<rparr>),
     sk_nbs := (\<lambda>_. \<lparr>nb_pair = nb_zero\<lparr>pending_rx_pipe_tails := (\<lambda>_. t), next_rx_ids_tail := 1\<rparr>,
       nb_rx_buf_addr = 0, nb_huge_page_prefix = ''''\<rparr>)\<rparr>"

definition frame_seven :: "u8 list" where
  "frame_seven = replicate 16 7 @ [0, 50] @ replicate 46 7"

definition mem_frames :: "nat \<Rightarrow> u8 arr" where
  "mem_frames _ = (\<lambda>k. frame_seven ! (k mod 64))"

lemma gen_rx_sockets_ok:
  "sock_nb 5 (gen_rx_sockets t) = Some (5, 0)" "si_pipe (open_sockets (gen_rx_sockets t) 0) = ep_example"
  "\<exists>p. get_next_enso_pipe_id (sk_pair 0 (gen_rx_sockets t)) = Some (int 0, p) \<and> pending_rx_pipe_tails p (unat (ep_id ep_example)) = t"
  "unat (ep_rx_tail ep_example) = 32767" "ep_rx_head ep_example = ep_rx_tail ep_example"
  by (simp_all add: sock_nb_def sock_index_def gen_rx_sockets_def MAX_NB_SOCKETS_def kMaxNbFlows_def ep_example_def
      sk_pair_def get_next_enso_pipe_id_def nb_zero_def)

lemma frame_seven_ok: "frame_ok frame_seven" "length frame_seven = 64" "frame_len frame_seven = 64"
  by (simp_all add: frame_ok_def frame_len_def frame_seven_def nth_append flits_def)

lemma mem_frames_slice: "ring_slice page_N (mem_frames j) (64 * k) 192 = concat [frame_seven, frame_seven, frame_seven]"
proof (rule nth_equalityI)
  fix i assume "i < length (ring_slice page_N (mem_frames j) (64 * k) 192)"
  then have i: "i < 192" by simp
  have "(64 * k + i) mod page_N mod 64 = i mod 64" by (simp add: mod_mod_cancel)
  moreover have "concat [frame_seven, frame_seven, frame_seven] ! i = frame_seven ! (i mod 64)"
    using i by (auto simp: nth_append frame_seven_ok(2) mod_if)
  ultimately show "ring_slice page_N (mem_frames j) (64 * k) 192 ! i = concat [frame_seven, frame_seven, frame_seven] ! i"
    using i by (simp add: mem_frames_def)
qed (simp add: frame_seven_ok(2))

theorem gen_receive_exact_witness:
  "\<exists>st s'. receive_pkts rx_args_example mem_frames (RxStats_new 1000 400) (gen_rx_sockets 2) = Some (Inr (3, st, s')) \<and>
     rx_pkts st = 3 \<and> rx_bytes st = 192 \<and> rx_nb_batches st = 1"
proof -
  let ?f3 = "[frame_seven, frame_seven, frame_seven]"
  obtain p where p: "get_next_enso_pipe_id (sk_pair 0 (gen_rx_sockets 2)) = Some (int 0, p)" "2 = pending_rx_pipe_tails p (unat (ep_id ep_example))"
    using gen_rx_sockets_ok(3) [of 2] by auto
  have slice: "ring_slice page_N (mem_frames 0) (64 * unat (ep_rx_tail ep_example)) (64 * ring_dist pipe_N (unat (ep_rx_tail ep_example)) (unat (2 :: u32))) = concat ?f3"
    using mem_frames_slice [of 0 32767] by (simp add: gen_rx_sockets_ok(4) ring_dist_def)
  have "sock_nb (rx_socket_fd rx_args_example) (gen_rx_sockets 2) = Some (5, 0)" by (simp add: rx_args_example_def gen_rx_sockets_ok(1))
  moreover have "ep_example = si_pipe (open_sockets (gen_rx_sockets 2) 0)" by (simp add: gen_rx_sockets_ok(2))
  moreover have "(2 :: u32) \<noteq> ep_rx_tail ep_example" "unat (ep_rx_tail ep_example) < pipe_N" "unat (2 :: u32) < pipe_N"
    using gen_rx_sockets_ok(4) by (auto simp: word_unat_eq_iff)
  moreover have "\<forall>f \<in> set ?f3. frame_ok f \<and> length f < 65536" using frame_seven_ok by simp
  ultimately obtain st' ep' where "receive_pkts rx_args_example mem_frames (RxStats_new 1000 400) (gen_rx_sockets 2) = Some (Inr (of_nat (length ?f3),
      st'\<lparr>rx_pkts := rx_pkts (RxStats_new 1000 400) + of_nat (length ?f3), rx_nb_batches := rx_nb_batches (RxStats_new 1000 400) + 1,
        rx_bytes := rx_bytes (RxStats_new 1000 400) + of_nat (sum_list (map frame_len ?f3))\<rparr>, sk_set_pipe 0 ep' (sk_set_pair 0 p (gen_rx_sockets 2))))"
    using gen_receive_exact [where a = rx_args_example and s = "gen_rx_sockets 2" and j = 0 and mem = mem_frames and fs = ?f3 and
      st = "RxStats_new 1000 400" and ep = ep_example and t = 2, OF _ p(1) _ _ _ gen_rx_sockets_ok(5) p(2) _ _ _ slice]
    by (auto simp: rx_args_example_def RxStats_new_def)
  then show ?thesis by (simp add: frame_seven_ok RxStats_new_def)
qed

text \<open>
  A packet of which the aligned length is 65536 bytes has the aligned length 0 in 16 bits: the loop stays
  where it is.
\<close>

lemma rx_loop_stuck:
  assumes "d < n" "pkt_aligned_len (get_pkt_len base page pkt) = 0"
  shows "rx_pkt_loop a base page n pkt d b k st = None"
proof (rule ccontr)
  assume "rx_pkt_loop a base page n pkt d b k st \<noteq> None"
  then obtain r where r: "rx_pkt_loop a base page n pkt d b k st = Some r" by blast
  have "d < n \<longrightarrow> pkt_aligned_len (get_pkt_len base page pkt) \<noteq> 0"
    by (rule rx_pkt_loop.raw_induct [OF _ r, where P = "\<lambda>a base page n pkt d b k st r. d < n \<longrightarrow> pkt_aligned_len (get_pkt_len base page pkt) \<noteq> 0"])
      (fastforce simp: bind_eq_Some_conv Let_def)
  with assms show False by simp
qed

text \<open>
  One packet stops the receiver for good. When the batch starts with a packet of more than 65472 bytes, the
  length rounded up to 65536 is 0 in the 16 bits it is kept in, and \<^verbatim>\<open>receive_pkts\<close> never returns.
\<close>

theorem gen_receive_hangs:
  assumes "sock_nb (rx_socket_fd a) s = Some (i, c)" "get_next_enso_pipe_id (sk_pair c s) = Some (int j, p)"
    and ep: "ep = si_pipe (open_sockets s j)" "unat (ep_rx_tail ep) < pipe_N"
    and t: "t = pending_rx_pipe_tails p (unat (ep_id ep))" "unat t < pipe_N"
    and f: "frame_ok f" "65472 < frame_len f"
      "ring_slice page_N (mem j) (64 * unat (ep_rx_tail ep)) (64 * ring_dist pipe_N (unat (ep_rx_tail ep)) (unat t)) = f @ rest"
  shows "receive_pkts a mem st s = None"
proof -
  let ?n = "64 * ring_dist pipe_N (unat (ep_rx_tail ep)) (unat t)"
  note sel = recv_select_batch [OF assms(1,2) ep t, of RECV_BUF_LEN]
  have len: "length f = 65536" using f(1,2) by (auto simp: frame_ok_def flits_def)
  have n: "length f + length rest = ?n" using arg_cong [OF f(3), of length] by simp
  then have "ring_slice page_N (mem j) (64 * unat (ep_rx_tail ep)) (length f + length rest) = f @ rest" using f(3) by simp
  then have "ring_slice page_N (mem j) (64 * unat (ep_rx_tail ep)) (length f) = f"
    by (simp add: ring_slice_append append_eq_append_conv)
  then have "unat (get_pkt_len (ep_buf ep) (mem j) (ep_buf ep + of_nat (64 * unat (ep_rx_tail ep)))) = frame_len f"
    by (rule pkt_len_frame [OF f(1)])
  then have "unat (pkt_aligned_len (get_pkt_len (ep_buf ep) (mem j) (ep_buf ep + of_nat (64 * unat (ep_rx_tail ep))))) = 0"
    using f(1) len by (simp add: unat_aligned_len frame_ok_def)
  then have "pkt_aligned_len (get_pkt_len (ep_buf ep) (mem j) (ep_buf ep + of_nat (64 * unat (ep_rx_tail ep)))) = 0"
    by (simp add: word_unat_eq_iff)
  moreover have "0 < int ?n" using n len by simp
  ultimately have "rx_pkt_loop a (ep_buf ep) (mem j) (int ?n) (ep_buf ep + of_nat (64 * unat (ep_rx_tail ep))) 0 0 0 st = None"
    by (intro rx_loop_stuck)
  moreover have "ep_buf (si_pipe (open_sockets (sk_set_pipe j (ep\<lparr>ep_rx_tail := t\<rparr>) (sk_set_pair c p s)) j)) = ep_buf ep"
    by (simp add: sk_set_pipe_def)
  ultimately show ?thesis using \<open>0 < int ?n\<close> by (simp add: receive_pkts_def sel)
qed

definition frame_big :: "nat \<Rightarrow> u8 list" where
  "frame_big n = replicate 16 0 @ [255, 241] @ replicate n 0"

lemma frame_big_ok:
  assumes "n = 65518"
  shows "frame_ok (frame_big n)" "length (frame_big n) = 65536" "frame_len (frame_big n) = 65535"
  using assms by (simp_all add: frame_ok_def frame_len_def frame_big_def nth_append flits_def)

theorem gen_receive_hangs_witness:
  "\<exists>mem. receive_pkts rx_args_example mem (RxStats_new 1000 400) (gen_rx_sockets 1023) = None"
proof -
  obtain n :: nat where n: "n = 65518" by blast
  let ?f = "frame_big n" and ?mem = "\<lambda>_ :: nat. ring_put page_N (\<lambda>_. 0) (64 * 32767) (frame_big n)"
  obtain p where p: "get_next_enso_pipe_id (sk_pair 0 (gen_rx_sockets 1023)) = Some (int 0, p)" "1023 = pending_rx_pipe_tails p (unat (ep_id ep_example))"
    using gen_rx_sockets_ok(3) [of 1023] by auto
  have slice: "ring_slice page_N (?mem 0) (64 * unat (ep_rx_tail ep_example)) (64 * ring_dist pipe_N (unat (ep_rx_tail ep_example)) (unat (1023 :: u32))) = ?f @ []"
    using ring_slice_ring_put [of "64 * 32767" page_N 0 ?f "\<lambda>_. 0"] frame_big_ok(2) [OF n] by (simp add: gen_rx_sockets_ok(4) ring_dist_def)
  have "sock_nb (rx_socket_fd rx_args_example) (gen_rx_sockets 1023) = Some (5, 0)" by (simp add: rx_args_example_def gen_rx_sockets_ok(1))
  moreover have "ep_example = si_pipe (open_sockets (gen_rx_sockets 1023) 0)" by (simp add: gen_rx_sockets_ok(2))
  moreover have "unat (ep_rx_tail ep_example) < pipe_N" "unat (1023 :: u32) < pipe_N" using gen_rx_sockets_ok(4) by simp_all
  moreover have "65472 < frame_len ?f" using frame_big_ok(3) [OF n] by simp
  ultimately have "receive_pkts rx_args_example ?mem (RxStats_new 1000 400) (gen_rx_sockets 1023) = None"
    using gen_receive_hangs [where a = rx_args_example and s = "gen_rx_sockets 1023" and j = 0 and mem = ?mem and f = ?f and
      rest = "[]" and ep = ep_example and t = 1023, OF _ p(1) _ _ p(2) _ frame_big_ok(1) [OF n] _ slice] by blast
  then show ?thesis by blast
qed

lemma unat_sub_wrap:
  fixes a b :: u32
  assumes "unat a < unat b"
  shows "unat (a - b) + unat b = 2 ^ 32 + unat a"
proof -
  have lt: "uint a < uint b" using assms by (simp only: uint_nat of_nat_less_iff)
  have bounds: "0 \<le> uint a" "uint b < 2 ^ 32" using unsigned_less [of b, where ?'a = int] by simp_all
  have "uint (a - b) = (uint a - uint b + 2 ^ 32) mod 2 ^ 32" by (simp add: uint_word_ariths)
  also have "\<dots> = uint a - uint b + 2 ^ 32" using bounds lt by (intro mod_pos_pos_trivial) linarith+
  finally have int: "int (unat (a - b)) = int (unat a) - int (unat b) + 2 ^ 32" by (simp only: uint_nat)
  have "x + z = 2 ^ 32 + y" if "int x = int y - int z + 2 ^ 32" for x y z :: nat using that by simp
  from this [OF int] show ?thesis .
qed

text \<open>
  C39: The bounds of the histogram. An entry is written outside the array exactly when the offset is larger than
  the length, the round-trip time reaches beyond the array, and it is below the difference of length and
  offset, which has wrapped around. With an offset that is not larger every time is stored.
\<close>

theorem rtt_hist_bounds:
  "add_rtt_to_hist rtt st = None \<longleftrightarrow> unat (rtt_hist_len st) < unat (rtt_hist_offset st) \<and>
     unat (rtt_hist_offset st) + unat (rtt_hist_len st) \<le> unat rtt \<and>
     unat rtt + unat (rtt_hist_offset st) < 2 ^ 32 + unat (rtt_hist_len st)"
proof (cases "rtt_hist_offset st \<le> rtt_hist_len st")
  case True
  then show ?thesis using hist_index [of "rtt_hist_offset st" "rtt_hist_len st" rtt]
    by (auto simp: add_rtt_to_hist_def Let_def word_le_nat_alt not_less)
next
  case False
  then have lt: "unat (rtt_hist_len st) < unat (rtt_hist_offset st)" by (simp add: word_le_nat_alt)
  have "rtt \<ge> rtt_hist_len st - rtt_hist_offset st \<longleftrightarrow> 2 ^ 32 + unat (rtt_hist_len st) \<le> unat rtt + unat (rtt_hist_offset st)"
    using unat_sub_wrap [OF lt] by (simp add: word_le_nat_alt) linarith
  moreover have "unat (rtt - rtt_hist_offset st) = unat rtt - unat (rtt_hist_offset st)" if "\<not> rtt < rtt_hist_offset st"
    using that by (simp add: unat_sub not_less)
  ultimately show ?thesis
    using lt by (auto simp: add_rtt_to_hist_def Let_def word_less_nat_alt)
qed

end
