(* ===== verification/Gen_Main.thy ===== *)
theory Gen_Main
  imports Gen_Traffic Gen_Receive
begin

text \<open>
  The packet generator, \<^verbatim>\<open>software/examples/ensogen.cpp\<close>, from its command line to its exit: the options
  (\<^verbatim>\<open>parse_args\<close>), the address of the device, the signal handler, and the pages it unmaps at the end. What
  \<^verbatim>\<open>getopt_long\<close> makes of the command line is a list of options and the remaining arguments.
\<close>

section \<open>Options\<close>

definition kDefaultRttOffset :: u8 where "kDefaultRttOffset = 18"

text \<open>\<^verbatim>\<open>atoi\<close>: white space, an optional sign, decimal digits; the value has to fit into an \<^verbatim>\<open>int\<close>.\<close>

definition is_digit :: "char \<Rightarrow> bool" where
  "is_digit c \<longleftrightarrow> c \<in> set ''0123456789''"

definition atoi :: "string \<Rightarrow> int" where
  "atoi s0 =
     (let s1 = dropWhile (\<lambda>c. c = CHR '' '' \<or> of_char c \<in> {9..13::nat}) s0;
          s2 = (if take 1 s1 = ''-'' \<or> take 1 s1 = ''+'' then drop 1 s1 else s1);
          v = foldl (\<lambda>n c. 10 * n + (of_char c - 48)) 0 (takeWhile is_digit s2) in
      if take 1 s1 = ''-'' then - v else v)"

datatype cmd_opt =
  CMD_OPT_HELP | CMD_OPT_COUNT string | CMD_OPT_CORE string | CMD_OPT_QUEUES string | CMD_OPT_SAVE string |
  CMD_OPT_SINGLE_CORE | CMD_OPT_RTT | CMD_OPT_RTT_HIST string | CMD_OPT_RTT_HIST_OFF string |
  CMD_OPT_RTT_HIST_LEN string | CMD_OPT_STATS_DELAY string | CMD_OPT_PCIE_ADDR string |
  CMD_OPT_TIMESTAMP_OFFSET string | CMD_OPT_UNKNOWN

record parsed_args_t =
  pa_core_id :: int
  pa_nb_queues :: u32
  pa_save :: bool
  pa_single_core :: bool
  pa_enable_rtt :: bool
  pa_enable_rtt_history :: bool
  pa_hist_file :: string
  pa_pcap_file :: string
  pa_save_file :: string
  pa_rate_num :: u16
  pa_rate_den :: u16
  pa_nb_pkts :: u64
  pa_rtt_hist_offset :: u32
  pa_rtt_hist_len :: u32
  pa_stats_delay :: u32
  pa_pcie_addr :: string
  pa_timestamp_offset :: u8

definition args_default :: parsed_args_t where
  "args_default = \<lparr>pa_core_id = 0, pa_nb_queues = 4, pa_save = False, pa_single_core = False, pa_enable_rtt = False,
     pa_enable_rtt_history = False, pa_hist_file = [], pa_pcap_file = [], pa_save_file = [], pa_rate_num = 0,
     pa_rate_den = 0, pa_nb_pkts = 0, pa_rtt_hist_offset = 400, pa_rtt_hist_len = 1000000, pa_stats_delay = 1000,
     pa_pcie_addr = [], pa_timestamp_offset = kDefaultRttOffset\<rparr>"

text \<open>One turn of the loop over the options; \<open>Inl\<close> is the value \<^verbatim>\<open>parse_args\<close> returns at once.\<close>

fun parse_opt :: "cmd_opt \<Rightarrow> parsed_args_t \<Rightarrow> int + parsed_args_t" where
  "parse_opt CMD_OPT_HELP a = Inl 1"
| "parse_opt (CMD_OPT_COUNT optarg) a = Inr (a\<lparr>pa_nb_pkts := of_int (atoi optarg)\<rparr>)"
| "parse_opt (CMD_OPT_CORE optarg) a = Inr (a\<lparr>pa_core_id := atoi optarg\<rparr>)"
| "parse_opt (CMD_OPT_QUEUES optarg) a = Inr (a\<lparr>pa_nb_queues := of_int (atoi optarg)\<rparr>)"
| "parse_opt (CMD_OPT_SAVE optarg) a = Inr (a\<lparr>pa_save := True, pa_save_file := optarg\<rparr>)"
| "parse_opt CMD_OPT_SINGLE_CORE a = Inr (a\<lparr>pa_single_core := True\<rparr>)"
| "parse_opt (CMD_OPT_RTT_HIST optarg) a = Inr (a\<lparr>pa_enable_rtt_history := True, pa_hist_file := optarg, pa_enable_rtt := True\<rparr>)"
| "parse_opt CMD_OPT_RTT a = Inr (a\<lparr>pa_enable_rtt := True\<rparr>)"
| "parse_opt (CMD_OPT_RTT_HIST_OFF optarg) a = Inr (a\<lparr>pa_rtt_hist_offset := of_int (atoi optarg)\<rparr>)"
| "parse_opt (CMD_OPT_RTT_HIST_LEN optarg) a = Inr (a\<lparr>pa_rtt_hist_len := of_int (atoi optarg)\<rparr>)"
| "parse_opt (CMD_OPT_STATS_DELAY optarg) a = Inr (a\<lparr>pa_stats_delay := of_int (atoi optarg)\<rparr>)"
| "parse_opt (CMD_OPT_PCIE_ADDR optarg) a = Inr (a\<lparr>pa_pcie_addr := optarg\<rparr>)"
| "parse_opt (CMD_OPT_TIMESTAMP_OFFSET optarg) a =
     (let offset = atoi optarg in
      if offset < 0 \<or> offset > 60 then Inl (-1) else Inr (a\<lparr>pa_timestamp_offset := of_int offset\<rparr>))"
| "parse_opt CMD_OPT_UNKNOWN a = Inl (-1)"

fun parse_opts :: "cmd_opt list \<Rightarrow> parsed_args_t \<Rightarrow> int + parsed_args_t" where
  "parse_opts [] a = Inr a"
| "parse_opts (opt # opts) a = (case parse_opt opt a of Inl ret \<Rightarrow> Inl ret | Inr a' \<Rightarrow> parse_opts opts a')"

definition parse_args :: "cmd_opt list \<Rightarrow> string list \<Rightarrow> int + parsed_args_t" where
  "parse_args opts args =
     (case parse_opts opts args_default of
        Inl ret \<Rightarrow> Inl ret
      | Inr a \<Rightarrow>
          if length args \<noteq> 3 then Inl (-1)
          else
            let a' = a\<lparr>pa_pcap_file := args ! 0, pa_rate_num := of_int (atoi (args ! 1)), pa_rate_den := of_int (atoi (args ! 2))\<rparr> in
            if pa_rate_num a' = 0 then Inl (-1) else if pa_rate_den a' = 0 then Inl (-1) else Inr a')"

text \<open>The device to use, \<open>None\<close> when no address was given; an invalid address ends the program with 1.\<close>

definition gen_bdf :: "parsed_args_t \<Rightarrow> int + u16 option" where
  "gen_bdf a =
     (if pa_pcie_addr a = [] then Inr None
      else
        let r = (case Option.bind (scan_hex (pa_pcie_addr a)) (\<lambda>(_, s1). Option.bind (scan_lit CHR '':'' s1) scan_bdf) of
                   Some x \<Rightarrow> Some x | None \<Rightarrow> scan_bdf (pa_pcie_addr a)) in
        case r of
          None \<Rightarrow> Inl 1
        | Some (bus, dev, func) \<Rightarrow> Inr (Some (ucast (push_bit 8 bus OR push_bit 3 dev OR (func AND 7)))))"

text \<open>The statistics and the arguments of the receiving thread that follow from the options.\<close>

definition gen_rx_stats :: "parsed_args_t \<Rightarrow> RxStats" where
  "gen_rx_stats a = (if pa_enable_rtt_history a then RxStats_new (pa_rtt_hist_len a) (pa_rtt_hist_offset a) else RxStats_new 0 0)"

definition gen_rx_args :: "parsed_args_t \<Rightarrow> int \<Rightarrow> RxArgs" where
  "gen_rx_args a fd = \<lparr>enable_rtt = pa_enable_rtt a, enable_rtt_history = pa_enable_rtt_history a, rx_socket_fd = fd,
     timestamp_offset = pa_timestamp_offset a\<rparr>"

section \<open>The end of the program\<close>

text \<open>The pair is \<^verbatim>\<open>keep_running\<close> and \<^verbatim>\<open>force_stop\<close>.\<close>

definition int_handler :: "bool \<times> bool \<Rightarrow> bool \<times> bool" where
  "int_handler = (\<lambda>(running, stop). (False, if \<not> running then True else stop))"

definition gen_unmap :: "EnsoPipe list \<Rightarrow> os \<Rightarrow> os" where
  "gen_unmap pipes s = fold (\<lambda>b. if gp_phys_addr b AND (HUGEPAGE_SIZE - 1) = 0 then os_munmap (gp_buf b) HUGEPAGE_SIZE else id) pipes s"

definition gen_exit :: "parsed_args_t \<Rightarrow> RxStats \<Rightarrow> TxStats \<Rightarrow> int" where
  "gen_exit a rx tx = (if pa_enable_rtt_history a \<and> rx_pkts rx \<noteq> tx_pkts tx then 1 else 0)"

section \<open>Accepted options\<close>

lemma parse_opt_keeps:
  assumes "parse_opt opt a = Inr a'" "unat (pa_timestamp_offset a) \<le> 60" "pa_enable_rtt_history a \<longrightarrow> pa_enable_rtt a"
  shows "unat (pa_timestamp_offset a') \<le> 60 \<and> (pa_enable_rtt_history a' \<longrightarrow> pa_enable_rtt a')"
  using assms by (cases opt) (auto simp: Let_def unsigned_of_int take_bit_int_eq_self split: if_splits)

lemma parse_opts_keeps:
  assumes "parse_opts opts a = Inr a'" "unat (pa_timestamp_offset a) \<le> 60" "pa_enable_rtt_history a \<longrightarrow> pa_enable_rtt a"
  shows "unat (pa_timestamp_offset a') \<le> 60 \<and> (pa_enable_rtt_history a' \<longrightarrow> pa_enable_rtt a')"
  using assms by (induction opts arbitrary: a) (auto split: sum.splits dest: parse_opt_keeps)

text \<open>
  C24: Options that are accepted are well formed: the rate is a fraction of non-zero 16-bit numbers, the time
  stamp lies inside the first 64 bytes of every packet, so that \<^verbatim>\<open>get_pkt_rtt\<close> reads inside the packet, a
  histogram implies time stamps, and exactly three arguments follow the options.
\<close>

theorem parse_args_sound:
  assumes "parse_args opts args = Inr a"
  shows "pa_rate_num a \<noteq> 0 \<and> pa_rate_den a \<noteq> 0 \<and> unat (timestamp_offset (gen_rx_args a fd)) + 4 \<le> 64 \<and>
    (enable_rtt_history (gen_rx_args a fd) \<longrightarrow> enable_rtt (gen_rx_args a fd)) \<and> length args = 3 \<and> pa_pcap_file a = hd args"
proof -
  obtain b where b: "parse_opts opts args_default = Inr b" "length args = 3" "pa_rate_num a \<noteq> 0" "pa_rate_den a \<noteq> 0"
    "a = b\<lparr>pa_pcap_file := args ! 0, pa_rate_num := of_int (atoi (args ! 1)), pa_rate_den := of_int (atoi (args ! 2))\<rparr>"
    using assms by (auto simp: parse_args_def Let_def split: sum.splits if_splits)
  from parse_opts_keeps [OF b(1)] have "unat (pa_timestamp_offset b) \<le> 60" "pa_enable_rtt_history b \<longrightarrow> pa_enable_rtt b"
    by (simp_all add: args_default_def kDefaultRttOffset_def)
  moreover have "hd args = args ! 0" using b(2) by (cases args) auto
  ultimately show ?thesis using b(2-4) by (simp add: gen_rx_args_def) (simp add: b(5))
qed

definition hist_opts :: "cmd_opt list" where
  "hist_opts = [CMD_OPT_RTT_HIST ''rtt.csv'', CMD_OPT_RTT_HIST_LEN ''100'']"

lemma hist_opts_accepted:
  "\<exists>a. parse_args hist_opts [''trace.pcap'', ''1'', ''2''] = Inr a \<and> pa_rtt_hist_len a = 100 \<and> pa_rtt_hist_offset a = 400 \<and>
     pa_rate_num a = 1 \<and> pa_rate_den a = 2 \<and> pa_timestamp_offset a = 18 \<and> pa_enable_rtt_history a"
  by (simp add: parse_args_def hist_opts_def args_default_def kDefaultRttOffset_def atoi_def is_digit_def Let_def)

theorem parse_args_sound_witness:
  "\<exists>a. parse_args hist_opts [''trace.pcap'', ''1'', ''2''] = Inr a \<and> pa_rate_num a \<noteq> 0 \<and> pa_rate_den a \<noteq> 0 \<and>
     unat (timestamp_offset (gen_rx_args a 0)) + 4 \<le> 64 \<and> pa_pcap_file a = ''trace.pcap''"
proof -
  obtain a where a: "parse_args hist_opts [''trace.pcap'', ''1'', ''2''] = Inr a" using hist_opts_accepted by blast
  from parse_args_sound [OF this, of 0] a show ?thesis by auto
qed

text \<open>
  The options of the histogram are not checked against each other. With a histogram shorter than the
  default offset the options are accepted, and a round-trip time of 500 is counted outside the array.
\<close>

theorem rtt_hist_options_unchecked:
  "\<exists>a. parse_args hist_opts [''trace.pcap'', ''1'', ''2''] = Inr a \<and> add_rtt_to_hist 500 (gen_rx_stats a) = None"
proof -
  obtain a where a: "parse_args hist_opts [''trace.pcap'', ''1'', ''2''] = Inr a" "pa_rtt_hist_len a = 100"
    "pa_rtt_hist_offset a = 400" "pa_enable_rtt_history a"
    using hist_opts_accepted by blast
  then have "add_rtt_to_hist 500 (gen_rx_stats a) = None"
    by (simp add: gen_rx_stats_def RxStats_new_def add_rtt_to_hist_def)
  with a(1) show ?thesis by blast
qed

section \<open>Pages\<close>

text \<open>The huge pages the operating system grants: aligned, different from each other and not in use.\<close>

definition pages_new :: "(nat \<Rightarrow> page_calls) \<Rightarrow> os \<Rightarrow> bool" where
  "pages_new pc s \<longleftrightarrow> (\<forall>n a. pc_map (pc n) = Some a \<longrightarrow> a AND (HUGEPAGE_SIZE - 1) = 0 \<and> a \<notin> fst ` set (os_maps s) \<and>
     (\<forall>m. m \<noteq> n \<longrightarrow> pc_map (pc m) \<noteq> Some a))"

text \<open>The translation of addresses keeps the offset inside a huge page.\<close>

definition same_offset :: "(u64 \<Rightarrow> u64) \<Rightarrow> bool" where
  "same_offset v2p \<longleftrightarrow> (\<forall>a. v2p a AND (HUGEPAGE_SIZE - 1) = a AND (HUGEPAGE_SIZE - 1))"

definition aligned :: "u64 \<Rightarrow> bool" where
  "aligned a \<longleftrightarrow> a AND (HUGEPAGE_SIZE - 1) = 0"

lemma aligned_mod: "aligned a \<longleftrightarrow> unat a mod 2097152 = 0"
proof -
  have "HUGEPAGE_SIZE - 1 = mask 21" by (simp add: HUGEPAGE_SIZE_def mask_eq_exp_minus_1)
  then have "unat (a AND (HUGEPAGE_SIZE - 1)) = unat a mod 2097152" by (simp add: unat_and_mask)
  then show ?thesis by (simp add: aligned_def word_unat_eq_iff)
qed

text \<open>
  The pages mapped so far, the newest first, are the aligned buffers; the last buffer lies in the newest page,
  at the offset before the next one.
\<close>

definition pages_inv :: "(u64 \<Rightarrow> u64) \<Rightarrow> (nat \<Rightarrow> page_calls) \<Rightarrow> os \<Rightarrow> PcapHandlerContext \<Rightarrow> u64 list \<Rightarrow> bool" where
  "pages_inv v2p pc s ctx pages \<longleftrightarrow>
     (\<forall>b \<in> set (enso_pipes ctx). gp_phys_addr b = v2p (gp_buf b)) \<and>
     filter aligned (map gp_buf (enso_pipes ctx)) = rev pages \<and> distinct pages \<and>
     (\<forall>a \<in> set pages. aligned a \<and> (\<exists>n < page_id ctx. pc_map (pc n) = Some a)) \<and>
     os_maps (ctx_os ctx) = map (\<lambda>a. (a, HUGEPAGE_SIZE)) pages @ os_maps s \<and> os_fds (ctx_os ctx) = os_fds s \<and>
     set (os_files (ctx_os ctx)) \<subseteq> set (os_files s) \<and>
     (if enso_pipes ctx = [] then hugepage_offset ctx = 2097152 \<and> free_flits ctx = 0
      else \<exists>m. 0 < m \<and> m \<le> 16 \<and> unat (hugepage_offset ctx) = 131072 * m \<and> pages \<noteq> [] \<and>
        gp_buf (last (enso_pipes ctx)) = hd pages + of_nat (131072 * (m - 1)))"

lemma place_last_bufs:
  assumes "enso_pipes ctx \<noteq> []"
  shows "map gp_buf (enso_pipes (place_last pkt len n ctx)) = map gp_buf (enso_pipes ctx)"
    "map gp_phys_addr (enso_pipes (place_last pkt len n ctx)) = map gp_phys_addr (enso_pipes ctx)"
    "gp_buf (last (enso_pipes (place_last pkt len n ctx))) = gp_buf (last (enso_pipes ctx))"
  using assms map_append [of gp_buf "butlast (enso_pipes ctx)" "[last (enso_pipes ctx)]"]
    map_append [of gp_phys_addr "butlast (enso_pipes ctx)" "[last (enso_pipes ctx)]"]
  by (simp_all add: place_last_def place_pkt_def Let_def)

lemma phys_same:
  "(\<forall>b \<in> set bs. gp_phys_addr b = v2p (gp_buf b)) \<longleftrightarrow> map gp_phys_addr bs = map v2p (map gp_buf bs)"
  by (induction bs) auto

lemma pages_inv_place:
  assumes "pages_inv v2p pc s ctx pages" "enso_pipes ctx \<noteq> []"
  shows "pages_inv v2p pc s (place_last pkt len n ctx) pages"
proof -
  have "enso_pipes (place_last pkt len n ctx) \<noteq> []" "page_id (place_last pkt len n ctx) = page_id ctx"
    "ctx_os (place_last pkt len n ctx) = ctx_os ctx" "hugepage_offset (place_last pkt len n ctx) = hugepage_offset ctx"
    by (simp_all add: place_last_def)
  then show ?thesis using assms unfolding pages_inv_def phys_same place_last_bufs [OF assms(2)] by simp
qed

lemma page_granted:
  assumes "gen_get_huge_page c path sz s = (buf, s')" "buf \<noteq> 0"
  shows "pc_map c = Some buf" "os_maps s' = (buf, sz) # os_maps s" "os_fds s' = os_fds s" "set (os_files s') \<subseteq> set (os_files s)"
  using assms by (auto simp: gen_get_huge_page_def Let_def split: if_splits option.splits)

lemma pages_inv_new:
  assumes "pages_inv v2p pc s ctx pages" "pages_new pc s" "page_id ctx = n"
    and "gen_get_huge_page (pc n) path HUGEPAGE_SIZE (ctx_os ctx) = (buf, os')" "buf \<noteq> 0"
  shows "pages_inv v2p pc s (add_buffer v2p fresh buf BUFFER_SIZE (ctx\<lparr>page_id := Suc n, ctx_os := os'\<rparr>)) (buf # pages)"
proof -
  note g = page_granted [OF assms(4,5)]
  have al: "aligned buf" using assms(2) g(1) by (auto simp: pages_new_def aligned_def)
  have "buf \<notin> set pages"
  proof
    assume "buf \<in> set pages"
    then obtain m where "m < n" "pc_map (pc m) = Some buf" using assms(1,3) by (auto simp: pages_inv_def)
    then show False using assms(2) g(1) by (auto simp: pages_new_def)
  qed
  moreover have "\<forall>a \<in> set pages. aligned a \<and> (\<exists>m < Suc n. pc_map (pc m) = Some a)" "\<exists>m < Suc n. pc_map (pc m) = Some buf"
    using assms(1,3) g(1) by (auto simp: pages_inv_def less_Suc_eq)
  ultimately show ?thesis
    using assms(1) g al by (auto simp: pages_inv_def add_buffer_def new_pipe_def BUFFER_SIZE_def kMaxTransferLen_def intro!: exI [of _ 1])
qed

lemma not_aligned_inside:
  assumes "aligned a" "0 < m" "m < 16"
  shows "\<not> aligned (a + of_nat (131072 * m))"
proof -
  have "unat (of_nat (131072 * m) :: u64) = 131072 * m" using assms(3) by (intro unat_of_nat_small) simp
  then have "unat (a + of_nat (131072 * m)) mod 2097152 = (unat a + 131072 * m) mod 2097152"
    by (simp add: unat_word_ariths mod_mod_cancel del: of_nat_mult)
  also have "\<dots> = 131072 * m" using assms by (simp add: aligned_mod mod_add_left_eq [symmetric])
  finally show ?thesis using assms(2) by (simp add: aligned_mod)
qed

lemma pages_inv_next:
  assumes "pages_inv v2p pc s ctx pages" "\<not> HUGEPAGE_SIZE < (ucast (hugepage_offset ctx + BUFFER_SIZE) :: u64)"
  shows "pages_inv v2p pc s (add_buffer v2p fresh (gp_buf (last (enso_pipes ctx)) + ucast BUFFER_SIZE) (hugepage_offset ctx + BUFFER_SIZE) ctx) pages"
proof -
  have ne: "enso_pipes ctx \<noteq> []" using assms by (auto simp: pages_inv_def HUGEPAGE_SIZE_def BUFFER_SIZE_def kMaxTransferLen_def)
  then obtain m where m: "0 < m" "m \<le> 16" "unat (hugepage_offset ctx) = 131072 * m" "pages \<noteq> []"
    "gp_buf (last (enso_pipes ctx)) = hd pages + of_nat (131072 * (m - 1))"
    using assms(1) by (auto simp: pages_inv_def)
  have off: "unat (hugepage_offset ctx + BUFFER_SIZE) = 131072 * Suc m"
    using m(2,3) by (simp add: BUFFER_SIZE_def kMaxTransferLen_def unat_plus_small)
  have lt: "m < 16" using assms(2) off by (simp add: word_less_nat_alt HUGEPAGE_SIZE_def unat_ucast_up)
  have buf: "gp_buf (last (enso_pipes ctx)) + ucast BUFFER_SIZE = hd pages + of_nat (131072 * m)"
  proof -
    have "131072 * m = 131072 * (m - 1) + 131072" using m(1) by (cases m) simp_all
    then have "(of_nat (131072 * m) :: u64) = of_nat (131072 * (m - 1)) + 131072" by (metis of_nat_add of_nat_numeral)
    then show ?thesis unfolding m(5) by (simp add: BUFFER_SIZE_def kMaxTransferLen_def add.assoc del: of_nat_mult)
  qed
  have "hd pages \<in> set pages" using m(4) by simp
  then have "\<not> aligned (hd pages + of_nat (131072 * m))" using assms(1) m(1) lt by (intro not_aligned_inside) (auto simp: pages_inv_def)
  then show ?thesis
    using assms(1) m(4) lt unfolding buf pages_inv_def
    by (auto simp: add_buffer_def new_pipe_def ne off simp del: of_nat_mult intro!: exI [of _ "Suc m"])
qed

lemma pages_inv_handler:
  assumes "pages_inv v2p pc s ctx pages" "pages_new pc s" "pcap_pkt_handler v2p fresh pc pkt ctx = Inr ctx'" "\<not> pcap_break ctx'"
  shows "\<exists>pages'. pages_inv v2p pc s ctx' pages'"
proof -
  let ?len = "ucast (get_pkt_len 0 pkt 0) :: u32"
  let ?fl = "(?len - 1) div 64 + 1"
  obtain buf os' where page: "gen_get_huge_page (pc (page_id ctx)) (gen_page_path (page_id ctx)) HUGEPAGE_SIZE (ctx_os ctx) = (buf, os')"
    by fastforce
  note run = assms(3) [unfolded pcap_pkt_handler_def Let_def page prod.case]
  show ?thesis
  proof (cases "?fl > free_flits ctx")
    case False
    have "unat ((?len - 1) div 64) < 2 ^ 32 - 1" using div_le_mono [of "unat (?len - 1)" "2 ^ 32 - 1" 64] unsigned_less [of "?len - 1", where ?'a = nat] by (simp add: unat_div)
    then have "0 < ?fl" by (simp add: word_less_nat_alt unat_plus_small)
    then have "enso_pipes ctx \<noteq> []" using False assms(1) by (auto simp: pages_inv_def)
    with False run show ?thesis using pages_inv_place [OF assms(1)] by (auto split: if_splits)
  next
    case True
    show ?thesis
    proof (cases "HUGEPAGE_SIZE < (ucast (hugepage_offset ctx + BUFFER_SIZE) :: u64)")
      case big: True
      show ?thesis
      proof (cases "buf = 0")
        case False
        have "ctx' = place_last pkt ?len ?fl (add_buffer v2p fresh buf BUFFER_SIZE (ctx\<lparr>page_id := Suc (page_id ctx), ctx_os := os'\<rparr>))"
          using run True big False by (auto split: if_splits)
        moreover from pages_inv_place [OF pages_inv_new [OF assms(1,2) refl page False]]
        have "pages_inv v2p pc s (place_last pkt ?len ?fl (add_buffer v2p fresh buf BUFFER_SIZE
            (ctx\<lparr>page_id := Suc (page_id ctx), ctx_os := os'\<rparr>))) (buf # pages)"
          by (simp add: add_buffer_def)
        ultimately show ?thesis by blast
      qed (use run True big assms(4) in \<open>auto split: if_splits\<close>)
    next
      case False
      have "ctx' = place_last pkt ?len ?fl (add_buffer v2p fresh (gp_buf (last (enso_pipes ctx)) + ucast BUFFER_SIZE) (hugepage_offset ctx + BUFFER_SIZE) ctx)"
        using run True False by (auto split: if_splits)
      moreover from pages_inv_place [OF pages_inv_next [OF assms(1) False]]
      have "pages_inv v2p pc s (place_last pkt ?len ?fl (add_buffer v2p fresh (gp_buf (last (enso_pipes ctx)) + ucast BUFFER_SIZE)
          (hugepage_offset ctx + BUFFER_SIZE) ctx)) pages"
        by (simp add: add_buffer_def)
      ultimately show ?thesis by blast
    qed
  qed
qed

lemma pages_inv_init: "pages_inv v2p pc s (ctx_init s) []"
  by (simp add: pages_inv_def ctx_init_def HUGEPAGE_SIZE_def)

lemma pages_inv_handle:
  assumes "handle_pkts v2p fresh pc ps ctx = Inr ctx'" "pages_inv v2p pc s ctx pages" "pages_new pc s" "\<not> pcap_break ctx'"
  shows "\<exists>pages'. pages_inv v2p pc s ctx' pages'"
  using assms
proof (induction ps arbitrary: ctx pages)
  case (Cons p ps)
  then obtain c where c: "pcap_pkt_handler v2p fresh pc ((!) p) ctx = Inr c" "\<not> pcap_break c" "handle_pkts v2p fresh pc ps c = Inr ctx'"
    by (auto split: sum.splits if_splits)
  from pages_inv_handler [OF Cons.prems(2,3) c(1,2)] Cons.IH [OF c(3) _ Cons.prems(3,4)] show ?case by blast
qed auto

text \<open>Repeating a trace leaves the buffers where they are.\<close>

lemma fill_small_same:
  assumes "fill_small l g n b = Some b'"
  shows "gp_buf b' = gp_buf b \<and> gp_phys_addr b' = gp_phys_addr b"
  using assms
proof (rule fill_small.raw_induct [rotated])
  fix f :: "u32 \<Rightarrow> u32 \<Rightarrow> u32 \<Rightarrow> EnsoPipe \<Rightarrow> EnsoPipe option" and l g n b y
  assume IH: "\<And>l g n b y. f l g n b = Some y \<Longrightarrow> gp_buf y = gp_buf b \<and> gp_phys_addr y = gp_phys_addr b"
    and run: "(if gp_length b + l \<le> BUFFER_SIZE then f l g n (fill_step l g n b) else Some b) = Some y"
  then show "gp_buf y = gp_buf b \<and> gp_phys_addr y = gp_phys_addr b"
    by (auto simp: fill_step_def Let_def dest!: IH split: if_splits)
qed

lemma repeat_small_same:
  assumes "repeat_small bs = Some bs'"
  shows "map gp_buf bs' = map gp_buf bs" "map gp_phys_addr bs' = map gp_phys_addr bs"
  using assms fill_small_same by (auto simp: repeat_small_def Let_def length_Suc_conv split: if_splits)

lemma gen_unmap_eq:
  "gen_unmap bs s = fold (\<lambda>a. os_munmap a HUGEPAGE_SIZE) (map gp_buf (filter (\<lambda>b. aligned (gp_phys_addr b)) bs)) s"
  by (induction bs arbitrary: s) (simp_all add: gen_unmap_def aligned_def)

lemma os_munmap_pages:
  assumes "\<forall>x \<in> set ms. fst x \<noteq> a"
  shows "os_maps (os_munmap a HUGEPAGE_SIZE (s\<lparr>os_maps := map (\<lambda>a. (a, HUGEPAGE_SIZE)) pages @ ms\<rparr>)) =
    map (\<lambda>a. (a, HUGEPAGE_SIZE)) (removeAll a pages) @ ms"
proof -
  have "concat (map (\<lambda>(b, l). if b = a then (if l \<le> HUGEPAGE_SIZE then [] else [(b + HUGEPAGE_SIZE, l - HUGEPAGE_SIZE)]) else [(b, l)]) ms) = ms"
    using assms by (induction ms) auto
  moreover have "concat (map (\<lambda>(b, l). if b = a then (if l \<le> HUGEPAGE_SIZE then [] else [(b + HUGEPAGE_SIZE, l - HUGEPAGE_SIZE)]) else [(b, l)])
      (map (\<lambda>a. (a, HUGEPAGE_SIZE)) pages)) = map (\<lambda>a. (a, HUGEPAGE_SIZE)) (removeAll a pages)"
    by (induction pages) auto
  ultimately show ?thesis by (simp add: os_munmap_def)
qed

lemma unmap_pages:
  assumes "os_maps s = map (\<lambda>a. (a, HUGEPAGE_SIZE)) pages @ ms" "\<forall>x \<in> set ms. fst x \<notin> set as" "set pages \<subseteq> set as"
  shows "os_maps (fold (\<lambda>a. os_munmap a HUGEPAGE_SIZE) as s) = ms"
  using assms
proof (induction as arbitrary: s pages)
  case (Cons a as)
  have "os_maps (os_munmap a HUGEPAGE_SIZE s) = map (\<lambda>a. (a, HUGEPAGE_SIZE)) (removeAll a pages) @ ms"
    using os_munmap_pages [of ms a pages s] Cons.prems(1,2) by (simp add: os_munmap_def)
  from Cons.IH [OF this] Cons.prems show ?case by auto
qed simp

lemma unmap_rest [simp]:
  "os_fds (fold (\<lambda>a. os_munmap a n) as s) = os_fds s" "os_files (fold (\<lambda>a. os_munmap a n) as s) = os_files s"
  by (induction as arbitrary: s) simp_all

text \<open>
  C23: The generator gives back every huge page. After a trace was read to its end, the buffers whose physical
  address is aligned are exactly the pages that were mapped; unmapping 2 MB from each of them restores the
  mappings the process had before, and no descriptor and no file is left.
\<close>

theorem generator_returns_pages:
  assumes "pages_new pc s" "same_offset v2p" "handle_pkts v2p fresh pc ps (ctx_init s) = Inr ctx" "\<not> pcap_break ctx"
    "repeat_small (enso_pipes ctx) = Some pipes"
  shows "os_maps (gen_unmap pipes (ctx_os ctx)) = os_maps s \<and> os_fds (gen_unmap pipes (ctx_os ctx)) = os_fds s \<and>
    set (os_files (gen_unmap pipes (ctx_os ctx))) \<subseteq> set (os_files s)"
proof -
  obtain pages where inv: "pages_inv v2p pc s ctx pages"
    using pages_inv_handle [OF assms(3) pages_inv_init assms(1,4)] by blast
  have phys: "aligned (v2p a) \<longleftrightarrow> aligned a" for a using assms(2) by (simp add: same_offset_def aligned_def)
  have "map gp_phys_addr pipes = map v2p (map gp_buf pipes)"
    using inv unfolding pages_inv_def phys_same repeat_small_same [OF assms(5)] by blast
  then have "filter (\<lambda>b. aligned (gp_phys_addr b)) pipes = filter (aligned \<circ> gp_buf) pipes"
    unfolding phys_same [symmetric] by (intro filter_cong) (simp_all add: phys)
  then have "map gp_buf (filter (\<lambda>b. aligned (gp_phys_addr b)) pipes) = rev pages"
    using inv repeat_small_same(1) [OF assms(5)] by (simp add: filter_map [symmetric] pages_inv_def)
  then have unmap: "gen_unmap pipes (ctx_os ctx) = fold (\<lambda>a. os_munmap a HUGEPAGE_SIZE) (rev pages) (ctx_os ctx)"
    by (simp add: gen_unmap_eq)
  have "\<forall>x \<in> set (os_maps s). fst x \<notin> set (rev pages)"
  proof
    fix x assume "x \<in> set (os_maps s)"
    then have "\<forall>n. pc_map (pc n) \<noteq> Some (fst x)" using assms(1) by (auto simp: pages_new_def)
    then show "fst x \<notin> set (rev pages)" using inv by (auto simp: pages_inv_def)
  qed
  then have "os_maps (gen_unmap pipes (ctx_os ctx)) = os_maps s"
    unfolding unmap using inv by (intro unmap_pages [where pages = pages]) (simp_all add: pages_inv_def)
  then show ?thesis using inv by (simp add: unmap pages_inv_def)
qed

definition one_page :: "nat \<Rightarrow> page_calls" where
  "one_page n = (if n = 0 then gen_pages 0 else (gen_pages 0)\<lparr>pc_map := None\<rparr>)"

lemma one_page_new: "pages_new one_page os_empty"
  by (simp add: pages_new_def one_page_def gen_pages_def HUGEPAGE_SIZE_def os_empty_def)

lemma one_page_loads: "\<exists>ctx. handle_pkts id (\<lambda>_. 0) one_page [pkt64] (ctx_init os_empty) = Inr ctx \<and> \<not> pcap_break ctx \<and>
    os_maps (ctx_os ctx) = [(HUGEPAGE_SIZE, HUGEPAGE_SIZE)]"
proof -
  have "one_page 0 = gen_pages 0" by (simp add: one_page_def)
  then show ?thesis
    by (simp add: pcap_pkt_handler_def pkt64_len gen_page_first ctx_init_def Let_def place_last_def add_buffer_def
        HUGEPAGE_SIZE_def BUFFER_SIZE_def kMaxTransferLen_def os_empty_def) (simp add: pkt64_def nth_append)
qed

theorem generator_returns_pages_witness:
  "\<exists>ctx pipes. handle_pkts id (\<lambda>_. 0) one_page [pkt64] (ctx_init os_empty) = Inr ctx \<and> repeat_small (enso_pipes ctx) = Some pipes \<and>
     os_maps (ctx_os ctx) = [(HUGEPAGE_SIZE, HUGEPAGE_SIZE)] \<and> os_maps (gen_unmap pipes (ctx_os ctx)) = []"
proof -
  have ok: "\<forall>p \<in> set [pkt64]. pkt_ok p" using pkt64_ok by simp
  obtain ctx where ctx: "handle_pkts id (\<lambda>_. 0) one_page [pkt64] (ctx_init os_empty) = Inr ctx" "\<not> pcap_break ctx"
    and maps: "os_maps (ctx_os ctx) = [(HUGEPAGE_SIZE, HUGEPAGE_SIZE)]"
    using one_page_loads by blast
  with trace_in_buffers [OF ok, of id "\<lambda>_. 0" one_page os_empty] obtain pipes where pipes: "repeat_small (enso_pipes ctx) = Some pipes"
    by auto
  have "os_maps os_empty = []" by (simp add: os_empty_def)
  moreover have "same_offset id" by (simp add: same_offset_def)
  ultimately show ?thesis using generator_returns_pages [OF one_page_new _ ctx pipes] ctx(1) pipes maps by auto
qed

end
