(* ===== verification/Gen_Threads.thy ===== *)
theory Gen_Threads
  imports Gen_Main
begin

text \<open>
  The packet generator, \<^verbatim>\<open>software/examples/ensogen.cpp\<close>: its threads. With two threads one opens the
  queues, configures the device and receives, the other opens a socket of its own and transmits; with
  \<^verbatim>\<open>--single-core\<close> one thread does both. \<open>Inl\<close> is the code with which the program exits, \<open>None\<close> a call that
  does not return or follows a null pointer.

  What a thread sees of the rest of the world is a \<open>world\<close>: at its turn \<open>k\<close> the NIC and the other thread have
  changed the state by \<open>w_nic k\<close>, the pipes hold the bytes \<open>w_mem k\<close>, and the two flags of the signal handler
  and the other thread read \<open>w_running k\<close> and \<open>w_stop k\<close>. Waiting for \<^verbatim>\<open>rx_ready\<close> and \<^verbatim>\<open>rx_done\<close>, the sleeps and
  the affinity of the threads are left out.
\<close>

section \<open>The threads\<close>

record 'b world =
  w_nic :: "nat \<Rightarrow> 'b sockets \<Rightarrow> 'b sockets"
  w_mem :: "nat \<Rightarrow> nat \<Rightarrow> u8 arr"
  w_running :: "nat \<Rightarrow> bool"
  w_stop :: "nat \<Rightarrow> bool"

text \<open>The host of the generator: backend, devices, operating system, NIC and uninitialised pipes.\<close>

record 'b machine =
  m_be :: "'b backend"
  m_create :: "u16 \<Rightarrow> 'b option"
  m_env :: host_env
  m_nic :: nic
  m_junk :: "nat \<Rightarrow> RxEnsoPipeInternal"

text \<open>The result is \<^verbatim>\<open>socket_fd\<close>, which ends up as the last socket opened, and \<^verbatim>\<open>socket_fds\<close>.\<close>

fun open_queues :: "'b machine \<Rightarrow> nat \<Rightarrow> int \<Rightarrow> int list \<Rightarrow> 'b sockets \<Rightarrow> (int + int \<times> int list \<times> 'b sockets) option" where
  "open_queues m 0 socket_fd socket_fds s = Some (Inr (socket_fd, socket_fds, s))"
| "open_queues m (Suc n) socket_fd socket_fds s =
     Option.bind (socket (m_be m) (m_create m) (m_env m) (m_nic m) (m_junk m n) True s) (\<lambda>(fd, s1).
       if fd = -1 then Some (Inl 2) else open_queues m n fd (socket_fds @ [fd]) s1)"

definition rx_configure :: "'b machine \<Rightarrow> parsed_args_t \<Rightarrow> int \<Rightarrow> 'b sockets \<Rightarrow> 'b sockets option" where
  "rx_configure m a fd s =
     (let junk = he_junk64 (m_env m) in
      Option.bind (enable_device_rate_limit junk (m_nic m) fd (pa_rate_num a) (pa_rate_den a) s) (\<lambda>(_, s1).
      Option.bind (enable_device_round_robin (m_be m) junk (m_nic m) fd s1) (\<lambda>(_, s2).
        map_option snd (if pa_enable_rtt a then enable_device_timestamp junk (m_nic m) fd (pa_timestamp_offset a) s2
          else disable_device_timestamp junk (m_nic m) fd s2))))"

definition single_configure :: "'b machine \<Rightarrow> parsed_args_t \<Rightarrow> int \<Rightarrow> 'b sockets \<Rightarrow> 'b sockets option" where
  "single_configure m a fd s =
     (let junk = he_junk64 (m_env m) in
      Option.bind (enable_device_rate_limit junk (m_nic m) fd (pa_rate_num a) (pa_rate_den a) s) (\<lambda>(_, s1).
      Option.bind (enable_device_round_robin (m_be m) junk (m_nic m) fd s1) (\<lambda>(_, s2).
        if pa_enable_rtt a then map_option snd (enable_device_timestamp junk (m_nic m) fd kDefaultRttOffset s2) else Some s2)))"

definition rx_unconfigure :: "'b machine \<Rightarrow> parsed_args_t \<Rightarrow> int \<Rightarrow> 'b sockets \<Rightarrow> 'b sockets option" where
  "rx_unconfigure m a fd s =
     (let junk = he_junk64 (m_env m) in
      Option.bind (disable_device_rate_limit junk (m_nic m) fd s) (\<lambda>(_, s1).
      Option.bind (disable_device_round_robin (m_be m) junk (m_nic m) fd s1) (\<lambda>(_, s2).
        if pa_enable_rtt a then map_option snd (disable_device_timestamp junk (m_nic m) fd s2) else Some s2)))"

fun close_queues :: "'b machine \<Rightarrow> int list \<Rightarrow> 'b sockets \<Rightarrow> 'b sockets option" where
  "close_queues m [] s = Some s"
| "close_queues m (fd # fds) s =
     Option.bind (shutdown (m_be m) (m_env m) (m_nic m) fd s) (\<lambda>(_, s1). close_queues m fds s1)"

text \<open>Receiving while the transmitting side runs, and afterwards until nothing has come for a long time.\<close>

partial_function (option) rx_running :: "RxArgs \<Rightarrow> 'b world \<Rightarrow> nat \<Rightarrow> RxStats \<Rightarrow> 'b sockets \<Rightarrow>
    (int + nat \<times> RxStats \<times> 'b sockets) option" where
  "rx_running a w k st s =
     (if w_running w k then
        Option.bind (receive_pkts a (w_mem w k) st (w_nic w k s)) (\<lambda>r. case r of
          Inl e \<Rightarrow> Some (Inl e)
        | Inr (_, st1, s1) \<Rightarrow> rx_running a w (Suc k) st1 s1)
      else Some (Inr (k, st, s)))"

partial_function (option) rx_drain :: "RxArgs \<Rightarrow> 'b world \<Rightarrow> nat \<Rightarrow> u64 \<Rightarrow> RxStats \<Rightarrow> 'b sockets \<Rightarrow>
    (int + RxStats \<times> 'b sockets) option" where
  "rx_drain a w k nb_iters_no_pkt st s =
     (if \<not> w_stop w k \<and> nb_iters_no_pkt < ITER_NO_PKT_THRESH then
        Option.bind (receive_pkts a (w_mem w k) st (w_nic w k s)) (\<lambda>r. case r of
          Inl e \<Rightarrow> Some (Inl e)
        | Inr (nb_pkts, st1, s1) \<Rightarrow> rx_drain a w (Suc k) (if nb_pkts = 0 then nb_iters_no_pkt + 1 else 0) st1 s1)
      else Some (Inr (st, s)))"

definition rx_thread :: "'b machine \<Rightarrow> 'b world \<Rightarrow> parsed_args_t \<Rightarrow> 'b sockets \<Rightarrow> (int + RxStats \<times> 'b sockets) option" where
  "rx_thread m w a s =
     Option.bind (open_queues m (unat (pa_nb_queues a)) 0 [] s) (\<lambda>r. case r of
       Inl e \<Rightarrow> Some (Inl e)
     | Inr (fd, fds, s1) \<Rightarrow>
         Option.bind (rx_configure m a fd s1) (\<lambda>s2.
         Option.bind (rx_running (gen_rx_args a fd) w 0 (gen_rx_stats a) s2) (\<lambda>r. case r of
           Inl e \<Rightarrow> Some (Inl e)
         | Inr (k, st, s3) \<Rightarrow>
             Option.bind (rx_drain (gen_rx_args a fd) w k 0 st s3) (\<lambda>r. case r of
               Inl e \<Rightarrow> Some (Inl e)
             | Inr (st1, s4) \<Rightarrow>
                 Option.bind (rx_unconfigure m a fd s4) (\<lambda>s5. map_option (\<lambda>s6. Inr (st1, s6)) (close_queues m fds s5))))))"

text \<open>The transmitting thread opens one socket and leaves it open.\<close>

definition tx_thread :: "'b machine \<Rightarrow> EnsoPipe list \<Rightarrow> u64 \<times> u64 \<times> u64 \<Rightarrow> 'b sockets \<Rightarrow> (int + 'b gen_tx) option" where
  "tx_thread m pipes = (\<lambda>(tot, good, last_pkts) s.
     Option.bind (socket (m_be m) (m_create m) (m_env m) (m_nic m) (m_junk m 0) False s) (\<lambda>(fd, s1).
       if fd = -1 then Some (Inl 2)
       else Option.bind (tx_loop (m_nic m) pipes (gen_start tot good last_pkts fd s1)) (\<lambda>g.
         map_option Inr (reclaim_all_buffers (m_nic m) g))))"

text \<open>Both in one thread. Its \<^verbatim>\<open>rx_args.timestamp_offset\<close> is not set: \<open>junk_off\<close> is what it happens to be.\<close>

partial_function (option) single_running :: "'b machine \<Rightarrow> RxArgs \<Rightarrow> 'b world \<Rightarrow> EnsoPipe list \<Rightarrow> nat \<Rightarrow> RxStats \<Rightarrow> 'b gen_tx \<Rightarrow>
    (int + nat \<times> RxStats \<times> 'b gen_tx) option" where
  "single_running m a w pipes k st g =
     (if keep_running g \<and> w_running w k then
        Option.bind (receive_pkts a (w_mem w k) st (w_nic w k (gt_socks g))) (\<lambda>r. case r of
          Inl e \<Rightarrow> Some (Inl e)
        | Inr (_, st1, s1) \<Rightarrow>
            Option.bind (transmit_pkts (m_nic m) pipes (g\<lparr>gt_socks := s1\<rparr>)) (\<lambda>g1. single_running m a w pipes (Suc k) st1 g1))
      else Some (Inr (k, st, g)))"

definition single_rx_args :: "parsed_args_t \<Rightarrow> u8 \<Rightarrow> int \<Rightarrow> RxArgs" where
  "single_rx_args a junk_off fd = \<lparr>enable_rtt = pa_enable_rtt a, enable_rtt_history = pa_enable_rtt_history a,
     rx_socket_fd = fd, timestamp_offset = junk_off\<rparr>"

definition single_thread :: "'b machine \<Rightarrow> 'b world \<Rightarrow> EnsoPipe list \<Rightarrow> u64 \<times> u64 \<times> u64 \<Rightarrow> u8 \<Rightarrow> parsed_args_t \<Rightarrow>
    'b sockets \<Rightarrow> (int + RxStats \<times> 'b gen_tx) option" where
  "single_thread m w pipes = (\<lambda>(tot, good, last_pkts) junk_off a s.
     Option.bind (open_queues m (unat (pa_nb_queues a)) 0 [] s) (\<lambda>r. case r of
       Inl e \<Rightarrow> Some (Inl e)
     | Inr (fd, fds, s1) \<Rightarrow>
         let rx_args = single_rx_args a junk_off fd in
         Option.bind (single_configure m a fd s1) (\<lambda>s2.
         Option.bind (single_running m rx_args w pipes 0 (gen_rx_stats a) (gen_start tot good last_pkts fd s2)) (\<lambda>r. case r of
           Inl e \<Rightarrow> Some (Inl e)
         | Inr (k, st, g) \<Rightarrow>
             Option.bind (rx_drain rx_args w k 0 st (gt_socks g)) (\<lambda>r. case r of
               Inl e \<Rightarrow> Some (Inl e)
             | Inr (st1, s4) \<Rightarrow>
                 Option.bind (reclaim_all_buffers (m_nic m) (g\<lparr>gt_socks := s4\<rparr>)) (\<lambda>g1.
                 Option.bind (rx_unconfigure m a fd (gt_socks g1)) (\<lambda>s5.
                   map_option (\<lambda>s6. Inr (st1, g1\<lparr>gt_socks := s6\<rparr>)) (close_queues m fds s5))))))))"

section \<open>The receiving thread ends\<close>

text \<open>Nothing is waiting for the notification buffer of a socket.\<close>

definition quiet :: "int \<Rightarrow> 'b sockets \<Rightarrow> bool" where
  "quiet fd s \<longleftrightarrow> (\<exists>i c. sock_nb fd s = Some (i, c) \<and> next_rx_ids_head (sk_pair c s) = next_rx_ids_tail (sk_pair c s) \<and>
     rx_signal (nb_rx_buf (sk_pair c s) (unat (nb_rx_head (sk_pair c s)))) = 0)"

lemma receive_quiet:
  assumes "quiet (rx_socket_fd a) s"
  shows "receive_pkts a mem st s = Some (Inr (0, st, s))"
proof -
  obtain i c where c: "sock_nb (rx_socket_fd a) s = Some (i, c)" "next_rx_ids_head (sk_pair c s) = next_rx_ids_tail (sk_pair c s)"
    "rx_signal (nb_rx_buf (sk_pair c s) (unat (nb_rx_head (sk_pair c s)))) = 0"
    using assms by (auto simp: quiet_def)
  have "get_new_tails_loop kBatchSize (sk_pair c s) (nb_rx_head (sk_pair c s)) t 0 = Some (sk_pair c s, nb_rx_head (sk_pair c s), t, 0)" for t
    using c(3) by (simp add: kBatchSize_def numeral_eq_Suc)
  then have "get_new_tails (sk_pair c s) = Some (0, sk_pair c s)" by (simp add: get_new_tails_def Let_def)
  then have "get_next_batch (sk_pair c s) socks = Some (0, None, sk_pair c s, socks)" for socks
    using c(2) by (simp add: get_next_batch_def get_next_enso_pipe_id_def Let_def)
  moreover have "(sk_set_pair c (sk_pair c s) s)\<lparr>open_sockets := \<lambda>i. (open_sockets s i)\<lparr>si_pipe := si_pipe (open_sockets s i)\<rparr>\<rparr> = s"
    by (simp add: sk_set_pair_def sk_pair_def)
  ultimately have "recv_select (rx_socket_fd a) RECV_BUF_LEN s = Some (0, None, s)" using c(1) by (simp add: recv_select_def)
  then show ?thesis by (simp add: receive_pkts_def)
qed

text \<open>\<open>n\<close> calls of \<^verbatim>\<open>receive_pkts\<close> from turn \<open>k\<close> on.\<close>

fun receives :: "RxArgs \<Rightarrow> 'b world \<Rightarrow> nat \<Rightarrow> nat \<Rightarrow> RxStats \<Rightarrow> 'b sockets \<Rightarrow> (RxStats \<times> 'b sockets) option" where
  "receives a w k 0 st s = Some (st, s)"
| "receives a w k (Suc n) st s =
     (case receive_pkts a (w_mem w k) st (w_nic w k s) of
        Some (Inr (_, st1, s1)) \<Rightarrow> receives a w (Suc k) n st1 s1
      | _ \<Rightarrow> None)"

lemma thresh: "unat ITER_NO_PKT_THRESH = 2 ^ 28"
  by (simp add: ITER_NO_PKT_THRESH_def)

lemma drain_quiet:
  assumes "quiet (rx_socket_fd a) s" "\<forall>j \<ge> k. w_nic w j = id" "unat i \<le> 2 ^ 28"
  shows "rx_drain a w k i st s = Some (Inr (st, s))"
  using assms(2,3)
proof (induction "2 ^ 28 - unat i" arbitrary: i k)
  case 0
  then have "\<not> i < ITER_NO_PKT_THRESH" by (simp add: word_less_nat_alt thresh)
  then show ?case by (simp add: rx_drain.simps)
next
  case (Suc n)
  have "unat (i + 1) = Suc (unat i)" using Suc.hyps(2) by (simp add: unat_plus_small)
  then have "rx_drain a w (Suc k) (i + 1) st s = Some (Inr (st, s))" using Suc by (intro Suc.hyps(1)) simp_all
  then show ?case using Suc.prems(1) receive_quiet [OF assms(1)] by (simp add: rx_drain.simps [of a w k])
qed

lemma drain_receives:
  assumes "receives a w k n st s = Some (st1, s1)" "unat i + n < 2 ^ 28"
    and "quiet (rx_socket_fd a) s1" "\<forall>j \<ge> k + n. w_nic w j = id" "\<forall>j < k + n. \<not> w_stop w j"
  shows "rx_drain a w k i st s = Some (Inr (st1, s1))"
  using assms(1,2,4,5)
proof (induction n arbitrary: k i st s)
  case 0
  then have "\<forall>j \<ge> k. w_nic w j = id" by (metis add_0_right)
  moreover have "unat i \<le> 2 ^ 28" "st = st1" "s = s1" using 0 by simp_all
  ultimately show ?case using drain_quiet [OF assms(3)] by simp
next
  case (Suc n)
  then obtain nb st' s' where r: "receive_pkts a (w_mem w k) st (w_nic w k s) = Some (Inr (nb, st', s'))"
    "receives a w (Suc k) n st' s' = Some (st1, s1)" by (auto split: option.splits sum.splits)
  have "unat (i + 1) = Suc (unat i)" using Suc.prems(2) by (simp add: unat_plus_small)
  then have "unat (if nb = 0 then i + 1 else 0) + n < 2 ^ 28" using Suc.prems(2) by auto
  from Suc.IH [OF r(2) this] Suc.prems(3,4)
  have "rx_drain a w (Suc k) (if nb = 0 then i + 1 else 0) st' s' = Some (Inr (st1, s1))" by simp
  moreover have "i < ITER_NO_PKT_THRESH" using Suc.prems(2) by (simp add: word_less_nat_alt thresh)
  ultimately show ?case using Suc.prems(4) r(1) by (simp add: rx_drain.simps [of a w k])
qed


definition world_frames :: "nat world" where
  "world_frames = \<lparr>w_nic = (\<lambda>_. id), w_mem = (\<lambda>_. mem_frames), w_running = (\<lambda>_. False), w_stop = (\<lambda>_. False)\<rparr>"

lemma one_batch:
  obtains st s1 where "receives rx_args_example world_frames 0 1 (RxStats_new 1000 400) (gen_rx_sockets 2) = Some (st, s1)"
    "rx_pkts st = 3" "rx_bytes st = 192" "quiet 5 s1"
proof -
  let ?f3 = "[frame_seven, frame_seven, frame_seven]" and ?p = "(sk_pair 0 (gen_rx_sockets 2))\<lparr>next_rx_ids_head := 1\<rparr>"
  have p: "get_next_enso_pipe_id (sk_pair 0 (gen_rx_sockets 2)) = Some (int 0, ?p)" "2 = pending_rx_pipe_tails ?p (unat (ep_id ep_example))"
    by (simp_all add: gen_rx_sockets_def sk_pair_def get_next_enso_pipe_id_def nb_zero_def kNotificationBufSize_def)
  have slice: "ring_slice page_N (mem_frames 0) (64 * unat (ep_rx_tail ep_example)) (64 * ring_dist pipe_N (unat (ep_rx_tail ep_example)) (unat (2 :: u32))) = concat ?f3"
    using mem_frames_slice [of 0 32767] by (simp add: gen_rx_sockets_ok(4) ring_dist_def)
  have "sock_nb (rx_socket_fd rx_args_example) (gen_rx_sockets 2) = Some (5, 0)" by (simp add: rx_args_example_def gen_rx_sockets_ok(1))
  moreover have "ep_example = si_pipe (open_sockets (gen_rx_sockets 2) 0)" by (simp add: gen_rx_sockets_ok(2))
  moreover have "(2 :: u32) \<noteq> ep_rx_tail ep_example" "unat (ep_rx_tail ep_example) < pipe_N" "unat (2 :: u32) < pipe_N"
    using gen_rx_sockets_ok(4) by (auto simp: word_unat_eq_iff)
  moreover have "\<forall>f \<in> set ?f3. frame_ok f \<and> length f < 65536" using frame_seven_ok by simp
  ultimately obtain st' ep' where r: "receive_pkts rx_args_example mem_frames (RxStats_new 1000 400) (gen_rx_sockets 2) = Some (Inr (of_nat (length ?f3),
      st'\<lparr>rx_pkts := rx_pkts (RxStats_new 1000 400) + of_nat (length ?f3), rx_nb_batches := rx_nb_batches (RxStats_new 1000 400) + 1,
        rx_bytes := rx_bytes (RxStats_new 1000 400) + of_nat (sum_list (map frame_len ?f3))\<rparr>, sk_set_pipe 0 ep' (sk_set_pair 0 ?p (gen_rx_sockets 2))))"
    using receive_batch [where a = rx_args_example and s = "gen_rx_sockets 2" and j = 0 and mem = mem_frames and fs = ?f3 and
      st = "RxStats_new 1000 400" and ep = ep_example and t = 2, OF _ p(1) _ _ _ gen_rx_sockets_ok(5) p(2) _ _ _ slice]
    by (auto simp: rx_args_example_def RxStats_new_def)
  have "quiet 5 (sk_set_pipe 0 ep' (sk_set_pair 0 ?p (gen_rx_sockets 2)))"
    by (simp add: quiet_def sock_nb_def sock_index_def MAX_NB_SOCKETS_def kMaxNbFlows_def gen_rx_sockets_def sk_set_pipe_def sk_set_pair_def
        sk_pair_def nb_zero_def rx_notif_zero_def)
  then show thesis using r by (intro that) (auto simp: world_frames_def frame_seven_ok RxStats_new_def)
qed


section \<open>No queues\<close>

lemma configure_unopened:
  assumes "nb_open_sockets s = 0"
  shows "rx_configure m a fd s = Some s" "single_configure m a fd s = Some s"
  using assms by (simp_all add: rx_configure_def single_configure_def enable_device_rate_limit_def enable_device_round_robin_def
      enable_device_timestamp_def disable_device_timestamp_def device_config_def device_round_robin_def Let_def)

lemma receive_unopened:
  assumes "si_nb (open_sockets s 0) = None" "rx_socket_fd a = 0"
  shows "receive_pkts a mem st s = None"
  using assms by (simp add: receive_pkts_def recv_select_def sock_nb_def sock_index_def)

text \<open>
  \<^verbatim>\<open>--queues\<close> is not checked: with 0, or with an argument that is no number, no queue is opened, the
  configuration calls fail without notice, and the first receive follows the null pointer of a socket that was
  never opened.
\<close>

theorem no_queues_crashes:
  assumes "pa_nb_queues a = 0" "nb_open_sockets s = 0" "si_nb (open_sockets (w_nic w 0 s) 0) = None" "w_running w 0"
  shows "rx_thread m w a s = None \<and> single_thread m w pipes plan junk_off a s = None"
proof -
  obtain tot good last_pkts where plan: "plan = (tot, good, last_pkts)" by (cases plan)
  have "rx_running (gen_rx_args a 0) w 0 st s = None" for st
    using receive_unopened [OF assms(3)] assms(4) by (simp add: rx_running.simps [of _ w 0] gen_rx_args_def)
  moreover have "single_running m (single_rx_args a junk_off 0) w pipes 0 st (gen_start tot good last_pkts 0 s) = None" for st
    using receive_unopened [OF assms(3)] assms(4) by (simp add: single_running.simps [of m _ w pipes 0] single_rx_args_def gen_start_def)
  ultimately show ?thesis
    using assms(1,2) by (simp add: rx_thread_def single_thread_def plan configure_unopened Let_def)
qed

definition machine_two :: "nat machine" where
  "machine_two = \<lparr>m_be = be_counter, m_create = (\<lambda>_. Some 0), m_env = host_two, m_nic = nic_eager, m_junk = (\<lambda>_. ep_none)\<rparr>"

theorem no_queues_crashes_witness:
  "\<exists>a. parse_args [CMD_OPT_QUEUES ''four''] [''trace.pcap'', ''1'', ''2''] = Inr a \<and>
     single_thread machine_two (world_frames\<lparr>w_running := \<lambda>_. True\<rparr>) [] (64, 64, 1) 0 a sockets_zero = None"
proof -
  obtain a where a: "parse_args [CMD_OPT_QUEUES ''four''] [''trace.pcap'', ''1'', ''2''] = Inr a" "pa_nb_queues a = 0"
    by (simp add: parse_args_def args_default_def atoi_def is_digit_def Let_def)
  have "single_thread machine_two (world_frames\<lparr>w_running := \<lambda>_. True\<rparr>) [] (64, 64, 1) 0 a sockets_zero = None"
    using no_queues_crashes [OF a(2), of sockets_zero "world_frames\<lparr>w_running := \<lambda>_. True\<rparr>"]
    by (simp add: sockets_zero_def world_frames_def)
  with a(1) show ?thesis by blast
qed

section \<open>The transmitting thread\<close>

text \<open>Transmitting changes no socket but its notification buffer.\<close>

definition same_open :: "'b gen_tx \<Rightarrow> 'b gen_tx \<Rightarrow> bool" where
  "same_open g g' \<longleftrightarrow> nb_open_sockets (gt_socks g') = nb_open_sockets (gt_socks g) \<and> open_sockets (gt_socks g') = open_sockets (gt_socks g)"

lemma sk_set_pair_open [simp]:
  "nb_open_sockets (sk_set_pair c p s) = nb_open_sockets s" "open_sockets (sk_set_pair c p s) = open_sockets s"
  by (simp_all add: sk_set_pair_def)

lemma collect_keeps:
  assumes "collect_completions nic g = Some g'"
  shows "same_open g g' \<and> keep_running g' = keep_running g \<and> total_remaining_bytes (gt_args g') = total_remaining_bytes (gt_args g)"
proof -
  obtain i c where c: "sock_nb (tx_socket_fd (gt_args g)) (gt_socks g) = Some (i, c)"
    using assms by (auto simp: collect_completions_def get_completions_def)
  obtain n p where p: "get_unreported_completions nic (sk_pair c (gt_socks g)) = (n, p)" by fastforce
  show ?thesis using assms by (auto simp: collect_completions_def get_completions_def c p same_open_def)
qed

lemma reclaim_some_same:
  assumes "reclaim_some nic g = Some g'"
  shows "same_open g g' \<and> keep_running g' = keep_running g \<and> total_remaining_bytes (gt_args g') = total_remaining_bytes (gt_args g)"
  using assms by (auto simp: reclaim_some_def Let_def same_open_def dest!: collect_keeps split: if_splits)

lemma send_keeps: "send nic fd a l s = Some (n, s') \<Longrightarrow> nb_open_sockets s' = nb_open_sockets s \<and> open_sockets s' = open_sockets s"
  by (auto simp: send_def bind_eq_Some_conv)

lemma send_buffer_keeps:
  assumes "send_buffer nic pipes g = Some g'"
  shows "same_open g g' \<and> (keep_running g' = keep_running g \<or> total_remaining_bytes (gt_args g') = 0)"
proof -
  let ?a = "gt_args g" let ?b = "pipes ! current_enso_pipe ?a"
  define len where "len = min (ucast (min (ucast BUFFER_SIZE) (total_remaining_bytes ?a)) :: u32) (gp_length ?b)"
  define good where "good = (ucast (min (total_remaining_good_bytes ?a) (ucast (gp_good_bytes ?b))) :: u32)"
  note run = assms [unfolded send_buffer_def Let_def, folded len_def good_def]
  have idx: "current_enso_pipe ?a < length pipes" using run by (simp split: if_splits)
  obtain n s where s: "send nic (tx_socket_fd ?a) (gp_phys_addr ?b) (ucast len) (gt_socks g) = Some (n, s)"
    using run idx by (cases "send nic (tx_socket_fd ?a) (gp_phys_addr ?b) (ucast len) (gt_socks g)") auto
  show ?thesis
    using run send_keeps [OF s] idx by (cases "total_remaining_bytes ?a = ucast len") (auto simp: s same_open_def)
qed

lemma transmit_keeps:
  assumes "transmit_pkts nic pipes g = Some g'"
  shows "same_open g g' \<and> (keep_running g' = keep_running g \<or> total_remaining_bytes (gt_args g') = 0)"
proof (cases "transmissions_pending (gt_args g) < buf_fill_thresh")
  case True
  with assms obtain x where x: "send_buffer nic pipes g = Some x" "x = g' \<or> reclaim_some nic x = Some g'"
    by (auto simp: transmit_pkts_def bind_eq_Some_conv split: if_splits)
  from send_buffer_keeps [OF x(1)] x(2) show ?thesis by (auto simp: same_open_def dest!: reclaim_some_same)
next
  case False
  then have "reclaim_some nic g = Some g'" using assms by (simp add: transmit_pkts_def)
  from reclaim_some_same [OF this] show ?thesis by simp
qed

lemma tx_loop_keeps:
  assumes "tx_loop nic pipes g = Some g'"
  shows "same_open g g' \<and> (keep_running g \<or> total_remaining_bytes (gt_args g) = 0 \<longrightarrow> total_remaining_bytes (gt_args g') = 0)"
  using assms
proof (rule tx_loop.raw_induct [rotated])
  fix f :: "nic \<Rightarrow> EnsoPipe list \<Rightarrow> 'a gen_tx \<Rightarrow> 'a gen_tx option" and nic pipes g y
  assume IH: "\<And>nic pipes g y. f nic pipes g = Some y \<Longrightarrow>
      same_open g y \<and> (keep_running g \<or> total_remaining_bytes (gt_args g) = 0 \<longrightarrow> total_remaining_bytes (gt_args y) = 0)"
    and run: "(if keep_running g then Option.bind (transmit_pkts nic pipes g) (f nic pipes) else Some g) = Some y"
  show "same_open g y \<and> (keep_running g \<or> total_remaining_bytes (gt_args g) = 0 \<longrightarrow> total_remaining_bytes (gt_args y) = 0)"
  proof (cases "keep_running g")
    case True
    with run obtain x where x: "transmit_pkts nic pipes g = Some x" "f nic pipes x = Some y" by (auto simp: bind_eq_Some_conv)
    from transmit_keeps [OF x(1)] IH [OF x(2)] True show ?thesis by (auto simp: same_open_def)
  qed (use run in \<open>simp add: same_open_def\<close>)
qed

lemma reclaim_all_keeps:
  assumes "reclaim_all_buffers nic g = Some g'"
  shows "same_open g g' \<and> total_remaining_bytes (gt_args g') = total_remaining_bytes (gt_args g)"
  using assms
proof (rule reclaim_all_buffers.raw_induct [rotated])
  fix f :: "nic \<Rightarrow> 'a gen_tx \<Rightarrow> 'a gen_tx option" and nic g y
  assume IH: "\<And>nic g y. f nic g = Some y \<Longrightarrow> same_open g y \<and> total_remaining_bytes (gt_args y) = total_remaining_bytes (gt_args g)"
    and run: "(if transmissions_pending (gt_args g) \<noteq> 0 then Option.bind (collect_completions nic g) (f nic) else Some g) = Some y"
  then show "same_open g y \<and> total_remaining_bytes (gt_args y) = total_remaining_bytes (gt_args g)"
    by (auto simp: bind_eq_Some_conv same_open_def dest!: collect_keeps IH split: if_splits)
qed

section \<open>The program\<close>

text \<open>
  \<^verbatim>\<open>main\<close> up to the threads. \<open>trace\<close> is what libpcap makes of the file: \<open>None\<close> when it cannot be opened,
  otherwise the packets it can read and whether it reaches the end of the file.
\<close>

definition gen_prepare :: "(u64 \<Rightarrow> u64) \<Rightarrow> (u64 \<Rightarrow> u8) \<Rightarrow> (nat \<Rightarrow> page_calls) \<Rightarrow> cmd_opt list \<Rightarrow> string list \<Rightarrow>
    (string \<Rightarrow> (u8 list list \<times> bool) option) \<Rightarrow> os \<Rightarrow> (int + parsed_args_t \<times> u16 option \<times> EnsoPipe list \<times> (u64 \<times> u64 \<times> u64) \<times> os) option" where
  "gen_prepare v2p fresh pc opts args trace s =
     (case parse_args opts args of
        Inl ret \<Rightarrow> Some (Inl (if ret = 1 then 0 else 1))
      | Inr a \<Rightarrow>
          (case gen_bdf a of
             Inl e \<Rightarrow> Some (Inl e)
           | Inr bdf \<Rightarrow>
               (case trace (pa_pcap_file a) of
                  None \<Rightarrow> Some (Inl 2)
                | Some (ps, complete) \<Rightarrow>
                    (case handle_pkts v2p fresh pc ps (ctx_init s) of
                       Inl e \<Rightarrow> Some (Inl e)
                     | Inr ctx \<Rightarrow>
                         if pcap_break ctx \<or> \<not> complete then Some (Inl 3)
                         else
                           Option.bind (repeat_small (enso_pipes ctx)) (\<lambda>pipes.
                             map_option (\<lambda>plan. Inr (a, bdf, pipes, plan, ctx_os ctx)) (bytes_to_send (pa_nb_pkts a) pipes))))))"

text \<open>
  The whole program with \<^verbatim>\<open>--single-core\<close>: \<open>Inl\<close> is an early exit, which leaves the pages to the operating
  system, \<open>Inr\<close> the exit code of a complete run and the state of the operating system.
\<close>

definition gen_single_main :: "'b machine \<Rightarrow> 'b world \<Rightarrow> u8 \<Rightarrow> (u64 \<Rightarrow> u64) \<Rightarrow> (u64 \<Rightarrow> u8) \<Rightarrow> (nat \<Rightarrow> page_calls) \<Rightarrow> cmd_opt list \<Rightarrow>
    string list \<Rightarrow> (string \<Rightarrow> (u8 list list \<times> bool) option) \<Rightarrow> 'b sockets \<Rightarrow> (int + int \<times> os) option" where
  "gen_single_main m w junk_off v2p fresh pc opts args trace s =
     Option.bind (gen_prepare v2p fresh pc opts args trace (sk_os s)) (\<lambda>r. case r of
       Inl e \<Rightarrow> Some (Inl e)
     | Inr (a, bdf, pipes, plan, os1) \<Rightarrow>
         let s1 = (case bdf of None \<Rightarrow> s | Some x \<Rightarrow> set_bdf x s)\<lparr>sk_os := os1\<rparr> in
         Option.bind (single_thread m w pipes plan junk_off a s1) (\<lambda>r. case r of
           Inl e \<Rightarrow> Some (Inl e)
         | Inr (st, g) \<Rightarrow> Some (Inr (gen_exit a st (gt_stats g), gen_unmap pipes (sk_os (gt_socks g))))))"

definition pages_granted :: "(nat \<Rightarrow> page_calls) \<Rightarrow> bool" where
  "pages_granted pc \<longleftrightarrow> (\<forall>n. pc_open (pc n) \<and> pc_truncate (pc n) \<and> pc_lock (pc n) \<and> (\<exists>a. pc_map (pc n) = Some a \<and> a \<noteq> 0))"

lemma granted_page:
  assumes "pages_granted pc"
  obtains a s' where "gen_get_huge_page (pc n) path sz s = (a, s')" "a \<noteq> 0"
proof -
  obtain a where "pc_open (pc n)" "pc_truncate (pc n)" "pc_lock (pc n)" "pc_map (pc n) = Some a" "a \<noteq> 0"
    using assms by (auto simp: pages_granted_def)
  then show thesis by (intro that) (simp_all add: gen_get_huge_page_def Let_def)
qed

lemma handle_no_break:
  assumes "pages_granted pc" "\<not> pcap_break ctx" "handle_pkts v2p fresh pc ps ctx = Inr ctx'"
  shows "\<not> pcap_break ctx'"
  using assms(2,3)
proof (induction ps arbitrary: ctx)
  case (Cons p ps)
  have "\<not> pcap_break c" if c: "pcap_pkt_handler v2p fresh pc ((!) p) ctx = Inr c" for c
  proof -
    obtain a s' where page: "gen_get_huge_page (pc (page_id ctx)) (gen_page_path (page_id ctx)) HUGEPAGE_SIZE (ctx_os ctx) = (a, s')" "a \<noteq> 0"
      by (rule granted_page [OF assms(1)])
    show ?thesis using c Cons.prems(1) page(2) unfolding pcap_pkt_handler_def Let_def page(1) prod.case
      by (auto simp: place_last_def add_buffer_def split: if_splits)
  qed
  then show ?case using Cons by (auto split: sum.splits if_splits)
qed simp

text \<open>
  C33: Preparing a run. With options that are accepted, a trace of IPv4 packets that can be read to its end and
  memory, the preparation ends with the trace, a whole number of times, in the buffers; only an empty trace
  together with \<^verbatim>\<open>--count\<close> divides by zero.
\<close>

theorem generator_prepares:
  assumes "parse_args opts args = Inr a" "gen_bdf a = Inr bdf" "trace (pa_pcap_file a) = Some (ps, True)"
    and "\<forall>p \<in> set ps. pkt_ok p" "length ps < 2 ^ 64" "pages_granted pc"
  shows "if ps = [] \<and> 0 < pa_nb_pkts a then gen_prepare v2p fresh pc opts args trace s = None
    else \<exists>pipes plan s1 fss fs k. gen_prepare v2p fresh pc opts args trace s = Some (Inr (a, bdf, pipes, plan, s1)) \<and>
      list_all2 holds pipes fss \<and> [] \<notin> set fss \<and> 0 < k \<and> concat fss = concat (replicate k fs) \<and> list_all2 carries ps fs"
proof -
  obtain ctx fs pipes fss k where c: "handle_pkts v2p fresh pc ps (ctx_init s) = Inr ctx" "\<not> pcap_break ctx" "list_all2 carries ps fs"
    "repeat_small (enso_pipes ctx) = Some pipes" "list_all2 holds pipes fss" "[] \<notin> set fss" "0 < k"
    "concat fss = concat (replicate k fs)" "length (concat fss) \<le> max 2048 (length ps)"
    by (rule trace_in_buffers [OF assms(4), of v2p fresh pc s])
      (use handle_no_break [OF assms(6), of "ctx_init s" v2p fresh ps] in \<open>auto simp: ctx_init_def\<close>)
  have len: "length fs = length ps" using c(3) by (simp add: list_all2_lengthD)
  have run: "gen_prepare v2p fresh pc opts args trace s = map_option (\<lambda>plan. Inr (a, bdf, pipes, plan, ctx_os ctx)) (bytes_to_send (pa_nb_pkts a) pipes)"
    using assms(1-3) c(1,2,4) by (simp add: gen_prepare_def)
  have "length (concat fss) < 2 ^ 64" using c(9) assms(5) by (simp add: max_def split: if_splits)
  then have un: "unat (of_nat (length (concat fss)) :: u64) = length (concat fss)" by (simp add: unat_of_nat_small)
  have "length (concat fss) = 0 \<longleftrightarrow> ps = []" using c(7,8) len by auto
  then have zero: "(of_nat (length (concat fss)) :: u64) = 0 \<longleftrightarrow> ps = []" using un by (simp add: word_unat_eq_iff)
  have "bytes_to_send (pa_nb_pkts a) pipes = None \<longleftrightarrow> ps = [] \<and> 0 < pa_nb_pkts a"
    unfolding bytes_to_send_def Let_def sum_counts(1) [OF c(5)] zero by (auto split: prod.split)
  then show ?thesis
    using run c(3,5-8) by (cases "bytes_to_send (pa_nb_pkts a) pipes") auto
qed

theorem generator_prepares_witness:
  "\<exists>a pipes plan s1. gen_prepare id (\<lambda>_. 0) (\<lambda>_. gen_pages 0) [] [''trace.pcap'', ''1'', ''2''] (\<lambda>_. Some ([pkt64], True)) os_empty =
     Some (Inr (a, None, pipes, plan, s1)) \<and> pa_rate_den a = 2 \<and> pipes \<noteq> []"
proof -
  obtain a where a: "parse_args [] [''trace.pcap'', ''1'', ''2''] = Inr a" "gen_bdf a = Inr None" "pa_rate_den a = 2"
    by (simp add: parse_args_def args_default_def atoi_def is_digit_def gen_bdf_def Let_def)
  have "pages_granted (\<lambda>_. gen_pages 0)" by (simp add: pages_granted_def gen_pages_def HUGEPAGE_SIZE_def)
  with generator_prepares [OF a(1,2), of "\<lambda>_. Some ([pkt64], True)" "[pkt64]" "\<lambda>_. gen_pages 0" id "\<lambda>_. 0" os_empty]
  obtain pipes plan s1 fss fs k where p: "gen_prepare id (\<lambda>_. 0) (\<lambda>_. gen_pages 0) [] [''trace.pcap'', ''1'', ''2''] (\<lambda>_. Some ([pkt64], True)) os_empty =
      Some (Inr (a, None, pipes, plan, s1))" "list_all2 holds pipes fss" "0 < k" "concat fss = concat (replicate k fs)" "list_all2 carries [pkt64] fs"
    using pkt64_ok by auto
  have "concat fss \<noteq> []" using p(3-5) by (cases k) auto
  then have "pipes \<noteq> []" using p(2) by auto
  with p(1) a(3) show ?thesis by blast
qed

end
