(* ===== verification/Spec2Isabelle.thy ===== *)
theory Spec2Isabelle
  imports Notif_Rx Tx_Completions Drv_Ownership Drv_Access Drv_Setup Ipc_Queue Enso_Config Soft_Backend Enso_Fpga Fpga_Regs Enso_Control Enso_Sockets Echo_App Mem_Copy Gen_Threads
begin

text \<open>
  Enso: a verification library for the software of a streaming interface between a NIC and applications.

  \<^bold>\<open>The program.\<close> An application links the library \<^verbatim>\<open>software/src/enso\<close> with the public header
  \<^verbatim>\<open>software/include/enso/pipe.h\<close>. A \<^verbatim>\<open>Device\<close> owns one notification buffer, shared with the NIC, and
  the pipes of the application. For received data the NIC fills the circular buffer of an RX pipe and posts
  a notification with the new tail; for transmissions the library posts notifications that point into the
  buffer of a TX pipe and the NIC clears them one by one. An RX/TX pipe transmits from the buffer it
  received into. Below the pipes, \<^verbatim>\<open>software/src/pcie.cpp\<close> drives the notification buffer and
  \<^verbatim>\<open>config.cpp\<close> sends configuration messages through it. Identifiers of notification buffers and pipes
  come from a backend with the interface \<^verbatim>\<open>DevBackend\<close>: the FPGA backend makes system calls on the kernel
  driver \<^verbatim>\<open>software/kernel/linux\<close>, which is shared by all processes; the software backend exchanges
  messages with another process over a shared-memory queue, \<^verbatim>\<open>software/include/enso/queue.h\<close>.

  \<^bold>\<open>The theories, from the bottom up.\<close>

  \<^item> \<open>Enso_Prelude\<close>: slices and distances in rings (the ring lemmas carry most proofs about circular buffers),
    word arithmetic, the locale \<open>ring_index\<close> for indices reduced modulo a power of two, bit vectors in byte
    arrays. \<open>Enso_Types\<close>: \<^verbatim>\<open>consts.h\<close> and \<^verbatim>\<open>internals.h\<close>. \<open>Mem_Copy\<close>: \<^verbatim>\<open>memcpy_64_align\<close>.
  \<^item> \<open>Notif_Rx\<close>: the receive path of \<^verbatim>\<open>pcie.cpp\<close> (\<^verbatim>\<open>get_new_tails\<close> to \<^verbatim>\<open>prefetch_pipe\<close>). An execution
    interleaves the NIC posting notifications with library calls; identifiers come out once and in order.
  \<^item> \<open>Notif_Tx\<close>, \<open>Tx_Completions\<close>, \<open>Tx_Backlog\<close>: the transmit path (\<^verbatim>\<open>send_to_queue\<close>, \<^verbatim>\<open>update_tx_head\<close>,
    \<^verbatim>\<open>get_unreported_completions\<close>, \<^verbatim>\<open>send_config\<close>): splitting of transmissions, exact completion counts,
    blocking calls that return, and how many transmissions may be pending.
  \<^item> \<open>Drv_State\<close>, \<open>Drv_Bitmap\<close>, \<open>Drv_Alloc\<close>, \<open>Drv_Dma\<close>, \<open>Drv_Ioctl\<close>, \<open>Drv_Files\<close>, \<open>Drv_Ownership\<close>,
    \<open>Drv_Access\<close>, \<open>Drv_Setup\<close>: the kernel driver. Structures and semaphore; searches in the status bit vectors
    as locales; allocation and release; DMA descriptor queues; the remaining ioctl handlers; open, close and
    dispatch; executions of several processes with the ownership invariant; reading, writing, seeking and
    mapping; probe, remove and loading of the module.
  \<^item> \<open>Ipc_Queue\<close>: the shared-memory queue, as operations on a list and as single memory accesses of a producer
    and a consumer that interleave.
  \<^item> \<open>Dev_Backend\<close> (the interface, as a record of operations), \<open>Soft_Backend\<close>, \<open>Fpga_Backend\<close> (the two
    implementations), \<open>Fpga_Regs\<close> (register and block accesses of the latter), \<open>Enso_Config\<close> (\<^verbatim>\<open>config.cpp\<close>), \<open>Huge_Pages\<close> (\<^verbatim>\<open>ixy_helpers.cpp\<close>), \<open>Pcie_Init\<close>
    (set-up and teardown in \<^verbatim>\<open>pcie.cpp\<close>).
  \<^item> \<open>Enso_Pipes\<close> (data path of the pipe API), \<open>Enso_Accounting\<close> (its invariants), \<open>Enso_Alloc\<close> (creation and
    destruction), \<open>Enso_Device\<close>, \<open>Enso_Runs\<close> (the states an application can reach over any backend),
    \<open>Enso_Control\<close> (binding and configuration), \<open>Enso_Fpga\<close> (the API over the FPGA backend over the driver),
    \<open>Pkt_Batch\<close> (packet batches and iterators), \<open>Echo_App\<close> (loops over batches, the echo server),
    \<open>Enso_Sockets\<close> (the socket-like API, \<^verbatim>\<open>socket.cpp\<close>, with its table of sockets and one notification
    buffer per core).
  \<^item> \<open>Gen_Buffers\<close>, \<open>Gen_Traffic\<close>, \<open>Gen_Receive\<close>, \<open>Gen_Main\<close>, \<open>Gen_Threads\<close>: the packet generator
    \<^verbatim>\<open>examples/ensogen.cpp\<close>, a client of the socket API: reading a trace into buffers and planning the bytes to
    send; the transmitting loop; receiving and round-trip times; options and the pages at the end; the two
    threads, the single thread, and \<^verbatim>\<open>main\<close> around them.

  \<^bold>\<open>How code is translated.\<close> Structures are records with the source's fields, unsigned integers are words of
  their width, so wrap-around is that of the machine; ring positions are reduced as in the source. C arrays
  are functions from indices and every index that another party supplies is checked in the model. State is
  passed explicitly. A driver call returns an error or a value; \<open>None\<close> in an option is a call that never
  returns, follows a null pointer or leaves an array. Loops over fixed ranges are recursive functions; loops
  that wait for the NIC or another process are \<^theory_text>\<open>partial_function (option)\<close>, without fuel, and that they end is
  proved. Values of uninitialised memory and answers of the operating system are arguments. The default
  build is modelled: assertions compiled out, latency optimisation on, DMA version 4, all BARs of type BAM.

  \<^bold>\<open>Interfaces.\<close> \<open>ring_index\<close> (interpreted on both ring sizes and the page), \<open>id_pool\<close> (the status bit vectors of the
  driver: notification buffers, pipes, fallback pipes), \<open>tx_poller\<close> (the polling loops of the transmit path),
  \<open>fifo\<close> (the queue of \<open>Ipc_Queue\<close> as a bounded list),
  \<open>pipe_provider\<close> (what the library needs when it asks a backend for pipes; interpreted on the FPGA backend
  over every reachable state of the driver) and \<open>pkt_handler\<close> (what a loop over a batch needs of its body;
  interpreted on the body of the echo server) are locales; the properties use the interpretations.

  \<^bold>\<open>What is shown.\<close>
  Receive path: order and exactness of delivered identifiers, progress, the region a receive returns, and
  packet loops that handle every packet once, also across the end of the buffer. Sockets: a receive copies the
  announced bytes and no others, and shutting a socket down undoes opening it up to half of each mapping.
  Transmit path: requests cover the buffer exactly, completions are reported exactly once and only after the
  NIC took all of a transmission, blocking calls return, buffer space is accounted for in every reachable
  state, an RX/TX pipe frees only what was transmitted, and the echo server transmits what it received.
  Driver: one owner per pipe in every execution of any number of processes, nothing left after the last close,
  exact reads and writes through legal bus transactions, DMA queues, undoing of failed probes, and a pipe
  allocated through all layers belongs to the caller alone, and a register written through all layers is read
  with the value written.
  Queue and software backend: refinement of a bounded list, first-in first-out under every interleaving, answers
  that belong to the request, registers that keep their value. Configuration messages can be decoded by the
  receiver; the fallback mask equals its specification.
  Packet generator: exactly the requested packets of the repeated trace are sent, in order, and its loops end;
  received packets are counted exactly; after the NIC falls silent the receiving loop ends, through its counter
  of 2^28 empty turns; the huge pages of the trace are all given back; accepted options are well formed.
  The flaws that the models exposed are theorems too: lost completions, semaphores that are kept or admit two
  processes, races, leaks on error paths, an out-of-range mapping, a counter of sockets that drops below zero.

  \<^bold>\<open>Hypotheses on code outside the repository's software.\<close> \<open>nic_consumes\<close>: the NIC only clears signals of published
  notifications; \<open>nic_fair\<close>: it clears each of them eventually; the receive-side rule of \<open>rx_reachable\<close>: it posts
  only into consumed slots and for existing queues; \<open>rx_room\<close>: it fills only freed space. \<open>pages_new\<close>, \<open>pages_fresh\<close>,
  \<open>pages_granted\<close> and \<open>same_offset\<close>: the operating system maps huge pages at aligned addresses that are not in
  use, and physical addresses keep the offset inside a page. A backend is any record
  of operations where its implementation does not matter. Each property with such a hypothesis has a witness
  with concrete functions, for example \<open>nic_eager\<close>, a NIC that consumes at once.

  \<^bold>\<open>Not modelled.\<close> The event thread, which makes up events; printing, statistics and thread affinity in \<^verbatim>\<open>helpers.cpp\<close>; the
  other example programs, which vary the loop of \<^verbatim>\<open>echo.cpp\<close>; of the packet generator the periodic statistics
  and the files it writes, which are floating-point arithmetic and output, libpcap and \<^verbatim>\<open>getopt_long\<close>, whose
  results are arguments, and the interleaving of its two threads, each of which runs in a \<open>world\<close> that stands
  for the other; the hardware design and the Python front end. Memory ordering of weakly ordered processors
  is out of scope: accesses take effect in program order. The contents of packet buffers are modelled where a
  property depends on them, in \<open>Pkt_Batch\<close>, \<open>Mem_Copy\<close>, the sockets and the packet generator.

  \<^bold>\<open>Further work.\<close> Executions of the library and the driver together in which several applications run, and the
  other example programs.
\<close>

end
